(* ===== verification/Dodb_Prelude.thy ===== *)
theory Dodb_Prelude
  imports Main "HOL-Library.Word" "HOL-Library.List_Lexorder"
begin

text \<open>
  Shared vocabulary of the development: the machine integers of the Rust code, byte strings
  with slices and in-place copies, the little- and big-endian codecs of the standard library,
  checked arithmetic, and the result type with its bind. The lemma collections
  \<open>result_iff\<close> (inversion of a successful result) and \<open>bytes_simps\<close> (lengths and slices of
  assembled byte strings) carry most proofs about codecs.
\<close>

named_theorems result_iff \<open>inversion rules for successful results\<close>
named_theorems bytes_simps \<open>lengths and slices of byte strings\<close>

section \<open>Machine integers and byte strings\<close>

type_synonym byte = "8 word"
type_synonym u16 = "16 word"
type_synonym u32 = "32 word"
type_synonym u64 = "64 word"
type_synonym bytes = "byte list"

text \<open>
  Lengths and indices (Rust \<open>usize\<close> on a 64-bit target) are natural numbers; where the code
  uses a checked or saturating operation, the bound is written out.
\<close>

definition usize_max :: nat where
  "usize_max = 2 ^ 64 - 1"

definition checked_add_usize :: "nat \<Rightarrow> nat \<Rightarrow> nat option" where
  "checked_add_usize a b = (if a + b \<le> usize_max then Some (a + b) else None)"

definition checked_mul_usize :: "nat \<Rightarrow> nat \<Rightarrow> nat option" where
  "checked_mul_usize a b = (if a * b \<le> usize_max then Some (a * b) else None)"

definition saturating_add_usize :: "nat \<Rightarrow> nat \<Rightarrow> nat" where
  "saturating_add_usize a b = min (a + b) usize_max"

definition checked_add_u64 :: "u64 \<Rightarrow> u64 \<Rightarrow> u64 option" where
  "checked_add_u64 a b = (if unat a + unat b < 2 ^ 64 then Some (a + b) else None)"

definition checked_mul_u64 :: "u64 \<Rightarrow> u64 \<Rightarrow> u64 option" where
  "checked_mul_u64 a b = (if unat a * unat b < 2 ^ 64 then Some (a * b) else None)"

lemma unat_bound: "unat (w :: 'a::len word) < 2 ^ LENGTH('a)"
  by (rule unsigned_less)

lemma unat_of_nat_u16: "n \<le> 65535 \<Longrightarrow> unat (of_nat n :: u16) = n"
  by (simp add: unat_of_nat)

lemma unat_of_nat_u64: "n \<le> usize_max \<Longrightarrow> unat (of_nat n :: u64) = n"
  by (simp add: unat_of_nat usize_max_def)

lemma unat_of_nat_u32: "n < 2 ^ 32 \<Longrightarrow> unat (of_nat n :: u32) = n"
  by (simp add: unat_of_nat)

lemma checked_add_u64_Some:
  "checked_add_u64 a b = Some c \<longleftrightarrow> unat a + unat b < 2 ^ 64 \<and> unat c = unat a + unat b"
proof (cases "unat a + unat b < 2 ^ 64")
  case True
  then have sum: "unat (a + b) = unat a + unat b"
    using unat_add_lem [of a b] by simp
  have "(a + b = c) = (unat (a + b) = unat c)"
    by (rule word_unat_eq_iff)
  then show ?thesis
    using True by (simp add: checked_add_u64_def sum eq_commute)
qed (simp add: checked_add_u64_def)

lemma checked_add_u64_less: "checked_add_u64 a 1 = Some c \<Longrightarrow> a < c"
  by (simp add: checked_add_u64_Some word_less_nat_alt)

section \<open>Results\<close>

text \<open>Rust's \<open>Result\<close> as a sum; \<open>rbind\<close> is the \<open>?\<close> operator.\<close>

definition rbind :: "'e + 'a \<Rightarrow> ('a \<Rightarrow> 'e + 'b) \<Rightarrow> 'e + 'b" where
  "rbind m f = (case m of Inl e \<Rightarrow> Inl e | Inr x \<Rightarrow> f x)"

definition ensure :: "bool \<Rightarrow> 'e \<Rightarrow> 'e + unit" where
  "ensure P e = (if P then Inr () else Inl e)"

definition ok_or :: "'a option \<Rightarrow> 'e \<Rightarrow> 'e + 'a" where
  "ok_or x e = (case x of None \<Rightarrow> Inl e | Some v \<Rightarrow> Inr v)"

definition map_err :: "('e \<Rightarrow> 'f) \<Rightarrow> 'e + 'a \<Rightarrow> 'f + 'a" where
  "map_err g m = (case m of Inl e \<Rightarrow> Inl (g e) | Inr x \<Rightarrow> Inr x)"

definition is_ok :: "'e + 'a \<Rightarrow> bool" where
  "is_ok m = (case m of Inl _ \<Rightarrow> False | Inr _ \<Rightarrow> True)"

text \<open>Running a fallible function over a list, stopping at the first error.\<close>

fun rmap :: "('a \<Rightarrow> 'e + 'b) \<Rightarrow> 'a list \<Rightarrow> 'e + 'b list" where
  "rmap f [] = Inr []"
| "rmap f (x # xs) = rbind (f x) (\<lambda>y. rbind (rmap f xs) (\<lambda>ys. Inr (y # ys)))"

lemma rbind_simps [simp]:
  "rbind (Inr x) f = f x"
  "rbind (Inl e) f = Inl e"
  by (simp_all add: rbind_def)

lemma ensure_simps [simp]:
  "ensure True e = Inr ()"
  "ensure False e = Inl e"
  by (simp_all add: ensure_def)

lemma ok_or_simps [simp]:
  "ok_or (Some v) e = Inr v"
  "ok_or None e = Inl e"
  by (simp_all add: ok_or_def)

lemma map_err_simps [simp]:
  "map_err g (Inr x) = Inr x"
  "map_err g (Inl e) = Inl (g e)"
  by (simp_all add: map_err_def)

lemma is_ok_simps [simp]:
  "is_ok (Inr x)"
  "\<not> is_ok (Inl e)"
  by (simp_all add: is_ok_def)

lemma is_ok_iff: "is_ok m \<longleftrightarrow> (\<exists>x. m = Inr x)"
  by (cases m) auto

lemma rbind_Inr_iff [result_iff]:
  "rbind m f = Inr y \<longleftrightarrow> (\<exists>x. m = Inr x \<and> f x = Inr y)"
  by (cases m) auto

lemma rbind_Inl_iff:
  "rbind m f = Inl e \<longleftrightarrow> m = Inl e \<or> (\<exists>x. m = Inr x \<and> f x = Inl e)"
  by (cases m) auto

lemma ensure_Inr_iff [result_iff]: "ensure P e = Inr u \<longleftrightarrow> P"
  by (simp add: ensure_def)

lemma ensure_Inl_iff: "ensure P e = Inl e' \<longleftrightarrow> \<not> P \<and> e' = e"
  by (auto simp: ensure_def)

lemma ok_or_Inr_iff [result_iff]: "ok_or x e = Inr v \<longleftrightarrow> x = Some v"
  by (cases x) auto

lemma map_err_Inr_iff [result_iff]: "map_err g m = Inr v \<longleftrightarrow> m = Inr v"
  by (cases m) auto

lemma rmap_length: "rmap f xs = Inr ys \<Longrightarrow> length ys = length xs"
  by (induction xs arbitrary: ys) (auto simp: result_iff)

lemma rmap_Inr: "(\<And>x. x \<in> set xs \<Longrightarrow> f x = Inr (g x)) \<Longrightarrow> rmap f xs = Inr (map g xs)"
  by (induction xs) simp_all

lemma drop_eq_Cons: "drop i xs = y # ys \<Longrightarrow> i < length xs \<and> y = xs ! i \<and> ys = drop (Suc i) xs"
  by (metis Cons_nth_drop_Suc drop_all list.inject list.simps(3) not_le)

section \<open>Stateful operations\<close>

text \<open>An operation that may fail takes its state last and returns the state it leaves behind
  on success and on failure alike; \<open>sbind\<close> is the \<open>?\<close> operator on such operations.\<close>

type_synonym ('s, 'e, 'a) sop = "'s \<Rightarrow> ('e + 'a) \<times> 's"

definition sret :: "'a \<Rightarrow> ('s, 'e, 'a) sop" where
  "sret x = (\<lambda>s. (Inr x, s))"

definition sfail :: "'e \<Rightarrow> ('s, 'e, 'a) sop" where
  "sfail e = (\<lambda>s. (Inl e, s))"

definition sres :: "'e + 'a \<Rightarrow> ('s, 'e, 'a) sop" where
  "sres r = (\<lambda>s. (r, s))"

definition sget :: "('s \<Rightarrow> 'e + 'a) \<Rightarrow> ('s, 'e, 'a) sop" where
  "sget f = (\<lambda>s. (f s, s))"

definition smod :: "('s \<Rightarrow> 's) \<Rightarrow> ('s, 'e, unit) sop" where
  "smod f = (\<lambda>s. (Inr (), f s))"

definition sbind :: "('s, 'e, 'a) sop \<Rightarrow> ('a \<Rightarrow> ('s, 'e, 'b) sop) \<Rightarrow> ('s, 'e, 'b) sop" where
  "sbind m f = (\<lambda>s. case m s of (Inl e, s') \<Rightarrow> (Inl e, s') | (Inr x, s') \<Rightarrow> f x s')"

definition smap_err :: "('e \<Rightarrow> 'e) \<Rightarrow> ('s, 'e, 'a) sop \<Rightarrow> ('s, 'e, 'a) sop" where
  "smap_err g m = (\<lambda>s. case m s of (r, s') \<Rightarrow> (map_err g r, s'))"

lemma sop_simps [simp]:
  "sret x s = (Inr x, s)" "sfail e s = (Inl e, s)" "sres r s = (r, s)" "sget f s = (f s, s)"
  "smod h s = (Inr (), h s)"
  by (simp_all add: sret_def sfail_def sres_def sget_def smod_def)

lemma sbind_Inr_iff [result_iff]:
  "sbind m f s = (Inr y, s') \<longleftrightarrow> (\<exists>x s1. m s = (Inr x, s1) \<and> f x s1 = (Inr y, s'))"
  by (auto simp: sbind_def split: prod.splits sum.splits)

lemma sbind_Inl_iff:
  "sbind m f s = (Inl e, s') \<longleftrightarrow>
     m s = (Inl e, s') \<or> (\<exists>x s1. m s = (Inr x, s1) \<and> f x s1 = (Inl e, s'))"
  by (auto simp: sbind_def split: prod.splits sum.splits)

lemma sbind_assoc: "sbind (sbind m f) g = sbind m (\<lambda>x. sbind (f x) g)"
  by (rule ext) (auto simp: sbind_def split: prod.splits sum.splits)

lemma sbind_eqs:
  "m s = (Inr x, s1) \<Longrightarrow> sbind m f s = f x s1"
  "m s = (Inl e, s1) \<Longrightarrow> sbind m f s = (Inl e, s1)"
  by (simp_all add: sbind_def)

lemma smap_err_Inr_iff [result_iff]: "smap_err g m s = (Inr x, s') \<longleftrightarrow> m s = (Inr x, s')"
  by (auto simp: smap_err_def map_err_Inr_iff split: prod.splits)

lemma smap_err_Inl_iff: "smap_err g m s = (Inl e, s') \<longleftrightarrow> (\<exists>e'. m s = (Inl e', s') \<and> e = g e')"
  by (auto simp: smap_err_def map_err_def split: prod.splits sum.splits)

section \<open>Triples\<close>

text \<open>\<open>triple P m Q E\<close>: from a state in \<open>P\<close>, \<open>m\<close> either returns \<open>x\<close> in a state in \<open>Q x\<close> or fails in
  a state in \<open>E\<close>.\<close>

definition triple :: "('s \<Rightarrow> bool) \<Rightarrow> ('s, 'e, 'a) sop \<Rightarrow> ('a \<Rightarrow> 's \<Rightarrow> bool) \<Rightarrow> ('s \<Rightarrow> bool) \<Rightarrow> bool" where
  "triple P m Q E \<longleftrightarrow> (\<forall>s. P s \<longrightarrow> (case m s of (Inl e, s') \<Rightarrow> E s' | (Inr x, s') \<Rightarrow> Q x s'))"

lemma tripleI:
  "(\<And>s x s'. P s \<Longrightarrow> m s = (Inr x, s') \<Longrightarrow> Q x s') \<Longrightarrow> (\<And>s e s'. P s \<Longrightarrow> m s = (Inl e, s') \<Longrightarrow> E s') \<Longrightarrow> triple P m Q E"
  by (auto simp: triple_def split: prod.splits sum.splits)

lemma tripleD:
  assumes "triple P m Q E" and "m s = (r, s')" and "P s"
  shows "(\<forall>x. r = Inr x \<longrightarrow> Q x s') \<and> (\<forall>e. r = Inl e \<longrightarrow> E s')"
  using assms by (auto simp: triple_def)

lemma triple_weaken:
  "triple P m Q E \<Longrightarrow> (\<And>s. P' s \<Longrightarrow> P s) \<Longrightarrow> (\<And>x s. Q x s \<Longrightarrow> Q' x s) \<Longrightarrow> (\<And>s. E s \<Longrightarrow> E' s) \<Longrightarrow> triple P' m Q' E'"
  by (fastforce simp: triple_def split: prod.splits sum.splits)

lemma triple_bind:
  "triple P m R E \<Longrightarrow> (\<And>x. triple (R x) (f x) Q E) \<Longrightarrow> triple P (sbind m f) Q E"
  by (fastforce simp: triple_def sbind_def split: prod.splits sum.splits)

lemma triple_sret: "(\<And>s. P s \<Longrightarrow> Q x s) \<Longrightarrow> triple P (sret x) Q E"
  by (simp add: triple_def)

lemma triple_sres_bind:
  "(\<And>s. P s \<Longrightarrow> E s) \<Longrightarrow> (\<And>x. r = Inr x \<Longrightarrow> triple P (f x) Q E) \<Longrightarrow> triple P (sbind (sres r) f) Q E"
  by (cases r) (auto simp: triple_def sbind_def)

lemma triple_pre: "(\<And>s. P s \<Longrightarrow> A) \<Longrightarrow> (A \<Longrightarrow> triple P m Q E) \<Longrightarrow> triple P m Q E"
  by (auto simp: triple_def)

lemma triple_get_bind:
  "(\<And>s. P s \<Longrightarrow> E s) \<Longrightarrow> (\<And>x. triple (\<lambda>s. P s \<and> g s = Inr x) (f x) Q E) \<Longrightarrow> triple P (sbind (sget g) f) Q E"
  by (force simp: triple_def sbind_def split: sum.splits)

lemma triple_get_known: "(\<And>s. P s \<Longrightarrow> g s = Inr x) \<Longrightarrow> triple P (f x) Q E \<Longrightarrow> triple P (sbind (sget g) f) Q E"
  by (force simp: triple_def sbind_def)

lemma triple_ex: "(\<And>x. triple (P x) m Q E) \<Longrightarrow> triple (\<lambda>s. \<exists>x. P x s) m Q E"
  by (rule tripleI) (blast dest: tripleD)+

lemma triple_conj: "(A \<Longrightarrow> triple P m Q E) \<Longrightarrow> triple (\<lambda>s. A \<and> P s) m Q E"
  by (auto simp: triple_def)

section \<open>Slices and copies\<close>

text \<open>\<open>seg a b xs\<close> is \<open>xs[a..b]\<close>; \<open>blit off src dst\<close> is
  \<open>dst[off..off + src.len()].copy_from_slice(src)\<close>.\<close>

definition seg :: "nat \<Rightarrow> nat \<Rightarrow> 'a list \<Rightarrow> 'a list" where
  "seg a b xs = take (b - a) (drop a xs)"

definition blit :: "nat \<Rightarrow> 'a list \<Rightarrow> 'a list \<Rightarrow> 'a list" where
  "blit off src dst = take off dst @ src @ drop (off + length src) dst"

definition zeros :: "nat \<Rightarrow> bytes" where
  "zeros n = replicate n 0"

lemma length_seg [bytes_simps]: "length (seg a b xs) = min (b - a) (length xs - a)"
  by (simp add: seg_def)

lemma length_blit [bytes_simps]:
  "off + length src \<le> length dst \<Longrightarrow> length (blit off src dst) = length dst"
  by (simp add: blit_def)

lemma length_zeros [bytes_simps]: "length (zeros n) = n"
  by (simp add: zeros_def)

lemma seg_all [simp]: "length xs \<le> b \<Longrightarrow> seg 0 b xs = xs"
  by (simp add: seg_def)

lemma seg_empty [simp]: "b \<le> a \<Longrightarrow> seg a b xs = []"
  by (simp add: seg_def)

lemma nth_seg: "i < b - a \<Longrightarrow> a + i < length xs \<Longrightarrow> seg a b xs ! i = xs ! (a + i)"
  by (simp add: seg_def)

lemma nth_blit:
  assumes "off + length src \<le> length dst" and "i < length dst"
  shows "blit off src dst ! i =
    (if off \<le> i \<and> i < off + length src then src ! (i - off) else dst ! i)"
proof -
  have off: "min (length dst) off = off" using assms(1) by simp
  consider "i < off" | "off \<le> i" "i < off + length src" | "off + length src \<le> i"
    by linarith
  then show ?thesis
  proof cases
    case 1
    then show ?thesis using assms by (simp add: blit_def nth_append off)
  next
    case 2
    then have "i - off < length src" by linarith
    with 2 show ?thesis using assms by (simp add: blit_def nth_append off)
  next
    case 3
    then have "i - off \<ge> length src" by linarith
    with 3 show ?thesis using assms by (simp add: blit_def nth_append off)
  qed
qed

lemma seg_blit_same [bytes_simps]:
  "off + length src \<le> length dst \<Longrightarrow> a = off \<Longrightarrow> b = off + length src \<Longrightarrow>
   seg a b (blit off src dst) = src"
  by (simp add: seg_def blit_def)

lemma seg_blit_below [bytes_simps]:
  assumes "off + length src \<le> length dst" "b \<le> off"
  shows "seg a b (blit off src dst) = seg a b dst"
  by (rule nth_equalityI) (use assms in \<open>auto simp: length_seg length_blit nth_seg nth_blit\<close>)

lemma seg_blit_above [bytes_simps]:
  assumes "off + length src \<le> length dst" "off + length src \<le> a"
  shows "seg a b (blit off src dst) = seg a b dst"
  by (rule nth_equalityI) (use assms in \<open>auto simp: length_seg length_blit nth_seg nth_blit\<close>)

text \<open>A sequence of copies into one buffer, in program order. A reader of \<open>seg a b\<close> skips the
  copies that do not touch it.\<close>

definition blits :: "(nat \<times> 'a list) list \<Rightarrow> 'a list \<Rightarrow> 'a list" where
  "blits ws dst = fold (\<lambda>(off, src) acc. blit off src acc) ws dst"

fun fits :: "(nat \<times> 'a list) list \<Rightarrow> nat \<Rightarrow> bool" where
  "fits [] n = True"
| "fits ((off, src) # ws) n = (off + length src \<le> n \<and> fits ws n)"

fun clear :: "(nat \<times> 'a list) list \<Rightarrow> nat \<Rightarrow> nat \<Rightarrow> bool" where
  "clear [] a b = True"
| "clear ((off, src) # ws) a b = ((b \<le> off \<or> off + length src \<le> a) \<and> clear ws a b)"

lemma blits_simps [simp]:
  "blits [] dst = dst"
  "blits ((off, src) # ws) dst = blits ws (blit off src dst)"
  by (simp_all add: blits_def)

lemma length_blits [bytes_simps]: "fits ws (length dst) \<Longrightarrow> length (blits ws dst) = length dst"
  by (induction ws arbitrary: dst) (auto simp: length_blit)

lemma seg_blits_clear:
  "fits ws (length dst) \<Longrightarrow> clear ws a b \<Longrightarrow> seg a b (blits ws dst) = seg a b dst"
proof (induction ws arbitrary: dst)
  case (Cons w ws)
  obtain off src where w: "w = (off, src)" by force
  have "length (blit off src dst) = length dst" using Cons.prems by (simp add: w length_blit)
  moreover have "seg a b (blit off src dst) = seg a b dst"
    using Cons.prems by (auto simp: w seg_blit_below seg_blit_above)
  ultimately show ?case using Cons by (simp add: w)
qed simp

lemma seg_blits_cong:
  "fits ws (length x) \<Longrightarrow> length x = length y \<Longrightarrow> seg a b x = seg a b y \<Longrightarrow> b \<le> length x \<Longrightarrow>
   seg a b (blits ws x) = seg a b (blits ws y)"
proof (induction ws arbitrary: x y)
  case (Cons w ws)
  obtain off src where w: "w = (off, src)" by force
  have fit: "off + length src \<le> length x" using Cons.prems by (simp add: w)
  have len: "length (blit off src x) = length x" "length (blit off src y) = length x"
    using fit Cons.prems by (simp_all add: length_blit)
  have "x ! (a + i) = y ! (a + i)" if "i < b - a" for i
  proof -
    have "a + i < length x" "a + i < length y" using that Cons.prems(2,4) by linarith+
    with that Cons.prems(3) show ?thesis by (metis nth_seg)
  qed
  then have "seg a b (blit off src x) = seg a b (blit off src y)"
    using fit len Cons.prems(2,4)
    by (intro nth_equalityI) (auto simp: length_seg nth_seg nth_blit)
  then show ?case using Cons len by (simp add: w)
qed simp

lemma seg_blits_skip [bytes_simps]:
  "b \<le> off \<or> off + length src \<le> a \<Longrightarrow> b \<le> length dst \<Longrightarrow> fits ((off, src) # ws) (length dst) \<Longrightarrow>
   seg a b (blits ((off, src) # ws) dst) = seg a b (blits ws dst)"
  by (auto simp: length_blit seg_blit_below seg_blit_above intro!: seg_blits_cong)

lemma seg_blits_hit [bytes_simps]:
  "a = off \<Longrightarrow> b = off + length src \<Longrightarrow> clear ws a b \<Longrightarrow> fits ((off, src) # ws) (length dst) \<Longrightarrow>
   seg a b (blits ((off, src) # ws) dst) = src"
  by (simp add: seg_blits_clear length_blit seg_blit_same)

declare blits_simps(2) [simp del]

lemma seg_zeros [bytes_simps]: "b \<le> n \<Longrightarrow> seg a b (zeros n) = zeros (b - a)"
  by (rule nth_equalityI) (auto simp: length_seg length_zeros nth_seg zeros_def)

lemma seg_append_left [bytes_simps]:
  "b \<le> length xs \<Longrightarrow> seg a b (xs @ ys) = seg a b xs"
  by (simp add: seg_def)

lemma seg_append_right [bytes_simps]:
  "length xs \<le> a \<Longrightarrow> seg a b (xs @ ys) = seg (a - length xs) (b - length xs) ys"
  by (simp add: seg_def)

lemma seg_seg:
  assumes "b' \<le> b - a"
  shows "seg a' b' (seg a b xs) = seg (a + a') (a + b') xs"
proof -
  have "min (b' - a') (b - a - a') = b' - a'" using assms by simp
  then show ?thesis by (simp add: seg_def drop_take add.commute)
qed

lemma blit_seg [simp]:
  assumes "off + length src \<le> length dst" "seg off (off + length src) dst = src"
  shows "blit off src dst = dst"
proof -
  have "src @ drop (length src) (drop off dst) = drop off dst"
    using assms(2) append_take_drop_id [of "length src" "drop off dst"] by (simp add: seg_def)
  then show ?thesis
    by (simp add: blit_def add.commute)
qed

lemma take_take_seg: "take a xs @ take k (seg a b xs) = take (a + min k (b - a)) xs"
  by (simp add: seg_def take_add)

lemma take_seg_next: "a \<le> b \<Longrightarrow> take a xs @ seg a b xs = take b xs"
  by (simp add: seg_def flip: take_add)

lemma seg_take: "b \<le> n \<Longrightarrow> seg a b (take n xs) = seg a b xs"
  by (simp add: seg_def drop_take min_def diff_le_mono)

lemma blit_end: "blit (length v) bs v = v @ bs"
  by (simp add: blit_def)

lemma split_at_seg: "a \<le> b \<Longrightarrow> seg a b xs @ drop b xs = drop a xs"
  using append_take_drop_id [of "b - a" "drop a xs"] by (simp add: seg_def)

lemma drop_blit [bytes_simps]:
  "off + length src \<le> length dst \<Longrightarrow> off + length src \<le> a \<Longrightarrow> drop a (blit off src dst) = drop a dst"
  by (simp add: blit_def)

text \<open>Two buffers that agree between consecutive cut points are equal.\<close>

fun cuts_eq :: "nat list \<Rightarrow> 'a list \<Rightarrow> 'a list \<Rightarrow> bool" where
  "cuts_eq [] xs ys = (xs = ys)"
| "cuts_eq [a] xs ys = (drop a xs = drop a ys)"
| "cuts_eq (a # b # cs) xs ys = (a \<le> b \<and> seg a b xs = seg a b ys \<and> cuts_eq (b # cs) xs ys)"

lemma cuts_eq_drop: "cuts_eq (a # cs) xs ys \<Longrightarrow> drop a xs = drop a ys"
  by (induction cs arbitrary: a) (simp_all, metis split_at_seg)

lemma cuts_eqD: "cuts_eq (0 # cs) xs ys \<Longrightarrow> xs = ys"
  using cuts_eq_drop [of 0 cs xs ys] by simp

lemma seg_singleton: "i < length xs \<Longrightarrow> seg i (Suc i) xs = [xs ! i]"
  by (rule nth_equalityI) (auto simp: length_seg nth_seg)

lemma nth_eq_seg: "i < length xs \<Longrightarrow> xs ! i = hd (seg i (Suc i) xs)"
  by (simp add: seg_singleton)

lemma blit_blit_same [simp]:
  assumes "length a = length b" "off + length a \<le> length dst"
  shows "blit off a (blit off b dst) = blit off a dst"
  by (rule nth_equalityI) (use assms in \<open>auto simp: length_blit nth_blit\<close>)

text \<open>A torn overwrite: the first \<open>k\<close> bytes of the new block over the old one.\<close>

lemma seg_torn:
  assumes "length x = length y" and "seg a b x = seg a b y" and "b \<le> length x"
  shows "seg a b (take k x @ drop k y) = seg a b x"
proof (rule nth_equalityI)
  show "length (seg a b (take k x @ drop k y)) = length (seg a b x)"
    using assms(1) by (simp add: length_seg)
  fix i assume "i < length (seg a b (take k x @ drop k y))"
  then have i: "i < b - a" "a + i < length x" using assms by (auto simp: length_seg)
  then have "x ! (a + i) = y ! (a + i)" using assms by (metis nth_seg)
  with i assms(1) show "seg a b (take k x @ drop k y) ! i = seg a b x ! i"
    by (simp add: nth_seg nth_append min_def)
qed

lemma seg_drop: "length xs \<le> b \<Longrightarrow> seg a b xs = drop a xs"
  by (simp add: seg_def)

section \<open>Integer codecs\<close>

text \<open>\<open>le_bytes n x\<close> are the \<open>n\<close> low bytes of \<open>x\<close>, least significant first, and
  \<open>le_val\<close> reads them back; the \<open>to_le_bytes\<close>/\<open>from_le_bytes\<close> and
  \<open>to_be_bytes\<close>/\<open>from_be_bytes\<close> pairs of each width are instances.\<close>

fun le_bytes :: "nat \<Rightarrow> nat \<Rightarrow> bytes" where
  "le_bytes 0 x = []"
| "le_bytes (Suc n) x = of_nat (x mod 256) # le_bytes n (x div 256)"

fun le_val :: "bytes \<Rightarrow> nat" where
  "le_val [] = 0"
| "le_val (b # bs) = unat b + 256 * le_val bs"

definition to_le_u16 :: "u16 \<Rightarrow> bytes" where "to_le_u16 w = le_bytes 2 (unat w)"
definition to_le_u32 :: "u32 \<Rightarrow> bytes" where "to_le_u32 w = le_bytes 4 (unat w)"
definition to_le_u64 :: "u64 \<Rightarrow> bytes" where "to_le_u64 w = le_bytes 8 (unat w)"
definition from_le_u16 :: "bytes \<Rightarrow> u16" where "from_le_u16 bs = of_nat (le_val bs)"
definition from_le_u32 :: "bytes \<Rightarrow> u32" where "from_le_u32 bs = of_nat (le_val bs)"
definition from_le_u64 :: "bytes \<Rightarrow> u64" where "from_le_u64 bs = of_nat (le_val bs)"
definition to_be_u16 :: "u16 \<Rightarrow> bytes" where "to_be_u16 w = rev (to_le_u16 w)"
definition to_be_u32 :: "u32 \<Rightarrow> bytes" where "to_be_u32 w = rev (to_le_u32 w)"
definition to_be_u64 :: "u64 \<Rightarrow> bytes" where "to_be_u64 w = rev (to_le_u64 w)"
definition from_be_u16 :: "bytes \<Rightarrow> u16" where "from_be_u16 bs = from_le_u16 (rev bs)"
definition from_be_u32 :: "bytes \<Rightarrow> u32" where "from_be_u32 bs = from_le_u32 (rev bs)"
definition from_be_u64 :: "bytes \<Rightarrow> u64" where "from_be_u64 bs = from_le_u64 (rev bs)"

lemma length_le_bytes [simp]: "length (le_bytes n x) = n"
  by (induction n arbitrary: x) auto

lemma le_val_le_bytes: "le_val (le_bytes n x) = x mod 256 ^ n"
proof (induction n arbitrary: x)
  case (Suc n)
  have "unat (of_nat (x mod 256) :: byte) = x mod 256"
    by (simp add: unat_of_nat)
  then show ?case
    using Suc by (simp add: mod_mult2_eq)
qed simp

lemma le_val_bound: "le_val bs < 256 ^ length bs"
proof (induction bs)
  case (Cons b bs)
  have "unat b < 256" using unat_bound [of b] by simp
  with Cons show ?case by simp
qed simp

lemma le_bytes_le_val: "le_bytes (length bs) (le_val bs) = bs"
proof (induction bs)
  case (Cons b bs)
  have "unat b < 256" using unat_bound [of b] by simp
  with Cons show ?case by simp
qed simp

lemma length_to_le [bytes_simps]:
  "length (to_le_u16 a) = 2" "length (to_le_u32 b) = 4" "length (to_le_u64 c) = 8"
  by (simp_all add: to_le_u16_def to_le_u32_def to_le_u64_def)

lemma length_to_be [bytes_simps]:
  "length (to_be_u16 a) = 2" "length (to_be_u32 b) = 4" "length (to_be_u64 c) = 8"
  by (simp_all add: to_be_u16_def to_be_u32_def to_be_u64_def bytes_simps)

lemma from_to_le_u16 [simp]: "from_le_u16 (to_le_u16 w) = w"
  using unat_bound [of w] by (simp add: from_le_u16_def to_le_u16_def le_val_le_bytes)

lemma from_to_le_u32 [simp]: "from_le_u32 (to_le_u32 w) = w"
  using unat_bound [of w] by (simp add: from_le_u32_def to_le_u32_def le_val_le_bytes)

lemma from_to_le_u64 [simp]: "from_le_u64 (to_le_u64 w) = w"
  using unat_bound [of w] by (simp add: from_le_u64_def to_le_u64_def le_val_le_bytes)

lemma to_from_le_u16: "length bs = 2 \<Longrightarrow> to_le_u16 (from_le_u16 bs) = bs"
  using le_val_bound [of bs] le_bytes_le_val [of bs]
  by (simp add: to_le_u16_def from_le_u16_def unat_of_nat)

lemma to_from_le_u32: "length bs = 4 \<Longrightarrow> to_le_u32 (from_le_u32 bs) = bs"
  using le_val_bound [of bs] le_bytes_le_val [of bs]
  by (simp add: to_le_u32_def from_le_u32_def unat_of_nat)

lemma to_from_le_u64: "length bs = 8 \<Longrightarrow> to_le_u64 (from_le_u64 bs) = bs"
  using le_val_bound [of bs] le_bytes_le_val [of bs]
  by (simp add: to_le_u64_def from_le_u64_def unat_of_nat)

lemma from_to_be [simp]:
  "from_be_u16 (to_be_u16 a) = a" "from_be_u32 (to_be_u32 b) = b" "from_be_u64 (to_be_u64 c) = c"
  by (simp_all add: from_be_u16_def to_be_u16_def from_be_u32_def to_be_u32_def
      from_be_u64_def to_be_u64_def)

lemma to_from_be_u32: "length bs = 4 \<Longrightarrow> to_be_u32 (from_be_u32 bs) = bs"
  by (simp add: to_be_u32_def from_be_u32_def to_from_le_u32)

lemma to_from_be_u64: "length bs = 8 \<Longrightarrow> to_be_u64 (from_be_u64 bs) = bs"
  by (simp add: to_be_u64_def from_be_u64_def to_from_le_u64)

section \<open>Checksum fields\<close>

text \<open>A page, a superblock and a log header all carry a checksum of their own bytes, computed
  with the checksum field zeroed and then stored in it. \<open>crc\<close> is the third-party CRC32C.\<close>

type_synonym crc_fun = "bytes \<Rightarrow> u32"

definition field_checksum :: "crc_fun \<Rightarrow> nat \<Rightarrow> bytes \<Rightarrow> u32" where
  "field_checksum crc off bs = crc (blit off (zeros 4) bs)"

definition seal :: "crc_fun \<Rightarrow> nat \<Rightarrow> bytes \<Rightarrow> bytes" where
  "seal crc off bs = blit off (to_le_u32 (field_checksum crc off bs)) bs"

lemma length_seal [bytes_simps]: "off + 4 \<le> length bs \<Longrightarrow> length (seal crc off bs) = length bs"
  by (simp add: seal_def bytes_simps)

lemma checksum_seal [simp]:
  "off + 4 \<le> length bs \<Longrightarrow> field_checksum crc off (seal crc off bs) = field_checksum crc off bs"
  by (simp add: seal_def field_checksum_def bytes_simps)

lemma seg_seal_same [bytes_simps]:
  "off + 4 \<le> length bs \<Longrightarrow> a = off \<Longrightarrow> b = off + 4 \<Longrightarrow>
   seg a b (seal crc off bs) = to_le_u32 (field_checksum crc off bs)"
  by (simp add: seal_def bytes_simps)

lemma seg_seal_below [bytes_simps]:
  "off + 4 \<le> length bs \<Longrightarrow> b \<le> off \<Longrightarrow> seg a b (seal crc off bs) = seg a b bs"
  by (simp add: seal_def bytes_simps)

lemma seg_seal_above [bytes_simps]:
  "off + 4 \<le> length bs \<Longrightarrow> off + 4 \<le> a \<Longrightarrow> seg a b (seal crc off bs) = seg a b bs"
  by (simp add: seal_def bytes_simps)

section \<open>The codec interface\<close>

text \<open>An encoder that may refuse its input and a decoder that may refuse its bytes: what every
  on-disk and on-wire format of the program promises. \<open>view\<close> is what a reader gets back, the
  input itself or the input normalised (a page body padded to its full size, a checksum
  filled in). A strict codec accepts nothing but encodings.\<close>

locale byte_codec =
  fixes enc :: "'a \<Rightarrow> 'e + bytes"
    and dec :: "bytes \<Rightarrow> 'f + 'b"
    and view :: "'a \<Rightarrow> 'b"
  assumes dec_enc: "enc x = Inr bs \<Longrightarrow> dec bs = Inr (view x)"
begin

lemma same_bytes_same_view: "enc x = Inr bs \<Longrightarrow> enc y = Inr bs \<Longrightarrow> view x = view y"
  by (metis dec_enc sum.inject(2))

lemma rejected_not_encoded: "dec bs = Inl e \<Longrightarrow> enc x \<noteq> Inr bs"
  by (metis dec_enc sum.distinct(1))

lemma dec_enc_list: "rmap enc xs = Inr bss \<Longrightarrow> rmap dec bss = Inr (map view xs)"
  by (induction xs arbitrary: bss) (auto simp: result_iff dest: dec_enc)

end

locale strict_byte_codec = byte_codec +
  assumes enc_dec: "dec bs = Inr y \<Longrightarrow> \<exists>x. enc x = Inr bs \<and> view x = y"
begin

lemma accepts_iff: "(\<exists>y. dec bs = Inr y) \<longleftrightarrow> (\<exists>x. enc x = Inr bs)"
  using enc_dec dec_enc by blast

end

end
