(* ===== verification/Dodb_Key.thy ===== *)
theory Dodb_Key
  imports Dodb_Prelude
begin

text \<open>
  The document key of \<open>dodb-core/src/key.rs\<close>: a pair of byte strings compared
  lexicographically, its escaped order-preserving encoding, and the checked decoder. The
  interface \<open>ordered_codec\<close> states what the B+Tree relies on: the encoding is a canonical,
  strictly monotone embedding of keys into byte strings.
\<close>

section \<open>Keys and their order\<close>

datatype document_key = DocumentKey (pk: bytes) (sk: bytes)

text \<open>The derived \<open>Ord\<close> compares the fields in declaration order.\<close>

instantiation document_key :: linorder
begin

definition less_eq_document_key :: "document_key \<Rightarrow> document_key \<Rightarrow> bool" where
  "less_eq_document_key a b \<longleftrightarrow> pk a < pk b \<or> pk a = pk b \<and> sk a \<le> sk b"

definition less_document_key :: "document_key \<Rightarrow> document_key \<Rightarrow> bool" where
  "less_document_key a b \<longleftrightarrow> pk a < pk b \<or> pk a = pk b \<and> sk a < sk b"

instance
  by standard
    (auto simp: less_eq_document_key_def less_document_key_def intro: document_key.expand)

end

section \<open>Encoding and decoding\<close>

datatype key_codec_error =
    TruncatedEscape nat
  | InvalidEscape nat byte
  | MissingComponent nat
  | TrailingBytes nat

fun encode_component :: "bytes \<Rightarrow> bytes \<Rightarrow> bytes" where
  "encode_component [] output = output @ [0, 0]"
| "encode_component (byte # rest) output =
     encode_component rest (if byte = 0 then output @ [0, 0xff] else output @ [byte])"

definition encode :: "document_key \<Rightarrow> bytes" where
  "encode k = encode_component (sk k) (encode_component (pk k) [])"

definition encoded_component_len :: "bytes \<Rightarrow> nat" where
  "encoded_component_len bs = length bs + length (filter (\<lambda>b. b = 0) bs) + 2"

definition encoded_len :: "document_key \<Rightarrow> nat" where
  "encoded_len k = encoded_component_len (pk k) + encoded_component_len (sk k)"

text \<open>The \<open>while offset < encoded.len()\<close> loop of \<open>decode_component\<close>.\<close>

function decode_component_loop :: "bytes \<Rightarrow> nat \<Rightarrow> bytes \<Rightarrow> key_codec_error + (bytes \<times> nat)" where
  "decode_component_loop encoded offset bs =
     (if offset < length encoded then
        (let byte = encoded ! offset in
         if byte \<noteq> 0 then decode_component_loop encoded (offset + 1) (bs @ [byte])
         else if offset + 1 < length encoded then
           (let escape = encoded ! (offset + 1) in
            if escape = 0 then Inr (bs, offset + 2)
            else if escape = 0xff then decode_component_loop encoded (offset + 2) (bs @ [0])
            else Inl (InvalidEscape offset escape))
         else Inl (TruncatedEscape offset))
      else Inl (TruncatedEscape offset))"
  by pat_completeness auto
termination
  by (relation "measure (\<lambda>(encoded, offset, bs). length encoded - offset)") auto

declare decode_component_loop.simps [simp del]

definition decode_component :: "bytes \<Rightarrow> nat \<Rightarrow> key_codec_error + (bytes \<times> nat)" where
  "decode_component encoded start =
     (if start \<ge> length encoded then Inl (MissingComponent start)
      else decode_component_loop encoded start [])"

definition decode :: "bytes \<Rightarrow> key_codec_error + document_key" where
  "decode encoded =
     rbind (decode_component encoded 0) (\<lambda>(p, next).
     rbind (decode_component encoded next) (\<lambda>(s, stop).
     if stop \<noteq> length encoded then Inl (TrailingBytes stop) else Inr (DocumentKey p s)))"

section \<open>The escaping, as a function\<close>

text \<open>Escaped bytes without the terminator; the loops above are related to it once.\<close>

definition escape_byte :: "byte \<Rightarrow> bytes" where
  "escape_byte b = (if b = 0 then [0, 0xff] else [b])"

definition escaped :: "bytes \<Rightarrow> bytes" where
  "escaped bs = concat (map escape_byte bs)"

lemma escaped_simps [simp]:
  "escaped [] = []"
  "escaped (b # bs) = escape_byte b @ escaped bs"
  by (simp_all add: escaped_def)

lemma escape_byte_neq_Nil [simp]: "escape_byte b \<noteq> []"
  by (simp add: escape_byte_def)

lemma length_escaped: "length (escaped bs) = length bs + length (filter (\<lambda>b. b = 0) bs)"
  by (induction bs) (auto simp: escape_byte_def)

lemma encode_component_escaped: "encode_component bs out = out @ escaped bs @ [0, 0]"
  by (induction bs arbitrary: out) (auto simp: escape_byte_def)

lemma encode_escaped: "encode k = escaped (pk k) @ [0, 0] @ escaped (sk k) @ [0, 0]"
  by (simp add: encode_def encode_component_escaped)

lemma decode_component_loop_escaped:
  "decode_component_loop (pre @ escaped bs @ [0, 0] @ post) (length pre) acc =
     Inr (acc @ bs, length pre + length (escaped bs) + 2)"
proof (induction bs arbitrary: pre acc)
  case Nil
  show ?case by (subst decode_component_loop.simps) (simp add: nth_append)
next
  case (Cons b bs)
  have IH: "decode_component_loop (pre @ escape_byte b @ escaped bs @ [0, 0] @ post)
      (length pre + length (escape_byte b)) (acc @ [b]) =
      Inr (acc @ b # bs, length pre + length (escape_byte b) + length (escaped bs) + 2)"
    using Cons [of "pre @ escape_byte b" "acc @ [b]"] by simp
  show ?case
  proof (cases "b = 0")
    case True
    with IH show ?thesis
      by (subst decode_component_loop.simps) (simp add: nth_append escape_byte_def)
  next
    case False
    with IH show ?thesis
      by (subst decode_component_loop.simps) (simp add: nth_append escape_byte_def)
  qed
qed

lemma decode_component_escaped:
  "decode_component (pre @ escaped bs @ [0, 0] @ post) (length pre) =
     Inr (bs, length pre + length (escaped bs) + 2)"
  by (simp add: decode_component_def decode_component_loop_escaped [simplified])

text \<open>Whatever the loop accepts is the escaping of what it returns.\<close>

lemma decode_component_loop_sound:
  "decode_component_loop encoded offset acc = Inr (out, stop) \<Longrightarrow>
   \<exists>bs. out = acc @ bs \<and> stop \<le> length encoded \<and>
        drop offset encoded = escaped bs @ [0, 0] @ drop stop encoded \<and>
        stop = offset + length (escaped bs) + 2"
proof (induction encoded offset acc rule: decode_component_loop.induct)
  case (1 encoded offset acc)
  note ret = "1.prems"
  have off: "offset < length encoded"
    using ret by (subst (asm) decode_component_loop.simps) (simp split: if_splits)
  let ?b = "encoded ! offset"
  have d1: "drop offset encoded = ?b # drop (Suc offset) encoded"
    using off by (simp add: Cons_nth_drop_Suc)
  show ?case
  proof (cases "?b = 0")
    case False
    then have "decode_component_loop encoded (offset + 1) (acc @ [?b]) = Inr (out, stop)"
      using ret off by (subst (asm) decode_component_loop.simps) simp
    from "1.IH"(1) [OF off refl False this] obtain bs where
      bs: "out = (acc @ [?b]) @ bs" "stop \<le> length encoded"
        "drop (offset + 1) encoded = escaped bs @ [0, 0] @ drop stop encoded"
        "stop = offset + 1 + length (escaped bs) + 2" by auto
    show ?thesis
      by (rule exI [of _ "?b # bs"]) (use bs d1 False in \<open>simp add: escape_byte_def\<close>)
  next
    case True
    have off1: "offset + 1 < length encoded"
      using ret off True by (subst (asm) decode_component_loop.simps) (simp split: if_splits)
    let ?e = "encoded ! (offset + 1)"
    have d2: "drop (Suc offset) encoded = ?e # drop (Suc (Suc offset)) encoded"
      using off1 by (simp add: Cons_nth_drop_Suc)
    show ?thesis
    proof (cases "?e = 0")
      case e0: True
      then have "out = acc" "stop = offset + 2"
        using ret off True off1 by (subst (asm) decode_component_loop.simps; simp)+
      then show ?thesis
        by (intro exI [of _ "[]"]) (use d1 d2 True e0 off1 in simp)
    next
      case e1: False
      have eff: "?e = 0xff"
        using ret off True off1 e1
        by (subst (asm) decode_component_loop.simps) (simp add: Let_def split: if_splits)
      then have "decode_component_loop encoded (offset + 2) (acc @ [0]) = Inr (out, stop)"
        using ret off True off1 by (subst (asm) decode_component_loop.simps) simp
      from "1.IH"(2) [OF off refl _ off1 refl _ eff this] True e1 obtain bs where
        bs: "out = (acc @ [0]) @ bs" "stop \<le> length encoded"
          "drop (offset + 2) encoded = escaped bs @ [0, 0] @ drop stop encoded"
          "stop = offset + 2 + length (escaped bs) + 2" by auto
      show ?thesis
        by (rule exI [of _ "0 # bs"]) (use bs d1 d2 True eff in \<open>simp add: escape_byte_def\<close>)
    qed
  qed
qed

section \<open>The order on encodings\<close>

lemma escaped_less_iff:
  "escaped xs @ [0, 0] @ u < escaped ys @ [0, 0] @ v \<longleftrightarrow> xs < ys \<or> xs = ys \<and> u < v"
proof (induction xs ys rule: list_induct2')
  case (2 x xs)
  then show ?case by (simp add: escape_byte_def word_gt_0)
next
  case (3 y ys)
  then show ?case by (simp add: escape_byte_def word_gt_0)
next
  case (4 x xs y ys)
  then show ?case by (auto simp: escape_byte_def word_gt_0)
qed simp

lemma encode_less_iff: "encode a < encode b \<longleftrightarrow> a < b"
  using escaped_less_iff [of "sk a" "[]" "sk b" "[]"]
  by (simp add: encode_escaped escaped_less_iff [simplified] less_document_key_def)

section \<open>The codec interface\<close>

locale ordered_codec =
  fixes enc :: "'k::linorder \<Rightarrow> bytes"
    and dec :: "bytes \<Rightarrow> 'e + 'k"
  assumes dec_enc: "dec (enc k) = Inr k"
    and enc_dec: "dec bs = Inr k \<Longrightarrow> enc k = bs"
    and enc_less: "enc a < enc b \<longleftrightarrow> a < b"
begin

lemma enc_eq_iff: "enc a = enc b \<longleftrightarrow> a = b"
  by (metis dec_enc sum.inject(2))

lemma enc_le_iff: "enc a \<le> enc b \<longleftrightarrow> a \<le> b"
  by (metis enc_less linorder_not_le)

lemma dec_iff: "dec bs = Inr k \<longleftrightarrow> bs = enc k"
  using dec_enc enc_dec by blast

lemma dec_fails_iff: "(\<exists>e. dec bs = Inl e) \<longleftrightarrow> bs \<notin> range enc"
  by (metis dec_enc dec_iff rangeE rangeI sumE sum.distinct(1))

lemma sorted_map_enc: "sorted_wrt (<) (map enc ks) \<longleftrightarrow> sorted_wrt (<) ks"
  by (simp add: sorted_wrt_map enc_less)

lemma inj_enc: "inj enc"
  by (simp add: inj_def enc_eq_iff)

end

lemma decode_encode: "decode (encode k) = Inr k"
proof -
  have 1: "decode_component (encode k) 0 = Inr (pk k, length (escaped (pk k)) + 2)"
    using decode_component_escaped [of "[]" "pk k" "escaped (sk k) @ [0, 0]"]
    by (simp add: encode_escaped)
  have 2: "decode_component (encode k) (length (escaped (pk k)) + 2) =
      Inr (sk k, length (escaped (pk k)) + 2 + length (escaped (sk k)) + 2)"
    using decode_component_escaped [of "escaped (pk k) @ [0, 0]" "sk k" "[]"]
    by (simp add: encode_escaped)
  show ?thesis
    by (simp add: decode_def 1 2 [simplified]) (simp add: encode_escaped)
qed

lemma encode_decode: "decode bs = Inr k \<Longrightarrow> encode k = bs"
proof -
  assume "decode bs = Inr k"
  then obtain p n s where
    1: "decode_component_loop bs 0 [] = Inr (p, n)" and
    2: "decode_component_loop bs n [] = Inr (s, length bs)" and
    k: "k = DocumentKey p s"
    by (auto simp: decode_def decode_component_def result_iff split: if_splits)
  from decode_component_loop_sound [OF 1] decode_component_loop_sound [OF 2] show "encode k = bs"
    by (auto simp: k encode_escaped)
qed

interpretation key_codec: ordered_codec encode decode
  by unfold_locales (simp_all add: decode_encode encode_decode encode_less_iff)

lemma length_encode: "length (encode k) = encoded_len k"
  by (simp add: encode_escaped encoded_len_def encoded_component_len_def length_escaped)

section \<open>Properties\<close>

text \<open>C10: the key codec is a bijection onto its image and decoding is strict. A byte string
  decodes to a key exactly when it is the encoding of that key; every other byte string
  (truncated or unknown escape, missing component, trailing bytes) is rejected with an error;
  and the length announced by \<open>encoded_len\<close> is the length of the encoding.\<close>

theorem key_codec_strict:
  "(decode bs = Inr k \<longleftrightarrow> bs = encode k) \<and>
   ((\<exists>e. decode bs = Inl e) \<longleftrightarrow> bs \<notin> range encode) \<and>
   length (encode k) = encoded_len k"
  by (simp add: key_codec.dec_iff key_codec.dec_fails_iff length_encode)

text \<open>C11: the encoding preserves order: comparing encoded keys as byte strings is comparing
  the keys by partition key and then sort key, so the byte order of the tree is the document
  order. The encodings of one partition form a contiguous range: a key between two keys of a
  partition belongs to the partition.\<close>

theorem key_codec_order:
  "(encode a < encode b \<longleftrightarrow> pk a < pk b \<or> pk a = pk b \<and> sk a < sk b) \<and>
   (encode (DocumentKey p s1) \<le> encode k \<and> encode k \<le> encode (DocumentKey p s2) \<and> pk k \<noteq> p \<longleftrightarrow> False)"
  by (auto simp: encode_less_iff key_codec.enc_le_iff less_document_key_def less_eq_document_key_def)

end
