(* ===== verification/Dodb_Ordmap.thy ===== *)
theory Dodb_Ordmap
  imports Dodb_Prelude
begin

text \<open>
  The standard library's \<open>BTreeMap\<close> as the program uses it: an association list in strictly
  increasing key order, so that iteration order is part of the model. The interface
  \<open>ordered_map\<close> states the laws of lookup, insertion and removal; it is interpreted on the
  operations below, and the components use only its facts.
\<close>

section \<open>Operations\<close>

type_synonym ('k, 'v) ordmap = "('k \<times> 'v) list"

fun om_insert :: "'k::linorder \<Rightarrow> 'v \<Rightarrow> ('k, 'v) ordmap \<Rightarrow> ('k, 'v) ordmap" where
  "om_insert k v [] = [(k, v)]"
| "om_insert k v ((k', v') # m) =
     (if k < k' then (k, v) # (k', v') # m
      else if k = k' then (k, v) # m
      else (k', v') # om_insert k v m)"

fun om_remove :: "'k::linorder \<Rightarrow> ('k, 'v) ordmap \<Rightarrow> ('k, 'v) ordmap" where
  "om_remove k [] = []"
| "om_remove k ((k', v') # m) = (if k = k' then m else (k', v') # om_remove k m)"

definition om_get :: "('k, 'v) ordmap \<Rightarrow> 'k \<Rightarrow> 'v option" where
  "om_get m k = map_of m k"

definition om_wf :: "('k::linorder, 'v) ordmap \<Rightarrow> bool" where
  "om_wf m = sorted_wrt (<) (map fst m)"

text \<open>\<open>entry(k).or_insert(v)\<close> and \<open>extend\<close>.\<close>

definition om_or_insert :: "'k::linorder \<Rightarrow> 'v \<Rightarrow> ('k, 'v) ordmap \<Rightarrow> ('k, 'v) ordmap" where
  "om_or_insert k v m = (case om_get m k of None \<Rightarrow> om_insert k v m | Some _ \<Rightarrow> m)"

definition om_extend :: "('k::linorder, 'v) ordmap \<Rightarrow> ('k \<times> 'v) list \<Rightarrow> ('k, 'v) ordmap" where
  "om_extend m kvs = fold (\<lambda>(k, v) acc. om_insert k v acc) kvs m"

section \<open>Laws\<close>

lemma set_om_insert_keys: "fst ` set (om_insert k v m) = insert k (fst ` set m)"
  by (induction k v m rule: om_insert.induct) auto

lemma om_wf_Nil [simp]: "om_wf []"
  by (simp add: om_wf_def)

lemma om_wf_Cons: "om_wf ((k, v) # m) \<longleftrightarrow> (\<forall>k' \<in> fst ` set m. k < k') \<and> om_wf m"
  by (simp add: om_wf_def)

lemma om_wf_insert: "om_wf m \<Longrightarrow> om_wf (om_insert k v m)"
  by (induction k v m rule: om_insert.induct) (auto simp: om_wf_Cons set_om_insert_keys)

lemma set_om_remove: "set (om_remove k m) \<subseteq> set m"
  by (induction k m rule: om_remove.induct) auto

lemma om_wf_remove: "om_wf m \<Longrightarrow> om_wf (om_remove k m)"
proof (induction k m rule: om_remove.induct)
  case (2 k k' v' m)
  then show ?case using set_om_remove [of k m] by (auto simp: om_wf_Cons)
qed simp

lemma om_get_insert: "om_get (om_insert k v m) = (om_get m)(k \<mapsto> v)"
  by (induction k v m rule: om_insert.induct) (auto simp: om_get_def fun_eq_iff)

lemma om_get_notin: "k \<notin> fst ` set m \<Longrightarrow> om_get m k = None"
  by (simp add: om_get_def map_of_eq_None_iff)

lemma om_get_remove: "om_wf m \<Longrightarrow> om_get (om_remove k m) = (om_get m)(k := None)"
proof (induction k m rule: om_remove.induct)
  case (2 k k' v' m)
  have "k' \<notin> fst ` set m" using "2.prems" by (auto simp: om_wf_Cons)
  then have "map_of m k' = None" by (simp add: map_of_eq_None_iff)
  with 2 show ?case by (auto simp: om_wf_Cons om_get_def fun_eq_iff)
qed (simp add: om_get_def fun_eq_iff)

lemma om_wf_distinct: "om_wf m \<Longrightarrow> distinct (map fst m)"
  by (simp add: om_wf_def strict_sorted_iff)

lemma om_get_eq_Some: "om_wf m \<Longrightarrow> om_get m k = Some v \<longleftrightarrow> (k, v) \<in> set m"
  by (simp add: om_get_def om_wf_distinct)

section \<open>The interface\<close>

locale ordered_map =
  fixes empty :: 'm
    and put :: "'k::linorder \<Rightarrow> 'v \<Rightarrow> 'm \<Rightarrow> 'm"
    and del :: "'k \<Rightarrow> 'm \<Rightarrow> 'm"
    and get :: "'m \<Rightarrow> 'k \<Rightarrow> 'v option"
    and items :: "'m \<Rightarrow> ('k \<times> 'v) list"
    and wf :: "'m \<Rightarrow> bool"
  assumes wf_empty: "wf empty"
    and get_empty: "get empty k = None"
    and wf_insert: "wf m \<Longrightarrow> wf (put k v m)"
    and get_insert: "wf m \<Longrightarrow> get (put k v m) k' = (if k' = k then Some v else get m k')"
    and wf_remove: "wf m \<Longrightarrow> wf (del k m)"
    and get_remove: "wf m \<Longrightarrow> get (del k m) k' = (if k' = k then None else get m k')"
    and items_get: "wf m \<Longrightarrow> (k, v) \<in> set (items m) \<longleftrightarrow> get m k = Some v"
    and items_sorted: "wf m \<Longrightarrow> sorted_wrt (<) (map fst (items m))"
begin

lemma wf_fold_insert: "wf m \<Longrightarrow> wf (fold (\<lambda>(k, v) acc. put k v acc) kvs m)"
  by (induction kvs arbitrary: m) (auto simp: wf_insert)

lemma get_fold_insert:
  "wf m \<Longrightarrow> get (fold (\<lambda>(k, v) acc. put k v acc) kvs m) k =
     (case map_of (rev kvs) k of None \<Rightarrow> get m k | Some v \<Rightarrow> Some v)"
proof (induction kvs arbitrary: m)
  case (Cons kv kvs)
  obtain k0 v0 where kv: "kv = (k0, v0)" by force
  from Cons.IH [OF wf_insert [OF Cons.prems, of k0 v0]] Cons.prems show ?case
    by (simp add: kv get_insert map_add_def split: option.splits)
qed simp

lemma items_distinct: "wf m \<Longrightarrow> distinct (map fst (items m))"
  using items_sorted [of m] by (simp add: strict_sorted_iff)

lemma extensional:
  assumes "wf m" "wf m'" "\<And>k. get m k = get m' k"
  shows "items m = items m'"
proof -
  have eq: "set (items m) = set (items m')"
    using assms by (auto simp: items_get)
  have keys: "map fst (items m) = map fst (items m')"
    by (rule strict_sorted_equal) (use items_sorted assms eq in auto)
  show ?thesis
  proof (rule nth_equalityI)
    show "length (items m) = length (items m')" using arg_cong [OF keys, of length] by simp
    fix i assume i: "i < length (items m)"
    then have i': "i < length (items m')" using arg_cong [OF keys, of length] by simp
    have "fst (items m ! i) = fst (items m' ! i)"
      using arg_cong [OF keys, of "\<lambda>xs. xs ! i"] i i' by simp
    moreover have "items m ! i \<in> set (items m')" "items m' ! i \<in> set (items m')"
      using eq i i' nth_mem by blast+
    ultimately show "items m ! i = items m' ! i"
      using items_distinct [OF assms(2)] by (metis eq_key_imp_eq_value prod.collapse)
  qed
qed

end

interpretation bt: ordered_map "[]" om_insert om_remove om_get id om_wf
  by unfold_locales
    (simp_all add: om_wf_insert om_wf_remove om_get_insert om_get_remove om_get_eq_Some,
     simp_all add: om_get_def om_wf_def)

lemma om_extend_wf: "om_wf m \<Longrightarrow> om_wf (om_extend m kvs)"
  unfolding om_extend_def by (rule bt.wf_fold_insert)

lemma om_get_extend:
  "om_wf m \<Longrightarrow> om_get (om_extend m kvs) k =
     (case map_of (rev kvs) k of None \<Rightarrow> om_get m k | Some v \<Rightarrow> Some v)"
  unfolding om_extend_def by (rule bt.get_fold_insert)

lemma om_or_insert_wf: "om_wf m \<Longrightarrow> om_wf (om_or_insert k v m)"
  by (simp add: om_or_insert_def om_wf_insert split: option.splits)

lemma om_get_or_insert:
  "om_get (om_or_insert k v m) k' =
     (if k' = k then Some (case om_get m k of None \<Rightarrow> v | Some w \<Rightarrow> w) else om_get m k')"
  by (simp add: om_or_insert_def om_get_insert split: option.splits)

lemma length_om_remove: "k \<in> fst ` set m \<Longrightarrow> length (om_remove k m) < length m"
  by (induction k m rule: om_remove.induct) auto

lemma om_wf_length: "om_wf m \<Longrightarrow> length m = card (fst ` set m)"
  using distinct_card [of "map fst m"] by (simp add: om_wf_distinct)

lemma length_om_insert_present: "om_wf m \<Longrightarrow> om_get m k \<noteq> None \<Longrightarrow> length (om_insert k v m) = length m"
proof -
  assume wf: "om_wf m" and k: "om_get m k \<noteq> None"
  from k obtain w where "map_of m k = Some w" by (auto simp: om_get_def)
  then have "(k, w) \<in> set m" by (rule map_of_SomeD)
  then have "k \<in> fst ` set m" by force
  then show "length (om_insert k v m) = length m"
    using wf om_wf_length [OF wf] om_wf_length [OF om_wf_insert [OF wf], of k v]
    by (simp add: set_om_insert_keys insert_absorb)
qed

lemma set_om_insert: assumes "om_wf m" shows "set (om_insert k v m) = insert (k, v) {e \<in> set m. fst e \<noteq> k}"
proof (rule set_eqI)
  fix x show "x \<in> set (om_insert k v m) \<longleftrightarrow> x \<in> insert (k, v) {e \<in> set m. fst e \<noteq> k}"
    using om_get_eq_Some [OF assms, of "fst x" "snd x"]
      om_get_eq_Some [OF om_wf_insert [OF assms], of k v "fst x" "snd x"]
    by (cases x) (auto simp: om_get_insert split: if_splits)
qed

lemma set_om_remove_eq: assumes "om_wf m" shows "set (om_remove k m) = {e \<in> set m. fst e \<noteq> k}"
proof (rule set_eqI)
  fix x show "x \<in> set (om_remove k m) \<longleftrightarrow> x \<in> {e \<in> set m. fst e \<noteq> k}"
    using om_get_eq_Some [OF assms, of "fst x" "snd x"]
      om_get_eq_Some [OF om_wf_remove [OF assms], of k "fst x" "snd x"]
    by (cases x) (auto simp: om_get_remove assms split: if_splits)
qed

end
