(* ===== verification/Dodb_Core.thy ===== *)
theory Dodb_Core
  imports Dodb_Key Dodb_Ordmap
begin

text \<open>
  The semantic contracts of \<open>dodb-core\<close>: identifiers, committed states and revisions
  (\<open>revision.rs\<close>), transaction requests with their admission check (\<open>transaction.rs\<close>) and
  the error type (\<open>error.rs\<close>). Diagnostic message texts are not modelled: no code branches on
  them, every caller matches on the constructor only.
\<close>

section \<open>Identifiers\<close>

text \<open>The seven newtypes over \<open>u64\<close> made by the \<open>integer_id!\<close> macro.\<close>

type_synonym tenant_id = u64
type_synonym shard_id = u64
type_synonym shard_epoch = u64
type_synonym page_id = u64
type_synonym lsn = u64
type_synonym txn_id = u64
type_synonym revision = u64

section \<open>Committed states\<close>

datatype revision_state = Present bytes revision | Missing revision

datatype observed_state = OPresent revision | OMissing revision

fun os_revision :: "observed_state \<Rightarrow> revision" where
  "os_revision (OPresent r) = r"
| "os_revision (OMissing r) = r"

fun os_is_missing :: "observed_state \<Rightarrow> bool" where
  "os_is_missing (OPresent r) = False"
| "os_is_missing (OMissing r) = True"

fun rs_revision :: "revision_state \<Rightarrow> revision" where
  "rs_revision (Present v r) = r"
| "rs_revision (Missing r) = r"

fun rs_value :: "revision_state \<Rightarrow> bytes option" where
  "rs_value (Present v r) = Some v"
| "rs_value (Missing r) = None"

fun rs_is_missing :: "revision_state \<Rightarrow> bool" where
  "rs_is_missing (Present v r) = False"
| "rs_is_missing (Missing r) = True"

fun rs_observed :: "revision_state \<Rightarrow> observed_state" where
  "rs_observed (Present v r) = OPresent r"
| "rs_observed (Missing r) = OMissing r"

definition revision_from_lsn :: "lsn \<Rightarrow> revision" where
  "revision_from_lsn l = l"

lemma observed_agrees [simp]:
  "os_revision (rs_observed s) = rs_revision s"
  "os_is_missing (rs_observed s) = rs_is_missing s"
  by (cases s; simp)+

section \<open>Transactions\<close>

datatype write_intent = WPut bytes | WDelete

datatype transaction_condition =
    RevisionEquals document_key revision
  | Exists document_key
  | NotExists document_key

datatype condition_expectation =
    ExpectRevisionEquals revision
  | ExpectExists
  | ExpectNotExists

datatype transaction_mutation = MPut document_key bytes | MDelete document_key

fun condition_key :: "transaction_condition \<Rightarrow> document_key" where
  "condition_key (RevisionEquals k r) = k"
| "condition_key (Exists k) = k"
| "condition_key (NotExists k) = k"

fun expectation :: "transaction_condition \<Rightarrow> condition_expectation" where
  "expectation (RevisionEquals k r) = ExpectRevisionEquals r"
| "expectation (Exists k) = ExpectExists"
| "expectation (NotExists k) = ExpectNotExists"

fun mutation_key :: "transaction_mutation \<Rightarrow> document_key" where
  "mutation_key (MPut k v) = k"
| "mutation_key (MDelete k) = k"

record transaction_request =
  req_conditions :: "transaction_condition list"
  req_mutations :: "transaction_mutation list"

record transaction_result =
  commit_lsn :: "lsn option"

record transaction_conflict =
  conflict_key :: document_key
  conflict_expected :: condition_expectation
  conflict_actual :: observed_state

section \<open>Errors\<close>

datatype error =
    InvalidInput
  | InvalidRequest
  | Overloaded
  | ResponseTooLarge
  | Conflict transaction_conflict
  | Corruption
  | Io
  | UnsupportedFormat
  | DurabilityFailure
  | RecoveryFailure
  | CheckpointFailure
  | InternalInvariantViolation

section \<open>Admission\<close>

text \<open>One pass over the keys with the set of keys seen so far; \<open>insert\<close> on a key that is
  already there is the rejection.\<close>

fun all_new :: "document_key set \<Rightarrow> document_key list \<Rightarrow> bool" where
  "all_new seen [] = True"
| "all_new seen (k # ks) = (if k \<in> seen then False else all_new (insert k seen) ks)"

definition validate :: "transaction_request \<Rightarrow> error + unit" where
  "validate request =
     (if req_conditions request = [] \<and> req_mutations request = [] then Inl InvalidRequest
      else rbind (ensure (all_new {} (map mutation_key (req_mutations request))) InvalidRequest) (\<lambda>_.
           ensure (all_new {} (map condition_key (req_conditions request))) InvalidRequest))"

lemma all_new_iff: "all_new seen ks \<longleftrightarrow> distinct ks \<and> set ks \<inter> seen = {}"
  by (induction ks arbitrary: seen) auto

lemma validate_iff [result_iff]:
  "validate request = Inr u \<longleftrightarrow>
     (req_conditions request \<noteq> [] \<or> req_mutations request \<noteq> []) \<and>
     distinct (map mutation_key (req_mutations request)) \<and>
     distinct (map condition_key (req_conditions request))"
  by (auto simp: validate_def result_iff all_new_iff)

lemma validate_error: "validate request = Inl e \<Longrightarrow> e = InvalidRequest"
  by (auto simp: validate_def rbind_Inl_iff ensure_Inl_iff split: if_splits)

section \<open>Read and write sets\<close>

type_synonym read_set = "(document_key, revision) ordmap"
type_synonym write_set = "(document_key, write_intent) ordmap"

definition rset_record :: "document_key \<Rightarrow> revision \<Rightarrow> read_set \<Rightarrow> read_set" where
  "rset_record k r rset = om_or_insert k r rset"

definition wset_put :: "document_key \<Rightarrow> bytes \<Rightarrow> write_set \<Rightarrow> write_set" where
  "wset_put k v wset = om_insert k (WPut v) wset"

definition wset_delete :: "document_key \<Rightarrow> write_set \<Rightarrow> write_set" where
  "wset_delete k wset = om_insert k WDelete wset"

section \<open>Conditions against a state\<close>

text \<open>The \<open>match\<close> on a condition that the reference executor, the storage engine and the
  service all perform, on the observed state of its key.\<close>

fun condition_satisfied :: "transaction_condition \<Rightarrow> observed_state \<Rightarrow> bool" where
  "condition_satisfied (RevisionEquals k r) actual = (os_revision actual = r)"
| "condition_satisfied (Exists k) actual = (\<not> os_is_missing actual)"
| "condition_satisfied (NotExists k) actual = os_is_missing actual"

section \<open>Properties\<close>

text \<open>C12: a request is admitted exactly when it has at least one condition or mutation, no
  key is mutated twice and no key carries two conditions; every rejection is the
  invalid-request error.\<close>

theorem validate_exact:
  "validate request =
     (if \<not> (req_conditions request = [] \<and> req_mutations request = []) \<and>
         distinct (map mutation_key (req_mutations request)) \<and>
         distinct (map condition_key (req_conditions request))
      then Inr () else Inl InvalidRequest)"
proof (cases "validate request")
  case (Inl e)
  with validate_iff [of request "()"] validate_error [OF Inl] show ?thesis
    by (metis Inl_Inr_False)
next
  case (Inr u)
  with validate_iff [of request u] show ?thesis by simp
qed

end
