(* ===== verification/Dodb_Page.thy ===== *)
theory Dodb_Page
  imports Dodb_Core
begin

text \<open>
  The fixed-size page of \<open>dodb-storage/src/page.rs\<close>: a 32-byte header with magic, version,
  type, page id, LSN, flags and checksum, and a body. Encoding and strict decoding, for any
  checksum function \<open>crc\<close>; decoding succeeds exactly on encodings of 4064-byte bodies.
\<close>

section \<open>Layout\<close>

definition PAGE_SIZE :: nat where "PAGE_SIZE = 4096"
definition PAGE_HEADER_SIZE :: nat where "PAGE_HEADER_SIZE = 32"
definition PAGE_FORMAT_VERSION :: u16 where "PAGE_FORMAT_VERSION = 1"
definition PAGE_MAGIC :: bytes where "PAGE_MAGIC = [0x44, 0x42, 0x50, 0x47]"
definition PAGE_CHECKSUM_OFFSET :: nat where "PAGE_CHECKSUM_OFFSET = 28"

declare PAGE_SIZE_def [simp] PAGE_HEADER_SIZE_def [simp] PAGE_CHECKSUM_OFFSET_def [simp]

lemma length_PAGE_MAGIC [simp]: "length PAGE_MAGIC = 4"
  by (simp add: PAGE_MAGIC_def)

datatype page_type = InternalPage | LeafPage | OverflowPage | FreePage | TestPage

fun page_type_code :: "page_type \<Rightarrow> byte" where
  "page_type_code InternalPage = 1"
| "page_type_code LeafPage = 2"
| "page_type_code OverflowPage = 3"
| "page_type_code FreePage = 4"
| "page_type_code TestPage = 255"

definition page_type_decode :: "byte \<Rightarrow> error + page_type" where
  "page_type_decode value =
     (if value = 1 then Inr InternalPage
      else if value = 2 then Inr LeafPage
      else if value = 3 then Inr OverflowPage
      else if value = 4 then Inr FreePage
      else if value = 255 then Inr TestPage
      else Inl UnsupportedFormat)"

record page_header =
  ph_format_version :: u16
  ph_page_type :: page_type
  ph_page_id :: page_id
  ph_page_lsn :: lsn
  ph_flags :: u32
  ph_checksum :: u32

definition page_header_new :: "page_type \<Rightarrow> page_id \<Rightarrow> lsn \<Rightarrow> page_header" where
  "page_header_new t pid l =
     \<lparr>ph_format_version = PAGE_FORMAT_VERSION, ph_page_type = t, ph_page_id = pid,
      ph_page_lsn = l, ph_flags = 0, ph_checksum = 0\<rparr>"

record decoded_page =
  dp_header :: page_header
  dp_body :: bytes

section \<open>Codec\<close>

definition page_checksum :: "crc_fun \<Rightarrow> bytes \<Rightarrow> u32" where
  "page_checksum crc page = field_checksum crc PAGE_CHECKSUM_OFFSET page"

definition page_fields :: "page_header \<Rightarrow> bytes \<Rightarrow> bytes" where
  "page_fields header body =
     blits [(0, PAGE_MAGIC),
            (4, to_le_u16 (ph_format_version header)),
            (6, [page_type_code (ph_page_type header)]),
            (8, to_le_u64 (ph_page_id header)),
            (16, to_le_u64 (ph_page_lsn header)),
            (24, to_le_u32 (ph_flags header)),
            (PAGE_HEADER_SIZE, body)] (zeros PAGE_SIZE)"

definition encode_page :: "crc_fun \<Rightarrow> page_header \<Rightarrow> bytes \<Rightarrow> error + bytes" where
  "encode_page crc header body =
     rbind (ensure (ph_format_version header = PAGE_FORMAT_VERSION) UnsupportedFormat) (\<lambda>_.
     rbind (ensure (length body \<le> PAGE_SIZE - PAGE_HEADER_SIZE) InvalidInput) (\<lambda>_.
     let page = page_fields header body
     in Inr (blit PAGE_CHECKSUM_OFFSET (to_le_u32 (page_checksum crc page)) page)))"

definition decode_page_at :: "crc_fun \<Rightarrow> bytes \<Rightarrow> page_id option \<Rightarrow> error + decoded_page" where
  "decode_page_at crc bs expected =
     rbind (ensure (length bs = PAGE_SIZE) Corruption) (\<lambda>_.
     rbind (ensure (seg 0 4 bs = PAGE_MAGIC) Corruption) (\<lambda>_.
     let version = from_le_u16 (seg 4 6 bs) in
     rbind (ensure (version = PAGE_FORMAT_VERSION) UnsupportedFormat) (\<lambda>_.
     rbind (ensure (bs ! 7 = 0) Corruption) (\<lambda>_.
     rbind (page_type_decode (bs ! 6)) (\<lambda>ptype.
     let pid = from_le_u64 (seg 8 16 bs) in
     rbind (ensure (case expected of None \<Rightarrow> True | Some e \<Rightarrow> pid = e) Corruption) (\<lambda>_.
     let plsn = from_le_u64 (seg 16 24 bs);
         flags = from_le_u32 (seg 24 28 bs);
         stored = from_le_u32 (seg PAGE_CHECKSUM_OFFSET (PAGE_CHECKSUM_OFFSET + 4) bs) in
     rbind (ensure (stored = page_checksum crc bs) Corruption) (\<lambda>_.
     Inr \<lparr>dp_header = \<lparr>ph_format_version = version, ph_page_type = ptype, ph_page_id = pid,
            ph_page_lsn = plsn, ph_flags = flags, ph_checksum = stored\<rparr>,
          dp_body = drop PAGE_HEADER_SIZE bs\<rparr>)))))))"

definition decode_page :: "crc_fun \<Rightarrow> bytes \<Rightarrow> error + decoded_page" where
  "decode_page crc bs = decode_page_at crc bs None"

section \<open>Lemmas\<close>

lemma page_type_decode_iff [result_iff]: "page_type_decode b = Inr t \<longleftrightarrow> b = page_type_code t"
  by (cases t) (auto simp: page_type_decode_def)

lemma page_type_decode_code [simp]: "page_type_decode (page_type_code t) = Inr t"
  by (simp add: result_iff)

lemma encode_page_iff [result_iff]:
  "encode_page crc header body = Inr page \<longleftrightarrow>
     ph_format_version header = PAGE_FORMAT_VERSION \<and> length body \<le> 4064 \<and>
     page = seal crc 28 (page_fields header body)"
  by (auto simp: encode_page_def result_iff Let_def seal_def page_checksum_def)

lemma page_fields_segs:
  assumes "length body \<le> 4064"
  shows "length (page_fields header body) = 4096"
    "seg 0 4 (page_fields header body) = PAGE_MAGIC"
    "seg 4 6 (page_fields header body) = to_le_u16 (ph_format_version header)"
    "seg 6 7 (page_fields header body) = [page_type_code (ph_page_type header)]"
    "seg 7 8 (page_fields header body) = zeros 1"
    "seg 8 16 (page_fields header body) = to_le_u64 (ph_page_id header)"
    "seg 16 24 (page_fields header body) = to_le_u64 (ph_page_lsn header)"
    "seg 24 28 (page_fields header body) = to_le_u32 (ph_flags header)"
    "seg 28 32 (page_fields header body) = zeros 4"
  using assms by (simp_all add: page_fields_def bytes_simps)

lemma page_fields_body:
  assumes "length body \<le> 4064"
  shows "seg 32 (32 + length body) (page_fields header body) = body"
    "seg (32 + length body) 4096 (page_fields header body) = zeros (4064 - length body)"
  using assms by (simp_all add: page_fields_def bytes_simps)

lemma seg_sealed:
  assumes "length body \<le> 4064" and "b \<le> 28 \<or> 32 \<le> a"
  shows "seg a b (seal crc 28 (page_fields header body)) = seg a b (page_fields header body)"
  using assms page_fields_segs(1) [OF assms(1), of header] by (auto simp: bytes_simps)

lemma length_sealed: "length body \<le> 4064 \<Longrightarrow> length (seal crc 28 (page_fields header body)) = 4096"
  using page_fields_segs(1) [of body header] by (simp add: bytes_simps)

lemma nth_sealed:
  assumes "length body \<le> 4064"
  shows "seal crc 28 (page_fields header body) ! 6 = page_type_code (ph_page_type header)"
    and "seal crc 28 (page_fields header body) ! 7 = 0"
  using nth_eq_seg [of 6 "seal crc 28 (page_fields header body)"]
    nth_eq_seg [of 7 "seal crc 28 (page_fields header body)"]
  by (simp_all add: length_sealed seg_sealed page_fields_segs assms zeros_def)

lemma body_sealed:
  assumes "length body \<le> 4064"
  shows "drop 32 (seal crc 28 (page_fields header body)) = body @ zeros (4064 - length body)"
proof -
  let ?p = "seal crc 28 (page_fields header body)"
  have "drop 32 ?p = seg 32 (32 + length body) ?p @ drop (32 + length body) ?p"
    by (simp add: split_at_seg)
  moreover have "drop (32 + length body) ?p = seg (32 + length body) 4096 ?p"
    by (simp add: seg_drop length_sealed assms)
  ultimately show ?thesis
    by (simp add: seg_sealed page_fields_body assms)
qed

lemma decode_encoded_page:
  assumes "encode_page crc header body = Inr page"
    and "case expected of None \<Rightarrow> True | Some e \<Rightarrow> ph_page_id header = e"
  shows "decode_page_at crc page expected =
    Inr \<lparr>dp_header = header\<lparr>ph_checksum := page_checksum crc page\<rparr>,
         dp_body = body @ zeros (4064 - length body)\<rparr>"
proof -
  have page: "page = seal crc 28 (page_fields header body)" and len: "length body \<le> 4064"
    and v: "ph_format_version header = PAGE_FORMAT_VERSION"
    using assms(1) by (auto simp: result_iff)
  have "seg 28 32 page = to_le_u32 (page_checksum crc page)"
    using page_fields_segs(1) [OF len, of header] by (simp add: page page_checksum_def bytes_simps)
  moreover have "length page = 4096" "bs = page \<longrightarrow> bs ! 6 = page_type_code (ph_page_type header)"
    "page ! 7 = 0" "drop 32 page = body @ zeros (4064 - length body)"
    for bs by (simp_all add: page length_sealed len nth_sealed body_sealed)
  moreover note seg_sealed [OF len, where crc = crc and header = header, folded page]
  ultimately show ?thesis
    using assms(2) by (simp add: decode_page_at_def page_fields_segs len v)
qed

lemma decode_page_at_iff [result_iff]:
  "decode_page_at crc bs expected = Inr p \<longleftrightarrow>
     length bs = 4096 \<and> seg 0 4 bs = PAGE_MAGIC \<and> bs ! 7 = 0 \<and>
     to_le_u16 PAGE_FORMAT_VERSION = seg 4 6 bs \<and>
     bs ! 6 = page_type_code (ph_page_type (dp_header p)) \<and>
     (case expected of None \<Rightarrow> True | Some e \<Rightarrow> ph_page_id (dp_header p) = e) \<and>
     ph_checksum (dp_header p) = page_checksum crc bs \<and>
     to_le_u32 (ph_checksum (dp_header p)) = seg 28 32 bs \<and>
     ph_format_version (dp_header p) = PAGE_FORMAT_VERSION \<and>
     to_le_u64 (ph_page_id (dp_header p)) = seg 8 16 bs \<and>
     to_le_u64 (ph_page_lsn (dp_header p)) = seg 16 24 bs \<and>
     to_le_u32 (ph_flags (dp_header p)) = seg 24 28 bs \<and>
     dp_body p = drop 32 bs" (is "?l = ?r")
proof
  assume ?l
  then show ?r
    using to_from_le_u16 [of "seg 4 6 bs"] to_from_le_u32 [of "seg 28 32 bs"]
      to_from_le_u32 [of "seg 24 28 bs"]
    by (auto simp: decode_page_at_def result_iff Let_def to_from_le_u64 length_seg split: option.splits)
next
  assume r: ?r
  then have "from_le_u16 (seg 4 6 bs) = PAGE_FORMAT_VERSION"
    "from_le_u64 (seg 8 16 bs) = ph_page_id (dp_header p)"
    "from_le_u64 (seg 16 24 bs) = ph_page_lsn (dp_header p)"
    "from_le_u32 (seg 24 28 bs) = ph_flags (dp_header p)"
    "from_le_u32 (seg 28 32 bs) = ph_checksum (dp_header p)"
    by (metis from_to_le_u16 from_to_le_u32 from_to_le_u64)+
  with r show ?l
    by (simp add: decode_page_at_def)
qed

lemma encode_decoded_page:
  assumes "decode_page_at crc bs expected = Inr p"
  shows "encode_page crc (dp_header p) (dp_body p) = Inr bs"
proof -
  let ?h = "dp_header p" and ?b = "dp_body p"
  have body: "?b = drop 32 bs" and len: "length ?b = 4064" and bs: "length bs = 4096"
    using assms by (auto simp: result_iff)
  note segs = page_fields_segs [of ?b ?h] page_fields_body [of ?b ?h]
  have bsegs: "seg 6 7 bs = [page_type_code (ph_page_type ?h)]" "seg 7 8 bs = zeros 1"
    using assms seg_singleton [of 6 bs] seg_singleton [of 7 bs]
    by (auto simp: result_iff zeros_def)
  let ?f = "page_fields ?h ?b"
  have "cuts_eq [0, 4, 6, 7, 8, 16, 24, 28, 32] ?f (blit 28 (zeros 4) bs)"
    using assms segs bsegs len bs body by (simp add: result_iff seg_drop bytes_simps)
  then have f: "?f = blit 28 (zeros 4) bs" by (rule cuts_eqD)
  have "to_le_u32 (page_checksum crc bs) = seg 28 32 bs" using assms by (auto simp: result_iff)
  then have "seal crc 28 ?f = bs"
    using bs by (simp add: seal_def f field_checksum_def page_checksum_def bytes_simps)
  with assms len show ?thesis by (simp add: result_iff)
qed

section \<open>The codec as an interface\<close>

definition encode_page' :: "crc_fun \<Rightarrow> page_header \<times> bytes \<Rightarrow> error + bytes" where
  "encode_page' crc hb = encode_page crc (fst hb) (snd hb)"

text \<open>What a reader gets back: the header with the checksum filled in, the body zero padded.\<close>

definition stored_page :: "crc_fun \<Rightarrow> page_header \<times> bytes \<Rightarrow> decoded_page" where
  "stored_page crc hb =
     \<lparr>dp_header = (fst hb)\<lparr>ph_checksum := page_checksum crc (page_fields (fst hb) (snd hb))\<rparr>,
      dp_body = snd hb @ zeros (4064 - length (snd hb))\<rparr>"

lemma stored_checksum:
  "length body \<le> 4064 \<Longrightarrow>
   page_checksum crc (seal crc 28 (page_fields header body)) = page_checksum crc (page_fields header body)"
  using page_fields_segs(1) [of body header] by (simp add: page_checksum_def)

lemma stored_decoded:
  "decode_page_at crc bs expected = Inr p \<Longrightarrow> stored_page crc (dp_header p, dp_body p) = p"
  using encode_decoded_page [of crc bs expected p] stored_checksum [of "dp_body p" crc "dp_header p"]
  by (auto simp: stored_page_def result_iff zeros_def)

interpretation page_codec: strict_byte_codec "encode_page' crc" "decode_page crc" "stored_page crc" for crc
proof
  show "decode_page crc bs = Inr (stored_page crc x)" if "encode_page' crc x = Inr bs" for x bs
    using that decode_encoded_page [of crc "fst x" "snd x" bs None]
    by (auto simp: encode_page'_def decode_page_def stored_page_def stored_checksum encode_page_iff)
  show "\<exists>x. encode_page' crc x = Inr bs \<and> stored_page crc x = y" if "decode_page crc bs = Inr y" for bs y
    using that stored_decoded [of crc bs None y] encode_decoded_page [of crc bs None y]
    by (intro exI [of _ "(dp_header y, dp_body y)"]) (simp add: encode_page'_def decode_page_def)
qed

section \<open>Properties\<close>

text \<open>C29: a page is a 4096-byte block, and reading it back at its own page id returns the
  header with the checksum filled in and the body zero padded; at any other page id it is
  rejected as corrupt, so a page written to the wrong slot is never accepted.\<close>

theorem page_roundtrip:
  assumes "encode_page crc header body = Inr page"
  shows "length page = PAGE_SIZE \<and>
    decode_page_at crc page (Some (ph_page_id header)) =
      Inr \<lparr>dp_header = header\<lparr>ph_checksum := page_checksum crc page\<rparr>,
           dp_body = body @ zeros (PAGE_SIZE - PAGE_HEADER_SIZE - length body)\<rparr> \<and>
    (pid \<noteq> ph_page_id header \<longrightarrow> decode_page_at crc page (Some pid) = Inl Corruption)"
proof (intro conjI impI)
  show "length page = PAGE_SIZE" using assms length_sealed by (auto simp: encode_page_iff)
  show "decode_page_at crc page (Some (ph_page_id header)) =
      Inr \<lparr>dp_header = header\<lparr>ph_checksum := page_checksum crc page\<rparr>,
           dp_body = body @ zeros (PAGE_SIZE - PAGE_HEADER_SIZE - length body)\<rparr>"
    using decode_encoded_page [OF assms, of "Some (ph_page_id header)"] by simp
  assume "pid \<noteq> ph_page_id header"
  moreover have "length page = 4096" "seg 0 4 page = PAGE_MAGIC" "page ! 7 = 0"
    "from_le_u16 (seg 4 6 page) = PAGE_FORMAT_VERSION" "from_le_u64 (seg 8 16 page) = ph_page_id header"
    "page ! 6 = page_type_code (ph_page_type header)"
    using assms
    by (auto simp: encode_page_iff length_sealed nth_sealed seg_sealed page_fields_segs)
  ultimately show "decode_page_at crc page (Some pid) = Inl Corruption"
    by (simp add: decode_page_at_def)
qed

theorem page_roundtrip_witness:
  "decode_page_at (\<lambda>_. 5) (seal (\<lambda>_. 5) 28 (page_fields (page_header_new LeafPage 3 9) [1, 2])) (Some 4) =
     Inl Corruption"
  using page_roundtrip [of "\<lambda>_. 5" "page_header_new LeafPage 3 9" "[1, 2]" _ 4]
  by (simp add: encode_page_iff page_header_new_def)

text \<open>C30: page decoding is strict: whatever is accepted re-encodes to the very same bytes,
  for every checksum function. No two byte strings decode to the same page, and no bytes
  outside the encoder's image (reserved byte set, unknown type, wrong checksum, wrong length)
  are accepted.\<close>

theorem page_decode_strict:
  "(decode_page crc bs = Inr p \<longleftrightarrow>
      (\<exists>body. length body = PAGE_SIZE - PAGE_HEADER_SIZE \<and> dp_body p = body \<and>
         encode_page crc (dp_header p) body = Inr bs \<and>
         ph_checksum (dp_header p) = page_checksum crc bs))"
proof
  assume d: "decode_page crc bs = Inr p"
  then have "length (dp_body p) = 4064" "ph_checksum (dp_header p) = page_checksum crc bs"
    by (auto simp: decode_page_def decode_page_at_iff)
  with encode_decoded_page d show "\<exists>body. length body = PAGE_SIZE - PAGE_HEADER_SIZE \<and> dp_body p = body \<and>
         encode_page crc (dp_header p) body = Inr bs \<and> ph_checksum (dp_header p) = page_checksum crc bs"
    by (auto simp: decode_page_def)
next
  assume "\<exists>body. length body = PAGE_SIZE - PAGE_HEADER_SIZE \<and> dp_body p = body \<and>
         encode_page crc (dp_header p) body = Inr bs \<and> ph_checksum (dp_header p) = page_checksum crc bs"
  then have e: "encode_page crc (dp_header p) (dp_body p) = Inr bs" and l: "length (dp_body p) = 4064"
    and c: "ph_checksum (dp_header p) = page_checksum crc bs" by auto
  from c have "(dp_header p)\<lparr>ph_checksum := page_checksum crc bs\<rparr> = dp_header p"
    by (cases "dp_header p") simp
  with decode_encoded_page [OF e, of None] l show "decode_page crc bs = Inr p"
    by (simp add: decode_page_def zeros_def)
qed

end
