(* ===== verification/Dodb_Superblock.thy ===== *)
theory Dodb_Superblock
  imports Dodb_Page
begin

text \<open>
  The superblock of \<open>dodb-storage/src/superblock.rs\<close>, stored twice in pages 0 and 1: codec,
  and the choice of the copy to start from. The lemmas show the round trip, that the valid
  copy with the highest generation is chosen, and that a torn write of one copy never loses
  the database.
\<close>

section \<open>Layout\<close>

definition SUPERBLOCK_FORMAT_VERSION :: u16 where "SUPERBLOCK_FORMAT_VERSION = 1"
definition SUPERBLOCK_MAGIC :: bytes where "SUPERBLOCK_MAGIC = [0x44, 0x53, 0x42, 0x4b]"
definition ROOT_OFFSET :: nat where "ROOT_OFFSET = 58"
definition FREE_LIST_OFFSET :: nat where "FREE_LIST_OFFSET = 66"
definition HIGH_WATER_OFFSET :: nat where "HIGH_WATER_OFFSET = 74"
definition CHECKPOINT_OFFSET :: nat where "CHECKPOINT_OFFSET = 82"
definition SB_CHECKSUM_OFFSET :: nat where "SB_CHECKSUM_OFFSET = 90"
definition NULL_PAGE_ID :: u64 where "NULL_PAGE_ID = - 1"

declare ROOT_OFFSET_def [simp] FREE_LIST_OFFSET_def [simp] HIGH_WATER_OFFSET_def [simp]
  CHECKPOINT_OFFSET_def [simp] SB_CHECKSUM_OFFSET_def [simp]

lemma length_SUPERBLOCK_MAGIC [simp]: "length SUPERBLOCK_MAGIC = 4"
  by (simp add: SUPERBLOCK_MAGIC_def)

record superblock =
  sb_format_version :: u16
  sb_generation :: u64
  sb_database_uuid :: bytes
  sb_tenant_id :: tenant_id
  sb_shard_id :: shard_id
  sb_shard_epoch :: shard_epoch
  sb_page_size :: u32
  sb_root_page_id :: "page_id option"
  sb_free_list_head :: "page_id option"
  sb_high_water_page_id :: "page_id option"
  sb_checkpoint_lsn :: lsn
  sb_checksum :: u32

definition superblock_new :: "u64 \<Rightarrow> bytes \<Rightarrow> tenant_id \<Rightarrow> shard_id \<Rightarrow> shard_epoch \<Rightarrow> superblock" where
  "superblock_new generation uuid tenant shard epoch =
     \<lparr>sb_format_version = SUPERBLOCK_FORMAT_VERSION, sb_generation = generation,
      sb_database_uuid = uuid, sb_tenant_id = tenant, sb_shard_id = shard, sb_shard_epoch = epoch,
      sb_page_size = of_nat PAGE_SIZE, sb_root_page_id = None, sb_free_list_head = None,
      sb_high_water_page_id = None, sb_checkpoint_lsn = 0, sb_checksum = 0\<rparr>"

datatype superblock_slot = SlotA | SlotB

record selected_superblock =
  sel_slot :: superblock_slot
  sel_superblock :: superblock

section \<open>Codec\<close>

definition encode_page_id :: "page_id option \<Rightarrow> u64" where
  "encode_page_id p = (case p of None \<Rightarrow> NULL_PAGE_ID | Some i \<Rightarrow> i)"

definition decode_page_id :: "u64 \<Rightarrow> page_id option" where
  "decode_page_id v = (if v \<noteq> NULL_PAGE_ID then Some v else None)"

definition superblock_checksum :: "crc_fun \<Rightarrow> bytes \<Rightarrow> u32" where
  "superblock_checksum crc page = field_checksum crc SB_CHECKSUM_OFFSET page"

definition superblock_fields :: "superblock \<Rightarrow> bytes" where
  "superblock_fields sb =
     blits [(0, SUPERBLOCK_MAGIC),
            (4, to_le_u16 (sb_format_version sb)),
            (6, to_le_u64 (sb_generation sb)),
            (14, sb_database_uuid sb),
            (30, to_le_u64 (sb_tenant_id sb)),
            (38, to_le_u64 (sb_shard_id sb)),
            (46, to_le_u64 (sb_shard_epoch sb)),
            (54, to_le_u32 (sb_page_size sb)),
            (ROOT_OFFSET, to_le_u64 (encode_page_id (sb_root_page_id sb))),
            (FREE_LIST_OFFSET, to_le_u64 (encode_page_id (sb_free_list_head sb))),
            (HIGH_WATER_OFFSET, to_le_u64 (encode_page_id (sb_high_water_page_id sb))),
            (CHECKPOINT_OFFSET, to_le_u64 (sb_checkpoint_lsn sb))] (zeros PAGE_SIZE)"

definition encode_superblock :: "crc_fun \<Rightarrow> superblock \<Rightarrow> error + bytes" where
  "encode_superblock crc sb =
     rbind (ensure (sb_format_version sb = SUPERBLOCK_FORMAT_VERSION) UnsupportedFormat) (\<lambda>_.
     rbind (ensure (sb_page_size sb = of_nat PAGE_SIZE) InvalidInput) (\<lambda>_.
     let page = superblock_fields sb
     in Inr (blit SB_CHECKSUM_OFFSET (to_le_u32 (superblock_checksum crc page)) page)))"

definition decode_superblock :: "crc_fun \<Rightarrow> bytes \<Rightarrow> error + superblock" where
  "decode_superblock crc bs =
     rbind (ensure (length bs = PAGE_SIZE) Corruption) (\<lambda>_.
     rbind (ensure (seg 0 4 bs = SUPERBLOCK_MAGIC) Corruption) (\<lambda>_.
     let version = from_le_u16 (seg 4 6 bs) in
     rbind (ensure (version = SUPERBLOCK_FORMAT_VERSION) UnsupportedFormat) (\<lambda>_.
     let stored = from_le_u32 (seg SB_CHECKSUM_OFFSET (SB_CHECKSUM_OFFSET + 4) bs) in
     rbind (ensure (stored = superblock_checksum crc bs) Corruption) (\<lambda>_.
     let page_size = from_le_u32 (seg 54 58 bs) in
     rbind (ensure (page_size = of_nat PAGE_SIZE) UnsupportedFormat) (\<lambda>_.
     Inr \<lparr>sb_format_version = version,
          sb_generation = from_le_u64 (seg 6 14 bs),
          sb_database_uuid = seg 14 30 bs,
          sb_tenant_id = from_le_u64 (seg 30 38 bs),
          sb_shard_id = from_le_u64 (seg 38 46 bs),
          sb_shard_epoch = from_le_u64 (seg 46 54 bs),
          sb_page_size = page_size,
          sb_root_page_id = decode_page_id (from_le_u64 (seg ROOT_OFFSET (ROOT_OFFSET + 8) bs)),
          sb_free_list_head = decode_page_id (from_le_u64 (seg FREE_LIST_OFFSET (FREE_LIST_OFFSET + 8) bs)),
          sb_high_water_page_id = decode_page_id (from_le_u64 (seg HIGH_WATER_OFFSET (HIGH_WATER_OFFSET + 8) bs)),
          sb_checkpoint_lsn = from_le_u64 (seg CHECKPOINT_OFFSET (CHECKPOINT_OFFSET + 8) bs),
          sb_checksum = stored\<rparr>)))))"

text \<open>The \<open>match\<close> of \<open>choose_superblock\<close>, arm by arm.\<close>

definition choose_superblock :: "crc_fun \<Rightarrow> bytes \<Rightarrow> bytes \<Rightarrow> error + selected_superblock" where
  "choose_superblock crc slot_a slot_b =
     (let a = decode_superblock crc slot_a; b = decode_superblock crc slot_b in
      if a = Inl UnsupportedFormat then Inl UnsupportedFormat
      else if b = Inl UnsupportedFormat then Inl UnsupportedFormat
      else case (a, b) of
        (Inr sa, Inl _) \<Rightarrow> Inr \<lparr>sel_slot = SlotA, sel_superblock = sa\<rparr>
      | (Inl _, Inr sb) \<Rightarrow> Inr \<lparr>sel_slot = SlotB, sel_superblock = sb\<rparr>
      | (Inr sa, Inr sb) \<Rightarrow>
          if sb_generation sa \<ge> sb_generation sb
          then Inr \<lparr>sel_slot = SlotA, sel_superblock = sa\<rparr>
          else Inr \<lparr>sel_slot = SlotB, sel_superblock = sb\<rparr>
      | (Inl _, Inl _) \<Rightarrow> Inl Corruption)"

section \<open>Lemmas\<close>

lemma decode_encode_page_id: "decode_page_id (encode_page_id p) = (if p = Some NULL_PAGE_ID then None else p)"
  by (auto simp: decode_page_id_def encode_page_id_def split: option.splits)

definition superblock_wf :: "superblock \<Rightarrow> bool" where
  "superblock_wf sb \<longleftrightarrow> length (sb_database_uuid sb) = 16 \<and> sb_root_page_id sb \<noteq> Some NULL_PAGE_ID \<and>
     sb_free_list_head sb \<noteq> Some NULL_PAGE_ID \<and> sb_high_water_page_id sb \<noteq> Some NULL_PAGE_ID"

lemma encode_superblock_iff [result_iff]:
  "encode_superblock crc sb = Inr page \<longleftrightarrow>
     sb_format_version sb = SUPERBLOCK_FORMAT_VERSION \<and> sb_page_size sb = 4096 \<and>
     page = seal crc 90 (superblock_fields sb)"
  by (auto simp: encode_superblock_def result_iff Let_def seal_def superblock_checksum_def)

lemma superblock_fields_segs:
  assumes "length (sb_database_uuid sb) = 16"
  shows "length (superblock_fields sb) = 4096"
    "seg 0 4 (superblock_fields sb) = SUPERBLOCK_MAGIC"
    "seg 4 6 (superblock_fields sb) = to_le_u16 (sb_format_version sb)"
    "seg 6 14 (superblock_fields sb) = to_le_u64 (sb_generation sb)"
    "seg 14 30 (superblock_fields sb) = sb_database_uuid sb"
    "seg 30 38 (superblock_fields sb) = to_le_u64 (sb_tenant_id sb)"
    "seg 38 46 (superblock_fields sb) = to_le_u64 (sb_shard_id sb)"
    "seg 46 54 (superblock_fields sb) = to_le_u64 (sb_shard_epoch sb)"
    "seg 54 58 (superblock_fields sb) = to_le_u32 (sb_page_size sb)"
    "seg 58 66 (superblock_fields sb) = to_le_u64 (encode_page_id (sb_root_page_id sb))"
    "seg 66 74 (superblock_fields sb) = to_le_u64 (encode_page_id (sb_free_list_head sb))"
    "seg 74 82 (superblock_fields sb) = to_le_u64 (encode_page_id (sb_high_water_page_id sb))"
    "seg 82 90 (superblock_fields sb) = to_le_u64 (sb_checkpoint_lsn sb)"
  using assms by (simp_all add: superblock_fields_def bytes_simps)

lemma superblock_sealed:
  assumes "length (sb_database_uuid sb) = 16" and "encode_superblock crc sb = Inr page"
  shows "length page = 4096"
    and "b \<le> 90 \<Longrightarrow> seg a b page = seg a b (superblock_fields sb)"
    and "seg 90 94 page = to_le_u32 (superblock_checksum crc page)"
  using assms superblock_fields_segs(1) [OF assms(1)]
  by (simp_all add: result_iff superblock_checksum_def bytes_simps)

lemma decode_encoded_superblock:
  assumes "superblock_wf sb" and "encode_superblock crc sb = Inr page"
  shows "decode_superblock crc page = Inr (sb\<lparr>sb_checksum := superblock_checksum crc page\<rparr>)"
proof -
  have wf: "length (sb_database_uuid sb) = 16" using assms(1) by (simp add: superblock_wf_def)
  note sealed = superblock_sealed [OF wf assms(2)]
  have v: "sb_format_version sb = SUPERBLOCK_FORMAT_VERSION" "sb_page_size sb = 4096"
    using assms(2) by (simp_all add: encode_superblock_iff)
  show ?thesis
    using assms(1) v
    by (simp add: decode_superblock_def sealed superblock_fields_segs wf decode_encode_page_id
        superblock_wf_def)
qed

interpretation superblock_codec: byte_codec
  "\<lambda>sb. rbind (ensure (superblock_wf sb) InvalidInput) (\<lambda>_. encode_superblock crc sb)"
  "decode_superblock crc"
  "\<lambda>sb. sb\<lparr>sb_checksum := superblock_checksum crc (superblock_fields sb)\<rparr>" for crc
proof
  fix sb bs
  assume enc: "rbind (ensure (superblock_wf sb) InvalidInput) (\<lambda>_. encode_superblock crc sb) = Inr bs"
  then have wf: "superblock_wf sb" and e: "encode_superblock crc sb = Inr bs"
    by (auto simp: rbind_Inr_iff ensure_Inr_iff)
  then have "superblock_checksum crc bs = superblock_checksum crc (superblock_fields sb)"
    using superblock_fields_segs(1) [of sb]
    by (simp add: encode_superblock_iff superblock_checksum_def superblock_wf_def)
  with decode_encoded_superblock [OF wf e]
  show "decode_superblock crc bs = Inr (sb\<lparr>sb_checksum := superblock_checksum crc (superblock_fields sb)\<rparr>)"
    by simp
qed

section \<open>Torn writes\<close>

lemma decode_torn_superblock:
  assumes "length (sb_database_uuid old) = 16" "length (sb_database_uuid new) = 16"
    and "encode_superblock crc old = Inr old_page" "encode_superblock crc new = Inr new_page"
    and "torn = take k new_page @ drop k old_page"
    and "superblock_checksum crc torn \<noteq> from_le_u32 (seg 90 94 torn)"
  shows "decode_superblock crc torn = Inl Corruption"
proof -
  note o = superblock_sealed [OF assms(1,3)] and n = superblock_sealed [OF assms(2,4)]
  have v: "sb_format_version old = sb_format_version new"
    "sb_format_version new = SUPERBLOCK_FORMAT_VERSION"
    using assms(3,4) by (simp_all add: encode_superblock_iff)
  have "seg 0 4 torn = SUPERBLOCK_MAGIC" "seg 4 6 torn = to_le_u16 SUPERBLOCK_FORMAT_VERSION"
    using seg_torn [of new_page old_page] v
    by (simp_all add: assms(5) o n superblock_fields_segs assms(1,2))
  moreover have "length torn = 4096" by (simp add: assms(5) o n)
  ultimately show ?thesis
    using assms(6) by (simp add: decode_superblock_def)
qed

lemma choose_live_A:
  "decode_superblock crc a = Inr live \<Longrightarrow> decode_superblock crc b = Inl Corruption \<or>
     (\<exists>sb. decode_superblock crc b = Inr sb \<and> sb_generation sb < sb_generation live) \<Longrightarrow>
   choose_superblock crc a b = Inr \<lparr>sel_slot = SlotA, sel_superblock = live\<rparr> \<and>
   choose_superblock crc b a = Inr \<lparr>sel_slot = SlotB, sel_superblock = live\<rparr>"
  by (auto simp: choose_superblock_def)

section \<open>Properties\<close>

text \<open>C28: a superblock page is one 4096-byte block and decodes to the superblock it encodes,
  with the checksum filled in, for every checksum function; the absent page reference and
  every page id below the reserved null id survive.\<close>

theorem superblock_roundtrip:
  assumes "superblock_wf sb" and "encode_superblock crc sb = Inr page"
  shows "length page = PAGE_SIZE \<and>
    decode_superblock crc page = Inr (sb\<lparr>sb_checksum := superblock_checksum crc page\<rparr>)"
  using superblock_sealed(1) [OF _ assms(2)] decode_encoded_superblock [OF assms] assms(1)
  by (simp add: superblock_wf_def)

definition sample_superblock :: "u64 \<Rightarrow> superblock" where
  "sample_superblock generation = superblock_new generation (zeros 16) 1 2 3"

lemma sample_superblock:
  "superblock_wf (sample_superblock g)"
  "encode_superblock crc (sample_superblock g) = Inr (seal crc 90 (superblock_fields (sample_superblock g)))"
  "sb_generation (sample_superblock g) = g"
  by (simp_all add: sample_superblock_def superblock_new_def superblock_wf_def encode_superblock_iff length_zeros)

theorem superblock_roundtrip_witness:
  "length (seal (\<lambda>_. 7) 90 (superblock_fields (sample_superblock 4))) = PAGE_SIZE"
  using superblock_roundtrip [OF sample_superblock(1,2)] by blast

text \<open>C27: a crash in the middle of rewriting one superblock slot never loses the database, unless the
  checksum fails to notice it. The live copy sits in one slot and the copy being replaced, of an
  older generation, in the other; an arbitrary prefix of the new copy reaches the disk. Then
  opening selects the live copy, or the new one if it was written completely, in either slot
  order; the only exception is a proper mixture of the two blocks whose checksum, computed by any
  function \<open>crc\<close>, happens to equal the checksum stored in it.\<close>

theorem torn_superblock_survived:
  assumes wf: "superblock_wf live" "superblock_wf old" "superblock_wf new"
    and enc: "encode_superblock crc live = Inr live_page" "encode_superblock crc old = Inr old_page"
      "encode_superblock crc new = Inr new_page"
    and gen: "sb_generation old < sb_generation live" "sb_generation live < sb_generation new"
    and torn: "torn = take k new_page @ drop k old_page"
  shows "torn \<noteq> old_page \<and> torn \<noteq> new_page \<and> superblock_checksum crc torn = from_le_u32 (seg 90 94 torn) \<or>
    choose_superblock crc live_page torn =
      Inr (if torn = new_page
           then \<lparr>sel_slot = SlotB, sel_superblock = new\<lparr>sb_checksum := superblock_checksum crc new_page\<rparr>\<rparr>
           else \<lparr>sel_slot = SlotA, sel_superblock = live\<lparr>sb_checksum := superblock_checksum crc live_page\<rparr>\<rparr>) \<and>
    choose_superblock crc torn live_page =
      Inr (if torn = new_page
           then \<lparr>sel_slot = SlotA, sel_superblock = new\<lparr>sb_checksum := superblock_checksum crc new_page\<rparr>\<rparr>
           else \<lparr>sel_slot = SlotB, sel_superblock = live\<lparr>sb_checksum := superblock_checksum crc live_page\<rparr>\<rparr>)"
proof -
  note live = decode_encoded_superblock [OF wf(1) enc(1)]
    and old = decode_encoded_superblock [OF wf(2) enc(2)]
    and new = decode_encoded_superblock [OF wf(3) enc(3)]
  consider (complete) "torn = new_page" | (untouched) "torn = old_page" "torn \<noteq> new_page"
    | (collision) "torn \<noteq> old_page" "torn \<noteq> new_page" "superblock_checksum crc torn = from_le_u32 (seg 90 94 torn)"
    | (mixed) "torn \<noteq> new_page" "superblock_checksum crc torn \<noteq> from_le_u32 (seg 90 94 torn)" by blast
  then show ?thesis
  proof cases
    case complete
    with choose_live_A [OF new, of live_page] live gen(2) show ?thesis by simp
  next
    case untouched
    with choose_live_A [OF live, of torn] old gen(1) show ?thesis by simp
  next
    case mixed
    from decode_torn_superblock [OF _ _ enc(2,3) torn mixed(2)] wf have "decode_superblock crc torn = Inl Corruption"
      by (simp add: superblock_wf_def)
    with choose_live_A [OF live, of torn] mixed(1) show ?thesis by simp
  qed simp
qed

text \<open>A checksum that reads the generation notices a block with the first 14 bytes of the new copy.\<close>

definition sample_crc :: crc_fun where
  "sample_crc bs = ucast (from_le_u64 (seg 6 14 bs))"

definition sample_block :: "u64 \<Rightarrow> bytes" where
  "sample_block g = seal sample_crc 90 (superblock_fields (sample_superblock g))"

lemma sample_block:
  "encode_superblock sample_crc (sample_superblock g) = Inr (sample_block g)" "length (sample_block g) = 4096"
  "seg 6 14 (sample_block g) = to_le_u64 g" "superblock_checksum sample_crc (sample_block g) = ucast g"
  "seg 90 94 (sample_block g) = to_le_u32 (ucast g)"
proof -
  show enc: "encode_superblock sample_crc (sample_superblock g) = Inr (sample_block g)" unfolding sample_block_def by (rule sample_superblock(2))
  have wf: "length (sb_database_uuid (sample_superblock g)) = 16" using sample_superblock(1) by (simp add: superblock_wf_def)
  note sealed = superblock_sealed [OF wf enc]
  show len: "length (sample_block g) = 4096" by (rule sealed(1))
  show gen: "seg 6 14 (sample_block g) = to_le_u64 g"
    using sealed(2) [of 14 6] superblock_fields_segs(4) [OF wf] by (simp add: sample_superblock(3))
  show sum: "superblock_checksum sample_crc (sample_block g) = ucast g"
    using gen len by (simp add: superblock_checksum_def field_checksum_def sample_crc_def bytes_simps)
  show "seg 90 94 (sample_block g) = to_le_u32 (ucast g)" using sealed(3) sum by simp
qed

theorem torn_superblock_survived_witness:
  "choose_superblock sample_crc (sample_block 2) (take 14 (sample_block 3) @ drop 14 (sample_block 1)) =
     Inr \<lparr>sel_slot = SlotA, sel_superblock = (sample_superblock 2)\<lparr>sb_checksum := superblock_checksum sample_crc (sample_block 2)\<rparr>\<rparr> \<and>
   take 14 (sample_block 3) @ drop 14 (sample_block 1) \<notin> {sample_block 1, sample_block 3}"
proof -
  let ?torn = "take 14 (sample_block 3) @ drop 14 (sample_block 1)"
  have differ: "to_le_u64 1 \<noteq> to_le_u64 3" "to_le_u32 3 \<noteq> to_le_u32 1"
    by (auto dest: arg_cong [where f = from_le_u64] arg_cong [where f = from_le_u32])
  have "seg 6 14 ?torn = to_le_u64 3" "seg 90 94 ?torn = to_le_u32 1" "length ?torn = 4096"
    using sample_block(3) [of 3] sample_block(5) [of 1] by (simp_all add: seg_def sample_block(2) min_def drop_take bytes_simps)
  moreover from this have "superblock_checksum sample_crc ?torn = 3"
    by (simp add: superblock_checksum_def field_checksum_def sample_crc_def bytes_simps)
  ultimately have torn: "superblock_checksum sample_crc ?torn \<noteq> from_le_u32 (seg 90 94 ?torn)" "?torn \<noteq> sample_block 1" "?torn \<noteq> sample_block 3"
    using sample_block(3) [of 1] sample_block(5) [of 3] differ by auto
  from torn_superblock_survived [OF sample_superblock(1) sample_superblock(1) sample_superblock(1)
      sample_block(1) [of 2] sample_block(1) [of 1] sample_block(1) [of 3] _ _ refl, of 14] torn
  show ?thesis by (simp add: sample_superblock(3))
qed

end
