(* ===== verification/Dodb_Format.thy ===== *)
theory Dodb_Format
  imports Dodb_Superblock "HOL-Library.Product_Lexorder"
begin

text \<open>
  The page layouts of the tree, \<open>dodb-storage/src/btree/format.rs\<close>: slotted leaf and internal
  pages, overflow and free pages. The lemmas give the exact capacity of a slotted page and
  the round trip of every page through its bytes.
\<close>

section \<open>Constants and data\<close>

definition BODY_SIZE :: nat where "BODY_SIZE = PAGE_SIZE - PAGE_HEADER_SIZE"
definition LAYOUT_VERSION :: u16 where "LAYOUT_VERSION = 1"
definition INLINE_VALUE_LIMIT :: nat where "INLINE_VALUE_LIMIT = 512"
definition MAX_VALUE_SIZE :: nat where "MAX_VALUE_SIZE = 64 * 1024 * 1024"
definition OVERFLOW_DATA_OFFSET :: nat where "OVERFLOW_DATA_OFFSET = 32"
definition OVERFLOW_DATA_SIZE :: nat where "OVERFLOW_DATA_SIZE = BODY_SIZE - OVERFLOW_DATA_OFFSET"
definition MAX_OVERFLOW_PAGES :: nat where
  "MAX_OVERFLOW_PAGES = (MAX_VALUE_SIZE + OVERFLOW_DATA_SIZE - 1) div OVERFLOW_DATA_SIZE"
definition LEAF_MAGIC :: bytes where "LEAF_MAGIC = [0x4c, 0x45, 0x41, 0x46]"
definition INTERNAL_MAGIC :: bytes where "INTERNAL_MAGIC = [0x49, 0x4e, 0x54, 0x4e]"
definition OVERFLOW_MAGIC :: bytes where "OVERFLOW_MAGIC = [0x4f, 0x56, 0x46, 0x4c]"
definition FREE_MAGIC :: bytes where "FREE_MAGIC = [0x46, 0x52, 0x45, 0x45]"
definition LEAF_HEADER_SIZE :: nat where "LEAF_HEADER_SIZE = 32"
definition INTERNAL_HEADER_SIZE :: nat where "INTERNAL_HEADER_SIZE = 32"
definition SLOT_SIZE :: nat where "SLOT_SIZE = 8"
definition LEAF_RECORD_HEADER_SIZE :: nat where "LEAF_RECORD_HEADER_SIZE = 32"
definition INTERNAL_RECORD_HEADER_SIZE :: nat where "INTERNAL_RECORD_HEADER_SIZE = 12"
definition U16_MAX :: nat where "U16_MAX = 65535"

lemmas format_sizes = BODY_SIZE_def OVERFLOW_DATA_OFFSET_def OVERFLOW_DATA_SIZE_def LEAF_HEADER_SIZE_def
  INTERNAL_HEADER_SIZE_def SLOT_SIZE_def LEAF_RECORD_HEADER_SIZE_def INTERNAL_RECORD_HEADER_SIZE_def
  U16_MAX_def

declare format_sizes [simp]

lemma length_magics [simp]:
  "length LEAF_MAGIC = 4" "length INTERNAL_MAGIC = 4" "length OVERFLOW_MAGIC = 4" "length FREE_MAGIC = 4"
  by (simp_all add: LEAF_MAGIC_def INTERNAL_MAGIC_def OVERFLOW_MAGIC_def FREE_MAGIC_def)

datatype value_ref = Inline bytes | Overflow page_id u64

record leaf_entry =
  le_key :: bytes
  le_revision :: revision
  le_value :: "value_ref option"

record internal_entry =
  ie_key :: bytes
  ie_right_child :: page_id

datatype page_data =
    LeafData lsn "page_id option" "leaf_entry list"
  | InternalData lsn page_id "internal_entry list"
  | OverflowData lsn "page_id option" u64 bytes
  | FreeData lsn "page_id option"

fun pd_page_type :: "page_data \<Rightarrow> page_type" where
  "pd_page_type (LeafData l n es) = LeafPage"
| "pd_page_type (InternalData l c es) = InternalPage"
| "pd_page_type (OverflowData l n t c) = OverflowPage"
| "pd_page_type (FreeData l n) = FreePage"

fun pd_lsn :: "page_data \<Rightarrow> lsn" where
  "pd_lsn (LeafData l n es) = l"
| "pd_lsn (InternalData l c es) = l"
| "pd_lsn (OverflowData l n t c) = l"
| "pd_lsn (FreeData l n) = l"

fun restamp :: "page_data \<Rightarrow> revision \<Rightarrow> lsn \<Rightarrow> page_data" where
  "restamp (LeafData l n es) provisional committed =
     LeafData committed n
       (map (\<lambda>e. if le_revision e = provisional
                 then e\<lparr>le_revision := revision_from_lsn committed\<rparr> else e) es)"
| "restamp (InternalData l c es) provisional committed = InternalData committed c es"
| "restamp (OverflowData l n t c) provisional committed = OverflowData committed n t c"
| "restamp (FreeData l n) provisional committed = FreeData committed n"

section \<open>Shared checks and field readers\<close>

definition check_body_size :: "bytes \<Rightarrow> error + unit" where
  "check_body_size body = ensure (length body = BODY_SIZE) Corruption"

definition read_array :: "nat \<Rightarrow> bytes \<Rightarrow> nat \<Rightarrow> error + bytes" where
  "read_array n bs offset =
     rbind (ok_or (checked_add_usize offset n) Corruption) (\<lambda>stop.
     rbind (ensure (stop \<le> length bs) Corruption) (\<lambda>_.
     Inr (seg offset stop bs)))"

definition read_u16 :: "bytes \<Rightarrow> nat \<Rightarrow> error + u16" where
  "read_u16 bs offset = rbind (read_array 2 bs offset) (\<lambda>f. Inr (from_le_u16 f))"

definition read_u64 :: "bytes \<Rightarrow> nat \<Rightarrow> error + u64" where
  "read_u64 bs offset = rbind (read_array 8 bs offset) (\<lambda>f. Inr (from_le_u64 f))"

definition check_version :: "bytes \<Rightarrow> error + unit" where
  "check_version bs = rbind (read_u16 bs 0) (\<lambda>version. ensure (version = LAYOUT_VERSION) UnsupportedFormat)"

definition all_zero :: "bytes \<Rightarrow> bool" where
  "all_zero bs = (\<not> list_ex (\<lambda>b. b \<noteq> 0) bs)"

definition validate_slot_region :: "nat \<Rightarrow> nat \<Rightarrow> nat \<Rightarrow> nat \<Rightarrow> nat \<Rightarrow> error + unit" where
  "validate_slot_region count slot_end records_start header_size body_len =
     rbind (ok_or (checked_mul_usize count SLOT_SIZE) Corruption) (\<lambda>slots.
     rbind (ok_or (checked_add_usize header_size slots) Corruption) (\<lambda>expected.
     ensure (\<not> (slot_end \<noteq> expected \<or> records_start < slot_end \<or> records_start > body_len \<or> slot_end > body_len))
       Corruption))"

fun windows_all :: "('a \<Rightarrow> 'a \<Rightarrow> bool) \<Rightarrow> 'a list \<Rightarrow> bool" where
  "windows_all P (x # y # xs) = (P x y \<and> windows_all P (y # xs))"
| "windows_all P _ = True"

definition ensure_non_overlapping :: "(nat \<times> nat) list \<Rightarrow> error + unit" where
  "ensure_non_overlapping ranges =
     ensure (windows_all (\<lambda>p q. \<not> snd p > fst q) (sort ranges)) Corruption"

definition ensure_sorted_leaf :: "leaf_entry list \<Rightarrow> error + unit" where
  "ensure_sorted_leaf entries = ensure (windows_all (\<lambda>p q. \<not> le_key p \<ge> le_key q) entries) Corruption"

definition ensure_sorted_internal :: "internal_entry list \<Rightarrow> error + unit" where
  "ensure_sorted_internal entries = ensure (windows_all (\<lambda>p q. \<not> ie_key p \<ge> ie_key q) entries) Corruption"

section \<open>Slotted pages\<close>

text \<open>The loop of \<open>encode_leaf\<close> and \<open>encode_internal\<close> that fills the record area from the end
  of the body, over the reversed entries; the state is (upper, body, slots).\<close>

fun place_records :: "('e \<Rightarrow> error + bytes) \<Rightarrow> ('e \<Rightarrow> bytes) \<Rightarrow> nat \<Rightarrow> 'e list \<Rightarrow>
    nat \<times> bytes \<times> (nat \<times> nat \<times> nat) list \<Rightarrow> error + (nat \<times> bytes \<times> (nat \<times> nat \<times> nat) list)" where
  "place_records rec key slot_bytes [] st = Inr st"
| "place_records rec key slot_bytes (e # es) (upper, body, slots) =
     rbind (rec e) (\<lambda>record.
     rbind (ensure (length record \<le> upper) InvalidInput) (\<lambda>_.
     let upper' = upper - length record in
     rbind (ensure (\<not> upper' < slot_bytes) InvalidInput) (\<lambda>_.
     place_records rec key slot_bytes es
       (upper', blit upper' record body, slots @ [(upper', length record, length (key e))]))))"

fun write_slots :: "nat \<Rightarrow> nat \<Rightarrow> (nat \<times> nat \<times> nat) list \<Rightarrow> bytes \<Rightarrow> bytes" where
  "write_slots header index [] body = body"
| "write_slots header index ((offset, len, key_len) # slots) body =
     (let slot = header + index * SLOT_SIZE in
      write_slots header (index + 1) slots
        (blits [(slot, to_le_u16 (of_nat offset)),
                (slot + 2, to_le_u16 (of_nat len)),
                (slot + 4, to_le_u16 (of_nat key_len))] body))"

definition slot_area :: "nat \<Rightarrow> nat \<Rightarrow> error + nat" where
  "slot_area header count =
     rbind (ok_or (checked_mul_usize count SLOT_SIZE) InvalidInput) (\<lambda>slots.
     ok_or (checked_add_usize header slots) InvalidInput)"

section \<open>Leaf pages\<close>

fun value_fields :: "value_ref option \<Rightarrow> byte \<times> u64 \<times> u64 \<times> bytes" where
  "value_fields None = (0, 0, NULL_PAGE_ID, [])"
| "value_fields (Some (Inline value)) = (1, of_nat (length value), 0, value)"
| "value_fields (Some (Overflow head len)) = (2, len, head, [])"

definition encode_leaf_record :: "leaf_entry \<Rightarrow> error + bytes" where
  "encode_leaf_record entry =
     rbind (ensure (\<not> length (le_key entry) > U16_MAX) InvalidInput) (\<lambda>_.
     rbind (map_err (\<lambda>_. InvalidInput) (decode (le_key entry))) (\<lambda>_.
     case value_fields (le_value entry) of (flags, value_length, aux, inline) \<Rightarrow>
     rbind (ok_or (Option.bind (checked_add_usize LEAF_RECORD_HEADER_SIZE (length (le_key entry)))
                     (\<lambda>len. checked_add_usize len (length inline))) InvalidInput) (\<lambda>record_length.
     Inr (blits [(0, to_le_u64 (le_revision entry)),
                 (8, to_le_u64 value_length),
                 (16, to_le_u64 aux),
                 (24, [flags]),
                 (26, to_le_u16 (of_nat (length (le_key entry)))),
                 (LEAF_RECORD_HEADER_SIZE, le_key entry),
                 (LEAF_RECORD_HEADER_SIZE + length (le_key entry), inline)] (zeros record_length)))))"

definition encode_leaf :: "page_id option \<Rightarrow> leaf_entry list \<Rightarrow> error + bytes" where
  "encode_leaf next_leaf entries =
     rbind (slot_area LEAF_HEADER_SIZE (length entries)) (\<lambda>slot_bytes.
     rbind (ensure (\<not> (length entries > U16_MAX \<or> slot_bytes > BODY_SIZE)) InvalidInput) (\<lambda>_.
     rbind (ensure_sorted_leaf entries) (\<lambda>_.
     let body = blits [(0, LEAF_MAGIC),
                       (4, to_le_u16 LAYOUT_VERSION),
                       (6, to_le_u16 (of_nat (length entries))),
                       (8, to_le_u16 (of_nat slot_bytes)),
                       (12, to_le_u64 (encode_page_id next_leaf))] (zeros BODY_SIZE) in
     rbind (place_records encode_leaf_record le_key slot_bytes (rev entries) (BODY_SIZE, body, []))
       (\<lambda>(upper, body, slots).
     Inr (write_slots LEAF_HEADER_SIZE 0 (rev slots) (blit 10 (to_le_u16 (of_nat upper)) body))))))"

definition leaf_fits :: "leaf_entry list \<Rightarrow> bool" where
  "leaf_fits entries = is_ok (encode_leaf None entries)"

definition decode_leaf_value :: "byte \<Rightarrow> u64 \<Rightarrow> u64 \<Rightarrow> nat \<Rightarrow> bytes \<Rightarrow> error + value_ref option" where
  "decode_leaf_value flags value_length aux key_end bs =
     (if flags = 0 then
        rbind (ensure (\<not> (value_length \<noteq> 0 \<or> aux \<noteq> NULL_PAGE_ID \<or> length bs \<noteq> key_end)) Corruption) (\<lambda>_.
        Inr None)
      else if flags = 1 then
        rbind (ok_or (checked_add_usize key_end (unat value_length)) Corruption) (\<lambda>value_end.
        rbind (ensure (\<not> (value_end \<noteq> length bs \<or> aux \<noteq> 0)) Corruption) (\<lambda>_.
        Inr (Some (Inline (seg key_end value_end bs)))))
      else if flags = 2 then
        rbind (ensure (\<not> (length bs \<noteq> key_end \<or> aux = NULL_PAGE_ID \<or> value_length = 0)) Corruption) (\<lambda>_.
        Inr (Some (Overflow aux value_length)))
      else Inl Corruption)"

definition decode_leaf_record :: "bytes \<Rightarrow> nat \<Rightarrow> error + leaf_entry" where
  "decode_leaf_record bs slot_key_length =
     rbind (read_u64 bs 0) (\<lambda>revision.
     rbind (read_u64 bs 8) (\<lambda>value_length.
     rbind (ensure (\<not> value_length > of_nat MAX_VALUE_SIZE) Corruption) (\<lambda>_.
     rbind (read_u64 bs 16) (\<lambda>aux.
     let flags = bs ! 24 in
     rbind (ensure (\<not> (bs ! 25 \<noteq> 0 \<or> \<not> all_zero (seg 28 32 bs))) Corruption) (\<lambda>_.
     rbind (read_u16 bs 26) (\<lambda>klen.
     let key_length = unat klen in
     rbind (ensure (\<not> key_length \<noteq> slot_key_length) Corruption) (\<lambda>_.
     rbind (ok_or (checked_add_usize LEAF_RECORD_HEADER_SIZE key_length) Corruption) (\<lambda>key_end.
     rbind (ensure (\<not> key_end > length bs) Corruption) (\<lambda>_.
     let key = seg LEAF_RECORD_HEADER_SIZE key_end bs in
     rbind (map_err (\<lambda>_. Corruption) (decode key)) (\<lambda>_.
     rbind (decode_leaf_value flags value_length aux key_end bs) (\<lambda>value.
     Inr \<lparr>le_key = key, le_revision = revision, le_value = value\<rparr>)))))))))))"

text \<open>One turn of the slot loop: the range of the record and the decoded entry.\<close>

definition decode_leaf_slot :: "bytes \<Rightarrow> nat \<Rightarrow> nat \<Rightarrow> error + ((nat \<times> nat) \<times> leaf_entry)" where
  "decode_leaf_slot body records_start index =
     (let slot = LEAF_HEADER_SIZE + index * SLOT_SIZE in
      rbind (read_u16 body slot) (\<lambda>o16.
      rbind (read_u16 body (slot + 2)) (\<lambda>l16.
      rbind (read_u16 body (slot + 4)) (\<lambda>k16.
      let offset = unat o16; len = unat l16; key_length = unat k16 in
      rbind (ok_or (checked_add_usize offset len) Corruption) (\<lambda>stop.
      rbind (ensure (\<not> (offset < records_start \<or> stop > length body \<or> len < LEAF_RECORD_HEADER_SIZE)) Corruption) (\<lambda>_.
      rbind (decode_leaf_record (seg offset stop body) key_length) (\<lambda>entry.
      Inr ((offset, stop), entry))))))))"

definition decode_leaf :: "lsn \<Rightarrow> bytes \<Rightarrow> error + page_data" where
  "decode_leaf l body =
     rbind (check_body_size body) (\<lambda>_.
     rbind (ensure (seg 0 4 body = LEAF_MAGIC) Corruption) (\<lambda>_.
     rbind (check_version (seg 4 6 body)) (\<lambda>_.
     rbind (read_u16 body 6) (\<lambda>count.
     rbind (read_u16 body 8) (\<lambda>slot_end.
     rbind (read_u16 body 10) (\<lambda>records_start.
     rbind (read_u64 body 12) (\<lambda>next.
     rbind (ensure (all_zero (seg 20 32 body)) Corruption) (\<lambda>_.
     rbind (validate_slot_region (unat count) (unat slot_end) (unat records_start) LEAF_HEADER_SIZE (length body)) (\<lambda>_.
     rbind (rmap (decode_leaf_slot body (unat records_start)) [0..<unat count]) (\<lambda>decoded.
     rbind (ensure_non_overlapping (map fst decoded)) (\<lambda>_.
     rbind (ensure_sorted_leaf (map snd decoded)) (\<lambda>_.
     Inr (LeafData l (decode_page_id next) (map snd decoded))))))))))))))"

section \<open>Internal pages\<close>

definition encode_internal_record :: "internal_entry \<Rightarrow> error + bytes" where
  "encode_internal_record entry =
     rbind (ensure (\<not> (length (ie_key entry) > U16_MAX \<or> ie_right_child entry < 2)) InvalidInput) (\<lambda>_.
     rbind (map_err (\<lambda>_. InvalidInput) (decode (ie_key entry))) (\<lambda>_.
     rbind (ok_or (checked_add_usize INTERNAL_RECORD_HEADER_SIZE (length (ie_key entry))) InvalidInput) (\<lambda>record_length.
     Inr (blits [(0, to_le_u16 (of_nat (length (ie_key entry)))),
                 (4, to_le_u64 (ie_right_child entry)),
                 (INTERNAL_RECORD_HEADER_SIZE, ie_key entry)] (zeros record_length)))))"

definition encode_internal :: "page_id \<Rightarrow> internal_entry list \<Rightarrow> error + bytes" where
  "encode_internal leftmost_child entries =
     rbind (ensure (\<not> leftmost_child < 2) InvalidInput) (\<lambda>_.
     rbind (slot_area INTERNAL_HEADER_SIZE (length entries)) (\<lambda>slot_bytes.
     rbind (ensure (\<not> (length entries > U16_MAX \<or> slot_bytes > BODY_SIZE)) InvalidInput) (\<lambda>_.
     rbind (ensure_sorted_internal entries) (\<lambda>_.
     let body = blits [(0, INTERNAL_MAGIC),
                       (4, to_le_u16 LAYOUT_VERSION),
                       (6, to_le_u16 (of_nat (length entries))),
                       (8, to_le_u16 (of_nat slot_bytes)),
                       (12, to_le_u64 leftmost_child)] (zeros BODY_SIZE) in
     rbind (place_records encode_internal_record ie_key slot_bytes (rev entries) (BODY_SIZE, body, []))
       (\<lambda>(upper, body, slots).
     Inr (write_slots INTERNAL_HEADER_SIZE 0 (rev slots) (blit 10 (to_le_u16 (of_nat upper)) body)))))))"

definition internal_fits :: "page_id \<Rightarrow> internal_entry list \<Rightarrow> bool" where
  "internal_fits leftmost_child entries = is_ok (encode_internal leftmost_child entries)"

definition decode_internal_slot :: "bytes \<Rightarrow> nat \<Rightarrow> nat \<Rightarrow> error + ((nat \<times> nat) \<times> internal_entry)" where
  "decode_internal_slot body records_start index =
     (let slot = INTERNAL_HEADER_SIZE + index * SLOT_SIZE in
      rbind (read_u16 body slot) (\<lambda>o16.
      rbind (read_u16 body (slot + 2)) (\<lambda>l16.
      rbind (read_u16 body (slot + 4)) (\<lambda>k16.
      let offset = unat o16; len = unat l16; key_length = unat k16 in
      rbind (ok_or (checked_add_usize offset len) Corruption) (\<lambda>stop.
      rbind (ensure (\<not> (offset < records_start \<or> stop > length body \<or> len < INTERNAL_RECORD_HEADER_SIZE)) Corruption) (\<lambda>_.
      let record = seg offset stop body in
      rbind (read_u16 record 0) (\<lambda>rk16.
      rbind (ensure (\<not> (\<not> all_zero (seg 2 4 record) \<or> unat rk16 \<noteq> key_length)) Corruption) (\<lambda>_.
      rbind (ensure (\<not> length record \<noteq> INTERNAL_RECORD_HEADER_SIZE + key_length) Corruption) (\<lambda>_.
      rbind (read_u64 record 4) (\<lambda>right_child.
      rbind (ensure (\<not> right_child < 2) Corruption) (\<lambda>_.
      let key = drop INTERNAL_RECORD_HEADER_SIZE record in
      rbind (map_err (\<lambda>_. Corruption) (decode key)) (\<lambda>_.
      Inr ((offset, stop), \<lparr>ie_key = key, ie_right_child = right_child\<rparr>)))))))))))))"

definition decode_internal :: "lsn \<Rightarrow> bytes \<Rightarrow> error + page_data" where
  "decode_internal l body =
     rbind (check_body_size body) (\<lambda>_.
     rbind (ensure (seg 0 4 body = INTERNAL_MAGIC) Corruption) (\<lambda>_.
     rbind (check_version (seg 4 6 body)) (\<lambda>_.
     rbind (read_u16 body 6) (\<lambda>count.
     rbind (read_u16 body 8) (\<lambda>slot_end.
     rbind (read_u16 body 10) (\<lambda>records_start.
     rbind (read_u64 body 12) (\<lambda>leftmost_child.
     rbind (ensure (\<not> (leftmost_child < 2 \<or> \<not> all_zero (seg 20 32 body))) Corruption) (\<lambda>_.
     rbind (validate_slot_region (unat count) (unat slot_end) (unat records_start) INTERNAL_HEADER_SIZE (length body)) (\<lambda>_.
     rbind (rmap (decode_internal_slot body (unat records_start)) [0..<unat count]) (\<lambda>decoded.
     rbind (ensure_non_overlapping (map fst decoded)) (\<lambda>_.
     rbind (ensure_sorted_internal (map snd decoded)) (\<lambda>_.
     Inr (InternalData l leftmost_child (map snd decoded))))))))))))))"

section \<open>Overflow and free pages\<close>

definition encode_overflow :: "page_id option \<Rightarrow> u64 \<Rightarrow> bytes \<Rightarrow> error + bytes" where
  "encode_overflow next total_length chunk =
     rbind (ensure (\<not> (total_length = 0 \<or> total_length > of_nat MAX_VALUE_SIZE)) InvalidInput) (\<lambda>_.
     rbind (ensure (\<not> (length chunk > OVERFLOW_DATA_SIZE \<or> length chunk > U16_MAX \<or> chunk = [])) InvalidInput) (\<lambda>_.
     Inr (blits [(0, OVERFLOW_MAGIC),
                 (4, to_le_u16 LAYOUT_VERSION),
                 (8, to_le_u64 (encode_page_id next)),
                 (16, to_le_u64 total_length),
                 (24, to_le_u16 (of_nat (length chunk))),
                 (OVERFLOW_DATA_OFFSET, chunk)] (zeros BODY_SIZE))))"

definition decode_overflow :: "lsn \<Rightarrow> bytes \<Rightarrow> error + page_data" where
  "decode_overflow l body =
     rbind (check_body_size body) (\<lambda>_.
     rbind (ensure (seg 0 4 body = OVERFLOW_MAGIC) Corruption) (\<lambda>_.
     rbind (check_version (seg 4 6 body)) (\<lambda>_.
     rbind (ensure (\<not> (\<not> all_zero (seg 6 8 body) \<or> \<not> all_zero (seg 26 32 body))) Corruption) (\<lambda>_.
     rbind (read_u64 body 8) (\<lambda>next.
     rbind (read_u64 body 16) (\<lambda>total_length.
     rbind (read_u16 body 24) (\<lambda>c16.
     let chunk_length = unat c16 in
     rbind (ensure (\<not> (total_length = 0 \<or> total_length > of_nat MAX_VALUE_SIZE \<or> chunk_length = 0)) Corruption) (\<lambda>_.
     rbind (ensure (\<not> OVERFLOW_DATA_OFFSET + chunk_length > length body) Corruption) (\<lambda>_.
     Inr (OverflowData l (decode_page_id next) total_length
            (seg OVERFLOW_DATA_OFFSET (OVERFLOW_DATA_OFFSET + chunk_length) body)))))))))))"

definition encode_free :: "page_id option \<Rightarrow> error + bytes" where
  "encode_free next =
     Inr (blits [(0, FREE_MAGIC),
                 (4, to_le_u16 LAYOUT_VERSION),
                 (8, to_le_u64 (encode_page_id next))] (zeros BODY_SIZE))"

definition decode_free :: "lsn \<Rightarrow> bytes \<Rightarrow> error + page_data" where
  "decode_free l body =
     rbind (check_body_size body) (\<lambda>_.
     rbind (ensure (seg 0 4 body = FREE_MAGIC) Corruption) (\<lambda>_.
     rbind (check_version (seg 4 6 body)) (\<lambda>_.
     rbind (ensure (\<not> (\<not> all_zero (seg 6 8 body) \<or> \<not> all_zero (drop 16 body))) Corruption) (\<lambda>_.
     rbind (read_u64 body 8) (\<lambda>next.
     Inr (FreeData l (decode_page_id next)))))))"

section \<open>Pages\<close>

fun encode_body :: "page_data \<Rightarrow> error + bytes" where
  "encode_body (LeafData l next entries) = encode_leaf next entries"
| "encode_body (InternalData l child entries) = encode_internal child entries"
| "encode_body (OverflowData l next total_length chunk) = encode_overflow next total_length chunk"
| "encode_body (FreeData l next) = encode_free next"

definition pd_encode :: "crc_fun \<Rightarrow> page_data \<Rightarrow> page_id \<Rightarrow> error + bytes" where
  "pd_encode crc d pid =
     rbind (encode_body d) (\<lambda>body.
     encode_page crc (page_header_new (pd_page_type d) pid (pd_lsn d)) body)"

definition pd_decode :: "decoded_page \<Rightarrow> error + page_data" where
  "pd_decode page =
     rbind (ensure (\<not> ph_flags (dp_header page) \<noteq> 0) Corruption) (\<lambda>_.
     case ph_page_type (dp_header page) of
       LeafPage \<Rightarrow> decode_leaf (ph_page_lsn (dp_header page)) (dp_body page)
     | InternalPage \<Rightarrow> decode_internal (ph_page_lsn (dp_header page)) (dp_body page)
     | OverflowPage \<Rightarrow> decode_overflow (ph_page_lsn (dp_header page)) (dp_body page)
     | FreePage \<Rightarrow> decode_free (ph_page_lsn (dp_header page)) (dp_body page)
     | TestPage \<Rightarrow> Inl Corruption)"

section \<open>Lemmas: field readers\<close>

lemma read_array_ok:
  "offset + n \<le> length bs \<Longrightarrow> length bs \<le> usize_max \<Longrightarrow>
   read_array n bs offset = Inr (seg offset (offset + n) bs)"
  by (simp add: read_array_def checked_add_usize_def)

lemma read_u16_ok:
  "offset + 2 \<le> length bs \<Longrightarrow> length bs \<le> usize_max \<Longrightarrow>
   read_u16 bs offset = Inr (from_le_u16 (seg offset (offset + 2) bs))"
  by (simp add: read_u16_def read_array_ok)

lemma read_u64_ok:
  "offset + 8 \<le> length bs \<Longrightarrow> length bs \<le> usize_max \<Longrightarrow>
   read_u64 bs offset = Inr (from_le_u64 (seg offset (offset + 8) bs))"
  by (simp add: read_u64_def read_array_ok)

lemma all_zero_zeros [simp]: "all_zero (zeros n)"
  by (simp add: all_zero_def zeros_def list_ex_iff)

lemma check_version_ok [simp]: "check_version (to_le_u16 LAYOUT_VERSION) = Inr ()"
  by (simp add: check_version_def read_u16_ok bytes_simps usize_max_def)

lemma rmap_map: "(\<And>x. x \<in> set xs \<Longrightarrow> f x = Inr (g x)) \<Longrightarrow> rmap f xs = Inr (map g xs)"
  by (induction xs) auto

lemma windows_all_iff: "transp P \<Longrightarrow> windows_all P xs \<longleftrightarrow> sorted_wrt P xs"
proof (induction P xs rule: windows_all.induct)
  case (1 P x y xs)
  then show ?case by (auto dest: transpD)
qed simp_all

lemma ensure_sorted_leaf_iff [result_iff]:
  "ensure_sorted_leaf es = Inr u \<longleftrightarrow> sorted_wrt (<) (map le_key es)"
proof -
  have "transp (\<lambda>p q. \<not> le_key p \<ge> le_key q)" by (auto intro!: transpI)
  from windows_all_iff [OF this] show ?thesis
    by (simp add: ensure_sorted_leaf_def result_iff sorted_wrt_map not_le)
qed

lemma ensure_sorted_internal_iff [result_iff]:
  "ensure_sorted_internal es = Inr u \<longleftrightarrow> sorted_wrt (<) (map ie_key es)"
proof -
  have "transp (\<lambda>p q. \<not> ie_key p \<ge> ie_key q)" by (auto intro!: transpI)
  from windows_all_iff [OF this] show ?thesis
    by (simp add: ensure_sorted_internal_def result_iff sorted_wrt_map not_le)
qed

section \<open>Lemmas: the slotted layout\<close>

definition placed :: "('e \<Rightarrow> error + bytes) \<Rightarrow> ('e \<Rightarrow> bytes) \<Rightarrow> bytes \<Rightarrow> 'e \<Rightarrow> nat \<times> nat \<times> nat \<Rightarrow> bool" where
  "placed rec key body e = (\<lambda>(off, len, klen).
     rec e = Inr (seg off (off + len) body) \<and> off + len \<le> length body \<and> klen = length (key e))"

definition slot_within :: "nat \<Rightarrow> nat \<Rightarrow> nat \<times> nat \<times> nat \<Rightarrow> bool" where
  "slot_within lo hi s \<longleftrightarrow> lo \<le> fst s \<and> fst s + fst (snd s) \<le> hi"

definition slot_before :: "nat \<times> nat \<times> nat \<Rightarrow> nat \<times> nat \<times> nat \<Rightarrow> bool" where
  "slot_before s s' \<longleftrightarrow> fst s + fst (snd s) \<le> fst s'"

lemma place_records_sound:
  "place_records rec key sb es (upper, body, slots) = Inr (upper', body', slots') \<Longrightarrow>
   upper \<le> length body \<Longrightarrow> sb \<le> upper \<Longrightarrow>
   length body' = length body \<and> sb \<le> upper' \<and> upper' \<le> upper \<and>
   (\<forall>a b. b \<le> upper' \<or> upper \<le> a \<longrightarrow> seg a b body' = seg a b body) \<and>
   (\<exists>new. slots' = slots @ new \<and> list_all2 (placed rec key body') es new \<and>
     list_all (slot_within upper' upper) new \<and> sorted_wrt (\<lambda>s s'. slot_before s' s) new)"
proof (induction es arbitrary: upper body slots)
  case (Cons e es)
  from Cons.prems(1) obtain r where r: "rec e = Inr r" "length r \<le> upper" "sb \<le> upper - length r"
    and rest: "place_records rec key sb es (upper - length r, blit (upper - length r) r body,
      slots @ [(upper - length r, length r, length (key e))]) = Inr (upper', body', slots')"
    by (auto simp: result_iff Let_def not_less)
  let ?u = "upper - length r" and ?b = "blit (upper - length r) r body"
  have fit: "?u + length r \<le> length body" using r Cons.prems(2) by simp
  have lb: "length ?b = length body" using fit by (rule length_blit)
  obtain new where IH: "length body' = length body" "sb \<le> upper'" "upper' \<le> ?u"
    "\<And>a b. b \<le> upper' \<or> ?u \<le> a \<Longrightarrow> seg a b body' = seg a b ?b"
    "slots' = (slots @ [(?u, length r, length (key e))]) @ new"
    "list_all2 (placed rec key body') es new"
    "list_all (slot_within upper' ?u) new" "sorted_wrt (\<lambda>s s'. slot_before s' s) new"
    using Cons.IH [OF rest] r(3) fit lb by auto
  have frame: "seg a b body' = seg a b body" if "b \<le> upper' \<or> upper \<le> a" for a b
  proof -
    have "seg a b body' = seg a b ?b" using that by (intro IH(4)) linarith
    also have "\<dots> = seg a b body"
      using that IH(3) r(2) fit by (auto simp: seg_blit_below seg_blit_above)
    finally show ?thesis .
  qed
  have "seg ?u upper body' = r"
    using IH(4) [of upper ?u] r(2) fit by (simp add: seg_blit_same)
  then have here: "placed rec key body' e (?u, length r, length (key e))"
    using r fit IH(1) by (simp add: placed_def)
  show ?case
    using IH frame here r(2)
    by (intro conjI exI [of _ "(?u, length r, length (key e)) # new"])
      (auto simp: list_all_iff slot_within_def slot_before_def)
qed auto

lemma place_records_ok_iff:
  "sb \<le> upper \<Longrightarrow>
   is_ok (place_records rec key sb es (upper, body, slots)) \<longleftrightarrow>
     (\<forall>e \<in> set es. is_ok (rec e)) \<and> sb + (\<Sum>e\<leftarrow>es. case rec e of Inl _ \<Rightarrow> 0 | Inr r \<Rightarrow> length r) \<le> upper"
proof (induction es arbitrary: upper body slots)
  case (Cons e es)
  show ?case
  proof (cases "rec e")
    case (Inr r)
    show ?thesis
    proof (cases "length r \<le> upper \<and> sb \<le> upper - length r")
      case True
      with Inr Cons.IH [of "upper - length r"] show ?thesis
        by (auto simp: Let_def ensure_def)
    next
      case False
      then have "\<not> sb + length r \<le> upper" using Cons.prems by auto
      with False Inr show ?thesis by (auto simp: Let_def ensure_def)
    qed
  qed simp
qed simp

definition slot_at :: "nat \<Rightarrow> bytes \<Rightarrow> nat \<Rightarrow> nat \<times> nat \<times> nat \<Rightarrow> bool" where
  "slot_at header body index = (\<lambda>(off, len, klen). let slot = header + index * 8 in
     seg slot (slot + 2) body = to_le_u16 (of_nat off) \<and>
     seg (slot + 2) (slot + 4) body = to_le_u16 (of_nat len) \<and>
     seg (slot + 4) (slot + 6) body = to_le_u16 (of_nat klen))"

lemma write_slots_frame:
  "header + (index + length slots) * 8 \<le> length body \<Longrightarrow>
   length (write_slots header index slots body) = length body \<and>
   (\<forall>a b. b \<le> header + index * 8 \<or> header + (index + length slots) * 8 \<le> a \<longrightarrow> b \<le> length body \<longrightarrow>
      seg a b (write_slots header index slots body) = seg a b body)"
proof (induction slots arbitrary: index body)
  case (Cons s slots)
  obtain off len klen where s: "s = (off, len, klen)" by (cases s) auto
  let ?slot = "header + index * 8"
  let ?ws = "[(?slot, to_le_u16 (of_nat off)), (?slot + 2, to_le_u16 (of_nat len)),
      (?slot + 4, to_le_u16 (of_nat klen))]"
  have fit: "fits ?ws (length body)" using Cons.prems by (simp add: length_to_le)
  then have len: "length (blits ?ws body) = length body" by (rule length_blits)
  have "seg a b (blits ?ws body) = seg a b body"
    if "b \<le> ?slot \<or> ?slot + 8 \<le> a" for a b
    using that fit by (intro seg_blits_clear) (auto simp: length_to_le)
  with Cons.IH [of "index + 1" "blits ?ws body"] Cons.prems len show ?case
    by (auto simp: s Let_def algebra_simps)
qed simp

lemma write_slots_at:
  "header + (index + length slots) * 8 \<le> length body \<Longrightarrow> j < length slots \<Longrightarrow>
   slot_at header (write_slots header index slots body) (index + j) (slots ! j)"
proof (induction slots arbitrary: index body j)
  case (Cons s slots)
  obtain off len klen where s: "s = (off, len, klen)" by (cases s) auto
  let ?slot = "header + index * 8"
  let ?ws = "[(?slot, to_le_u16 (of_nat off)), (?slot + 2, to_le_u16 (of_nat len)),
      (?slot + 4, to_le_u16 (of_nat klen))]"
  have fit: "fits ?ws (length body)" using Cons.prems by (simp add: length_to_le)
  then have len: "length (blits ?ws body) = length body" by (rule length_blits)
  have bound: "header + (index + 1 + length slots) * 8 \<le> length (blits ?ws body)"
    using Cons.prems len by simp
  show ?case
  proof (cases j)
    case 0
    have "seg a b (write_slots header (index + 1) slots (blits ?ws body)) = seg a b (blits ?ws body)"
      if "b \<le> header + (index + 1) * 8" for a b
      using write_slots_frame [OF bound] that Cons.prems len by auto
    with 0 fit show ?thesis
      by (simp add: s slot_at_def Let_def bytes_simps)
  next
    case (Suc j')
    with Cons.IH [OF bound, of j'] Cons.prems show ?thesis by (simp add: s Let_def)
  qed
qed simp

lemma slotted_layout:
  assumes place: "place_records rec key sb (rev entries) (4064, body, []) = Inr (upper, body', slots)"
    and len: "length body = 4064" and sb: "sb = 32 + length entries * 8" "sb \<le> 4064"
  defines "final \<equiv> write_slots 32 0 (rev slots) (blit 10 (to_le_u16 (of_nat upper)) body')"
  shows "length final = 4064" and "sb \<le> upper" and "upper \<le> 4064"
    and "seg 10 12 final = to_le_u16 (of_nat upper)"
    and "b \<le> 10 \<or> 12 \<le> a \<and> b \<le> 32 \<Longrightarrow> seg a b final = seg a b body"
    and "length slots = length entries"
    and "i < length entries \<Longrightarrow> slot_at 32 final i (rev slots ! i) \<and>
      placed rec key final (entries ! i) (rev slots ! i) \<and> slot_within upper 4064 (rev slots ! i)"
    and "sorted_wrt slot_before (rev slots)"
proof -
  from place_records_sound [OF place] len sb have P: "length body' = 4064" "sb \<le> upper" "upper \<le> 4064"
    "\<And>a b. b \<le> upper \<or> 4064 \<le> a \<Longrightarrow> seg a b body' = seg a b body"
    "list_all2 (placed rec key body') (rev entries) slots" "list_all (slot_within upper 4064) slots"
    "sorted_wrt (\<lambda>s s'. slot_before s' s) slots" by auto
  show n: "length slots = length entries" using P(5) by (auto dest: list_all2_lengthD)
  let ?b = "blit 10 (to_le_u16 (of_nat upper)) body'"
  have lb: "length ?b = 4064" using P by (simp add: bytes_simps)
  have bound: "32 + (0 + length (rev slots)) * 8 \<le> length ?b" using lb n sb by simp
  from write_slots_frame [OF bound] lb n sb
  have F: "length final = 4064" "\<And>a b. b \<le> 32 \<or> sb \<le> a \<Longrightarrow> b \<le> 4064 \<Longrightarrow> seg a b final = seg a b ?b"
    by (auto simp: final_def)
  show "length final = 4064" "sb \<le> upper" "upper \<le> 4064" using F P by auto
  show "seg 10 12 final = to_le_u16 (of_nat upper)" using F(2) [of 12 10] P by (simp add: bytes_simps)
  show "seg a b final = seg a b body" if "b \<le> 10 \<or> 12 \<le> a \<and> b \<le> 32"
    using that F(2) [of b a] P(1,2) P(4) [of b a] sb
    by (auto simp: bytes_simps)
  show "sorted_wrt slot_before (rev slots)" using P(7) by (simp add: sorted_wrt_rev)
  show "slot_at 32 final i (rev slots ! i) \<and> placed rec key final (entries ! i) (rev slots ! i) \<and>
      slot_within upper 4064 (rev slots ! i)" if i: "i < length entries"
  proof -
    have within: "slot_within upper 4064 (rev slots ! i)"
      using P(6) i n by (simp add: list_all_iff rev_nth)
    have "list_all2 (placed rec key body') entries (rev slots)"
      using P(5) by (metis list_all2_rev rev_rev_ident)
    then have "placed rec key body' (entries ! i) (rev slots ! i)"
      using i by (rule list_all2_nthD)
    moreover have "seg a b final = seg a b body'" if "upper \<le> a" "b \<le> 4064" for a b
      using F(2) [of b a] that P sb by (simp add: bytes_simps)
    ultimately have "placed rec key final (entries ! i) (rev slots ! i)"
      using within F(1) P(1) by (cases "rev slots ! i") (simp add: placed_def slot_within_def)
    with within write_slots_at [OF bound, of i] i n show ?thesis
      by (simp add: final_def)
  qed
qed

lemma slot_ranges_ok:
  assumes "sorted_wrt slot_before slots" and "\<And>s. s \<in> set slots \<Longrightarrow> 0 < fst (snd s)"
  shows "ensure_non_overlapping (map (\<lambda>s. (fst s, fst s + fst (snd s))) slots) = Inr ()"
proof -
  let ?f = "\<lambda>s :: nat \<times> nat \<times> nat. (fst s, fst s + fst (snd s))"
  have s: "sorted_wrt (\<lambda>p q. ?f p \<le> ?f q \<and> snd (?f p) \<le> fst (?f q)) slots"
  proof (rule sorted_wrt_mono_rel [OF _ assms(1)])
    fix p q assume "p \<in> set slots" "q \<in> set slots" "slot_before p q"
    then show "?f p \<le> ?f q \<and> snd (?f p) \<le> fst (?f q)"
      using assms(2) [of p] by (auto simp: slot_before_def less_eq_prod_def)
  qed
  then have "sorted (map ?f slots)" by (simp add: sorted_wrt_map, rule sorted_wrt_mono_rel [rotated], auto)
  then have sort: "sort (map ?f slots) = map ?f slots" by (rule sorted_sort_id)
  have W: "sorted_wrt P xs \<Longrightarrow> windows_all P xs" for P :: "'a \<Rightarrow> 'a \<Rightarrow> bool" and xs
    by (induction P xs rule: windows_all.induct) auto
  have "windows_all (\<lambda>p q. \<not> snd p > fst q) (map ?f slots)"
    by (rule W, use s in \<open>simp add: sorted_wrt_map not_less\<close>, rule sorted_wrt_mono_rel [rotated], assumption, simp)
  then show ?thesis unfolding ensure_non_overlapping_def sort by simp
qed

section \<open>Lemmas: leaf pages\<close>

definition leaf_entry_wf :: "leaf_entry \<Rightarrow> bool" where
  "leaf_entry_wf e \<longleftrightarrow> (case le_value e of Some (Overflow head len) \<Rightarrow>
     head \<noteq> NULL_PAGE_ID \<and> len \<noteq> 0 \<and> len \<le> of_nat MAX_VALUE_SIZE | _ \<Rightarrow> True)"

definition inline_bytes :: "value_ref option \<Rightarrow> bytes" where
  "inline_bytes v = snd (snd (snd (value_fields v)))"

definition leaf_record_size :: "leaf_entry \<Rightarrow> nat" where
  "leaf_record_size e = LEAF_RECORD_HEADER_SIZE + length (le_key e) + length (inline_bytes (le_value e))"

definition leaf_record_fields :: "leaf_entry \<Rightarrow> bytes" where
  "leaf_record_fields e = (case value_fields (le_value e) of (flags, value_length, aux, inline) \<Rightarrow>
     blits [(0, to_le_u64 (le_revision e)), (8, to_le_u64 value_length), (16, to_le_u64 aux),
       (24, [flags]), (26, to_le_u16 (of_nat (length (le_key e)))), (32, le_key e),
       (32 + length (le_key e), inline)] (zeros (leaf_record_size e)))"

lemma encode_leaf_record_iff [result_iff]:
  "encode_leaf_record e = Inr r \<longleftrightarrow>
     length (le_key e) \<le> 65535 \<and> (\<exists>k. decode (le_key e) = Inr k) \<and>
     leaf_record_size e \<le> usize_max \<and> r = leaf_record_fields e"
  by (cases "value_fields (le_value e)")
    (auto simp: encode_leaf_record_def result_iff leaf_record_fields_def leaf_record_size_def
      inline_bytes_def checked_add_usize_def not_less Option.bind_eq_Some_conv split: if_splits)

lemma leaf_record_segs:
  assumes "value_fields (le_value e) = (flags, value_length, aux, inline)"
  shows "length (leaf_record_fields e) = 32 + length (le_key e) + length inline"
    "seg 0 8 (leaf_record_fields e) = to_le_u64 (le_revision e)"
    "seg 8 16 (leaf_record_fields e) = to_le_u64 value_length"
    "seg 16 24 (leaf_record_fields e) = to_le_u64 aux"
    "seg 24 25 (leaf_record_fields e) = [flags]"
    "seg 25 26 (leaf_record_fields e) = zeros 1"
    "seg 26 28 (leaf_record_fields e) = to_le_u16 (of_nat (length (le_key e)))"
    "seg 28 32 (leaf_record_fields e) = zeros 4"
    "seg 32 (32 + length (le_key e)) (leaf_record_fields e) = le_key e"
    "seg (32 + length (le_key e)) (32 + length (le_key e) + length inline) (leaf_record_fields e) = inline"
  using assms by (simp_all add: leaf_record_fields_def leaf_record_size_def inline_bytes_def bytes_simps)

lemma length_leaf_record: "encode_leaf_record e = Inr r \<Longrightarrow> length r = leaf_record_size e"
  by (cases "value_fields (le_value e)")
    (auto simp: result_iff leaf_record_segs leaf_record_size_def inline_bytes_def)

lemma decode_leaf_record_encoded:
  assumes "encode_leaf_record e = Inr r" and "leaf_entry_wf e" and "length r \<le> 65535"
  shows "decode_leaf_record r (length (le_key e)) = Inr e"
proof -
  obtain flags vl aux inline where v: "value_fields (le_value e) = (flags, vl, aux, inline)"
    by (cases "value_fields (le_value e)")
  have r: "r = leaf_record_fields e" and key: "length (le_key e) \<le> 65535"
    and canon: "\<exists>k. decode (le_key e) = Inr k" using assms(1) by (auto simp: result_iff)
  note segs = leaf_record_segs [OF v, folded r]
  have us: "length r \<le> usize_max" using assms(3) by (simp add: usize_max_def)
  have "r ! 24 = flags" "r ! 25 = 0"
    using nth_eq_seg [of 24 r] nth_eq_seg [of 25 r] by (simp_all add: segs zeros_def)
  moreover have "\<not> vl > of_nat MAX_VALUE_SIZE"
    using v assms(2,3) segs(1)
    by (auto simp: leaf_entry_wf_def word_less_nat_alt word_le_nat_alt MAX_VALUE_SIZE_def
        unat_of_nat_u64 usize_max_def split: option.splits value_ref.splits)
  moreover have "decode_leaf_value flags vl aux (32 + length (le_key e)) r = Inr (le_value e)"
    using v assms(2,3) segs(1,10) us
    by (auto simp: decode_leaf_value_def leaf_entry_wf_def unat_of_nat_u64 checked_add_usize_def
        usize_max_def split: option.splits value_ref.splits)
  moreover have "32 + length (le_key e) \<le> usize_max" using us segs(1) by simp
  ultimately show ?thesis
    using canon us segs key
    by (auto simp: decode_leaf_record_def read_u64_ok read_u16_ok unat_of_nat_u16 checked_add_usize_def)
qed

lemma slot_area_iff [result_iff]: "slot_area h n = Inr sb \<longleftrightarrow> h + n * 8 \<le> usize_max \<and> sb = h + n * 8"
  by (auto simp: slot_area_def result_iff checked_mul_usize_def checked_add_usize_def split: if_splits)

definition slotted_header :: "bytes \<Rightarrow> nat \<Rightarrow> u64 \<Rightarrow> bytes" where
  "slotted_header magic n link =
     blits [(0, magic), (4, to_le_u16 LAYOUT_VERSION), (6, to_le_u16 (of_nat n)),
            (8, to_le_u16 (of_nat (32 + n * 8))), (12, to_le_u64 link)] (zeros 4064)"

lemma slotted_header_segs:
  assumes "length magic = 4"
  shows "length (slotted_header magic n link) = 4064"
    "seg 0 4 (slotted_header magic n link) = magic"
    "seg 4 6 (slotted_header magic n link) = to_le_u16 LAYOUT_VERSION"
    "seg 6 8 (slotted_header magic n link) = to_le_u16 (of_nat n)"
    "seg 8 10 (slotted_header magic n link) = to_le_u16 (of_nat (32 + n * 8))"
    "seg 12 20 (slotted_header magic n link) = to_le_u64 link"
    "seg 20 32 (slotted_header magic n link) = zeros 12"
  using assms by (simp_all add: slotted_header_def bytes_simps)

lemma encode_leaf_iff:
  "encode_leaf next es = Inr bs \<longleftrightarrow>
     32 + length es * 8 \<le> 4064 \<and> sorted_wrt (<) (map le_key es) \<and>
     (\<exists>upper body slots. place_records encode_leaf_record le_key (32 + length es * 8) (rev es)
         (4064, slotted_header LEAF_MAGIC (length es) (encode_page_id next), []) = Inr (upper, body, slots) \<and>
       bs = write_slots 32 0 (rev slots) (blit 10 (to_le_u16 (of_nat upper)) body))"
  by (auto simp: encode_leaf_def result_iff slotted_header_def Let_def not_less usize_max_def)

lemma decode_slot_fields:
  assumes "slot_at 32 body i (off, len, klen)" and "length body = 4064" and "32 + (i + 1) * 8 \<le> 4064"
    and "off + len \<le> 4064" and "klen \<le> 65535"
  shows "read_u16 body (32 + i * 8) = Inr (of_nat off)" "read_u16 body (32 + i * 8 + 2) = Inr (of_nat len)"
    "read_u16 body (32 + i * 8 + 4) = Inr (of_nat klen)"
    "unat (of_nat off :: u16) = off" "unat (of_nat len :: u16) = len" "unat (of_nat klen :: u16) = klen"
proof -
  have "(32 + i * 8) + 2 = 34 + i * 8" "(32 + i * 8 + 2) + 2 = 36 + i * 8" "(32 + i * 8 + 4) + 2 = 38 + i * 8"
    by simp_all
  with assms show "read_u16 body (32 + i * 8) = Inr (of_nat off)"
    "read_u16 body (32 + i * 8 + 2) = Inr (of_nat len)" "read_u16 body (32 + i * 8 + 4) = Inr (of_nat klen)"
    by (simp_all add: read_u16_ok usize_max_def slot_at_def Let_def add.commute add.left_commute)
  show "unat (of_nat off :: u16) = off" "unat (of_nat len :: u16) = len" "unat (of_nat klen :: u16) = klen"
    using assms by (simp_all add: unat_of_nat_u16)
qed

lemma map_nth_slots: "length slots = n \<Longrightarrow> map (\<lambda>i. f (slots ! i)) [0..<n] = map f slots"
  by (metis map_map map_nth comp_def map_cong)

lemma slotted_loop:
  assumes len: "length sl = length es" and sorted: "sorted_wrt slot_before sl"
    and slot: "\<And>i. i < length es \<Longrightarrow>
      dec i = Inr ((fst (sl ! i), fst (sl ! i) + fst (snd (sl ! i))), es ! i) \<and> 0 < fst (snd (sl ! i))"
  shows "\<exists>decoded. rmap dec [0..<length es] = Inr decoded \<and> map snd decoded = es \<and>
    ensure_non_overlapping (map fst decoded) = Inr ()"
proof -
  let ?g = "\<lambda>i. ((fst (sl ! i), fst (sl ! i) + fst (snd (sl ! i))), es ! i)"
  have loop: "rmap dec [0..<length es] = Inr (map ?g [0..<length es])"
    by (rule rmap_map) (simp add: slot)
  have snds: "map snd (map ?g [0..<length es]) = es" by (simp add: comp_def map_nth)
  have fsts: "map fst (map ?g [0..<length es]) = map (\<lambda>s. (fst s, fst s + fst (snd s))) sl"
    using map_nth_slots [OF len, of "\<lambda>s. (fst s, fst s + fst (snd s))"] by (simp add: comp_def)
  have "ensure_non_overlapping (map fst (map ?g [0..<length es])) = Inr ()"
    unfolding fsts by (rule slot_ranges_ok [OF sorted]) (metis slot len in_set_conv_nth)
  with loop snds show ?thesis by blast
qed

lemma slotted_numbers:
  assumes "32 + n * 8 \<le> 4064" and "32 + n * 8 \<le> upper" and "upper \<le> 4064"
  shows "unat (of_nat n :: u16) = n" "unat (of_nat (32 + n * 8) :: u16) = 32 + n * 8"
    "unat (of_nat upper :: u16) = upper" "validate_slot_region n (32 + n * 8) upper 32 4064 = Inr ()"
  using assms by (simp_all add: unat_of_nat_u16 validate_slot_region_def checked_mul_usize_def
      checked_add_usize_def usize_max_def del: of_nat_add of_nat_mult)

lemma decode_leaf_slot_encoded:
  assumes at: "slot_at 32 bs i s" and placed: "placed encode_leaf_record le_key bs e s"
    and within: "slot_within upper 4064 s" and len: "length bs = 4064" "32 + (i + 1) * 8 \<le> 4064"
    and wf: "leaf_entry_wf e"
  shows "decode_leaf_slot bs upper i = Inr ((fst s, fst s + fst (snd s)), e) \<and> 0 < fst (snd s)"
proof -
  obtain off rl klen where s: "s = (off, rl, klen)" by (cases s)
  have rec: "encode_leaf_record e = Inr (seg off (off + rl) bs)" and k: "klen = length (le_key e)"
    and off: "upper \<le> off" "off + rl \<le> 4064"
    using placed within by (auto simp: s placed_def slot_within_def)
  have rl: "rl = leaf_record_size e" using length_leaf_record [OF rec] off len by (simp add: length_seg)
  have kb: "klen \<le> 65535" "32 \<le> rl" using rl k off by (simp_all add: leaf_record_size_def)
  have "decode_leaf_record (seg off (off + rl) bs) klen = Inr e"
    unfolding k by (rule decode_leaf_record_encoded [OF rec wf]) (use off in \<open>simp add: length_seg\<close>)
  with decode_slot_fields [OF at [unfolded s] len off(2) kb(1)] kb off len show ?thesis
    by (simp add: s decode_leaf_slot_def checked_add_usize_def usize_max_def)
qed

lemma decode_leaf_encoded:
  assumes enc: "encode_leaf next es = Inr bs" and wf: "\<forall>e \<in> set es. leaf_entry_wf e"
    and link: "next \<noteq> Some NULL_PAGE_ID"
  shows "decode_leaf l bs = Inr (LeafData l next es) \<and> length bs = 4064"
proof -
  obtain upper body slots where n: "32 + length es * 8 \<le> 4064" and sorted: "sorted_wrt (<) (map le_key es)"
    and place: "place_records encode_leaf_record le_key (32 + length es * 8) (rev es)
         (4064, slotted_header LEAF_MAGIC (length es) (encode_page_id next), []) = Inr (upper, body, slots)"
    and bs: "bs = write_slots 32 0 (rev slots) (blit 10 (to_le_u16 (of_nat upper)) body)"
    using enc by (auto simp: encode_leaf_iff)
  note L = slotted_layout [OF place slotted_header_segs(1) [OF length_magics(1)] refl n, folded bs]
  note H = slotted_header_segs [OF length_magics(1), of "length es" "encode_page_id next"]
  have slot: "decode_leaf_slot bs upper i = Inr ((fst (rev slots ! i), fst (rev slots ! i) + fst (snd (rev slots ! i))), es ! i)
      \<and> 0 < fst (snd (rev slots ! i))" if "i < length es" for i
    using that n wf L(1) L(7) [OF that] by (intro decode_leaf_slot_encoded) auto
  from L(6) have "length (rev slots) = length es" by simp
  from slotted_loop [of "rev slots" es, OF this L(8) slot]
  obtain decoded where loop: "rmap (decode_leaf_slot bs upper) [0..<length es] = Inr decoded"
    "map snd decoded = es" "ensure_non_overlapping (map fst decoded) = Inr ()" by blast
  have "ensure_sorted_leaf es = Inr ()" using sorted by (simp add: ensure_sorted_leaf_iff)
  with slotted_numbers [OF n L(2,3)] L(1) loop link show ?thesis
    by (simp add: decode_leaf_def check_body_size_def read_u16_ok read_u64_ok usize_max_def L(4) L(5) H
        decode_encode_page_id del: of_nat_add of_nat_mult map_map)
qed

section \<open>Lemmas: internal pages\<close>

lemma read_u16_0: "2 \<le> length bs \<Longrightarrow> length bs \<le> usize_max \<Longrightarrow> read_u16 bs 0 = Inr (from_le_u16 (seg 0 2 bs))"
  using read_u16_ok [of 0 bs] by (simp del: add_2_eq_Suc')

definition internal_record_fields :: "internal_entry \<Rightarrow> bytes" where
  "internal_record_fields e =
     blits [(0, to_le_u16 (of_nat (length (ie_key e)))), (4, to_le_u64 (ie_right_child e)),
       (12, ie_key e)] (zeros (12 + length (ie_key e)))"

lemma encode_internal_record_iff [result_iff]:
  "encode_internal_record e = Inr r \<longleftrightarrow>
     length (ie_key e) \<le> 65535 \<and> 2 \<le> ie_right_child e \<and> (\<exists>k. decode (ie_key e) = Inr k) \<and>
     r = internal_record_fields e"
  by (auto simp: encode_internal_record_def result_iff internal_record_fields_def
      checked_add_usize_def usize_max_def not_less split: if_splits)

lemma internal_record_segs:
  "length (internal_record_fields e) = 12 + length (ie_key e)"
  "seg 0 2 (internal_record_fields e) = to_le_u16 (of_nat (length (ie_key e)))"
  "seg 2 4 (internal_record_fields e) = zeros 2"
  "seg 4 12 (internal_record_fields e) = to_le_u64 (ie_right_child e)"
  "seg 12 (12 + length (ie_key e)) (internal_record_fields e) = ie_key e"
  by (simp_all add: internal_record_fields_def bytes_simps)

lemma encode_internal_iff:
  "encode_internal child es = Inr bs \<longleftrightarrow>
     2 \<le> child \<and> 32 + length es * 8 \<le> 4064 \<and> sorted_wrt (<) (map ie_key es) \<and>
     (\<exists>upper body slots. place_records encode_internal_record ie_key (32 + length es * 8) (rev es)
         (4064, slotted_header INTERNAL_MAGIC (length es) child, []) = Inr (upper, body, slots) \<and>
       bs = write_slots 32 0 (rev slots) (blit 10 (to_le_u16 (of_nat upper)) body))"
  by (auto simp: encode_internal_def result_iff slotted_header_def Let_def not_less usize_max_def)

lemma decode_internal_slot_encoded:
  assumes at: "slot_at 32 bs i s" and placed: "placed encode_internal_record ie_key bs e s"
    and within: "slot_within upper 4064 s" and len: "length bs = 4064" "32 + (i + 1) * 8 \<le> 4064"
  shows "decode_internal_slot bs upper i = Inr ((fst s, fst s + fst (snd s)), e) \<and> 0 < fst (snd s)"
proof -
  obtain off rl klen where s: "s = (off, rl, klen)" by (cases s)
  have rec: "encode_internal_record e = Inr (seg off (off + rl) bs)" and k: "klen = length (ie_key e)"
    and off: "upper \<le> off" "off + rl \<le> 4064"
    using placed within by (auto simp: s placed_def slot_within_def)
  define r where "r = seg off (off + rl) bs"
  have enc: "r = internal_record_fields e" "2 \<le> ie_right_child e" "\<exists>k. decode (ie_key e) = Inr k"
    "length (ie_key e) \<le> 65535" using rec by (auto simp: result_iff r_def)
  note R = internal_record_segs [of e, folded enc(1)]
  have rl: "rl = 12 + length (ie_key e)"
    using R(1) off len by (simp add: r_def length_seg)
  have "read_u16 r 0 = Inr (of_nat (length (ie_key e)))" "read_u64 r 4 = Inr (ie_right_child e)"
    using R off rl by (simp_all add: read_u16_0 read_u64_ok usize_max_def)
  moreover have "drop 12 r = ie_key e" using R(1,5) seg_drop [of r "12 + length (ie_key e)" 12] by simp
  moreover have "klen \<le> 65535" using enc(4) k by simp
  note decode_slot_fields [OF at [unfolded s] len off(2) this]
  moreover have "seg off (off + (12 + length (ie_key e))) bs = r" by (simp add: r_def rl)
  ultimately show ?thesis
    using off len enc(2-4) R(1,3) rl k
    by (auto simp: s decode_internal_slot_def checked_add_usize_def usize_max_def unat_of_nat_u16 not_less Let_def)
qed

lemma decode_internal_encoded:
  assumes enc: "encode_internal child es = Inr bs"
  shows "decode_internal l bs = Inr (InternalData l child es) \<and> length bs = 4064"
proof -
  obtain upper body slots where n: "32 + length es * 8 \<le> 4064" and sorted: "sorted_wrt (<) (map ie_key es)"
    and place: "place_records encode_internal_record ie_key (32 + length es * 8) (rev es)
         (4064, slotted_header INTERNAL_MAGIC (length es) child, []) = Inr (upper, body, slots)"
    and bs: "bs = write_slots 32 0 (rev slots) (blit 10 (to_le_u16 (of_nat upper)) body)"
    and child: "2 \<le> child"
    using enc by (auto simp: encode_internal_iff)
  note L = slotted_layout [OF place slotted_header_segs(1) [OF length_magics(2)] refl n, folded bs]
  note H = slotted_header_segs [OF length_magics(2), of "length es" child]
  have slot: "decode_internal_slot bs upper i = Inr ((fst (rev slots ! i), fst (rev slots ! i) + fst (snd (rev slots ! i))), es ! i)
      \<and> 0 < fst (snd (rev slots ! i))" if "i < length es" for i
    using that n L(1) L(7) [OF that] by (intro decode_internal_slot_encoded) auto
  from L(6) have "length (rev slots) = length es" by simp
  from slotted_loop [of "rev slots" es, OF this L(8) slot]
  obtain decoded where loop: "rmap (decode_internal_slot bs upper) [0..<length es] = Inr decoded"
    "map snd decoded = es" "ensure_non_overlapping (map fst decoded) = Inr ()" by blast
  have "ensure_sorted_internal es = Inr ()" using sorted by (simp add: ensure_sorted_internal_iff)
  with slotted_numbers [OF n L(2,3)] L(1) loop child show ?thesis
    by (simp add: decode_internal_def check_body_size_def read_u16_ok read_u64_ok usize_max_def L(4) L(5) H
        not_less del: of_nat_add of_nat_mult map_map)
qed

section \<open>Lemmas: overflow and free pages, whole pages\<close>

lemma decode_overflow_encoded:
  assumes enc: "encode_overflow next tlen chunk = Inr bs" and link: "next \<noteq> Some NULL_PAGE_ID"
  shows "decode_overflow l bs = Inr (OverflowData l next tlen chunk) \<and> length bs = 4064"
proof -
  let ?ws = "[(0, OVERFLOW_MAGIC), (4, to_le_u16 LAYOUT_VERSION), (8, to_le_u64 (encode_page_id next)),
     (16, to_le_u64 tlen), (24, to_le_u16 (of_nat (length chunk))), (32, chunk)]"
  have tlen: "tlen \<noteq> 0" "\<not> tlen > of_nat MAX_VALUE_SIZE" and c: "length chunk \<le> 4032" "chunk \<noteq> []"
    and bs: "bs = blits ?ws (zeros 4064)"
    using enc by (auto simp: encode_overflow_def result_iff)
  have segs: "length bs = 4064" "seg 0 4 bs = OVERFLOW_MAGIC" "seg 4 6 bs = to_le_u16 LAYOUT_VERSION"
    "seg 6 8 bs = zeros 2" "seg 8 16 bs = to_le_u64 (encode_page_id next)" "seg 16 24 bs = to_le_u64 tlen"
    "seg 24 26 bs = to_le_u16 (of_nat (length chunk))" "seg 26 32 bs = zeros 6"
    "seg 32 (32 + length chunk) bs = chunk"
    using c by (simp_all add: bs bytes_simps)
  have "unat (of_nat (length chunk) :: u16) = length chunk" using c by (simp add: unat_of_nat_u16)
  with segs tlen c link show ?thesis
    by (simp add: decode_overflow_def check_body_size_def read_u64_ok read_u16_ok usize_max_def
        decode_encode_page_id)
qed

lemma decode_free_encoded:
  assumes enc: "encode_free next = Inr bs" and link: "next \<noteq> Some NULL_PAGE_ID"
  shows "decode_free l bs = Inr (FreeData l next) \<and> length bs = 4064"
proof -
  have bs: "bs = blits [(0, FREE_MAGIC), (4, to_le_u16 LAYOUT_VERSION), (8, to_le_u64 (encode_page_id next))] (zeros 4064)"
    using enc by (simp add: encode_free_def)
  have segs: "length bs = 4064" "seg 0 4 bs = FREE_MAGIC" "seg 4 6 bs = to_le_u16 LAYOUT_VERSION"
    "seg 6 8 bs = zeros 2" "seg 8 16 bs = to_le_u64 (encode_page_id next)" "seg 16 4064 bs = zeros 4048"
    by (simp_all add: bs bytes_simps)
  have "drop 16 bs = zeros 4048" using seg_drop [of bs 4064 16] segs by simp
  with segs link show ?thesis
    by (simp add: decode_free_def check_body_size_def read_u64_ok usize_max_def decode_encode_page_id)
qed

fun pd_wf :: "page_data \<Rightarrow> bool" where
  "pd_wf (LeafData l next es) \<longleftrightarrow> next \<noteq> Some NULL_PAGE_ID \<and> list_all leaf_entry_wf es"
| "pd_wf (InternalData l child es) \<longleftrightarrow> True"
| "pd_wf (OverflowData l next tlen chunk) \<longleftrightarrow> next \<noteq> Some NULL_PAGE_ID"
| "pd_wf (FreeData l next) \<longleftrightarrow> next \<noteq> Some NULL_PAGE_ID"

lemma length_encode_body: "encode_body d = Inr body \<Longrightarrow> length body = 4064"
proof (cases d)
  case (LeafData l nx es)
  assume "encode_body d = Inr body"
  with LeafData have "encode_leaf nx es = Inr body" by simp
  then obtain upper body' slots where n: "32 + length es * 8 \<le> 4064"
    and place: "place_records encode_leaf_record le_key (32 + length es * 8) (rev es)
         (4064, slotted_header LEAF_MAGIC (length es) (encode_page_id nx), []) = Inr (upper, body', slots)"
    and body: "body = write_slots 32 0 (rev slots) (blit 10 (to_le_u16 (of_nat upper)) body')"
    by (auto simp: encode_leaf_iff)
  from slotted_layout(1) [OF place slotted_header_segs(1) [OF length_magics(1)] refl n, folded body]
  show ?thesis .
qed (auto dest: decode_internal_encoded simp: encode_overflow_def encode_free_def result_iff bytes_simps)

lemma pd_decode_encoded:
  assumes wf: "pd_wf d" and enc: "pd_encode crc d pid = Inr bs"
  shows "rbind (decode_page_at crc bs (Some pid)) pd_decode = Inr d"
proof -
  obtain body where body: "encode_body d = Inr body"
    and page: "encode_page crc (page_header_new (pd_page_type d) pid (pd_lsn d)) body = Inr bs"
    using enc by (auto simp: pd_encode_def result_iff)
  have len: "length body = 4064" using length_encode_body [OF body] .
  have "decode_page_at crc bs (Some pid) =
      Inr \<lparr>dp_header = (page_header_new (pd_page_type d) pid (pd_lsn d))\<lparr>ph_checksum := page_checksum crc bs\<rparr>,
           dp_body = body\<rparr>"
    using decode_encoded_page [OF page, of "Some pid"] len by (simp add: page_header_new_def zeros_def)
  with wf body show ?thesis
    by (cases d) (auto simp: pd_decode_def page_header_new_def list_all_iff decode_leaf_encoded
        decode_internal_encoded decode_overflow_encoded decode_free_encoded)
qed

interpretation page_data_codec: byte_codec
  "\<lambda>d. rbind (ensure (pd_wf d) InvalidInput) (\<lambda>_. pd_encode crc d pid)"
  "\<lambda>bs. rbind (decode_page_at crc bs (Some pid)) pd_decode" "\<lambda>d. d" for crc pid
  by unfold_locales (auto simp: rbind_Inr_iff ensure_Inr_iff dest: pd_decode_encoded)

section \<open>Lemmas: capacity\<close>

lemma is_ok_leaf_record:
  "is_ok (encode_leaf_record e) \<longleftrightarrow> length (le_key e) \<le> 65535 \<and> (\<exists>k. decode (le_key e) = Inr k) \<and>
     leaf_record_size e \<le> usize_max"
  by (auto simp: is_ok_iff encode_leaf_record_iff)

lemma length_internal_record: "encode_internal_record e = Inr r \<Longrightarrow> length r = 12 + length (ie_key e)"
  by (auto simp: encode_internal_record_iff internal_record_segs)

lemma is_ok_internal_record:
  "is_ok (encode_internal_record e) \<longleftrightarrow> length (ie_key e) \<le> 65535 \<and> 2 \<le> ie_right_child e \<and>
     (\<exists>k. decode (ie_key e) = Inr k)"
  by (auto simp: is_ok_iff encode_internal_record_iff)

lemma sum_list_member_le: "x \<in> set xs \<Longrightarrow> f x \<le> (\<Sum>y\<leftarrow>xs. f y :: nat)"
  by (induction xs) auto

lemma encode_leaf_ok_iff:
  "is_ok (encode_leaf next es) \<longleftrightarrow>
     sorted_wrt (<) (map le_key es) \<and> (\<forall>e \<in> set es. \<exists>k. decode (le_key e) = Inr k) \<and>
     32 + length es * 8 + (\<Sum>e\<leftarrow>es. leaf_record_size e) \<le> 4064" (is "_ \<longleftrightarrow> ?sorted \<and> ?canon \<and> ?size")
proof -
  let ?len = "\<lambda>e. case encode_leaf_record e of Inl _ \<Rightarrow> 0 | Inr r \<Rightarrow> length r"
  let ?p = "place_records encode_leaf_record le_key (32 + length es * 8) (rev es)
      (4064, slotted_header LEAF_MAGIC (length es) (encode_page_id next), [])"
  have "is_ok (encode_leaf next es) \<longleftrightarrow> 32 + length es * 8 \<le> 4064 \<and> ?sorted \<and> is_ok ?p"
    by (auto simp: is_ok_iff encode_leaf_iff)
  also have "\<dots> \<longleftrightarrow> ?sorted \<and> (\<forall>e \<in> set es. is_ok (encode_leaf_record e)) \<and>
      32 + length es * 8 + (\<Sum>e\<leftarrow>es. ?len e) \<le> 4064"
    using place_records_ok_iff [of "32 + length es * 8" 4064 encode_leaf_record le_key "rev es"]
    by (auto simp: rev_map [symmetric])
  also have "\<dots> \<longleftrightarrow> ?sorted \<and> ?canon \<and> ?size"
  proof -
    have eq: "(\<Sum>e\<leftarrow>es. ?len e) = (\<Sum>e\<leftarrow>es. leaf_record_size e)"
      if "\<forall>e \<in> set es. is_ok (encode_leaf_record e)"
      using that by (intro arg_cong [of _ _ sum_list] map_cong) (auto simp: is_ok_iff length_leaf_record)
    have "is_ok (encode_leaf_record e)" if ?canon ?size "e \<in> set es" for e
      using that sum_list_member_le [OF that(3), of leaf_record_size]
      by (auto simp: is_ok_leaf_record leaf_record_size_def usize_max_def)
    with eq show ?thesis by (auto simp: is_ok_leaf_record)
  qed
  finally show ?thesis .
qed

lemma encode_internal_ok_iff:
  "is_ok (encode_internal child es) \<longleftrightarrow>
     2 \<le> child \<and> sorted_wrt (<) (map ie_key es) \<and>
     (\<forall>e \<in> set es. 2 \<le> ie_right_child e \<and> (\<exists>k. decode (ie_key e) = Inr k)) \<and>
     32 + length es * 8 + (\<Sum>e\<leftarrow>es. 12 + length (ie_key e)) \<le> 4064" (is "_ \<longleftrightarrow> ?child \<and> ?sorted \<and> ?canon \<and> ?size")
proof -
  let ?len = "\<lambda>e. case encode_internal_record e of Inl _ \<Rightarrow> 0 | Inr r \<Rightarrow> length r"
  let ?p = "place_records encode_internal_record ie_key (32 + length es * 8) (rev es)
      (4064, slotted_header INTERNAL_MAGIC (length es) child, [])"
  have "is_ok (encode_internal child es) \<longleftrightarrow> 32 + length es * 8 \<le> 4064 \<and> ?child \<and> ?sorted \<and> is_ok ?p"
    by (auto simp: is_ok_iff encode_internal_iff)
  also have "\<dots> \<longleftrightarrow> ?child \<and> ?sorted \<and> (\<forall>e \<in> set es. is_ok (encode_internal_record e)) \<and>
      32 + length es * 8 + (\<Sum>e\<leftarrow>es. ?len e) \<le> 4064"
    using place_records_ok_iff [of "32 + length es * 8" 4064 encode_internal_record ie_key "rev es"]
    by (auto simp: rev_map [symmetric])
  also have "\<dots> \<longleftrightarrow> ?child \<and> ?sorted \<and> ?canon \<and> ?size"
  proof -
    have eq: "(\<Sum>e\<leftarrow>es. ?len e) = (\<Sum>e\<leftarrow>es. 12 + length (ie_key e))"
      if "\<forall>e \<in> set es. is_ok (encode_internal_record e)"
      using that by (intro arg_cong [of _ _ sum_list] map_cong)
        (auto simp: is_ok_iff length_internal_record)
    have "is_ok (encode_internal_record e)" if ?canon ?size "e \<in> set es" for e
      using that sum_list_member_le [OF that(3), of "\<lambda>e. 12 + length (ie_key e)"]
      by (auto simp: is_ok_internal_record)
    with eq show ?thesis by (auto simp: is_ok_internal_record)
  qed
  finally show ?thesis .
qed

section \<open>Lemmas: what a decoded page satisfies\<close>

lemma read_u64_Inr [result_iff]: "read_u64 bs off = Inr v \<longleftrightarrow>
    off + 8 \<le> length bs \<and> off + 8 \<le> usize_max \<and> v = from_le_u64 (seg off (off + 8) bs)"
  by (auto simp: read_u64_def read_array_def result_iff checked_add_usize_def split: if_splits)

lemma read_u16_Inr [result_iff]: "read_u16 bs off = Inr v \<longleftrightarrow>
    off + 2 \<le> length bs \<and> off + 2 \<le> usize_max \<and> v = from_le_u16 (seg off (off + 2) bs)"
  by (auto simp: read_u16_def read_array_def result_iff checked_add_usize_def split: if_splits)

lemma decode_leaf_value_valid:
  assumes "decode_leaf_value flags vl aux key_end bs = Inr v" and "vl \<le> of_nat MAX_VALUE_SIZE"
  shows "length bs = key_end + length (inline_bytes v)"
    and "leaf_entry_wf \<lparr>le_key = k, le_revision = r, le_value = v\<rparr>"
  using assms
  by (auto simp: decode_leaf_value_def result_iff inline_bytes_def leaf_entry_wf_def length_seg
      checked_add_usize_def split: if_splits)

lemma decode_leaf_record_valid:
  assumes "decode_leaf_record bs klen = Inr e"
  shows "length bs = leaf_record_size e \<and> (\<exists>k. decode (le_key e) = Inr k) \<and> leaf_entry_wf e"
proof -
  obtain vl aux key_end where
    v: "decode_leaf_value (bs ! 24) vl aux key_end bs = Inr (le_value e)" "\<not> vl > of_nat MAX_VALUE_SIZE"
    and k: "le_key e = seg 32 key_end bs" "32 \<le> key_end" "key_end \<le> length bs"
      "\<exists>k. decode (le_key e) = Inr k"
    using assms by (auto simp: decode_leaf_record_def result_iff Let_def checked_add_usize_def not_less
        split: if_splits)
  have "length (le_key e) = key_end - 32" using k by (simp add: length_seg)
  with k decode_leaf_value_valid(1) [OF v(1)] decode_leaf_value_valid(2) [OF v(1), of "le_key e" "le_revision e"] v(2)
  show ?thesis by (cases e) (simp add: leaf_record_size_def not_less)
qed

lemma windows_disjoint_sum:
  "windows_all (\<lambda>p q. \<not> snd p > fst q) xs \<Longrightarrow> (\<forall>p \<in> set xs. fst p \<le> snd p \<and> snd p \<le> hi) \<Longrightarrow>
   lo \<le> (case xs of [] \<Rightarrow> hi | p # _ \<Rightarrow> fst p) \<Longrightarrow> lo + (\<Sum>p\<leftarrow>xs. snd p - fst p) \<le> (hi :: nat)"
proof (induction xs arbitrary: lo)
  case (Cons x xs)
  show ?case
  proof (cases xs)
    case Nil
    with Cons.prems show ?thesis by auto
  next
    case ys: (Cons y ys)
    from Cons.IH [of "snd x"] Cons.prems ys have "snd x + (\<Sum>p\<leftarrow>xs. snd p - fst p) \<le> hi" by auto
    with Cons.prems show ?thesis by auto
  qed
qed auto

lemma sum_list_sort: "(\<Sum>x\<leftarrow>sort xs. f x :: nat) = (\<Sum>x\<leftarrow>xs. f x)"
proof (induction xs)
  case (Cons x xs)
  have "(\<Sum>y\<leftarrow>insort x ys. f y) = f x + (\<Sum>y\<leftarrow>ys. f y)" for ys
    by (induction ys) auto
  with Cons show ?case by simp
qed simp

lemma non_overlapping_sum:
  assumes "ensure_non_overlapping ranges = Inr u"
    and "\<And>p. p \<in> set ranges \<Longrightarrow> lo \<le> fst p \<and> fst p \<le> snd p \<and> snd p \<le> hi" and "lo \<le> hi"
  shows "lo + (\<Sum>p\<leftarrow>ranges. snd p - fst p) \<le> hi"
proof -
  have w: "windows_all (\<lambda>p q. \<not> snd p > fst q) (sort ranges)"
    using assms(1) by (simp add: ensure_non_overlapping_def ensure_Inr_iff)
  have "lo \<le> (case sort ranges of [] \<Rightarrow> hi | p # _ \<Rightarrow> fst p)"
    using assms(2,3) by (auto split: list.splits) (metis list.set_intros(1) set_sort)
  from windows_disjoint_sum [OF w _ this] assms(2) show ?thesis by (simp add: sum_list_sort)
qed

lemma rmap_members: "rmap f xs = Inr ys \<Longrightarrow> y \<in> set ys \<Longrightarrow> \<exists>x \<in> set xs. f x = Inr y"
  by (induction xs arbitrary: ys) (auto simp: result_iff)

lemma slotted_decoded_sum:
  assumes loop: "rmap dec [0..<n] = Inr decoded" and no: "ensure_non_overlapping (map fst decoded) = Inr u"
    and region: "validate_slot_region n slot_end start 32 4064 = Inr u'"
    and slot: "\<And>i d. dec i = Inr d \<Longrightarrow> start \<le> fst (fst d) \<and> snd (fst d) \<le> 4064 \<and>
        snd (fst d) = fst (fst d) + sz (snd d)"
  shows "32 + length decoded * 8 + (\<Sum>e\<leftarrow>map snd decoded. sz e) \<le> 4064"
proof -
  have d: "start \<le> fst (fst d) \<and> snd (fst d) \<le> 4064 \<and> snd (fst d) = fst (fst d) + sz (snd d)"
    if "d \<in> set decoded" for d using rmap_members [OF loop that] slot by blast
  have region': "32 + n * 8 \<le> start" "start \<le> 4064" and n: "length decoded = n"
    using region rmap_length [OF loop]
    by (auto simp: validate_slot_region_def result_iff checked_add_usize_def checked_mul_usize_def split: if_splits)
  have "start + (\<Sum>p\<leftarrow>map fst decoded. snd p - fst p) \<le> 4064"
    by (rule non_overlapping_sum [OF no]) (use d region' in \<open>force+\<close>)
  moreover have "(\<Sum>p\<leftarrow>map fst decoded. snd p - fst p) = (\<Sum>e\<leftarrow>map snd decoded. sz e)"
    unfolding map_map by (intro arg_cong [of _ _ sum_list] map_cong) (auto dest: d)
  ultimately show ?thesis using region' n by simp
qed

lemma decode_leaf_valid:
  assumes "decode_leaf l bs = Inr d"
  shows "\<exists>next es. d = LeafData l next es \<and> next \<noteq> Some NULL_PAGE_ID \<and> list_all leaf_entry_wf es \<and>
    is_ok (encode_leaf next es)"
proof -
  obtain nx n slot_end start decoded u where len: "length bs = 4064"
    and region: "validate_slot_region n slot_end start 32 4064 = Inr u"
    and loop: "rmap (decode_leaf_slot bs start) [0..<n] = Inr decoded"
    and no: "ensure_non_overlapping (map fst decoded) = Inr ()"
    and sorted: "sorted_wrt (<) (map le_key (map snd decoded))"
    and d: "d = LeafData l (decode_page_id nx) (map snd decoded)"
    using assms by (auto simp: decode_leaf_def check_body_size_def rbind_Inr_iff ensure_Inr_iff ensure_sorted_leaf_iff)
  have slot: "start \<le> fst (fst d) \<and> snd (fst d) \<le> 4064 \<and> snd (fst d) = fst (fst d) + leaf_record_size (snd d) \<and>
      (\<exists>k. decode (le_key (snd d)) = Inr k) \<and> leaf_entry_wf (snd d)"
    if "decode_leaf_slot bs start i = Inr d" for i d
    using that len
    by (auto simp: decode_leaf_slot_def rbind_Inr_iff ensure_Inr_iff ok_or_Inr_iff Let_def checked_add_usize_def not_less length_seg
        dest!: decode_leaf_record_valid split: if_splits)
  have e: "(\<exists>k. decode (le_key e) = Inr k) \<and> leaf_entry_wf e" if "e \<in> set (map snd decoded)" for e
    using that rmap_members [OF loop] slot by fastforce
  have "32 + length decoded * 8 + (\<Sum>e\<leftarrow>map snd decoded. leaf_record_size e) \<le> 4064"
    by (rule slotted_decoded_sum [OF loop no region]) (use slot in blast)
  with e sorted have "is_ok (encode_leaf (decode_page_id nx) (map snd decoded))"
    unfolding encode_leaf_ok_iff by simp
  moreover have "decode_page_id nx \<noteq> Some NULL_PAGE_ID" by (simp add: decode_page_id_def)
  ultimately show ?thesis using d e by (auto simp: list_all_iff)
qed

lemma decode_internal_valid:
  assumes "decode_internal l bs = Inr d"
  shows "\<exists>child es. d = InternalData l child es \<and> is_ok (encode_internal child es)"
proof -
  obtain child n slot_end start decoded u where len: "length bs = 4064" and child: "2 \<le> child"
    and region: "validate_slot_region n slot_end start 32 4064 = Inr u"
    and loop: "rmap (decode_internal_slot bs start) [0..<n] = Inr decoded"
    and no: "ensure_non_overlapping (map fst decoded) = Inr ()"
    and sorted: "sorted_wrt (<) (map ie_key (map snd decoded))"
    and d: "d = InternalData l child (map snd decoded)"
    using assms by (auto simp: decode_internal_def check_body_size_def rbind_Inr_iff ensure_Inr_iff
        ensure_sorted_internal_iff not_less)
  have slot: "start \<le> fst (fst d) \<and> snd (fst d) \<le> 4064 \<and> snd (fst d) = fst (fst d) + (12 + length (ie_key (snd d))) \<and>
      2 \<le> ie_right_child (snd d) \<and> (\<exists>k. decode (ie_key (snd d)) = Inr k)"
    if "decode_internal_slot bs start i = Inr d" for i d
    using that len
    by (auto simp: decode_internal_slot_def rbind_Inr_iff ensure_Inr_iff ok_or_Inr_iff map_err_Inr_iff Let_def
        checked_add_usize_def not_less length_seg split: if_splits)
  have e: "2 \<le> ie_right_child e \<and> (\<exists>k. decode (ie_key e) = Inr k)" if "e \<in> set (map snd decoded)" for e
    using that rmap_members [OF loop] slot by fastforce
  have "32 + length decoded * 8 + (\<Sum>e\<leftarrow>map snd decoded. 12 + length (ie_key e)) \<le> 4064"
    by (rule slotted_decoded_sum [OF loop no region]) (use slot in blast)
  with e sorted child have "is_ok (encode_internal child (map snd decoded))"
    unfolding encode_internal_ok_iff by simp
  with d show ?thesis by blast
qed

lemma decode_overflow_valid:
  assumes "decode_overflow l bs = Inr d" and "length bs = 4064"
  shows "\<exists>n t c. d = OverflowData l n t c \<and> n \<noteq> Some NULL_PAGE_ID \<and> is_ok (encode_overflow n t c)"
proof -
  obtain nx t k where d: "d = OverflowData l (decode_page_id nx) t (seg 32 (32 + k) bs)"
    and t: "t \<noteq> 0" "\<not> t > of_nat MAX_VALUE_SIZE" and k: "0 < k" "k \<le> 4032"
    using assms by (auto simp: rbind_Inr_iff ensure_Inr_iff decode_overflow_def Let_def not_less)
  have len: "length (seg 32 (32 + k) bs) = k" using k assms(2) by (simp add: length_seg)
  then have "seg 32 (32 + k) bs \<noteq> []" using k by auto
  with len t k have "is_ok (encode_overflow (decode_page_id nx) t (seg 32 (32 + k) bs))"
    by (simp add: encode_overflow_def)
  moreover have "decode_page_id nx \<noteq> Some NULL_PAGE_ID" by (simp add: decode_page_id_def)
  ultimately show ?thesis using d by blast
qed

lemma pd_decode_valid:
  assumes "pd_decode p = Inr d" and "length (dp_body p) = 4064"
  shows "pd_wf d \<and> is_ok (encode_body d)"
proof (cases "ph_page_type (dp_header p)")
  case LeafPage
  then have "decode_leaf (ph_page_lsn (dp_header p)) (dp_body p) = Inr d"
    using assms(1) by (simp add: pd_decode_def rbind_Inr_iff)
  from decode_leaf_valid [OF this] show ?thesis by auto
next
  case InternalPage
  then have "decode_internal (ph_page_lsn (dp_header p)) (dp_body p) = Inr d"
    using assms(1) by (simp add: pd_decode_def rbind_Inr_iff)
  from decode_internal_valid [OF this] show ?thesis by auto
next
  case OverflowPage
  then have "decode_overflow (ph_page_lsn (dp_header p)) (dp_body p) = Inr d"
    using assms(1) by (simp add: pd_decode_def rbind_Inr_iff)
  from decode_overflow_valid [OF this assms(2)] show ?thesis by auto
next
  case FreePage
  then show ?thesis using assms
    by (auto simp: pd_decode_def rbind_Inr_iff ensure_Inr_iff decode_free_def encode_free_def
        decode_page_id_def)
next
  case TestPage
  then show ?thesis using assms by (simp add: pd_decode_def rbind_Inr_iff)
qed

lemma pd_encode_ok: "is_ok (encode_body d) \<Longrightarrow> \<exists>bs. pd_encode crc d pid = Inr bs"
  using length_encode_body [of d]
  by (auto simp: is_ok_iff pd_encode_def page_header_new_def encode_page_iff)

lemma restamp_encodes: "is_ok (encode_body (restamp d provisional committed)) \<longleftrightarrow> is_ok (encode_body d)"
proof (cases d)
  case (LeafData l nx es)
  let ?f = "\<lambda>e. if le_revision e = provisional then e\<lparr>le_revision := revision_from_lsn committed\<rparr> else e"
  have keys: "map le_key (map ?f es) = map le_key es"
    and sizes: "(\<Sum>e\<leftarrow>map ?f es. leaf_record_size e) = (\<Sum>e\<leftarrow>es. leaf_record_size e)"
    unfolding map_map by (auto intro!: arg_cong [of _ _ sum_list] map_cong simp: leaf_record_size_def)
  have Q: "(\<forall>e \<in> set xs. \<exists>k. decode (le_key e) = Inr k) \<longleftrightarrow>
      (\<forall>key \<in> set (map le_key xs). \<exists>k. decode key = Inr k)" for xs by simp
  show ?thesis
    unfolding LeafData restamp.simps encode_body.simps encode_leaf_ok_iff Q keys sizes length_map ..
qed simp_all

section \<open>Properties\<close>

text \<open>C24: every tree page survives its trip to disk: a leaf with its ordered entries, an
  internal page, an overflow chunk or a free page that can be encoded gives one 4096-byte block,
  and reading that block at its page id gives back exactly the page.\<close>

theorem page_data_roundtrip:
  assumes "pd_wf d" and "pd_encode crc d pid = Inr bs"
  shows "length bs = PAGE_SIZE \<and> rbind (decode_page_at crc bs (Some pid)) pd_decode = Inr d"
proof -
  obtain body where "encode_page crc (page_header_new (pd_page_type d) pid (pd_lsn d)) body = Inr bs"
    using assms(2) by (auto simp: pd_encode_def rbind_Inr_iff)
  then have "length bs = PAGE_SIZE" using length_sealed by (auto simp: encode_page_iff)
  with pd_decode_encoded [OF assms] show ?thesis by simp
qed

definition sample_leaf :: page_data where
  "sample_leaf = LeafData 5 (Some 9)
     [\<lparr>le_key = encode (DocumentKey [1] [0, 2]), le_revision = 4, le_value = Some (Inline [7])\<rparr>,
      \<lparr>le_key = encode (DocumentKey [2] []), le_revision = 5, le_value = None\<rparr>]"

lemma sample_leaf_ok: "pd_wf sample_leaf" "is_ok (encode_body sample_leaf)"
proof -
  have "encode (DocumentKey [1] [0, 2]) < encode (DocumentKey [2] [])"
    by (simp add: encode_less_iff less_document_key_def)
  then show "is_ok (encode_body sample_leaf)"
    by (simp add: sample_leaf_def encode_leaf_ok_iff decode_encode leaf_record_size_def inline_bytes_def
        length_encode encoded_len_def encoded_component_len_def)
  show "pd_wf sample_leaf"
    by (simp add: sample_leaf_def leaf_entry_wf_def NULL_PAGE_ID_def)
qed

theorem page_data_roundtrip_witness:
  "\<exists>bs. pd_encode (\<lambda>_. 5) sample_leaf 3 = Inr bs \<and>
     rbind (decode_page_at (\<lambda>_. 5) bs (Some 3)) pd_decode = Inr sample_leaf"
  using pd_encode_ok [OF sample_leaf_ok(2), of "\<lambda>_. 5" 3] page_data_roundtrip [OF sample_leaf_ok(1)] by blast

text \<open>The conditions on an accepted page, written out: a leaf has strictly increasing canonical keys that fit
  the page with their inline values, an overflow value of a leaf has a first page and a length
  within the limit, an internal page has strictly increasing canonical separators that fit the
  page and no child below the first data page, an overflow page has a non-empty chunk.\<close>

fun page_ok :: "page_data \<Rightarrow> bool" where
  "page_ok (LeafData l nx es) \<longleftrightarrow> nx \<noteq> Some NULL_PAGE_ID \<and> sorted_wrt (<) (map le_key es) \<and> (\<forall>e \<in> set es. \<exists>k. decode (le_key e) = Inr k) \<and>
     32 + length es * 8 + (\<Sum>e\<leftarrow>es. 32 + length (le_key e) + length (inline_bytes (le_value e))) \<le> 4064 \<and>
     (\<forall>e \<in> set es. \<forall>head len. le_value e = Some (Overflow head len) \<longrightarrow> head \<noteq> NULL_PAGE_ID \<and> len \<noteq> 0 \<and> len \<le> of_nat MAX_VALUE_SIZE)"
| "page_ok (InternalData l child es) \<longleftrightarrow> 2 \<le> child \<and> sorted_wrt (<) (map ie_key es) \<and>
     (\<forall>e \<in> set es. 2 \<le> ie_right_child e \<and> (\<exists>k. decode (ie_key e) = Inr k)) \<and>
     32 + length es * 8 + (\<Sum>e\<leftarrow>es. 12 + length (ie_key e)) \<le> 4064"
| "page_ok (OverflowData l nx total_len chunk) \<longleftrightarrow> nx \<noteq> Some NULL_PAGE_ID \<and> total_len \<noteq> 0 \<and> total_len \<le> of_nat MAX_VALUE_SIZE \<and>
     chunk \<noteq> [] \<and> length chunk \<le> OVERFLOW_DATA_SIZE"
| "page_ok (FreeData l nx) \<longleftrightarrow> nx \<noteq> Some NULL_PAGE_ID"

lemma page_okI: "pd_wf d \<Longrightarrow> is_ok (encode_body d) \<Longrightarrow> page_ok d"
proof (cases d)
  case (LeafData l nx es)
  assume "pd_wf d" "is_ok (encode_body d)"
  then show ?thesis using LeafData by (fastforce simp: encode_leaf_ok_iff leaf_record_size_def list_all_iff leaf_entry_wf_def)
next
  case (InternalData l child es)
  assume "is_ok (encode_body d)"
  then show ?thesis using InternalData by (simp add: encode_internal_ok_iff)
qed (auto simp: encode_overflow_def is_ok_iff result_iff)

text \<open>C25: whatever page is accepted from disk is well formed and can be written back: it satisfies the
  conditions of \<open>page_ok\<close>, encoding it succeeds at any page id, and decoding the result gives the
  same page. Flushing or logging a page that was read never fails, also after restamping it with
  a commit LSN.\<close>

theorem decoded_page_reencodes:
  assumes "rbind (decode_page_at crc bs expected) pd_decode = Inr d"
  shows "page_ok d \<and> (\<exists>bs'. pd_encode crc d pid = Inr bs' \<and> rbind (decode_page_at crc bs' (Some pid)) pd_decode = Inr d) \<and>
    is_ok (pd_encode crc (restamp d provisional committed) pid)"
proof -
  obtain p where "decode_page_at crc bs expected = Inr p" "pd_decode p = Inr d"
    using assms by (auto simp: rbind_Inr_iff)
  then have "pd_wf d \<and> is_ok (encode_body d)"
    by (intro pd_decode_valid) (auto simp: decode_page_at_iff)
  then show ?thesis
    using page_okI [of d] pd_encode_ok [of d crc pid] pd_encode_ok [of "restamp d provisional committed" crc pid]
      pd_decode_encoded [of d crc pid] restamp_encodes [of d provisional committed]
    by (auto simp: is_ok_iff)
qed

theorem decoded_page_reencodes_witness:
  "page_ok sample_leaf \<and> (\<exists>bs'. pd_encode (\<lambda>_. 5) sample_leaf 8 = Inr bs' \<and>
     rbind (decode_page_at (\<lambda>_. 5) bs' (Some 8)) pd_decode = Inr sample_leaf)"
proof -
  obtain bs where "pd_encode (\<lambda>_. 5) sample_leaf 3 = Inr bs"
    using pd_encode_ok [OF sample_leaf_ok(2)] by blast
  from decoded_page_reencodes [OF pd_decode_encoded [OF sample_leaf_ok(1) this], of 8] show ?thesis by blast
qed

text \<open>C26: the exact capacity of the slotted pages. A list of entries fits a leaf exactly when
  it is strictly ordered with canonical keys and 32 header bytes, 8 bytes per slot and the
  records (32 bytes, the key and the inline value) fit 4064 bytes; internal pages likewise
  with 12-byte record headers and child ids of at least 2.\<close>

theorem slotted_capacity:
  "(leaf_fits es \<longleftrightarrow>
      sorted_wrt (<) (map le_key es) \<and> list_all (\<lambda>e. \<exists>k. decode (le_key e) = Inr k) es \<and>
      32 + 8 * length es + (\<Sum>e\<leftarrow>es. 32 + length (le_key e) + length (inline_bytes (le_value e))) \<le> 4064) \<and>
   (internal_fits child is \<longleftrightarrow>
      2 \<le> child \<and> sorted_wrt (<) (map ie_key is) \<and>
      list_all (\<lambda>e. 2 \<le> ie_right_child e \<and> (\<exists>k. decode (ie_key e) = Inr k)) is \<and>
      32 + 8 * length is + (\<Sum>e\<leftarrow>is. 12 + length (ie_key e)) \<le> 4064)"
  by (simp add: leaf_fits_def internal_fits_def encode_leaf_ok_iff encode_internal_ok_iff list_all_iff
      leaf_record_size_def mult.commute)

end
