(* ===== verification/Dodb_Cache.thy ===== *)
theory Dodb_Cache
  imports Dodb_Format
begin

text \<open>
  The page cache of \<open>dodb-storage/src/btree/cache.rs\<close>: a bounded map from page ids to decoded
  pages with a logical clock, evicting the least recently used page. The lemmas show the
  capacity bound, that a hit returns the page last inserted under that id, and which page is
  evicted.
\<close>

section \<open>Operations\<close>

record cache_entry =
  ce_page :: page_data
  ce_last_used :: u64

record page_cache =
  pc_capacity :: nat
  pc_pages :: "(page_id, cache_entry) ordmap"
  pc_clock :: u64

definition cache_new :: "nat \<Rightarrow> page_cache" where
  "cache_new capacity = \<lparr>pc_capacity = capacity, pc_pages = [], pc_clock = 0\<rparr>"

definition next_clock :: "page_cache \<Rightarrow> u64 \<times> page_cache" where
  "next_clock c = (let clock = pc_clock c + 1 in (clock, c\<lparr>pc_clock := clock\<rparr>))"

definition cache_get :: "page_id \<Rightarrow> page_cache \<Rightarrow> page_data option \<times> page_cache" where
  "cache_get pid c =
     (case next_clock c of (clock, c') \<Rightarrow>
        (case om_get (pc_pages c') pid of
           None \<Rightarrow> (None, c')
         | Some entry \<Rightarrow>
             (Some (ce_page entry),
              c'\<lparr>pc_pages := om_insert pid (entry\<lparr>ce_last_used := clock\<rparr>) (pc_pages c')\<rparr>)))"

text \<open>\<open>min_by_key\<close> over the entries in key order: the first entry with the least value.\<close>

fun least_used :: "(page_id, cache_entry) ordmap \<Rightarrow> (page_id \<times> u64) option" where
  "least_used [] = None"
| "least_used ((pid, entry) # m) =
     (case least_used m of
        None \<Rightarrow> Some (pid, ce_last_used entry)
      | Some (pid', used) \<Rightarrow> if used < ce_last_used entry then Some (pid', used) else Some (pid, ce_last_used entry))"

lemma least_used_None [simp]: "least_used m = None \<longleftrightarrow> m = []"
  by (cases m) (auto split: option.splits prod.splits)

lemma least_used_in: "least_used m = Some (pid, used) \<Longrightarrow> \<exists>entry. (pid, entry) \<in> set m \<and> ce_last_used entry = used"
proof (induction m arbitrary: pid used)
  case (Cons x m)
  obtain q e where "x = (q, e)" by force
  with Cons show ?case by (cases "least_used m") (fastforce split: if_splits prod.splits)+
qed simp

function evict :: "nat \<Rightarrow> (page_id, cache_entry) ordmap \<Rightarrow> (page_id, cache_entry) ordmap" where
  "evict capacity pages =
     (if length pages > capacity then
        (case least_used pages of
           None \<Rightarrow> pages
         | Some (victim, _) \<Rightarrow> evict capacity (om_remove victim pages))
      else pages)"
  by pat_completeness auto
termination
proof (relation "measure (length \<circ> snd)", goal_cases)
  case (2 capacity pages victim_used victim used)
  then obtain entry where "(victim, entry) \<in> set pages" using least_used_in by blast
  then have "victim \<in> fst ` set pages" by force
  then show ?case by (simp add: length_om_remove)
qed simp

declare evict.simps [simp del]

definition cache_insert :: "page_id \<Rightarrow> page_data \<Rightarrow> page_cache \<Rightarrow> page_cache" where
  "cache_insert pid page c =
     (if pc_capacity c = 0 then c
      else (case next_clock c of (clock, c') \<Rightarrow>
              c'\<lparr>pc_pages := evict (pc_capacity c')
                   (om_insert pid \<lparr>ce_page = page, ce_last_used = clock\<rparr> (pc_pages c'))\<rparr>))"

definition cache_insert_many :: "(page_id \<times> page_data) list \<Rightarrow> page_cache \<Rightarrow> page_cache" where
  "cache_insert_many pages c = fold (\<lambda>(pid, page). cache_insert pid page) pages c"

definition cache_len :: "page_cache \<Rightarrow> nat" where
  "cache_len c = length (pc_pages c)"

section \<open>Lemmas\<close>

definition cached :: "page_cache \<Rightarrow> page_id \<Rightarrow> page_data option" where
  "cached c pid = map_option ce_page (om_get (pc_pages c) pid)"

definition cache_ok :: "page_cache \<Rightarrow> bool" where
  "cache_ok c \<longleftrightarrow> om_wf (pc_pages c) \<and> length (pc_pages c) \<le> pc_capacity c"

lemma least_used_least:
  "least_used m = Some (pid, used) \<Longrightarrow> (pid', entry') \<in> set m \<Longrightarrow> used \<le> ce_last_used entry'"
proof (induction m arbitrary: pid used)
  case (Cons x m)
  obtain q e where x: "x = (q, e)" by force
  from Cons show ?case
    by (cases "least_used m") (fastforce simp: x split: if_splits prod.splits)+
qed simp

lemma evict_wf: "om_wf m \<Longrightarrow> om_wf (evict n m)"
proof (induction n m rule: evict.induct)
  case (1 capacity pages)
  then show ?case
    by (subst evict.simps) (auto split: option.splits simp: om_wf_remove)
qed

lemma evict_length: "length (evict n m) \<le> n"
proof (induction n m rule: evict.induct)
  case (1 capacity pages)
  then show ?case
    by (subst evict.simps) (auto split: option.splits)
qed

lemma evict_sub: "om_wf m \<Longrightarrow> om_get (evict n m) k = Some e \<Longrightarrow> om_get m k = Some e"
proof (induction n m rule: evict.induct)
  case (1 capacity pages)
  show ?case
  proof (cases "length pages > capacity \<and> pages \<noteq> []")
    case True
    then obtain victim used where v: "least_used pages = Some (victim, used)"
      using least_used_None by (cases "least_used pages") auto
    have "om_get (om_remove victim pages) k = Some e"
      using 1 True v by (simp add: evict.simps [of capacity pages] om_wf_remove)
    then show ?thesis using 1(2) by (auto simp: om_get_remove split: if_splits)
  next
    case False
    then show ?thesis using 1(3) by (auto simp: evict.simps [of capacity pages])
  qed
qed

lemma next_clock_simps [simp]:
  "pc_pages (snd (next_clock c)) = pc_pages c" "pc_capacity (snd (next_clock c)) = pc_capacity c"
  by (simp_all add: next_clock_def Let_def)

lemma cached_new [simp]: "cached (cache_new n) pid = None"
  by (simp add: cached_def cache_new_def om_get_def)

lemma cache_ok_new [simp]: "cache_ok (cache_new n)"
  by (simp add: cache_ok_def cache_new_def)

lemma cache_get_result: "fst (cache_get pid c) = cached c pid"
  by (simp add: cache_get_def cached_def next_clock_def Let_def split: option.splits)

lemma cache_get_keeps:
  assumes "cache_ok c"
  shows "cache_ok (snd (cache_get pid c)) \<and> cached (snd (cache_get pid c)) = cached c"
  using assms
  by (auto simp: cache_get_def cached_def cache_ok_def next_clock_def Let_def om_get_insert om_wf_insert
      length_om_insert_present fun_eq_iff split: option.splits)

lemma cache_insert_ok: "cache_ok c \<Longrightarrow> cache_ok (cache_insert pid page c)"
  by (auto simp add: cache_insert_def cache_ok_def next_clock_def Let_def evict_wf om_wf_insert evict_length)

lemma cache_insert_sub:
  assumes "cache_ok c" and "cached (cache_insert pid page c) q = Some d"
  shows "if q = pid \<and> pc_capacity c \<noteq> 0 then d = page else cached c q = Some d"
  using assms evict_sub [of "om_insert pid \<lparr>ce_page = page, ce_last_used = pc_clock c + 1\<rparr> (pc_pages c)" "pc_capacity c" q]
  by (auto simp: cache_insert_def cached_def cache_ok_def next_clock_def Let_def om_wf_insert om_get_insert
      split: if_splits)


lemma cache_insert_many_ok: "cache_ok c \<Longrightarrow> cache_ok (cache_insert_many pages c)"
  unfolding cache_insert_many_def by (induction pages arbitrary: c) (auto simp: cache_insert_ok)

section \<open>Least recently used\<close>

text \<open>The specification keeps the pages in order of their last use: a hit moves its page to the
  front, an insertion puts the page in front and keeps the first \<open>capacity\<close> pages.\<close>

type_synonym lru = "(page_id \<times> page_data) list"

datatype cache_op = CacheGet page_id | CacheInsert page_id page_data

definition lru_get :: "page_id \<Rightarrow> lru \<Rightarrow> page_data option \<times> lru" where
  "lru_get pid l =
     (case map_of l pid of
        None \<Rightarrow> (None, l)
      | Some page \<Rightarrow> (Some page, (pid, page) # filter (\<lambda>e. fst e \<noteq> pid) l))"

definition lru_insert :: "nat \<Rightarrow> page_id \<Rightarrow> page_data \<Rightarrow> lru \<Rightarrow> lru" where
  "lru_insert capacity pid page l = take capacity ((pid, page) # filter (\<lambda>e. fst e \<noteq> pid) l)"

fun lru_run :: "nat \<Rightarrow> cache_op list \<Rightarrow> lru \<Rightarrow> page_data option list" where
  "lru_run capacity [] l = []"
| "lru_run capacity (CacheGet pid # ops) l =
     (case lru_get pid l of (r, l') \<Rightarrow> r # lru_run capacity ops l')"
| "lru_run capacity (CacheInsert pid page # ops) l = lru_run capacity ops (lru_insert capacity pid page l)"

fun cache_run :: "cache_op list \<Rightarrow> page_cache \<Rightarrow> page_data option list" where
  "cache_run [] c = []"
| "cache_run (CacheGet pid # ops) c = (case cache_get pid c of (r, c') \<Rightarrow> r # cache_run ops c')"
| "cache_run (CacheInsert pid page # ops) c = cache_run ops (cache_insert pid page c)"

text \<open>The relation: \<open>es\<close> are the entries of the cache by decreasing last use.\<close>

definition by_use :: "(page_id \<times> cache_entry) list \<Rightarrow> page_cache \<Rightarrow> bool" where
  "by_use es c \<longleftrightarrow> sorted_wrt (\<lambda>x y. ce_last_used (snd x) > ce_last_used (snd y)) es \<and>
     set es = set (pc_pages c) \<and> distinct (map fst es) \<and> (\<forall>x \<in> set es. ce_last_used (snd x) \<le> pc_clock c) \<and>
     om_wf (pc_pages c) \<and> length es \<le> pc_capacity c"

definition lru_of :: "(page_id \<times> cache_entry) list \<Rightarrow> lru" where
  "lru_of es = map (\<lambda>(pid, e). (pid, ce_page e)) es"

lemma map_of_by_use: "by_use es c \<Longrightarrow> map_of es pid = om_get (pc_pages c) pid"
  unfolding by_use_def om_get_def by (metis map_of_inject_set om_wf_distinct)

lemma lru_of_get: "map_of (lru_of es) pid = map_option ce_page (map_of es pid)"
  by (induction es) (auto simp: lru_of_def)

lemma lru_of_filter: "filter (\<lambda>e. fst e \<noteq> pid) (lru_of es) = lru_of (filter (\<lambda>e. fst e \<noteq> pid) es)"
  by (induction es) (auto simp: lru_of_def)

lemma clock_advances:
  assumes "unat (t :: u64) + n < 2 ^ 64" and "0 < n"
  shows "t < t + 1" and "unat (t + 1) = unat t + 1"
proof -
  have "unat t + unat (1 :: u64) < 2 ^ 64" using assms by simp
  then show "unat (t + 1) = unat t + 1" using unat_add_lem [of t 1] by simp
  then show "t < t + 1" by (simp add: word_less_nat_alt)
qed

lemma touch_by_use:
  assumes rel: "by_use es c" and t: "pc_clock c < t"
    and c': "set (pc_pages c') = insert (pid, entry) {e \<in> set (pc_pages c). fst e \<noteq> pid}" "om_wf (pc_pages c')"
      "pc_clock c' = t" "ce_last_used entry = t"
    and len: "length (filter (\<lambda>e. fst e \<noteq> pid) es) < pc_capacity c'"
  shows "by_use ((pid, entry) # filter (\<lambda>e. fst e \<noteq> pid) es) c'"
  using assms by (fastforce simp: by_use_def sorted_wrt_filter distinct_map_filter)


lemma cache_get_by_use:
  assumes rel: "by_use es c" and t: "pc_clock c < pc_clock c + 1"
  shows "\<exists>es' c'. cache_get pid c = (fst (lru_get pid (lru_of es)), c') \<and> by_use es' c' \<and>
    lru_of es' = snd (lru_get pid (lru_of es)) \<and> pc_clock c' = pc_clock c + 1 \<and> pc_capacity c' = pc_capacity c"
proof (cases "om_get (pc_pages c) pid")
  case None
  let ?c = "c\<lparr>pc_clock := pc_clock c + 1\<rparr>"
  have "by_use es ?c" using rel t by (force simp: by_use_def intro: order.trans [OF _ less_imp_le [OF t]])
  with None show ?thesis
    by (intro exI [of _ es] exI [of _ ?c])
      (simp add: cache_get_def next_clock_def Let_def lru_get_def lru_of_get map_of_by_use [OF rel])
next
  case (Some e)
  let ?e = "e\<lparr>ce_last_used := pc_clock c + 1\<rparr>" and ?rest = "filter (\<lambda>e. fst e \<noteq> pid) es"
  let ?c = "c\<lparr>pc_clock := pc_clock c + 1, pc_pages := om_insert pid ?e (pc_pages c)\<rparr>"
  have m: "map_of es pid = Some e" using Some map_of_by_use [OF rel] by simp
  then have "length ?rest < length es" by (fastforce intro: length_filter_less dest: map_of_SomeD)
  then have "by_use ((pid, ?e) # ?rest) ?c"
    using rel t by (intro touch_by_use [OF rel]) (auto simp: by_use_def set_om_insert om_wf_insert)
  with Some m show ?thesis
    by (intro exI [of _ "(pid, ?e) # ?rest"] exI [of _ ?c])
      (simp add: cache_get_def next_clock_def Let_def lru_get_def lru_of_get lru_of_filter, simp add: lru_of_def)
qed

lemma least_used_by_use:
  assumes "by_use es c" and "es \<noteq> []"
  shows "\<exists>used. least_used (pc_pages c) = Some (fst (last es), used)"
proof -
  have ne: "pc_pages c \<noteq> []" using assms by (auto simp: by_use_def)
  then obtain pid used where l: "least_used (pc_pages c) = Some (pid, used)"
    using least_used_None by (cases "least_used (pc_pages c)") auto
  then obtain e where e: "(pid, e) \<in> set es" "ce_last_used e = used"
    using least_used_in assms(1) unfolding by_use_def by metis
  have mem: "last es \<in> set (pc_pages c)" using assms by (auto simp: by_use_def)
  then have le: "used \<le> ce_last_used (snd (last es))"
    using least_used_least [OF l, of "fst (last es)" "snd (last es)"] by simp
  have "(pid, e) = last es"
  proof (rule ccontr)
    assume ne: "(pid, e) \<noteq> last es"
    have es: "es = butlast es @ [last es]" using assms(2) by simp
    have "(pid, e) \<in> set (butlast es)" using e(1) ne es by (metis UnE list.set(1,2) set_append singletonD insertE)
    moreover have "sorted_wrt (\<lambda>x y. ce_last_used (snd x) > ce_last_used (snd y)) (butlast es @ [last es])"
      using assms es by (simp add: by_use_def)
    ultimately have "ce_last_used e > ce_last_used (snd (last es))" by (force simp: sorted_wrt_append)
    with le e(2) show False by simp
  qed
  then show ?thesis using l by (metis fst_conv)
qed

lemma om_remove_last:
  assumes rel: "by_use (es @ [x]) c"
  shows "by_use es (c\<lparr>pc_pages := om_remove (fst x) (pc_pages c)\<rparr>)"
proof -
  have wf: "om_wf (pc_pages c)" using rel by (simp add: by_use_def)
  have "fst x \<notin> fst ` set es" using rel by (simp add: by_use_def)
  then have "fst e \<noteq> fst x" if "e \<in> set es" for e using that by (metis imageI)
  then have "set es = {e \<in> set (es @ [x]). fst e \<noteq> fst x}" by auto
  then have "set es = set (om_remove (fst x) (pc_pages c))"
    using rel unfolding set_om_remove_eq [OF wf] by_use_def by metis
  then show ?thesis using rel wf by (auto simp: by_use_def om_wf_remove sorted_wrt_append)
qed

lemma by_use_length: "by_use es c \<Longrightarrow> length (pc_pages c) = length es"
  using distinct_card [of "map fst es"] om_wf_length [of "pc_pages c"] by (simp add: by_use_def)

lemma by_use_capacity: "by_use es (c\<lparr>pc_capacity := m\<rparr>) \<Longrightarrow> length es \<le> n \<Longrightarrow> by_use es (c\<lparr>pc_capacity := n\<rparr>)"
  by (simp add: by_use_def)

lemma cache_insert_by_use:
  assumes rel: "by_use es c" and t: "pc_clock c < pc_clock c + 1" and cap: "pc_capacity c \<noteq> 0"
  shows "\<exists>es'. by_use es' (cache_insert pid page c) \<and> lru_of es' = lru_insert (pc_capacity c) pid page (lru_of es)"
proof -
  let ?n = "pc_capacity c" and ?e = "\<lparr>ce_page = page, ce_last_used = pc_clock c + 1\<rparr>"
  let ?new = "(pid, ?e) # filter (\<lambda>e. fst e \<noteq> pid) es"
  let ?pages = "om_insert pid ?e (pc_pages c)"
  let ?c = "c\<lparr>pc_clock := pc_clock c + 1, pc_pages := ?pages\<rparr>"
  have wide: "by_use ?new (?c\<lparr>pc_capacity := Suc ?n\<rparr>)"
    using rel t by (intro touch_by_use [OF rel])
      (auto simp: by_use_def set_om_insert om_wf_insert less_Suc_eq_le intro: order.trans [OF length_filter_le])
  have len: "length ?pages = length ?new" using by_use_length [OF wide] by simp
  have lru: "lru_insert ?n pid page (lru_of es) = lru_of (take ?n ?new)"
    by (simp add: lru_insert_def lru_of_filter) (simp add: lru_of_def take_map take_Cons' split: if_splits)
  have ins: "cache_insert pid page c = ?c\<lparr>pc_pages := evict ?n ?pages\<rparr>"
    using cap by (simp add: cache_insert_def next_clock_def Let_def)
  show ?thesis
  proof (cases "length ?pages \<le> ?n")
    case True
    then have "by_use ?new (cache_insert pid page c)"
      using by_use_capacity [OF wide, of ?n] len by (simp add: ins evict.simps [of ?n ?pages])
    with True len lru show ?thesis by (metis take_all_iff)
  next
    case False
    have full: "length ?new = Suc ?n" using False len wide by (simp add: by_use_def)
    obtain ys x where new: "?new = ys @ [x]" using rev_exhaust [of ?new] by blast
    have ys: "length ys = ?n" using full unfolding new by simp
    obtain used where "least_used ?pages = Some (fst x, used)"
      using least_used_by_use [OF wide] unfolding new by auto
    moreover have drop: "by_use ys (?c\<lparr>pc_capacity := Suc ?n, pc_pages := om_remove (fst x) ?pages\<rparr>)"
      using om_remove_last [OF wide [unfolded new]] by simp
    moreover have "length (om_remove (fst x) ?pages) = ?n" using by_use_length [OF drop] ys by simp
    ultimately have "evict ?n ?pages = om_remove (fst x) ?pages"
      using False by (simp add: evict.simps [of ?n ?pages] evict.simps [of ?n "om_remove (fst x) ?pages"])
    moreover have "by_use ys (?c\<lparr>pc_pages := om_remove (fst x) ?pages\<rparr>)"
      using drop ys by (simp add: by_use_def)
    ultimately show ?thesis using new ys lru ins by (metis append_eq_conv_conj)
  qed
qed

lemma cache_insert_frame:
  "pc_capacity (cache_insert pid page c) = pc_capacity c"
  "pc_capacity c \<noteq> 0 \<Longrightarrow> pc_clock (cache_insert pid page c) = pc_clock c + 1"
  by (simp_all add: cache_insert_def next_clock_def Let_def)

lemma cache_run_lru:
  "by_use es c \<Longrightarrow> unat (pc_clock c) + length ops < 2 ^ 64 \<Longrightarrow>
   cache_run ops c = lru_run (pc_capacity c) ops (lru_of es)"
proof (induction ops arbitrary: es c)
  case (Cons op ops)
  have t: "pc_clock c < pc_clock c + 1" "unat (pc_clock c + 1) = unat (pc_clock c) + 1"
    using clock_advances [of "pc_clock c" "length (op # ops)"] Cons.prems(2) by simp_all
  then have later: "unat (pc_clock c + 1) + length ops < 2 ^ 64" using Cons.prems(2) by simp
  show ?case
  proof (cases op)
    case (CacheGet pid)
    obtain es' c' where step: "cache_get pid c = (fst (lru_get pid (lru_of es)), c')" "by_use es' c'"
      "lru_of es' = snd (lru_get pid (lru_of es))" "pc_clock c' = pc_clock c + 1" "pc_capacity c' = pc_capacity c"
      using cache_get_by_use [OF Cons.prems(1) t(1)] by blast
    with Cons.IH [OF step(2)] later CacheGet show ?thesis by (simp add: case_prod_beta)
  next
    case (CacheInsert pid page)
    show ?thesis
    proof (cases "pc_capacity c = 0")
      case True
      then have "lru_of es = []" using Cons.prems(1) by (simp add: by_use_def lru_of_def)
      then show ?thesis using True CacheInsert Cons by (simp add: cache_insert_def lru_insert_def)
    next
      case False
      then obtain es' where "by_use es' (cache_insert pid page c)"
        "lru_of es' = lru_insert (pc_capacity c) pid page (lru_of es)"
        using cache_insert_by_use [OF Cons.prems(1) t(1)] by blast
      then show ?thesis using Cons.IH [of es' "cache_insert pid page c"] later CacheInsert False
        by (simp add: cache_insert_frame)
    qed
  qed
qed simp

lemma cache_run_new: "length ops < 2 ^ 64 \<Longrightarrow> cache_run ops (cache_new n) = lru_run n ops []"
  using cache_run_lru [of "[]" "cache_new n" ops] by (simp add: by_use_def cache_new_def lru_of_def)

section \<open>Properties\<close>

text \<open>C31: the page cache is a least-recently-used cache: for every sequence of fewer than 2^64
  lookups and insertions on a new cache of any capacity, the lookups answer as those of the
  specification that keeps the pages in order of last use and drops those beyond the
  capacity.\<close>

theorem cache_is_lru:
  assumes "length ops < 2 ^ 64"
  shows "cache_run ops (cache_new capacity) = lru_run capacity ops []"
  using assms by (rule cache_run_new)

theorem cache_is_lru_witness:
  "cache_run [CacheInsert 2 (FreeData 0 None), CacheInsert 3 (FreeData 1 None), CacheGet 2,
     CacheInsert 4 (FreeData 2 None), CacheGet 2, CacheGet 3] (cache_new 2) =
   [Some (FreeData 0 None), Some (FreeData 0 None), None]"
  by (subst cache_is_lru) (simp_all add: lru_insert_def lru_get_def)

end
