(* ===== verification/Dodb_File.thy ===== *)
theory Dodb_File
  imports Dodb_Core
begin

text \<open>
  Positional files: the \<open>DurableFile\<close> trait of \<open>durable_file.rs\<close> as a record of operations,
  the loops \<open>read_exact_at\<close> and \<open>write_all_at\<close> that every client uses, the fault injector of
  \<open>fault.rs\<close> and \<open>crash.rs\<close>, and the simulated file of \<open>crashable_file.rs\<close> with its fault
  plan. File offsets (\<open>u64\<close>) are natural numbers with the overflow checks written out.
\<close>

section \<open>The trait\<close>

text \<open>\<open>read_at\<close> gets the length of the buffer and returns the bytes it put there; the state is
  returned on failure too, because a failing operation may have consumed a scheduled fault.\<close>

record 'f file_ops =
  read_at :: "nat \<Rightarrow> nat \<Rightarrow> ('f, error, bytes) sop"
  write_at :: "nat \<Rightarrow> bytes \<Rightarrow> ('f, error, nat) sop"
  file_len :: "'f \<Rightarrow> error + nat"
  set_len :: "nat \<Rightarrow> ('f, error, unit) sop"
  sync_data :: "('f, error, unit) sop"
  sync_all :: "('f, error, unit) sop"

definition u64_limit :: nat where
  "u64_limit = 2 ^ 64"

definition checked_offset :: "error \<Rightarrow> nat \<Rightarrow> nat \<Rightarrow> error + nat" where
  "checked_offset e offset n = (if offset + n < u64_limit then Inr (offset + n) else Inl e)"

definition wrapping_offset :: "nat \<Rightarrow> nat \<Rightarrow> error + nat" where
  "wrapping_offset offset n = Inr ((offset + n) mod u64_limit)"

section \<open>Complete reads and writes\<close>

text \<open>The read loop: \<open>acc\<close> is what the buffer holds so far; \<open>advance\<close> computes the position in
  the file and \<open>eof\<close> is the error of a zero-length read.\<close>

function read_exact_loop :: "'f file_ops \<Rightarrow> (nat \<Rightarrow> nat \<Rightarrow> error + nat) \<Rightarrow> error \<Rightarrow> nat \<Rightarrow> nat \<Rightarrow> bytes \<Rightarrow>
    ('f, error, bytes) sop" where
  "read_exact_loop ops advance eof offset len acc s =
     (if length acc < len then
        (case advance offset (length acc) of
           Inl e \<Rightarrow> (Inl e, s)
         | Inr pos \<Rightarrow>
            (case read_at ops pos (len - length acc) s of
               (Inl e, s') \<Rightarrow> (Inl e, s')
             | (Inr got, s') \<Rightarrow>
                 if got = [] then (Inl eof, s')
                 else read_exact_loop ops advance eof offset len (acc @ got) s'))
      else (Inr acc, s))"
  by pat_completeness auto
termination
  by (relation "measure (\<lambda>(ops, advance, eof, offset, len, acc, s). len - length acc)")
    (auto intro!: diff_less_mono2)

function write_all_loop :: "'f file_ops \<Rightarrow> (nat \<Rightarrow> nat \<Rightarrow> error + nat) \<Rightarrow> nat \<Rightarrow> bytes \<Rightarrow> nat \<Rightarrow>
    ('f, error, unit) sop" where
  "write_all_loop ops advance offset bs position s =
     (if position < length bs then
        (case advance offset position of
           Inl e \<Rightarrow> (Inl e, s)
         | Inr pos \<Rightarrow>
            (case write_at ops pos (drop position bs) s of
               (Inl e, s') \<Rightarrow> (Inl e, s')
             | (Inr count, s') \<Rightarrow>
                 if count = 0 then (Inl Io, s')
                 else write_all_loop ops advance offset bs (position + count) s'))
      else (Inr (), s))"
  by pat_completeness auto
termination
  by (relation "measure (\<lambda>(ops, advance, offset, bs, position, s). length bs - position)") auto

declare read_exact_loop.simps [simp del] write_all_loop.simps [simp del]

text \<open>The two copies of the loops: \<open>wal.rs\<close> checks the offset arithmetic, \<open>btree/mod.rs\<close> does
  not; they also report the end of the file differently.\<close>

definition wal_read_exact_at :: "'f file_ops \<Rightarrow> nat \<Rightarrow> nat \<Rightarrow> ('f, error, bytes) sop" where
  "wal_read_exact_at ops offset len = read_exact_loop ops (checked_offset Corruption) Io offset len []"

definition wal_write_all_at :: "'f file_ops \<Rightarrow> nat \<Rightarrow> bytes \<Rightarrow> ('f, error, unit) sop" where
  "wal_write_all_at ops offset bs = write_all_loop ops (checked_offset InvalidInput) offset bs 0"

definition read_exact_at :: "'f file_ops \<Rightarrow> nat \<Rightarrow> nat \<Rightarrow> ('f, error, bytes) sop" where
  "read_exact_at ops offset len = read_exact_loop ops wrapping_offset Corruption offset len []"

definition write_all_at :: "'f file_ops \<Rightarrow> nat \<Rightarrow> bytes \<Rightarrow> ('f, error, unit) sop" where
  "write_all_at ops offset bs = write_all_loop ops wrapping_offset offset bs 0"

section \<open>Fault injection\<close>

text \<open>\<open>Option<&mut dyn FaultInjector>\<close>: \<open>hit\<close> is the injector's method; production code has no
  injector. \<open>CrashInjector\<close> is the injector of the test kit.\<close>

definition hit_fault :: "(string \<Rightarrow> ('i, error, unit) sop) \<Rightarrow> string \<Rightarrow> ('i option, error, unit) sop" where
  "hit_fault hit point injector =
     (case injector of
        None \<Rightarrow> (Inr (), None)
      | Some i \<Rightarrow> (case hit point i of (r, i') \<Rightarrow> (r, Some i')))"

record crash_target =
  target_point :: string
  nth_hit :: u64

record crash_injector =
  target :: "crash_target option"
  hits :: "(string \<times> u64) list"
  fired :: bool

record crash_injected =
  crash_point :: string
  crash_hit :: u64

definition injector_disabled :: crash_injector where
  "injector_disabled = \<lparr>target = None, hits = [], fired = False\<rparr>"

definition injector_at :: "string \<Rightarrow> u64 \<Rightarrow> crash_injector" where
  "injector_at point nth_one = \<lparr>target = Some \<lparr>target_point = point, nth_hit = max nth_one 1\<rparr>, hits = [], fired = False\<rparr>"

definition hit_count :: "crash_injector \<Rightarrow> string \<Rightarrow> u64" where
  "hit_count i point = (case map_of (hits i) point of None \<Rightarrow> 0 | Some n \<Rightarrow> n)"

definition injector_hit :: "string \<Rightarrow> crash_injector \<Rightarrow> (crash_injected + unit) \<times> crash_injector" where
  "injector_hit point i =
     (let count = hit_count i point + 1;
          i' = i\<lparr>hits := (point, count) # filter (\<lambda>e. fst e \<noteq> point) (hits i)\<rparr>
      in if \<not> fired i' \<and> (case target i' of None \<Rightarrow> False
                          | Some t \<Rightarrow> target_point t = point \<and> nth_hit t = count)
         then (Inl \<lparr>crash_point = point, crash_hit = count\<rparr>, i'\<lparr>fired := True\<rparr>)
         else (Inr (), i'))"

definition injector_fault_hit :: "string \<Rightarrow> (crash_injector, error, unit) sop" where
  "injector_fault_hit point i = (case injector_hit point i of (r, i') \<Rightarrow> (map_err (\<lambda>_. RecoveryFailure) r, i'))"

section \<open>The simulated file\<close>

datatype file_operation = ReadAt | WriteAt | SetLen | SyncData | SyncAll

fun file_operation_rank :: "file_operation \<Rightarrow> nat" where
  "file_operation_rank ReadAt = 0"
| "file_operation_rank WriteAt = 1"
| "file_operation_rank SetLen = 2"
| "file_operation_rank SyncData = 3"
| "file_operation_rank SyncAll = 4"

instantiation file_operation :: linorder
begin

definition less_eq_file_operation :: "file_operation \<Rightarrow> file_operation \<Rightarrow> bool" where
  "less_eq_file_operation a b \<longleftrightarrow> file_operation_rank a \<le> file_operation_rank b"

definition less_file_operation :: "file_operation \<Rightarrow> file_operation \<Rightarrow> bool" where
  "less_file_operation a b \<longleftrightarrow> file_operation_rank a < file_operation_rank b"

instance
proof
  fix a b :: file_operation
  show "a \<le> b \<Longrightarrow> b \<le> a \<Longrightarrow> a = b"
    by (cases a; cases b) (simp_all add: less_eq_file_operation_def)
qed (auto simp: less_eq_file_operation_def less_file_operation_def)

end

text \<open>The error kind and message of an injected I/O fault are not modelled.\<close>

datatype fault_action = ShortWrite nat | ShortRead nat | IoFault

record fault_plan =
  faults :: "(u64, file_operation \<times> fault_action) ordmap"
  next_matching :: "(file_operation, u64 \<times> fault_action) ordmap"
  matching_hits :: "(file_operation, u64) ordmap"
  next_operation :: u64

definition fault_plan_default :: fault_plan where
  "fault_plan_default = \<lparr>faults = [], next_matching = [], matching_hits = [], next_operation = 0\<rparr>"

definition plan_at :: "u64 \<Rightarrow> file_operation \<Rightarrow> fault_action \<Rightarrow> fault_plan \<Rightarrow> fault_plan" where
  "plan_at index operation action plan = plan\<lparr>faults := om_insert index (operation, action) (faults plan)\<rparr>"

definition plan_on_nth :: "file_operation \<Rightarrow> u64 \<Rightarrow> fault_action \<Rightarrow> fault_plan \<Rightarrow> fault_plan" where
  "plan_on_nth operation nth_one action plan =
     plan\<lparr>next_matching := om_insert operation (max nth_one 1, action) (next_matching plan)\<rparr>"

definition plan_on_next :: "file_operation \<Rightarrow> fault_action \<Rightarrow> fault_plan \<Rightarrow> fault_plan" where
  "plan_on_next operation action plan = plan_on_nth operation 1 action plan"

definition saturating_inc_u64 :: "u64 \<Rightarrow> u64" where
  "saturating_inc_u64 n = (case checked_add_u64 n 1 of None \<Rightarrow> n | Some m \<Rightarrow> m)"

definition next_fault :: "file_operation \<Rightarrow> fault_plan \<Rightarrow> fault_action option \<times> fault_plan" where
  "next_fault operation plan =
     (let index = next_operation plan;
          plan1 = plan\<lparr>next_operation := saturating_inc_u64 index\<rparr>
      in case om_get (faults plan1) index of
           Some (expected, action) \<Rightarrow>
             if expected = operation then (Some action, plan1\<lparr>faults := om_remove index (faults plan1)\<rparr>)
             else (None, plan1\<lparr>faults := om_insert index (expected, action) (om_remove index (faults plan1))\<rparr>)
         | None \<Rightarrow>
             (let count = saturating_inc_u64 (case om_get (matching_hits plan1) operation of None \<Rightarrow> 0 | Some n \<Rightarrow> n);
                  plan2 = plan1\<lparr>matching_hits := om_insert operation count (matching_hits plan1)\<rparr>
              in case om_get (next_matching plan2) operation of
                   Some (nth_one, action) \<Rightarrow>
                     if nth_one = count
                     then (Some action, plan2\<lparr>next_matching := om_remove operation (next_matching plan2)\<rparr>)
                     else (None, plan2)
                 | None \<Rightarrow> (None, plan2)))"

record crashable_file =
  volatile :: bytes
  durable :: bytes
  cf_plan :: fault_plan

definition from_durable :: "bytes \<Rightarrow> crashable_file" where
  "from_durable bs = \<lparr>volatile = bs, durable = bs, cf_plan = fault_plan_default\<rparr>"

definition crashable_new :: crashable_file where
  "crashable_new = from_durable []"

definition with_fault_plan :: "fault_plan \<Rightarrow> crashable_file \<Rightarrow> crashable_file" where
  "with_fault_plan plan f = f\<lparr>cf_plan := plan\<rparr>"

definition corrupt_durable_byte :: "nat \<Rightarrow> (crashable_file, error, unit) sop" where
  "corrupt_durable_byte offset f =
     (if offset < length (durable f) then
        (let byte = xor (durable f ! offset) 1;
             f' = f\<lparr>durable := (durable f)[offset := byte]\<rparr>
         in (Inr (), if offset < length (volatile f')
                     then f'\<lparr>volatile := (volatile f')[offset := byte]\<rparr> else f'))
      else (Inl InvalidInput, f))"

definition crash :: "crashable_file \<Rightarrow> crashable_file" where
  "crash f = f\<lparr>volatile := durable f\<rparr>"

definition crash_with_persisted_prefix :: "nat \<Rightarrow> crashable_file \<Rightarrow> crashable_file" where
  "crash_with_persisted_prefix len f =
     (let persisted = min len (length (volatile f));
          f' = f\<lparr>durable := take persisted (volatile f)\<rparr>
      in f'\<lparr>volatile := durable f'\<rparr>)"

definition checked_range :: "nat \<Rightarrow> nat \<Rightarrow> error + nat \<times> nat" where
  "checked_range offset len =
     rbind (ok_or (checked_add_usize offset len) InvalidInput) (\<lambda>stop. Inr (offset, stop))"

text \<open>\<open>Vec::resize\<close> with zero fill.\<close>

definition resize :: "nat \<Rightarrow> bytes \<Rightarrow> bytes" where
  "resize n bs = take n bs @ zeros (n - length bs)"

text \<open>The prologue shared by the operations: the next scheduled fault, an I/O fault being the
  result of the call.\<close>

definition with_fault :: "file_operation \<Rightarrow> (fault_action option \<Rightarrow> (crashable_file, error, 'a) sop) \<Rightarrow>
    (crashable_file, error, 'a) sop" where
  "with_fault operation body f =
     (case next_fault operation (cf_plan f) of
        (action, plan) \<Rightarrow>
          if action = Some IoFault then (Inl Io, f\<lparr>cf_plan := plan\<rparr>) else body action (f\<lparr>cf_plan := plan\<rparr>))"

definition cf_read_at :: "nat \<Rightarrow> nat \<Rightarrow> (crashable_file, error, bytes) sop" where
  "cf_read_at start buffer_len = with_fault ReadAt (\<lambda>action f.
     if start \<ge> length (volatile f) \<or> buffer_len = 0 then (Inr [], f)
     else (let available = min (length (volatile f) - start) buffer_len;
               count = (case action of Some (ShortRead m) \<Rightarrow> min available m | _ \<Rightarrow> available)
           in (Inr (seg start (start + count) (volatile f)), f)))"

definition cf_write_at :: "nat \<Rightarrow> bytes \<Rightarrow> (crashable_file, error, nat) sop" where
  "cf_write_at offset bs = with_fault WriteAt (\<lambda>action f.
     let count = (case action of Some (ShortWrite m) \<Rightarrow> min (length bs) m | _ \<Rightarrow> length bs) in
     case checked_range offset count of
       Inl e \<Rightarrow> (Inl e, f)
     | Inr (start, stop) \<Rightarrow>
         (let v = (if length (volatile f) < stop then resize stop (volatile f) else volatile f)
          in (Inr count, f\<lparr>volatile := blit start (take count bs) v\<rparr>)))"

definition cf_len :: "crashable_file \<Rightarrow> error + nat" where
  "cf_len f = (if length (volatile f) < u64_limit then Inr (length (volatile f)) else Inl InternalInvariantViolation)"

definition cf_set_len :: "nat \<Rightarrow> (crashable_file, error, unit) sop" where
  "cf_set_len len = with_fault SetLen (\<lambda>_ f. (Inr (), f\<lparr>volatile := resize len (volatile f)\<rparr>))"

definition cf_sync_data :: "(crashable_file, error, unit) sop" where
  "cf_sync_data = with_fault SyncData (\<lambda>_ f. (Inr (), f\<lparr>durable := volatile f\<rparr>))"

definition cf_sync_all :: "(crashable_file, error, unit) sop" where
  "cf_sync_all = with_fault SyncAll (\<lambda>_ f. (Inr (), f\<lparr>durable := volatile f\<rparr>))"

definition cf_ops :: "crashable_file file_ops" where
  "cf_ops = \<lparr>read_at = cf_read_at, write_at = cf_write_at, file_len = cf_len, set_len = cf_set_len,
     sync_data = cf_sync_data, sync_all = cf_sync_all\<rparr>"

lemma seg_append_seg: "a \<le> b \<Longrightarrow> b \<le> c \<Longrightarrow> seg a b xs @ seg b c xs = seg a c xs"
  using take_add [of "b - a" "c - b" "drop a xs"] by (simp add: seg_def)

lemma blit_append:
  assumes "off \<le> length v"
  shows "blit (off + length a) b (blit off a v) = blit off (a @ b) v"
  using assms by (simp add: blit_def add.commute add.left_commute)

lemma blit_blit_next:
  assumes "position + count \<le> length bs" and "off + position \<le> length v"
  shows "blit (off + (position + count)) (drop (position + count) bs)
      (blit (off + position) (take count (drop position bs)) v) = blit (off + position) (drop position bs) v"
proof -
  have "take count (drop position bs) @ drop (position + count) bs = drop position bs"
    using append_take_drop_id [of count "drop position bs"] by (simp add: add.commute)
  moreover have "length (take count (drop position bs)) = count" using assms by simp
  ultimately show ?thesis
    using blit_append [OF assms(2), of "take count (drop position bs)" "drop (position + count) bs"]
    by (simp only: add.assoc)
qed

definition exact_advance :: "(nat \<Rightarrow> nat \<Rightarrow> error + nat) \<Rightarrow> nat \<Rightarrow> nat \<Rightarrow> bool" where
  "exact_advance advance off n \<longleftrightarrow> (\<forall>k < n. \<forall>p. advance off k = Inr p \<longrightarrow> p = off + k)"

lemma exact_checked [simp]: "exact_advance (checked_offset e) off n"
  by (simp add: exact_advance_def checked_offset_def)

lemma exact_wrapping: "off + n \<le> u64_limit \<Longrightarrow> exact_advance wrapping_offset off n"
  by (auto simp: exact_advance_def wrapping_offset_def)

text \<open>One turn of the loops: finished, failed, or one more partial transfer.\<close>

lemma read_exact_loop_turn:
  assumes "read_exact_loop ops advance eof off len acc s = (r, s')"
  shows "len \<le> length acc \<and> r = Inr acc \<and> s' = s \<or>
    length acc < len \<and> (\<exists>e. r = Inl e) \<and> (s' = s \<or> (\<exists>pos g. read_at ops pos (len - length acc) s = (g, s'))) \<or>
    length acc < len \<and> (\<exists>pos got s1. advance off (length acc) = Inr pos \<and>
      read_at ops pos (len - length acc) s = (Inr got, s1) \<and> got \<noteq> [] \<and>
      read_exact_loop ops advance eof off len (acc @ got) s1 = (r, s'))"
  using assms
  by (subst (asm) read_exact_loop.simps) (auto split: if_splits sum.splits prod.splits)

lemma write_all_loop_turn:
  assumes "write_all_loop ops advance off bs position s = (r, s')"
  shows "length bs \<le> position \<and> r = Inr () \<and> s' = s \<or>
    position < length bs \<and> (\<exists>e. r = Inl e) \<and> (s' = s \<or>
      (\<exists>pos g. advance off position = Inr pos \<and> write_at ops pos (drop position bs) s = (g, s'))) \<or>
    position < length bs \<and> (\<exists>pos count s1. advance off position = Inr pos \<and>
      write_at ops pos (drop position bs) s = (Inr count, s1) \<and> 0 < count \<and>
      write_all_loop ops advance off bs (position + count) s1 = (r, s'))"
  using assms
  by (subst (asm) write_all_loop.simps) (auto split: if_splits sum.splits prod.splits)

section \<open>The contract of a durable file\<close>

definition file_write :: "nat \<Rightarrow> bytes \<Rightarrow> bytes \<Rightarrow> bytes" where
  "file_write off bs v = blit off bs (if length v < off + length bs then resize (off + length bs) v else v)"

lemma file_write_blit: "off \<le> length v \<Longrightarrow> file_write off bs v = blit off bs v"
  by (auto simp: file_write_def blit_def resize_def zeros_def)

lemma file_write_end: "file_write (length v) bs v = v @ bs"
  by (simp add: file_write_blit blit_def)

lemma length_resize [simp]: "length (resize n bs) = n"
  by (simp add: resize_def length_zeros)

lemma length_file_write: "length (file_write off bs v) = max (length v) (off + length bs)"
  by (auto simp: file_write_def blit_def length_resize)

text \<open>What the trait promises: \<open>view\<close> is the content of the file as the process sees it,
  \<open>stable\<close> what survives a crash. Reads return bytes of the view, writes may be short and
  reach the stable content only through a sync. Nothing is said of the view after a failed
  write or a failed truncation.\<close>

locale durable_file =
  fixes ops :: "'f file_ops"
    and view :: "'f \<Rightarrow> bytes"
    and stable :: "'f \<Rightarrow> bytes"
  assumes read_at_ok: "read_at ops off n s = (Inr got, s') \<Longrightarrow>
      view s' = view s \<and> stable s' = stable s \<and> length got \<le> n \<and> got = seg off (off + length got) (view s)"
    and read_at_err: "read_at ops off n s = (Inl e, s') \<Longrightarrow> view s' = view s \<and> stable s' = stable s"
    and write_at_ok: "write_at ops off bs s = (Inr k, s') \<Longrightarrow>
      k \<le> length bs \<and> view s' = file_write off (take k bs) (view s) \<and> stable s' = stable s"
    and write_at_err: "write_at ops off bs s = (Inl e, s') \<Longrightarrow> stable s' = stable s"
    and file_len_ok: "file_len ops s = Inr n \<Longrightarrow> n = length (view s)"
    and set_len_ok: "set_len ops n s = (Inr u, s') \<Longrightarrow> view s' = resize n (view s) \<and> stable s' = stable s"
    and set_len_err: "set_len ops n s = (Inl e, s') \<Longrightarrow> stable s' = stable s"
    and sync_ok: "sync_data ops s = (Inr u, s') \<Longrightarrow> view s' = view s \<and> stable s' = view s"
    and sync_err: "sync_data ops s = (Inl e, s') \<Longrightarrow> view s' = view s"
    and sync_all_ok: "sync_all ops s = (Inr u, s') \<Longrightarrow> view s' = view s \<and> stable s' = view s"
begin

lemma read_at_unchanged: "read_at ops off n s = (g, s') \<Longrightarrow> view s' = view s \<and> stable s' = stable s"
  by (cases g) (auto dest: read_at_ok read_at_err)

lemma write_at_stable: "write_at ops off bs s = (g, s') \<Longrightarrow> stable s' = stable s"
  by (cases g) (auto dest: write_at_ok write_at_err)

lemma read_exact_loop_ok:
  assumes "read_exact_loop ops advance eof off len acc s = (r, s')"
    and "exact_advance advance off len"
    and "acc = seg off (off + length acc) (view s)" and "length acc \<le> len"
  shows "view s' = view s \<and> stable s' = stable s \<and>
    (\<forall>bs. r = Inr bs \<longrightarrow> bs = seg off (off + len) (view s) \<and> length bs = len)"
  using assms
proof (induction "len - length acc" arbitrary: acc s rule: less_induct)
  case less
  from read_exact_loop_turn [OF less.prems(1)] consider
    (finished) "len \<le> length acc" "r = Inr acc" "s' = s"
    | (failed) e pos g where "r = Inl e" "s' = s \<or> read_at ops pos (len - length acc) s = (g, s')"
    | (more) pos got s1 where "length acc < len" "advance off (length acc) = Inr pos"
        "read_at ops pos (len - length acc) s = (Inr got, s1)" "got \<noteq> []"
        "read_exact_loop ops advance eof off len (acc @ got) s1 = (r, s')"
    by blast
  then show ?case
  proof cases
    case finished
    with less.prems show ?thesis by simp
  next
    case failed
    then show ?thesis using read_at_unchanged by blast
  next
    case more
    note ok = read_at_ok [OF more(3)]
    have pos: "pos = off + length acc" using less.prems(2) more(1,2) by (auto simp: exact_advance_def)
    have "acc @ got = seg off (off + length acc) (view s) @ seg (off + length acc) (off + length acc + length got) (view s)"
      using less.prems(3) ok pos by metis
    also have "\<dots> = seg off (off + length acc + length got) (view s)" by (rule seg_append_seg) simp_all
    also have "\<dots> = seg off (off + length (acc @ got)) (view s1)" using ok by (simp only: length_append add.assoc)
    finally have "acc @ got = seg off (off + length (acc @ got)) (view s1)" .
    note IH = less.hyps [OF _ more(5) less.prems(2) this]
    have "len - length (acc @ got) < len - length acc" "length (acc @ got) \<le> len"
      using more(1,4) ok by (auto simp: diff_less_mono2)
    from IH [OF this] ok show ?thesis by metis
  qed
qed

lemma write_all_loop_ok:
  assumes "write_all_loop ops advance off bs position s = (r, s')"
    and "exact_advance advance off (length bs)"
    and "position \<le> length bs" and "off + position \<le> length (view s)"
  shows "stable s' = stable s \<and> (r = Inr () \<longrightarrow> view s' = blit (off + position) (drop position bs) (view s))"
  using assms
proof (induction "length bs - position" arbitrary: position s rule: less_induct)
  case less
  from write_all_loop_turn [OF less.prems(1)] consider
    (finished) "length bs \<le> position" "r = Inr ()" "s' = s"
    | (failed) e pos g where "r = Inl e" "s' = s \<or> write_at ops pos (drop position bs) s = (g, s')"
    | (more) pos count s1 where "position < length bs" "advance off position = Inr pos"
        "write_at ops pos (drop position bs) s = (Inr count, s1)" "0 < count"
        "write_all_loop ops advance off bs (position + count) s1 = (r, s')"
    by blast
  then show ?case
  proof cases
    case finished
    with less.prems show ?thesis by simp
  next
    case failed
    then show ?thesis using write_at_stable by blast
  next
    case more
    note ok = write_at_ok [OF more(3)]
    have pos: "pos = off + position" using less.prems(2) more(1,2) by (auto simp: exact_advance_def)
    let ?v = "view s" and ?part = "take count (drop position bs)"
    have count: "position + count \<le> length bs" using ok more(1) unfolding length_drop by linarith
    have v1: "view s1 = blit (off + position) ?part ?v"
      using ok pos less.prems(4) by (simp add: file_write_blit)
    have "length ?part = count" using count by simp
    then have len: "off + (position + count) \<le> length (view s1)"
      unfolding v1 blit_def using less.prems(4) by simp
    have IH: "stable s' = stable s1 \<and> (r = Inr () \<longrightarrow>
        view s' = blit (off + (position + count)) (drop (position + count) bs) (view s1))"
      using less.hyps [OF _ more(5) less.prems(2) count len] more(1,4) by linarith
    have "blit (off + (position + count)) (drop (position + count) bs) (view s1) =
        blit (off + position) (drop position bs) ?v"
      unfolding v1 using count less.prems(4) by (rule blit_blit_next)
    with IH ok show ?thesis by simp
  qed
qed

lemma wal_read_exact_at_ok:
  assumes "wal_read_exact_at ops off len s = (r, s')"
  shows "view s' = view s \<and> stable s' = stable s \<and>
    (\<forall>bs. r = Inr bs \<longrightarrow> bs = seg off (off + len) (view s) \<and> length bs = len)"
  by (rule read_exact_loop_ok [OF assms [unfolded wal_read_exact_at_def]]) simp_all

lemma read_exact_at_ok:
  assumes "read_exact_at ops off len s = (r, s')" and "off + len \<le> u64_limit"
  shows "view s' = view s \<and> stable s' = stable s \<and>
    (\<forall>bs. r = Inr bs \<longrightarrow> bs = seg off (off + len) (view s) \<and> length bs = len)"
  by (rule read_exact_loop_ok [OF assms(1) [unfolded read_exact_at_def]]) (simp_all add: exact_wrapping assms(2))

lemma wal_write_all_at_ok:
  assumes "wal_write_all_at ops off bs s = (r, s')" and "off \<le> length (view s)"
  shows "stable s' = stable s \<and> (r = Inr () \<longrightarrow> view s' = blit off bs (view s))"
  using write_all_loop_ok [OF assms(1) [unfolded wal_write_all_at_def]] assms(2) by simp

lemma write_all_at_ok:
  assumes "write_all_at ops off bs s = (r, s')" and "off \<le> length (view s)" and "off + length bs \<le> u64_limit"
  shows "stable s' = stable s \<and> (r = Inr () \<longrightarrow> view s' = blit off bs (view s))"
  using write_all_loop_ok [OF assms(1) [unfolded write_all_at_def]] assms(2,3) by (simp add: exact_wrapping)

end

text \<open>A file on which nothing fails while \<open>healthy\<close> holds: reads and writes inside the
  address space make progress. Under it the loops terminate with the complete transfer.\<close>

locale reliable_file = durable_file ops view stable
  for ops :: "'f file_ops" and view :: "'f \<Rightarrow> bytes" and stable :: "'f \<Rightarrow> bytes" +
  fixes healthy :: "'f \<Rightarrow> bool"
  assumes healthy_read: "healthy s \<Longrightarrow> \<exists>got s'. read_at ops off n s = (Inr got, s') \<and> healthy s' \<and>
      (0 < n \<and> off < length (view s) \<longrightarrow> got \<noteq> [])"
    and healthy_write: "healthy s \<Longrightarrow> off + length bs < u64_limit \<Longrightarrow>
      \<exists>k s'. write_at ops off bs s = (Inr k, s') \<and> healthy s' \<and> (bs \<noteq> [] \<longrightarrow> 0 < k)"
    and healthy_len: "healthy s \<Longrightarrow> file_len ops s = Inr (length (view s)) \<and> length (view s) < u64_limit"
    and healthy_set_len: "healthy s \<Longrightarrow> n < u64_limit \<Longrightarrow> \<exists>s'. set_len ops n s = (Inr (), s') \<and> healthy s'"
    and healthy_sync: "healthy s \<Longrightarrow> \<exists>s'. sync_data ops s = (Inr (), s') \<and> healthy s'"
    and healthy_sync_all: "healthy s \<Longrightarrow> \<exists>s'. sync_all ops s = (Inr (), s') \<and> healthy s'"
begin

lemma read_exact_loop_total:
  assumes "healthy s" and "off + len \<le> length (view s)" and "length acc \<le> len"
    and "\<And>k. k < len \<Longrightarrow> advance off k = Inr (off + k)"
  shows "\<exists>bs s'. read_exact_loop ops advance eof off len acc s = (Inr bs, s') \<and> healthy s'"
  using assms
proof (induction "len - length acc" arbitrary: acc s rule: less_induct)
  case less
  show ?case
  proof (cases "length acc < len")
    case False
    with less.prems(1) show ?thesis by (simp add: read_exact_loop.simps [of _ _ _ _ _ acc])
  next
    case True
    obtain got s1 where rd: "read_at ops (off + length acc) (len - length acc) s = (Inr got, s1)"
      and s1: "healthy s1" and ne: "got \<noteq> []"
      using healthy_read [OF less.prems(1), of "off + length acc" "len - length acc"] True less.prems(2) by auto
    have len1: "length got \<le> len - length acc" and v: "view s1 = view s" using read_at_ok [OF rd] by blast+
    have dec: "len - length (acc @ got) < len - length acc" and le: "length (acc @ got) \<le> len"
      using True ne len1 by (auto simp: diff_less_mono2)
    have bound: "off + len \<le> length (view s1)" using less.prems(2) v by simp
    obtain bs s' where "read_exact_loop ops advance eof off len (acc @ got) s1 = (Inr bs, s')" "healthy s'"
      using less.hyps [OF dec s1 bound le less.prems(4)] by blast
    then show ?thesis
      using True rd ne less.prems(4) [OF True] by (simp add: read_exact_loop.simps [of _ _ _ _ _ acc])
  qed
qed

lemma wal_read_exact_at_total:
  assumes "healthy s" and "off + len \<le> length (view s)"
  shows "\<exists>s'. wal_read_exact_at ops off len s = (Inr (seg off (off + len) (view s)), s') \<and>
    healthy s' \<and> view s' = view s \<and> stable s' = stable s"
proof -
  have "checked_offset Corruption off k = Inr (off + k)" if "k < len" for k
    using healthy_len [OF assms(1)] assms(2) that by (simp add: checked_offset_def)
  from read_exact_loop_total [OF assms, of "[]" "checked_offset Corruption" Io, OF _ this]
  obtain bs s' where r: "wal_read_exact_at ops off len s = (Inr bs, s')" "healthy s'"
    by (auto simp: wal_read_exact_at_def)
  from wal_read_exact_at_ok [OF r(1)] r show ?thesis by simp
qed

lemma write_all_loop_total:
  assumes "healthy s" and "position \<le> length bs" and "off + length bs < u64_limit"
    and "\<And>k. k < length bs \<Longrightarrow> advance off k = Inr (off + k)"
  shows "\<exists>s'. write_all_loop ops advance off bs position s = (Inr (), s') \<and> healthy s'"
  using assms
proof (induction "length bs - position" arbitrary: position s rule: less_induct)
  case less
  show ?case
  proof (cases "position < length bs")
    case False
    with less.prems(1) show ?thesis by (simp add: write_all_loop.simps [of _ _ _ _ position])
  next
    case True
    obtain count s1 where wr: "write_at ops (off + position) (drop position bs) s = (Inr count, s1)"
      and s1: "healthy s1" and pos: "0 < count"
      using healthy_write [OF less.prems(1), of "off + position" "drop position bs"] True less.prems(3) by auto
    have le: "position + count \<le> length bs" using write_at_ok [OF wr] True unfolding length_drop by linarith
    have dec: "length bs - (position + count) < length bs - position" using True pos by linarith
    obtain s' where "write_all_loop ops advance off bs (position + count) s1 = (Inr (), s')" "healthy s'"
      using less.hyps [OF dec s1 le less.prems(3,4)] by blast
    then show ?thesis
      using True wr pos less.prems(4) [OF True] by (simp add: write_all_loop.simps [of _ _ _ _ position])
  qed
qed

lemma wal_write_all_at_total:
  assumes "healthy s" and "off \<le> length (view s)" and "off + length bs < u64_limit"
  shows "\<exists>s'. wal_write_all_at ops off bs s = (Inr (), s') \<and> healthy s' \<and> view s' = blit off bs (view s) \<and>
    stable s' = stable s"
proof -
  have "checked_offset InvalidInput off k = Inr (off + k)" if "k < length bs" for k
    using that assms(3) by (simp add: checked_offset_def)
  from write_all_loop_total [OF assms(1) _ assms(3), of 0 "checked_offset InvalidInput", OF _ this]
  obtain s' where r: "wal_write_all_at ops off bs s = (Inr (), s')" "healthy s'"
    by (auto simp: wal_write_all_at_def)
  from wal_write_all_at_ok [OF r(1) assms(2)] r show ?thesis by simp
qed

lemma write_all_at_total:
  assumes "healthy s" and "off \<le> length (view s)" and "off + length bs < u64_limit"
  shows "\<exists>s'. write_all_at ops off bs s = (Inr (), s') \<and> healthy s' \<and> view s' = blit off bs (view s) \<and> stable s' = stable s"
proof -
  have "wrapping_offset off k = Inr (off + k)" if "k < length bs" for k
    using that assms(3) by (simp add: wrapping_offset_def)
  from write_all_loop_total [OF assms(1) _ assms(3), of 0 wrapping_offset, OF _ this]
  obtain s' where r: "write_all_at ops off bs s = (Inr (), s')" "healthy s'" by (auto simp: write_all_at_def)
  from write_all_at_ok [OF r(1) assms(2)] r assms(3) show ?thesis by simp
qed

end

text \<open>A file whose failed calls leave no more than part of their effect: a failed write has
  written a prefix, a failed truncation nothing, a failed sync persisted all or nothing.\<close>

locale torn_file = durable_file ops view stable
  for ops :: "'f file_ops" and view :: "'f \<Rightarrow> bytes" and stable :: "'f \<Rightarrow> bytes" +
  assumes write_at_torn: "write_at ops off bs s = (Inl e, s') \<Longrightarrow> off \<le> length (view s) \<Longrightarrow>
      \<exists>k. view s' = file_write off (take k bs) (view s)"
    and set_len_torn: "set_len ops n s = (Inl e, s') \<Longrightarrow> view s' = view s"
    and sync_torn: "sync_data ops s = (Inl e, s') \<Longrightarrow> stable s' = stable s \<or> stable s' = view s"
begin

lemma write_at_end:
  assumes "write_at ops pos (drop position bs) s = (g, s')" and "view s = base @ take position bs"
    and "pos = length (view s)"
  shows "\<exists>k. view s' = base @ take k bs"
proof -
  have "\<exists>k. view s' = file_write pos (take k (drop position bs)) (view s)"
    using write_at_ok write_at_torn assms(1,3) by (cases g) blast+
  then obtain k where "view s' = (base @ take position bs) @ take k (drop position bs)"
    using assms(2,3) file_write_end by metis
  moreover have "take position bs @ take k (drop position bs) = take (position + k) bs"
    by (simp add: take_add)
  ultimately show ?thesis by (metis append.assoc)
qed

lemma write_all_loop_torn:
  assumes "write_all_loop ops advance off bs position s = (r, s')"
    and "exact_advance advance off (length bs)" and "off = length base" and "position \<le> length bs"
    and "view s = base @ take position bs"
  shows "stable s' = stable s \<and> (\<exists>k. view s' = base @ take k bs) \<and> (r = Inr () \<longrightarrow> view s' = base @ bs)"
  using assms
proof (induction "length bs - position" arbitrary: position s rule: less_induct)
  case less
  have at_end: "pos = length (view s)" if "advance off position = Inr pos" "position < length bs" for pos
    using less.prems that by (auto simp: exact_advance_def)
  from write_all_loop_turn [OF less.prems(1)] consider
    (finished) "length bs \<le> position" "r = Inr ()" "s' = s"
    | (failed) "\<exists>e. r = Inl e" "s' = s"
    | (torn) pos g where "\<exists>e. r = Inl e" "pos = length (view s)" "write_at ops pos (drop position bs) s = (g, s')"
    | (more) pos count s1 where "position < length bs" "pos = length (view s)"
        "write_at ops pos (drop position bs) s = (Inr count, s1)" "0 < count"
        "write_all_loop ops advance off bs (position + count) s1 = (r, s')"
    using at_end by blast
  then show ?case
  proof cases
    case finished
    with less.prems show ?thesis by (auto intro: exI [of _ "length bs"])
  next
    case torn
    then show ?thesis using write_at_end [OF torn(3) less.prems(5) torn(2)] write_at_stable by auto
  next
    case more
    note ok = write_at_ok [OF more(3)]
    have le: "position + count \<le> length bs" using ok more(1) unfolding length_drop by linarith
    have dec: "length bs - (position + count) < length bs - position" using more(1,4) by linarith
    have "view s1 = base @ take (position + count) bs"
      using ok more(2) less.prems(5) file_write_end [of "view s"] by (simp add: take_add)
    from less.hyps [OF dec more(5) less.prems(2,3) le this] ok show ?thesis by simp
  qed (use less.prems in auto)
qed

lemma wal_write_all_torn:
  assumes "wal_write_all_at ops off bs s = (r, s')" and "off = length (view s)"
  shows "stable s' = stable s \<and> (\<exists>k. view s' = view s @ take k bs) \<and> (r = Inr () \<longrightarrow> view s' = view s @ bs)"
  using write_all_loop_torn [OF assms(1) [unfolded wal_write_all_at_def] _ assms(2)] by simp

end

section \<open>The simulated file meets the contract\<close>

lemma with_fault_cases:
  assumes "with_fault operation body f = (r, f')"
  shows "\<exists>plan action. next_fault operation (cf_plan f) = (action, plan) \<and>
    (r = Inl Io \<and> f' = f\<lparr>cf_plan := plan\<rparr> \<or> body action (f\<lparr>cf_plan := plan\<rparr>) = (r, f'))"
  using assms by (auto simp: with_fault_def split: prod.splits if_splits)

lemma cf_read_at_ok:
  assumes "cf_read_at off n f = (Inr got, f')"
  shows "volatile f' = volatile f \<and> durable f' = durable f \<and> length got \<le> n \<and>
    got = seg off (off + length got) (volatile f)"
  using with_fault_cases [OF assms [unfolded cf_read_at_def]]
  by (auto simp: Let_def length_seg split: if_splits option.splits fault_action.splits)

lemma cf_write_at_ok:
  assumes "cf_write_at off bs f = (Inr k, f')"
  shows "k \<le> length bs \<and> volatile f' = file_write off (take k bs) (volatile f) \<and> durable f' = durable f"
  using with_fault_cases [OF assms [unfolded cf_write_at_def]]
  by (auto simp: Let_def checked_range_def checked_add_usize_def file_write_def min_def
      split: if_splits option.splits fault_action.splits sum.splits)

interpretation cf: durable_file cf_ops volatile durable
proof
  show "read_at cf_ops off n s = (Inr got, s') \<Longrightarrow> volatile s' = volatile s \<and> durable s' = durable s \<and>
      length got \<le> n \<and> got = seg off (off + length got) (volatile s)" for off n s got s'
    by (simp add: cf_ops_def cf_read_at_ok)
  show "read_at cf_ops off n s = (Inl e, s') \<Longrightarrow> volatile s' = volatile s \<and> durable s' = durable s" for off n s e s'
    by (auto simp: cf_ops_def cf_read_at_def Let_def dest!: with_fault_cases split: if_splits)
  show "write_at cf_ops off bs s = (Inr k, s') \<Longrightarrow> k \<le> length bs \<and>
      volatile s' = file_write off (take k bs) (volatile s) \<and> durable s' = durable s" for off bs s k s'
    by (simp add: cf_ops_def cf_write_at_ok)
  show "write_at cf_ops off bs s = (Inl e, s') \<Longrightarrow> durable s' = durable s" for off bs s e s'
    by (auto simp: cf_ops_def cf_write_at_def Let_def dest!: with_fault_cases split: if_splits sum.splits)
qed (auto simp: cf_ops_def cf_len_def cf_set_len_def cf_sync_data_def cf_sync_all_def
      dest!: with_fault_cases split: if_splits)

interpretation cf: torn_file cf_ops volatile durable
proof
  show "write_at cf_ops off bs s = (Inl e, s') \<Longrightarrow> off \<le> length (volatile s) \<Longrightarrow>
      \<exists>k. volatile s' = file_write off (take k bs) (volatile s)" for off bs s e s'
    by (rule exI [of _ 0])
      (auto simp: cf_ops_def cf_write_at_def Let_def file_write_blit blit_def dest!: with_fault_cases split: if_splits sum.splits)
qed (auto simp: cf_ops_def cf_set_len_def cf_sync_data_def dest!: with_fault_cases split: if_splits)

definition cf_healthy :: "crashable_file \<Rightarrow> bool" where
  "cf_healthy f \<longleftrightarrow> faults (cf_plan f) = [] \<and> next_matching (cf_plan f) = [] \<and> length (volatile f) < u64_limit"

lemma next_fault_healthy:
  "faults plan = [] \<Longrightarrow> next_matching plan = [] \<Longrightarrow>
   \<exists>plan'. next_fault operation plan = (None, plan') \<and> faults plan' = [] \<and> next_matching plan' = []"
  by (simp add: next_fault_def Let_def om_get_def)

definition after_fault :: "file_operation \<Rightarrow> crashable_file \<Rightarrow> crashable_file" where
  "after_fault operation f = f\<lparr>cf_plan := snd (next_fault operation (cf_plan f))\<rparr>"

lemma after_fault_simps [simp]:
  "volatile (after_fault operation f) = volatile f" "durable (after_fault operation f) = durable f"
  by (simp_all add: after_fault_def)

lemma with_fault_healthy:
  assumes "cf_healthy f"
  shows "with_fault operation body f = body None (after_fault operation f)"
    and "cf_healthy (after_fault operation f)"
  using next_fault_healthy [of "cf_plan f" operation] assms
  by (auto simp: with_fault_def after_fault_def cf_healthy_def)

interpretation cf: reliable_file cf_ops volatile durable cf_healthy
proof
  fix s :: crashable_file assume h: "cf_healthy s"
  show "\<exists>got s'. read_at cf_ops off n s = (Inr got, s') \<and> cf_healthy s' \<and>
      (0 < n \<and> off < length (volatile s) \<longrightarrow> got \<noteq> [])" for off n
    by (auto simp: cf_ops_def cf_read_at_def with_fault_healthy h Let_def seg_def)
  show "\<exists>k s'. write_at cf_ops off bs s = (Inr k, s') \<and> cf_healthy s' \<and> (bs \<noteq> [] \<longrightarrow> 0 < k)"
    if "off + length bs < u64_limit" for off bs
    using that with_fault_healthy(2) [OF h, of WriteAt]
    by (auto simp: cf_ops_def cf_write_at_def with_fault_healthy(1) [OF h] Let_def checked_range_def
        checked_add_usize_def cf_healthy_def usize_max_def u64_limit_def blit_def)
  show "file_len cf_ops s = Inr (length (volatile s)) \<and> length (volatile s) < u64_limit"
    using h by (simp add: cf_ops_def cf_len_def cf_healthy_def)
  show "\<exists>s'. set_len cf_ops n s = (Inr (), s') \<and> cf_healthy s'" if "n < u64_limit" for n
    using that with_fault_healthy(2) [OF h, of SetLen]
    by (auto simp: cf_ops_def cf_set_len_def with_fault_healthy(1) [OF h] cf_healthy_def)
  show "\<exists>s'. sync_data cf_ops s = (Inr (), s') \<and> cf_healthy s'"
    using with_fault_healthy(2) [OF h, of SyncData]
    by (auto simp: cf_ops_def cf_sync_data_def with_fault_healthy(1) [OF h] cf_healthy_def)
  show "\<exists>s'. sync_all cf_ops s = (Inr (), s') \<and> cf_healthy s'"
    using with_fault_healthy(2) [OF h, of SyncAll]
    by (auto simp: cf_ops_def cf_sync_all_def with_fault_healthy(1) [OF h] cf_healthy_def)
qed

section \<open>Runs of calls\<close>

datatype file_call = CallRead nat nat | CallWrite nat bytes | CallSetLen nat | CallSyncData | CallSyncAll

fun cf_call :: "file_call \<Rightarrow> crashable_file \<Rightarrow> bool \<times> crashable_file" where
  "cf_call (CallRead off n) f = (case cf_read_at off n f of (r, f') \<Rightarrow> (is_ok r, f'))"
| "cf_call (CallWrite off bs) f = (case cf_write_at off bs f of (r, f') \<Rightarrow> (is_ok r, f'))"
| "cf_call (CallSetLen n) f = (case cf_set_len n f of (r, f') \<Rightarrow> (is_ok r, f'))"
| "cf_call CallSyncData f = (case cf_sync_data f of (r, f') \<Rightarrow> (is_ok r, f'))"
| "cf_call CallSyncAll f = (case cf_sync_all f of (r, f') \<Rightarrow> (is_ok r, f'))"

definition is_sync :: "file_call \<Rightarrow> bool" where
  "is_sync c = (c = CallSyncData \<or> c = CallSyncAll)"

fun cf_run :: "file_call list \<Rightarrow> crashable_file \<Rightarrow> crashable_file" where
  "cf_run [] f = f"
| "cf_run (c # cs) f = cf_run cs (snd (cf_call c f))"

text \<open>The content at the last sync that succeeded, if any did.\<close>

fun last_synced :: "file_call list \<Rightarrow> crashable_file \<Rightarrow> bytes option" where
  "last_synced [] f = None"
| "last_synced (c # cs) f =
     (case last_synced cs (snd (cf_call c f)) of
        Some bs \<Rightarrow> Some bs
      | None \<Rightarrow> if is_sync c \<and> fst (cf_call c f) then Some (volatile f) else None)"

lemma cf_call_durable:
  "durable (snd (cf_call c f)) = (if is_sync c \<and> fst (cf_call c f) then volatile f else durable f)"
proof -
  have plain: "durable f' = durable f" if "cf_read_at off n f = (r, f')" for off n r f'
    using cf.read_at_unchanged [of off n f r f'] that by (simp add: cf_ops_def)
  have wr: "durable f' = durable f" if "cf_write_at off bs f = (r, f')" for off bs r f'
    using cf.write_at_stable [of off bs f r f'] that by (simp add: cf_ops_def)
  obtain a1 p1 a2 p2 a3 p3 where nxt: "next_fault SetLen (cf_plan f) = (a1, p1)"
    "next_fault SyncData (cf_plan f) = (a2, p2)" "next_fault SyncAll (cf_plan f) = (a3, p3)"
    by (metis surj_pair)
  show ?thesis
  proof (cases c)
    case (CallRead off n)
    obtain r f' where "cf_read_at off n f = (r, f')" by force
    with plain [OF this] CallRead show ?thesis by (simp add: is_sync_def)
  next
    case (CallWrite off bs)
    obtain r f' where "cf_write_at off bs f = (r, f')" by force
    with wr [OF this] CallWrite show ?thesis by (simp add: is_sync_def)
  qed (simp_all add: is_sync_def cf_set_len_def cf_sync_data_def cf_sync_all_def with_fault_def nxt)
qed

fun injector_run :: "string list \<Rightarrow> crash_injector \<Rightarrow> (crash_injected + unit) list" where
  "injector_run [] i = []"
| "injector_run (p # ps) i = (case injector_hit p i of (r, i') \<Rightarrow> r # injector_run ps i')"

definition hits_seen :: "string \<Rightarrow> u64 \<Rightarrow> string list \<Rightarrow> crash_injector \<Rightarrow> bool" where
  "hits_seen point n seen i \<longleftrightarrow> target i = Some \<lparr>target_point = point, nth_hit = n\<rparr> \<and>
     (\<forall>q. hit_count i q = of_nat (count_list seen q)) \<and> (fired i \<longleftrightarrow> unat n \<le> count_list seen point)"

lemma map_of_filter_key: "q \<noteq> p \<Longrightarrow> map_of (filter (\<lambda>e. fst e \<noteq> p) xs) q = map_of xs q"
  by (induction xs) auto

lemma hit_count_update:
  "hit_count (i\<lparr>hits := (p, c) # filter (\<lambda>e. fst e \<noteq> p) (hits i)\<rparr>) q = (if q = p then c else hit_count i q)"
  by (cases "q = p") (simp_all add: hit_count_def map_of_filter_key)

lemma injector_hit_seen:
  assumes seen: "hits_seen point n seen i" and len: "length seen + 1 < 2 ^ 64"
  shows "\<exists>i'. injector_hit p i =
      (if p = point \<and> count_list (seen @ [p]) point = unat n
       then Inl \<lparr>crash_point = point, crash_hit = n\<rparr> else Inr (), i') \<and>
    hits_seen point n (seen @ [p]) i'"
proof -
  let ?c = "hit_count i p + 1" and ?seen = "seen @ [p]"
  let ?i = "i\<lparr>hits := (p, ?c) # filter (\<lambda>e. fst e \<noteq> p) (hits i)\<rparr>"
  have cnt: "count_list ?seen q < 2 ^ 64" for q
    using count_le_length [of ?seen q] len by simp
  have c: "?c = of_nat (count_list ?seen p)" and all: "hit_count ?i q = of_nat (count_list ?seen q)" for q
    using seen by (simp_all add: hits_seen_def hit_count_update)
  have eq: "n = ?c \<longleftrightarrow> count_list ?seen p = unat n"
    unfolding c word_unat_eq_iff using cnt [of p] unat_of_nat_u64 [of "count_list ?seen p"]
    by (auto simp: usize_max_def simp del: count_list_append)
  have fires: "\<not> fired ?i \<and> (case target ?i of None \<Rightarrow> False | Some t \<Rightarrow> target_point t = p \<and> nth_hit t = ?c) \<longleftrightarrow>
      p = point \<and> count_list ?seen point = unat n"
    using seen eq by (auto simp: hits_seen_def)
  let ?i' = "if p = point \<and> count_list ?seen point = unat n then ?i\<lparr>fired := True\<rparr> else ?i"
  have "hit_count (?i\<lparr>fired := True\<rparr>) q = hit_count ?i q" for q by (simp add: hit_count_def)
  then have "hits_seen point n ?seen ?i'"
    using seen all by (auto simp: hits_seen_def)
  moreover have "injector_hit p i =
      (if p = point \<and> count_list ?seen point = unat n
       then Inl \<lparr>crash_point = point, crash_hit = n\<rparr> else Inr (), ?i')"
    unfolding injector_hit_def Let_def using fires eq by auto
  ultimately show ?thesis by blast
qed

lemma injector_run_seen:
  "hits_seen point n seen i \<Longrightarrow> length seen + length ps < 2 ^ 64 \<Longrightarrow> k < length ps \<Longrightarrow>
   injector_run ps i ! k =
     (if ps ! k = point \<and> count_list (seen @ take (k + 1) ps) point = unat n
      then Inl \<lparr>crash_point = point, crash_hit = n\<rparr> else Inr ())"
proof (induction ps arbitrary: seen i k)
  case (Cons p ps)
  obtain i' where i': "injector_hit p i =
      (if p = point \<and> count_list (seen @ [p]) point = unat n
       then Inl \<lparr>crash_point = point, crash_hit = n\<rparr> else Inr (), i')" "hits_seen point n (seen @ [p]) i'"
    using injector_hit_seen [OF Cons.prems(1)] Cons.prems(2) by auto
  show ?case
    using Cons.IH [OF i'(2)] Cons.prems(2,3) i'(1) by (cases k) auto
qed simp

section \<open>Properties\<close>

text \<open>C32: durability. After any sequence of calls on a file with any fault plan, a crash
  leaves exactly the content at the last sync that succeeded, or the initial durable content
  if none did: unsynced writes and truncations are lost, synced ones are kept.\<close>

theorem crash_keeps_last_sync:
  "volatile (crash (cf_run calls f)) = (case last_synced calls f of None \<Rightarrow> durable f | Some bs \<Rightarrow> bs)"
proof -
  have "durable (cf_run calls f) = (case last_synced calls f of None \<Rightarrow> durable f | Some bs \<Rightarrow> bs)"
    by (induction calls arbitrary: f) (auto simp: cf_call_durable split: option.splits)
  then show ?thesis by (simp add: crash_def)
qed

text \<open>The write loop on the simulated file, whatever the fault plan: it leaves a prefix of the bytes at the
  offset, all of them when it succeeds. \<open>file_write\<close> is a write that extends the file with zeros
  up to the offset where it has to.\<close>

lemma file_write_alt: "file_write off bs v = take off (v @ zeros (off - length v)) @ bs @ drop (off + length bs) v"
  by (auto simp: file_write_def blit_def resize_def zeros_def min_def)

lemma file_write_append: "file_write (off + length a) b (file_write off a v) = file_write off (a @ b) v"
proof -
  have "min (length v) off + (off - length v) = off" by (simp add: min_def)
  then show ?thesis by (simp add: file_write_alt length_zeros add_ac)
qed

lemma cf_write_loop:
  assumes "write_all_loop cf_ops advance off bs position s = (r, s')" and "exact_advance advance off (length bs)"
    and "position \<le> length bs" and "volatile s = (if position = 0 then v else file_write off (take position bs) v)"
  shows "durable s' = durable s \<and> (volatile s' = v \<or> (\<exists>k \<le> length bs. volatile s' = file_write off (take k bs) v)) \<and>
    (r = Inr () \<longrightarrow> volatile s' = (if bs = [] then v else file_write off bs v))"
  using assms
proof (induction "length bs - position" arbitrary: position s rule: less_induct)
  case less
  let ?part = "drop position bs"
  have step: "count \<le> length ?part \<and> durable s1 = durable s \<and> volatile s1 = file_write off (take (position + count) bs) v"
    if "advance off position = Inr pos" "write_at cf_ops pos ?part s = (Inr count, s1)" "position < length bs" for pos count s1
  proof -
    have "pos = off + position" using less.prems(2) that(1,3) by (auto simp: exact_advance_def)
    moreover note ok = cf.write_at_ok [OF that(2)]
    moreover have "file_write (off + position) (take count ?part) (volatile s) = file_write off (take (position + count) bs) v"
      using less.prems(4) file_write_append [of off "take position bs" "take count ?part" v] that(3) by (auto simp: take_add split: if_splits)
    ultimately show ?thesis by simp
  qed
  have fail: "volatile s1 = volatile s \<and> durable s1 = durable s" if "write_at cf_ops pos ?part s = (Inl e, s1)" for pos e s1
    using that by (auto simp: cf_ops_def cf_write_at_def Let_def dest!: with_fault_cases split: if_splits sum.splits)
  show ?case
  proof (cases "position < length bs")
    case False
    then have "r = Inr ()" "s' = s" "position = length bs" using write_all_loop_turn [OF less.prems(1)] False less.prems(3) by auto
    then show ?thesis using less.prems(4) by auto
  next
    case True
    have old: "volatile s = v \<or> (\<exists>k \<le> length bs. volatile s = file_write off (take k bs) v)" using less.prems(3,4) by auto
    from write_all_loop_turn [OF less.prems(1)] True consider (stop) e where "r = Inl e" "s' = s"
      | (tried) e pos g where "r = Inl e" "advance off position = Inr pos" "write_at cf_ops pos ?part s = (g, s')"
      | (more) pos count s1 where "advance off position = Inr pos" "write_at cf_ops pos ?part s = (Inr count, s1)" "0 < count"
          "write_all_loop cf_ops advance off bs (position + count) s1 = (r, s')" by auto
    then show ?thesis
    proof cases
      case stop
      then show ?thesis using old by simp
    next
      case tried
      then show ?thesis
      proof (cases g)
        case (Inl e)
        then show ?thesis using fail tried(1,3) old by auto
      next
        case (Inr count)
        from step [OF tried(2) tried(3) [unfolded Inr] True] tried(1) less.prems(3) show ?thesis by (auto intro!: exI [of _ "position + count"])
      qed
    next
      case more
      note s1 = step [OF more(1,2) True]
      then have "position + count \<le> length bs" "length bs - (position + count) < length bs - position" using more(3) True by auto
      from less.hyps [OF this(2) more(4) less.prems(2) this(1)] s1 more(3) show ?thesis by simp
    qed
  qed
qed

definition transfer_loops :: "((nat \<Rightarrow> bytes \<Rightarrow> (crashable_file, error, unit) sop) \<times> (nat \<Rightarrow> nat \<Rightarrow> (crashable_file, error, bytes) sop)) set" where
  "transfer_loops = {(write_all_at cf_ops, read_exact_at cf_ops), (wal_write_all_at cf_ops, wal_read_exact_at cf_ops)}"

lemma cf_write_total:
  assumes "cf_healthy s" and "off + length bs < u64_limit" and "(put, get) \<in> transfer_loops"
  shows "\<exists>s'. put off bs s = (Inr (), s') \<and> cf_healthy s'"
proof -
  have "checked_offset InvalidInput off k = Inr (off + k)" "wrapping_offset off k = Inr (off + k)" if "k < length bs" for k
    using that assms(2) by (simp_all add: checked_offset_def wrapping_offset_def)
  then show ?thesis
    using assms(3) cf.write_all_loop_total [OF assms(1) _ assms(2), of 0 wrapping_offset] cf.write_all_loop_total [OF assms(1) _ assms(2), of 0 "checked_offset InvalidInput"]
    by (auto simp: transfer_loops_def write_all_at_def wal_write_all_at_def)
qed

lemma cf_read_total:
  assumes "cf_healthy s" and len: "n \<noteq> 0 \<Longrightarrow> off + n \<le> length (volatile s)" and "(put, get) \<in> transfer_loops"
  shows "\<exists>bs s'. get off n s = (Inr bs, s')"
proof (cases "n = 0")
  case True
  then show ?thesis
    using assms(3) by (auto simp: transfer_loops_def read_exact_at_def wal_read_exact_at_def read_exact_loop.simps [of _ _ _ _ 0 "[]"])
next
  case False
  have "off + n < u64_limit" using assms(1) len [OF False] by (simp add: cf_healthy_def)
  then have "checked_offset Corruption off k = Inr (off + k)" "wrapping_offset off k = Inr (off + k)" if "k < n" for k
    using that by (simp_all add: checked_offset_def wrapping_offset_def)
  then show ?thesis
    using assms(3) cf.read_exact_loop_total [OF assms(1) len [OF False], of "[]" wrapping_offset Corruption]
      cf.read_exact_loop_total [OF assms(1) len [OF False], of "[]" "checked_offset Corruption" Io]
    by (auto simp: transfer_loops_def read_exact_at_def wal_read_exact_at_def)
qed

text \<open>C33: the transfer loops are exact under any fault plan. Both copies of the loops, the one of the page
  store and the one of the log, resume short writes and short reads at the right offset. A write
  of \<open>bs\<close> inside the 64-bit address space leaves a prefix of \<open>bs\<close> at the offset, and all of it if it
  reports success; a read after a successful write fails or returns exactly \<open>bs\<close>; nothing else of
  the file changes and nothing becomes durable. Without scheduled faults both succeed.\<close>

theorem write_read_exact:
  assumes "(put, get) \<in> transfer_loops" and "off + length bs < u64_limit"
    and "put off bs f = (r, f1)" and "get off (length bs) f1 = (r', f2)"
  shows "durable f1 = durable f \<and> durable f2 = durable f \<and> volatile f2 = volatile f1 \<and>
    (volatile f1 = volatile f \<or> (\<exists>k \<le> length bs. volatile f1 = file_write off (take k bs) (volatile f))) \<and>
    (r = Inr () \<longrightarrow> volatile f1 = (if bs = [] then volatile f else file_write off bs (volatile f)) \<and> (\<forall>got. r' = Inr got \<longrightarrow> got = bs)) \<and>
    (cf_healthy f \<longrightarrow> r = Inr () \<and> r' = Inr bs)"
proof -
  have lim: "off + length bs \<le> u64_limit" using assms(2) by simp
  have "\<exists>advance. exact_advance advance off (length bs) \<and> write_all_loop cf_ops advance off bs 0 f = (r, f1)"
    using assms(1,3) exact_wrapping [OF lim] exact_checked [of InvalidInput off "length bs"]
    by (auto simp: transfer_loops_def write_all_at_def wal_write_all_at_def simp del: exact_checked)
  then have w: "durable f1 = durable f" "volatile f1 = volatile f \<or> (\<exists>k \<le> length bs. volatile f1 = file_write off (take k bs) (volatile f))"
    "r = Inr () \<Longrightarrow> volatile f1 = (if bs = [] then volatile f else file_write off bs (volatile f))"
    using cf_write_loop [of _ off bs 0 f r f1 "volatile f"] by auto
  from assms(1) consider "get = read_exact_at cf_ops" | "get = wal_read_exact_at cf_ops" by (auto simp: transfer_loops_def)
  then have rd: "volatile f2 = volatile f1 \<and> durable f2 = durable f1 \<and>
      (\<forall>got. r' = Inr got \<longrightarrow> got = seg off (off + length bs) (volatile f1) \<and> length got = length bs)"
  proof cases
    case 1
    show ?thesis by (rule cf.read_exact_at_ok [OF assms(4) [unfolded 1] lim])
  next
    case 2
    show ?thesis by (rule cf.wal_read_exact_at_ok [OF assms(4) [unfolded 2]])
  qed
  have got: "got = bs" if "r = Inr ()" "r' = Inr got" for got
  proof (cases "bs = []")
    case True
    then show ?thesis using rd that(2) by simp
  next
    case False
    have "min (length (volatile f)) off + (off - length (volatile f)) = off" by (simp add: min_def)
    then have "seg off (off + length bs) (file_write off bs (volatile f)) = bs" by (simp add: file_write_alt seg_def length_zeros)
    then show ?thesis using w(3) [OF that(1)] rd that(2) False by simp
  qed
  have healthy: "r = Inr () \<and> r' = Inr bs" if h: "cf_healthy f"
  proof -
    have ok: "r = Inr ()" "cf_healthy f1" using cf_write_total [OF h assms(2,1)] assms(3) by auto
    have v: "volatile f1 = (if bs = [] then volatile f else file_write off bs (volatile f))" by (rule w(3) [OF ok(1)])
    have "off + length bs \<le> length (volatile f1)" if "length bs \<noteq> 0"
    proof -
      have ne: "bs \<noteq> []" using that by simp
      have "length (volatile f1) = max (length (volatile f)) (off + length bs)" unfolding v if_not_P [OF ne] by (rule length_file_write)
      then show ?thesis by linarith
    qed
    from cf_read_total [OF ok(2) this assms(1)] have "\<exists>x. r' = Inr x" unfolding assms(4) by blast
    then show ?thesis using ok(1) got by blast
  qed
  have "durable f2 = durable f" "volatile f2 = volatile f1" using rd w(1) by auto
  then show ?thesis by (intro conjI impI allI w(1,2)) (assumption, assumption, rule w(3), assumption, erule got, assumption, (drule healthy, erule conjE, assumption)+)
qed

definition short_write_file :: crashable_file where
  "short_write_file = with_fault_plan (plan_on_next WriteAt (ShortWrite 1) fault_plan_default) (from_durable [9, 9])"

lemmas cf_eval = cf_ops_def cf_write_at_def cf_read_at_def with_fault_def next_fault_def Let_def om_get_def
  saturating_inc_u64_def checked_add_u64_def checked_range_def checked_add_usize_def usize_max_def
  checked_offset_def u64_limit_def resize_def blit_def zeros_def seg_def

definition short_write_result :: crashable_file where
  "short_write_result = \<lparr>volatile = [9, 7, 8], durable = [9, 9],
     cf_plan = \<lparr>faults = [], next_matching = [], matching_hits = [(WriteAt, 2)], next_operation = 2\<rparr>\<rparr>"

lemma short_write_run: "wal_write_all_at cf_ops 1 [7, 8] short_write_file = (Inr (), short_write_result)"
  by (simp add: cf_eval wal_write_all_at_def write_all_loop.simps short_write_file_def short_write_result_def
      with_fault_plan_def plan_on_next_def plan_on_nth_def from_durable_def fault_plan_default_def max_def)

lemma short_write_read: "\<exists>f2. wal_read_exact_at cf_ops 1 (length [7 :: byte, 8]) short_write_result = (Inr [7, 8], f2)"
  by (simp add: cf_eval wal_read_exact_at_def read_exact_loop.simps short_write_result_def)

theorem write_read_exact_witness:
  "\<exists>f2. wal_read_exact_at cf_ops 1 2 short_write_result = (Inr [7, 8], f2) \<and> volatile f2 = [9, 7, 8] \<and>
     durable f2 = durable short_write_file"
proof -
  obtain f2 where r: "wal_read_exact_at cf_ops 1 (length [7 :: byte, 8]) short_write_result = (Inr [7, 8], f2)"
    using short_write_read by blast
  have "(wal_write_all_at cf_ops, wal_read_exact_at cf_ops) \<in> transfer_loops" "1 + length [7 :: byte, 8] < u64_limit"
    by (simp_all add: transfer_loops_def u64_limit_def)
  from write_read_exact [OF this short_write_run r] r show ?thesis by (simp add: numeral_2_eq_2 short_write_result_def)
qed

text \<open>C34: the crash injector fires exactly once, at the requested hit. Along any sequence of
  hits, the result at a position is the simulated crash exactly when the point there is the
  target and it is its \<open>n\<close>-th occurrence (the first, if 0 was asked for); before and after it
  every hit succeeds.\<close>

theorem injector_fires_once:
  assumes "length ps < 2 ^ 64" and "k < length ps"
  shows "injector_run ps (injector_at point n) ! k =
    (if ps ! k = point \<and> count_list (take (k + 1) ps) point = unat (max n 1)
     then Inl \<lparr>crash_point = point, crash_hit = max n 1\<rparr> else Inr ())"
proof -
  have "max n 1 \<noteq> 0" by (metis max.cobounded2 word_le_0_iff zero_neq_one)
  then have "hits_seen point (max n 1) [] (injector_at point n)"
    by (simp add: hits_seen_def injector_at_def hit_count_def unat_eq_zero)
  from injector_run_seen [OF this _ assms(2)] assms(1) show ?thesis by simp
qed

theorem injector_fires_once_witness:
  "injector_run [''a'', ''b'', ''b'', ''b''] (injector_at ''b'' 2) ! 2 =
     Inl \<lparr>crash_point = ''b'', crash_hit = 2\<rparr>"
  using injector_fires_once [of "[''a'', ''b'', ''b'', ''b'']" 2 "''b''" 2] by simp

end
