(* ===== verification/Dodb_Wal.thy ===== *)
theory Dodb_Wal
  imports Dodb_File Dodb_Superblock
begin

text \<open>
  The redo log of \<open>dodb-storage/src/wal.rs\<close>: frames with checksummed headers, payloads and a
  trailing length, groups of commits made of page images and a commit marker, the scan of an
  existing log, opening, appending and resetting. The file and the fault injector are
  parameters. Wall-clock durations, which only feed the metrics, are arguments.
\<close>

section \<open>Layout\<close>

definition WAL_FORMAT_VERSION :: u16 where "WAL_FORMAT_VERSION = 2"
definition WAL_MAGIC :: bytes where "WAL_MAGIC = [0x44, 0x57, 0x41, 0x4c]"
definition WAL_HEADER_SIZE :: nat where "WAL_HEADER_SIZE = 48"
definition WAL_TRAILER_SIZE :: nat where "WAL_TRAILER_SIZE = 4"
definition WAL_MIN_FRAME_SIZE :: nat where "WAL_MIN_FRAME_SIZE = WAL_HEADER_SIZE + WAL_TRAILER_SIZE"
definition WAL_MAX_PAYLOAD_SIZE :: nat where "WAL_MAX_PAYLOAD_SIZE = 64 * 1024 * 1024"
definition HEADER_CHECKSUM_OFFSET :: nat where "HEADER_CHECKSUM_OFFSET = 40"
definition PAYLOAD_CHECKSUM_OFFSET :: nat where "PAYLOAD_CHECKSUM_OFFSET = 44"
definition LEGACY_WAL_FORMAT_VERSION :: u16 where "LEGACY_WAL_FORMAT_VERSION = 1"
definition LEGACY_INIT_PAYLOAD_SIZE :: nat where "LEGACY_INIT_PAYLOAD_SIZE = 44"
definition INIT_PAYLOAD_SIZE :: nat where "INIT_PAYLOAD_SIZE = 52"
definition INIT_FRAME_SIZE :: nat where "INIT_FRAME_SIZE = WAL_HEADER_SIZE + INIT_PAYLOAD_SIZE + WAL_TRAILER_SIZE"
definition PAGE_IMAGE_PAYLOAD_SIZE :: nat where "PAGE_IMAGE_PAYLOAD_SIZE = 8 + PAGE_SIZE"
definition COMMIT_PAYLOAD_SIZE :: nat where "COMMIT_PAYLOAD_SIZE = 16"
definition SUPERBLOCK_A_PAGE :: page_id where "SUPERBLOCK_A_PAGE = 0"
definition SUPERBLOCK_B_PAGE :: page_id where "SUPERBLOCK_B_PAGE = 1"

lemmas wal_sizes = WAL_HEADER_SIZE_def WAL_TRAILER_SIZE_def WAL_MIN_FRAME_SIZE_def
  HEADER_CHECKSUM_OFFSET_def PAYLOAD_CHECKSUM_OFFSET_def LEGACY_INIT_PAYLOAD_SIZE_def INIT_PAYLOAD_SIZE_def
  INIT_FRAME_SIZE_def PAGE_IMAGE_PAYLOAD_SIZE_def COMMIT_PAYLOAD_SIZE_def

declare wal_sizes [simp]

datatype wal_record_type = InitRecord | PageImageRecord | CommitRecord

fun wal_record_type_code :: "wal_record_type \<Rightarrow> byte" where
  "wal_record_type_code InitRecord = 1"
| "wal_record_type_code PageImageRecord = 2"
| "wal_record_type_code CommitRecord = 3"

definition wal_record_type_decode :: "byte \<Rightarrow> error + wal_record_type" where
  "wal_record_type_decode value =
     (if value = 1 then Inr InitRecord else if value = 2 then Inr PageImageRecord
      else if value = 3 then Inr CommitRecord else Inl UnsupportedFormat)"

record wal_identity =
  wi_database_uuid :: bytes
  wi_tenant_id :: tenant_id
  wi_shard_id :: shard_id
  wi_shard_epoch :: shard_epoch

record wal_page_image =
  wpi_page_id :: page_id
  wpi_image :: bytes

text \<open>\<open>WalCommit\<close> (to be appended) and \<open>CommittedWalBatch\<close> (found by a scan) have the same
  fields.\<close>

record wal_commit =
  wc_batch_id :: u64
  wc_commit_lsn :: lsn
  wc_pages :: "wal_page_image list"

record wal_scan_report =
  records_scanned :: nat
  committed_batches :: nat
  replayable_pages :: nat
  torn_tail_bytes :: nat

definition scan_report_default :: wal_scan_report where
  "scan_report_default = \<lparr>records_scanned = 0, committed_batches = 0, replayable_pages = 0, torn_tail_bytes = 0\<rparr>"

record wal_append_report =
  ar_first_record_lsn :: lsn
  ar_commit_lsn :: lsn
  ar_page_count :: nat
  ar_bytes_written :: nat

record wal_metrics =
  wm_wal_bytes :: nat
  wm_wal_syncs :: u64
  wm_committed_batches :: nat
  wm_page_images :: nat
  wm_append_nanos :: u64
  wm_sync_nanos :: u64

record frame =
  fr_format_version :: u16
  fr_record_type :: wal_record_type
  fr_record_lsn :: lsn
  fr_batch_id :: u64
  fr_record_index :: u32
  fr_payload :: bytes

record pending_batch =
  pb_batch_id :: u64
  pb_first_record_lsn :: lsn
  pb_pages :: "wal_page_image list"
  pb_digest_input :: bytes

record 'f wal_log =
  wl_file :: 'f
  wl_identity :: wal_identity
  wl_format_version :: u16
  wl_next_lsn :: lsn
  wl_next_batch_id :: u64
  wl_history_start_lsn :: lsn
  wl_committed :: "wal_commit list"
  wl_scan_report :: wal_scan_report
  wl_sync_count :: u64
  wl_page_images :: nat
  wl_append_nanos :: u64
  wl_sync_nanos :: u64

section \<open>Frames\<close>

definition header_checksum :: "crc_fun \<Rightarrow> bytes \<Rightarrow> u32" where
  "header_checksum crc header = field_checksum crc HEADER_CHECKSUM_OFFSET header"

definition frame_header_fields :: "crc_fun \<Rightarrow> u16 \<Rightarrow> wal_record_type \<Rightarrow> lsn \<Rightarrow> u64 \<Rightarrow> u32 \<Rightarrow> bytes \<Rightarrow> bytes" where
  "frame_header_fields crc version rtype record_lsn batch_id record_index payload =
     blits [(0, WAL_MAGIC),
            (4, to_le_u16 version),
            (6, [wal_record_type_code rtype]),
            (8, to_le_u32 (of_nat (WAL_HEADER_SIZE + length payload + WAL_TRAILER_SIZE))),
            (12, to_le_u32 (of_nat (length payload))),
            (16, to_le_u64 record_lsn),
            (24, to_le_u64 batch_id),
            (32, to_le_u32 record_index),
            (PAYLOAD_CHECKSUM_OFFSET, to_le_u32 (crc payload))] (zeros WAL_HEADER_SIZE)"

definition encode_frame :: "crc_fun \<Rightarrow> u16 \<Rightarrow> wal_record_type \<Rightarrow> lsn \<Rightarrow> u64 \<Rightarrow> u32 \<Rightarrow> bytes \<Rightarrow> error + bytes" where
  "encode_frame crc version rtype record_lsn batch_id record_index payload =
     rbind (ensure (\<not> length payload > WAL_MAX_PAYLOAD_SIZE) InvalidInput) (\<lambda>_.
     rbind (ok_or (Option.bind (checked_add_usize WAL_HEADER_SIZE (length payload))
                     (\<lambda>len. checked_add_usize len WAL_TRAILER_SIZE)) InvalidInput) (\<lambda>frame_length.
     rbind (ensure (frame_length < 2 ^ 32) InvalidInput) (\<lambda>_.
     rbind (ensure (length payload < 2 ^ 32) InvalidInput) (\<lambda>_.
     let header = frame_header_fields crc version rtype record_lsn batch_id record_index payload;
         header = blit HEADER_CHECKSUM_OFFSET (to_le_u32 (header_checksum crc header)) header
     in Inr (header @ payload @ to_le_u32 (of_nat frame_length))))))"

definition identity_payload :: "wal_identity \<Rightarrow> lsn \<Rightarrow> bytes" where
  "identity_payload identity start_after_lsn =
     blits [(0, wi_database_uuid identity),
            (16, to_le_u64 (wi_tenant_id identity)),
            (24, to_le_u64 (wi_shard_id identity)),
            (32, to_le_u64 (wi_shard_epoch identity)),
            (40, to_le_u32 (of_nat PAGE_SIZE)),
            (44, to_le_u64 start_after_lsn)] (zeros INIT_PAYLOAD_SIZE)"

definition decode_header :: "crc_fun \<Rightarrow> bytes \<Rightarrow>
    error + (u16 \<times> wal_record_type \<times> nat \<times> nat \<times> u64 \<times> u64 \<times> u32)" where
  "decode_header crc bs =
     rbind (ensure (length bs = WAL_HEADER_SIZE) Corruption) (\<lambda>_.
     rbind (ensure (seg 0 4 bs = WAL_MAGIC) Corruption) (\<lambda>_.
     let version = from_le_u16 (seg 4 6 bs) in
     rbind (ensure (\<not> (version \<noteq> WAL_FORMAT_VERSION \<and> version \<noteq> LEGACY_WAL_FORMAT_VERSION)) UnsupportedFormat) (\<lambda>_.
     rbind (ensure (\<not> (bs ! 7 \<noteq> 0 \<or> list_ex (\<lambda>b. b \<noteq> 0) (seg 36 40 bs))) Corruption) (\<lambda>_.
     rbind (ensure (from_le_u32 (seg HEADER_CHECKSUM_OFFSET 44 bs) = header_checksum crc bs) Corruption) (\<lambda>_.
     rbind (wal_record_type_decode (bs ! 6)) (\<lambda>rtype.
     Inr (version, rtype, unat (from_le_u32 (seg 8 12 bs)), unat (from_le_u32 (seg 12 16 bs)),
          from_le_u64 (seg 16 24 bs), from_le_u64 (seg 24 32 bs), from_le_u32 (seg 32 36 bs))))))))"

definition verify_payload_checksum :: "crc_fun \<Rightarrow> bytes \<Rightarrow> bytes \<Rightarrow> error + unit" where
  "verify_payload_checksum crc header payload =
     ensure (from_le_u32 (seg PAYLOAD_CHECKSUM_OFFSET 48 header) = crc payload) Corruption"

section \<open>Payloads\<close>

definition validate_page_image :: "crc_fun \<Rightarrow> wal_page_image \<Rightarrow> error + unit" where
  "validate_page_image crc page =
     (if wpi_page_id page = SUPERBLOCK_A_PAGE \<or> wpi_page_id page = SUPERBLOCK_B_PAGE
      then rbind (decode_superblock crc (wpi_image page)) (\<lambda>_. Inr ())
      else rbind (decode_page_at crc (wpi_image page) (Some (wpi_page_id page))) (\<lambda>_. Inr ()))"

definition validate_page_image_lsn :: "wal_page_image \<Rightarrow> lsn \<Rightarrow> error + unit" where
  "validate_page_image_lsn page commit =
     (if wpi_page_id page = SUPERBLOCK_A_PAGE \<or> wpi_page_id page = SUPERBLOCK_B_PAGE then Inr ()
      else ensure (from_le_u64 (seg 16 24 (wpi_image page)) = commit) Corruption)"

definition encode_page_image :: "crc_fun \<Rightarrow> wal_page_image \<Rightarrow> error + bytes" where
  "encode_page_image crc page =
     rbind (validate_page_image crc page) (\<lambda>_. Inr (to_le_u64 (wpi_page_id page) @ wpi_image page))"

definition decode_page_image :: "bytes \<Rightarrow> error + wal_page_image" where
  "decode_page_image payload =
     rbind (ensure (length payload = PAGE_IMAGE_PAYLOAD_SIZE) Corruption) (\<lambda>_.
     Inr \<lparr>wpi_page_id = from_le_u64 (seg 0 8 payload), wpi_image = drop 8 payload\<rparr>)"

definition commit_payload :: "lsn \<Rightarrow> nat \<Rightarrow> u32 \<Rightarrow> bytes" where
  "commit_payload first_record_lsn page_count digest =
     blits [(0, to_le_u64 first_record_lsn), (8, to_le_u32 (of_nat page_count)), (12, to_le_u32 digest)]
       (zeros COMMIT_PAYLOAD_SIZE)"

definition decode_commit_payload :: "bytes \<Rightarrow> error + (lsn \<times> nat \<times> u32)" where
  "decode_commit_payload payload =
     rbind (ensure (length payload = COMMIT_PAYLOAD_SIZE) Corruption) (\<lambda>_.
     Inr (from_le_u64 (seg 0 8 payload), unat (from_le_u32 (seg 8 12 payload)), from_le_u32 (seg 12 16 payload)))"

definition verify_identity :: "u16 \<Rightarrow> bytes \<Rightarrow> wal_identity \<Rightarrow> error + lsn" where
  "verify_identity version payload expected =
     (let expected_length = (if version = LEGACY_WAL_FORMAT_VERSION then LEGACY_INIT_PAYLOAD_SIZE else INIT_PAYLOAD_SIZE) in
      rbind (ensure (length payload = expected_length) Corruption) (\<lambda>_.
      let actual = \<lparr>wi_database_uuid = seg 0 16 payload, wi_tenant_id = from_le_u64 (seg 16 24 payload),
                    wi_shard_id = from_le_u64 (seg 24 32 payload), wi_shard_epoch = from_le_u64 (seg 32 40 payload)\<rparr>;
          page_size = from_le_u32 (seg 40 44 payload) in
      rbind (ensure (unat page_size = PAGE_SIZE) UnsupportedFormat) (\<lambda>_.
      rbind (ensure (actual = expected) Corruption) (\<lambda>_.
      Inr (if version = LEGACY_WAL_FORMAT_VERSION then 0 else from_le_u64 (seg 44 52 payload))))))"

section \<open>Scanning\<close>

text \<open>One turn of the frame loop of \<open>scan_wal\<close> at \<open>offset\<close>: None is \<open>break\<close>, otherwise the
  frame and its length. Then the loop itself.\<close>

definition scan_step :: "'f file_ops \<Rightarrow> crc_fun \<Rightarrow> nat \<Rightarrow> nat \<Rightarrow> lsn option \<Rightarrow> frame list \<Rightarrow>
    ('f, error, (frame \<times> nat) option) sop" where
  "scan_step ops crc len offset previous frames =
     (let remaining = len - offset in
      if remaining < WAL_HEADER_SIZE then sret None
      else
        sbind (wal_read_exact_at ops offset WAL_HEADER_SIZE) (\<lambda>header.
        sbind (sres (decode_header crc header))
          (\<lambda>(version, rtype, frame_length, payload_length, record_lsn, batch_id, record_index).
        sbind (sres (ensure (\<not> (frames \<noteq> [] \<and> fr_format_version (hd frames) \<noteq> version)) Corruption)) (\<lambda>_.
        sbind (sres (ensure (\<not> (frame_length < WAL_MIN_FRAME_SIZE
                 \<or> frame_length \<noteq> WAL_HEADER_SIZE + payload_length + WAL_TRAILER_SIZE
                 \<or> payload_length > WAL_MAX_PAYLOAD_SIZE)) Corruption)) (\<lambda>_.
        if frame_length > remaining then sret None
        else
          sbind (sres (checked_offset Corruption offset WAL_HEADER_SIZE)) (\<lambda>payload_offset.
          sbind (wal_read_exact_at ops payload_offset payload_length) (\<lambda>payload.
          sbind (sres (checked_offset Corruption offset (WAL_HEADER_SIZE + payload_length))) (\<lambda>trailer_offset.
          sbind (wal_read_exact_at ops trailer_offset WAL_TRAILER_SIZE) (\<lambda>trailer.
          sbind (sres (ensure (from_le_u32 trailer = of_nat frame_length) Corruption)) (\<lambda>_.
          sbind (sres (ensure (\<not> (case previous of None \<Rightarrow> False | Some p \<Rightarrow> record_lsn \<le> p)) Corruption)) (\<lambda>_.
          sbind (sres (verify_payload_checksum crc header payload)) (\<lambda>_.
          sret (Some (\<lparr>fr_format_version = version, fr_record_type = rtype, fr_record_lsn = record_lsn,
                       fr_batch_id = batch_id, fr_record_index = record_index, fr_payload = payload\<rparr>,
                      frame_length))))))))))))))"

lemma scan_step_progress:
  "scan_step ops crc len offset previous frames s = (Inr (Some (fr, n)), s') \<Longrightarrow> 52 \<le> n \<and> n \<le> len - offset"
  by (auto simp: scan_step_def Let_def result_iff split: if_splits)

function scan_loop :: "'f file_ops \<Rightarrow> crc_fun \<Rightarrow> nat \<Rightarrow> nat \<Rightarrow> lsn option \<Rightarrow> frame list \<Rightarrow>
    ('f, error, frame list \<times> lsn option \<times> nat) sop" where
  "scan_loop ops crc len offset previous frames s =
     (if offset < len then
        (case scan_step ops crc len offset previous frames s of
           (Inl e, s') \<Rightarrow> (Inl e, s')
         | (Inr None, s') \<Rightarrow> (Inr (frames, previous, offset), s')
         | (Inr (Some (frame, frame_length)), s') \<Rightarrow>
             scan_loop ops crc len (offset + frame_length) (Some (fr_record_lsn frame)) (frames @ [frame]) s')
      else (Inr (frames, previous, offset), s))"
  by pat_completeness auto
termination
  by (relation "measure (\<lambda>(ops, crc, len, offset, previous, frames, s). len - offset)")
    (auto dest!: scan_step_progress [OF sym])

declare scan_loop.simps [simp del]

text \<open>The second pass over the frames after the initialization record, with the commits found
  so far, the pending batch and the two batch-id counters.\<close>

record scan_state =
  sc_committed :: "wal_commit list"
  sc_pending :: "pending_batch option"
  sc_highest :: u64
  sc_max_batch_id :: u64

definition scan_page_image :: "crc_fun \<Rightarrow> frame \<Rightarrow> scan_state \<Rightarrow> error + scan_state" where
  "scan_page_image crc frame st =
     rbind (decode_page_image (fr_payload frame)) (\<lambda>page.
     rbind (validate_page_image crc page) (\<lambda>_.
     rbind (case sc_pending st of
              Some p \<Rightarrow> if pb_batch_id p = fr_batch_id frame then Inr (p, st)
                        else rbind (ensure (\<not> fr_batch_id frame \<le> sc_highest st) Corruption) (\<lambda>_.
                             Inr (\<lparr>pb_batch_id = fr_batch_id frame, pb_first_record_lsn = fr_record_lsn frame,
                                   pb_pages = [], pb_digest_input = []\<rparr>, st\<lparr>sc_highest := fr_batch_id frame\<rparr>))
            | None \<Rightarrow> rbind (ensure (\<not> fr_batch_id frame \<le> sc_highest st) Corruption) (\<lambda>_.
                      Inr (\<lparr>pb_batch_id = fr_batch_id frame, pb_first_record_lsn = fr_record_lsn frame,
                            pb_pages = [], pb_digest_input = []\<rparr>, st\<lparr>sc_highest := fr_batch_id frame\<rparr>)))
       (\<lambda>(current, st).
     rbind (ensure (\<not> fr_record_index frame \<noteq> of_nat (length (pb_pages current))) Corruption) (\<lambda>_.
     Inr (st\<lparr>sc_pending := Some (current\<lparr>pb_digest_input := pb_digest_input current @ fr_payload frame,
                                         pb_pages := pb_pages current @ [page]\<rparr>)\<rparr>)))))"

definition scan_commit :: "crc_fun \<Rightarrow> frame \<Rightarrow> scan_state \<Rightarrow> error + scan_state" where
  "scan_commit crc frame st =
     rbind (ok_or (sc_pending st) Corruption) (\<lambda>current.
     rbind (ensure (\<not> (pb_batch_id current \<noteq> fr_batch_id frame
               \<or> fr_record_index frame \<noteq> of_nat (length (pb_pages current)))) Corruption) (\<lambda>_.
     rbind (decode_commit_payload (fr_payload frame)) (\<lambda>(first_lsn, page_count, digest).
     rbind (ensure (\<not> (first_lsn \<noteq> pb_first_record_lsn current \<or> page_count \<noteq> length (pb_pages current)
               \<or> crc (pb_digest_input current) \<noteq> digest)) Corruption) (\<lambda>_.
     rbind (rmap (\<lambda>page. validate_page_image_lsn page (fr_record_lsn frame)) (pb_pages current)) (\<lambda>_.
     Inr (st\<lparr>sc_pending := None,
             sc_committed := sc_committed st @ [\<lparr>wc_batch_id = fr_batch_id frame,
               wc_commit_lsn = fr_record_lsn frame, wc_pages = pb_pages current\<rparr>]\<rparr>))))))"

definition scan_frame :: "crc_fun \<Rightarrow> lsn \<Rightarrow> frame \<Rightarrow> scan_state \<Rightarrow> error + scan_state" where
  "scan_frame crc history_start frame st =
     rbind (ensure (\<not> fr_record_lsn frame \<le> history_start) Corruption) (\<lambda>_.
     let st = st\<lparr>sc_max_batch_id := max (sc_max_batch_id st) (fr_batch_id frame)\<rparr> in
     case fr_record_type frame of
       InitRecord \<Rightarrow> Inl Corruption
     | PageImageRecord \<Rightarrow> scan_page_image crc frame st
     | CommitRecord \<Rightarrow> scan_commit crc frame st)"

fun scan_frames :: "crc_fun \<Rightarrow> lsn \<Rightarrow> frame list \<Rightarrow> scan_state \<Rightarrow> error + scan_state" where
  "scan_frames crc history_start [] st = Inr st"
| "scan_frames crc history_start (f # fs) st =
     rbind (scan_frame crc history_start f st) (\<lambda>st'. scan_frames crc history_start fs st')"

record wal_scan =
  ws_next_lsn :: lsn
  ws_next_batch_id :: u64
  ws_format_version :: u16
  ws_history_start_lsn :: lsn
  ws_committed :: "wal_commit list"
  ws_report :: wal_scan_report
  ws_valid_length :: nat

definition scan_result :: "crc_fun \<Rightarrow> wal_identity \<Rightarrow> frame list \<Rightarrow> lsn option \<Rightarrow> nat \<Rightarrow> error + wal_scan" where
  "scan_result crc identity frames previous valid_length =
     (case frames of
        [] \<Rightarrow> Inl Corruption
      | first # rest \<Rightarrow>
          rbind (ensure (\<not> (fr_record_type first \<noteq> InitRecord \<or> fr_record_lsn first \<noteq> 0
                   \<or> fr_batch_id first \<noteq> 0 \<or> fr_record_index first \<noteq> 0)) Corruption) (\<lambda>_.
          rbind (verify_identity (fr_format_version first) (fr_payload first) identity) (\<lambda>history_start.
          rbind (scan_frames crc history_start rest
                   \<lparr>sc_committed = [], sc_pending = None, sc_highest = 0, sc_max_batch_id = 0\<rparr>) (\<lambda>st.
          rbind (ok_or (checked_add_u64 (case previous of None \<Rightarrow> 0 | Some l \<Rightarrow> l) 1) InternalInvariantViolation) (\<lambda>next_lsn.
          rbind (ok_or (checked_add_u64 (sc_max_batch_id st) 1) InternalInvariantViolation) (\<lambda>next_batch_id.
          Inr \<lparr>ws_next_lsn = next_lsn, ws_next_batch_id = max next_batch_id 1,
               ws_format_version = fr_format_version first, ws_history_start_lsn = history_start,
               ws_committed = sc_committed st,
               ws_report = \<lparr>records_scanned = length frames, committed_batches = length (sc_committed st),
                 replayable_pages = sum_list (map (length \<circ> wc_pages) (sc_committed st)), torn_tail_bytes = 0\<rparr>,
               ws_valid_length = valid_length\<rparr>))))))"

definition scan_wal :: "'f file_ops \<Rightarrow> crc_fun \<Rightarrow> wal_identity \<Rightarrow> ('f, error, wal_scan) sop" where
  "scan_wal ops crc identity =
     sbind (sget (file_len ops)) (\<lambda>len.
     sbind (scan_loop ops crc len 0 None []) (\<lambda>(frames, previous, valid_length).
     sres (scan_result crc identity frames previous valid_length)))"

section \<open>Appending\<close>

text \<open>The state of the log operations: the log and the optional fault injector.\<close>

definition on_file :: "('f, error, 'a) sop \<Rightarrow> ('f wal_log \<times> 'i option, error, 'a) sop" where
  "on_file m = (\<lambda>(w, i). case m (wl_file w) of (r, f) \<Rightarrow> (r, (w\<lparr>wl_file := f\<rparr>, i)))"

definition wal_hit :: "(string \<Rightarrow> ('i, error, unit) sop) \<Rightarrow> string \<Rightarrow> ('f wal_log \<times> 'i option, error, unit) sop" where
  "wal_hit hit point = (\<lambda>(w, i). case hit_fault hit point i of (r, i') \<Rightarrow> (r, (w, i')))"

definition mod_wal :: "('f wal_log \<Rightarrow> 'f wal_log) \<Rightarrow> ('f wal_log \<times> 'i option, error, unit) sop" where
  "mod_wal g = smod (\<lambda>(w, i). (g w, i))"

definition get_wal :: "('f wal_log \<Rightarrow> error + 'a) \<Rightarrow> ('f wal_log \<times> 'i option, error, 'a) sop" where
  "get_wal g = sget (\<lambda>(w, i). g w)"

definition append_frame :: "'f file_ops \<Rightarrow> crc_fun \<Rightarrow> (string \<Rightarrow> ('i, error, unit) sop) \<Rightarrow>
    wal_record_type \<Rightarrow> lsn \<Rightarrow> u64 \<Rightarrow> u32 \<Rightarrow> bytes \<Rightarrow> ('f wal_log \<times> 'i option, error, nat) sop" where
  "append_frame ops crc hit rtype record_lsn batch_id record_index payload =
     sbind (get_wal (\<lambda>w. encode_frame crc (wl_format_version w) rtype record_lsn batch_id record_index payload)) (\<lambda>frame.
     let payload_end = WAL_HEADER_SIZE + length payload in
     sbind (get_wal (\<lambda>w. file_len ops (wl_file w))) (\<lambda>offset.
     sbind (wal_hit hit ''during_wal_header_write'') (\<lambda>_.
     sbind (on_file (wal_write_all_at ops offset (take WAL_HEADER_SIZE frame))) (\<lambda>_.
     sbind (wal_hit hit ''during_wal_payload_write'') (\<lambda>_.
     sbind (sres (checked_offset InvalidInput offset WAL_HEADER_SIZE)) (\<lambda>payload_offset.
     sbind (on_file (wal_write_all_at ops payload_offset (seg WAL_HEADER_SIZE payload_end frame))) (\<lambda>_.
     sbind (wal_hit hit ''during_wal_trailer_write'') (\<lambda>_.
     sbind (sres (checked_offset InvalidInput offset payload_end)) (\<lambda>trailer_offset.
     sbind (on_file (wal_write_all_at ops trailer_offset (drop payload_end frame))) (\<lambda>_.
     sret (length frame)))))))))))"

text \<open>The loop over the pages of a commit; the accumulators are the digest input and the bytes
  written.\<close>

fun append_pages :: "'f file_ops \<Rightarrow> crc_fun \<Rightarrow> (string \<Rightarrow> ('i, error, unit) sop) \<Rightarrow> wal_commit \<Rightarrow> lsn \<Rightarrow>
    nat \<Rightarrow> wal_page_image list \<Rightarrow> bytes \<Rightarrow> nat \<Rightarrow> ('f wal_log \<times> 'i option, error, bytes \<times> nat) sop" where
  "append_pages ops crc hit commit first_record_lsn index [] digest written = sret (digest, written)"
| "append_pages ops crc hit commit first_record_lsn index (page # pages) digest written =
     sbind (sres (validate_page_image_lsn page (wc_commit_lsn commit))) (\<lambda>_.
     sbind (sres (encode_page_image crc page)) (\<lambda>payload.
     sbind (sres (ok_or (checked_add_u64 first_record_lsn (of_nat index)) InternalInvariantViolation)) (\<lambda>record_lsn.
     sbind (sres (ensure (index < 2 ^ 32) InvalidInput)) (\<lambda>_.
     sbind (append_frame ops crc hit PageImageRecord record_lsn (wc_batch_id commit) (of_nat index) payload) (\<lambda>n.
     sbind (sres (ok_or (checked_add_usize written n) InternalInvariantViolation)) (\<lambda>written'.
     append_pages ops crc hit commit first_record_lsn (index + 1) pages (digest @ payload) written'))))))"

definition append_group_commit :: "'f file_ops \<Rightarrow> crc_fun \<Rightarrow> (string \<Rightarrow> ('i, error, unit) sop) \<Rightarrow> wal_commit \<Rightarrow>
    lsn \<Rightarrow> u64 \<Rightarrow> ('f wal_log \<times> 'i option, error, wal_append_report) sop" where
  "append_group_commit ops crc hit commit first_record_lsn expected_batch_id =
     (let pages = wc_pages commit in
     sbind (sres (ensure (pages \<noteq> []) InvalidInput)) (\<lambda>_.
     sbind (sres (ensure (\<not> wc_batch_id commit \<noteq> expected_batch_id) InternalInvariantViolation)) (\<lambda>_.
     sbind (sres (ok_or (checked_add_u64 first_record_lsn (of_nat (length pages))) InternalInvariantViolation)) (\<lambda>expected_commit.
     sbind (sres (ensure (\<not> wc_commit_lsn commit \<noteq> expected_commit) InternalInvariantViolation)) (\<lambda>_.
     sbind (sres (ok_or (checked_mul_usize (length pages) PAGE_IMAGE_PAYLOAD_SIZE) InvalidInput)) (\<lambda>_.
     sbind (append_pages ops crc hit commit first_record_lsn 0 pages [] 0) (\<lambda>(digest_input, written).
     sbind (wal_hit hit ''after_page_images_written'') (\<lambda>_.
     let digest = crc digest_input in
     sbind (sres (ensure (length pages < 2 ^ 32) InvalidInput)) (\<lambda>_.
     let payload = commit_payload first_record_lsn (length pages) digest in
     sbind (wal_hit hit ''before_commit_record'') (\<lambda>_.
     sbind (append_frame ops crc hit CommitRecord (wc_commit_lsn commit) (wc_batch_id commit)
              (of_nat (length pages)) payload) (\<lambda>n.
     sbind (sres (ok_or (checked_add_usize written n) InternalInvariantViolation)) (\<lambda>bytes_written.
     sbind (wal_hit hit ''after_commit_record_write'') (\<lambda>_.
     sret \<lparr>ar_first_record_lsn = first_record_lsn, ar_commit_lsn = wc_commit_lsn commit,
           ar_page_count = length pages, ar_bytes_written = bytes_written\<rparr>)))))))))))))"

fun append_commits :: "'f file_ops \<Rightarrow> crc_fun \<Rightarrow> (string \<Rightarrow> ('i, error, unit) sop) \<Rightarrow> wal_commit list \<Rightarrow> lsn \<Rightarrow>
    u64 \<Rightarrow> ('f wal_log \<times> 'i option, error, wal_append_report list \<times> lsn \<times> u64) sop" where
  "append_commits ops crc hit [] next_lsn next_batch_id = sret ([], next_lsn, next_batch_id)"
| "append_commits ops crc hit (commit # commits) next_lsn next_batch_id =
     sbind (append_group_commit ops crc hit commit next_lsn next_batch_id) (\<lambda>report.
     sbind (sres (ok_or (checked_add_u64 (ar_commit_lsn report) 1) InternalInvariantViolation)) (\<lambda>next_lsn'.
     sbind (sres (ok_or (checked_add_u64 next_batch_id 1) InternalInvariantViolation)) (\<lambda>next_batch_id'.
     sbind (append_commits ops crc hit commits next_lsn' next_batch_id') (\<lambda>(reports, l, b).
     sret (report # reports, l, b)))))"

definition elapsed_nanos :: "nat \<Rightarrow> error + u64" where
  "elapsed_nanos elapsed = (if elapsed < 2 ^ 64 then Inr (of_nat elapsed) else Inl InternalInvariantViolation)"

fun group_record_count :: "wal_commit list \<Rightarrow> nat \<Rightarrow> error + nat" where
  "group_record_count [] count = Inr count"
| "group_record_count (c # cs) count =
     rbind (ok_or (checked_add_usize count (length (wc_pages c) + 1)) InternalInvariantViolation) (\<lambda>count'.
     group_record_count cs count')"

definition group_page_count :: "wal_commit list \<Rightarrow> nat" where
  "group_page_count commits = sum_list (map (length \<circ> wc_pages) commits)"

text \<open>The bookkeeping after the sync; each \<open>?\<close> of the source is a bind, the fields before it
  having been assigned already.\<close>

definition publish_group :: "wal_commit list \<Rightarrow> lsn \<Rightarrow> u64 \<Rightarrow> ('f wal_log \<times> 'i option, error, unit) sop" where
  "publish_group commits next_lsn next_batch_id =
     sbind (mod_wal (\<lambda>w. w\<lparr>wl_committed := wl_committed w @ commits, wl_next_lsn := next_lsn,
                            wl_next_batch_id := next_batch_id\<rparr>)) (\<lambda>_.
     sbind (sres (group_record_count commits 0)) (\<lambda>record_count.
     sbind (get_wal (\<lambda>w. ok_or (checked_add_usize (records_scanned (wl_scan_report w)) record_count)
                            InternalInvariantViolation)) (\<lambda>scanned.
     sbind (mod_wal (\<lambda>w. w\<lparr>wl_scan_report := (wl_scan_report w)\<lparr>
                records_scanned := scanned,
                committed_batches := committed_batches (wl_scan_report w) + length commits,
                replayable_pages := replayable_pages (wl_scan_report w) + group_page_count commits\<rparr>\<rparr>)) (\<lambda>_.
     sbind (get_wal (\<lambda>w. ok_or (checked_add_usize (wl_page_images w) (group_page_count commits))
                            InternalInvariantViolation)) (\<lambda>images.
     mod_wal (\<lambda>w. w\<lparr>wl_page_images := images\<rparr>))))))"

definition append_group :: "'f file_ops \<Rightarrow> crc_fun \<Rightarrow> (string \<Rightarrow> ('i, error, unit) sop) \<Rightarrow> nat \<Rightarrow> nat \<Rightarrow>
    wal_commit list \<Rightarrow> ('f wal_log \<times> 'i option, error, wal_append_report list) sop" where
  "append_group ops crc hit append_time sync_time commits =
     sbind (sres (ensure (commits \<noteq> []) InvalidInput)) (\<lambda>_.
     sbind (wal_hit hit ''before_wal_append'') (\<lambda>_.
     sbind (get_wal (\<lambda>w. Inr (wl_next_lsn w, wl_next_batch_id w))) (\<lambda>(next_lsn, next_batch_id).
     sbind (append_commits ops crc hit commits next_lsn next_batch_id) (\<lambda>(reports, next_lsn, next_batch_id).
     sbind (get_wal (\<lambda>w. rbind (elapsed_nanos append_time) (\<lambda>t.
              ok_or (checked_add_u64 (wl_append_nanos w) t) InternalInvariantViolation))) (\<lambda>nanos.
     sbind (mod_wal (\<lambda>w. w\<lparr>wl_append_nanos := nanos\<rparr>)) (\<lambda>_.
     sbind (wal_hit hit ''after_group_records_written'') (\<lambda>_.
     sbind (wal_hit hit ''before_wal_sync'') (\<lambda>_.
     sbind (wal_hit hit ''during_wal_sync'') (\<lambda>_.
     sbind (on_file (smap_err (\<lambda>_. DurabilityFailure) (sync_data ops))) (\<lambda>_.
     sbind (get_wal (\<lambda>w. rbind (elapsed_nanos sync_time) (\<lambda>t.
              ok_or (checked_add_u64 (wl_sync_nanos w) t) InternalInvariantViolation))) (\<lambda>nanos.
     sbind (mod_wal (\<lambda>w. w\<lparr>wl_sync_nanos := nanos\<rparr>)) (\<lambda>_.
     sbind (get_wal (\<lambda>w. ok_or (checked_add_u64 (wl_sync_count w) 1) InternalInvariantViolation)) (\<lambda>syncs.
     sbind (mod_wal (\<lambda>w. w\<lparr>wl_sync_count := syncs\<rparr>)) (\<lambda>_.
     sbind (wal_hit hit ''after_wal_sync'') (\<lambda>_.
     sbind (publish_group commits next_lsn next_batch_id) (\<lambda>_.
     sret reports))))))))))))))))"

definition append_commit :: "'f file_ops \<Rightarrow> crc_fun \<Rightarrow> (string \<Rightarrow> ('i, error, unit) sop) \<Rightarrow> nat \<Rightarrow> nat \<Rightarrow>
    u64 \<Rightarrow> lsn \<Rightarrow> wal_page_image list \<Rightarrow> ('f wal_log \<times> 'i option, error, wal_append_report) sop" where
  "append_commit ops crc hit append_time sync_time batch_id commit pages =
     sbind (append_group ops crc hit append_time sync_time
              [\<lparr>wc_batch_id = batch_id, wc_commit_lsn = commit, wc_pages = pages\<rparr>])
       (\<lambda>reports. sret (hd reports))"

section \<open>Opening and resetting\<close>

text \<open>\<open>initialize_empty\<close> has no injector. The result of the opening operations is the log
  itself; on failure only the file remains, which the caller has given up.\<close>

definition empty_log :: "'f \<Rightarrow> wal_identity \<Rightarrow> lsn \<Rightarrow> lsn \<Rightarrow> 'f wal_log" where
  "empty_log file identity start_after_lsn next_lsn =
     \<lparr>wl_file = file, wl_identity = identity, wl_format_version = WAL_FORMAT_VERSION, wl_next_lsn = next_lsn,
      wl_next_batch_id = 1, wl_history_start_lsn = start_after_lsn, wl_committed = [],
      wl_scan_report = scan_report_default, wl_sync_count = 0, wl_page_images = 0,
      wl_append_nanos = 0, wl_sync_nanos = 0\<rparr>"

definition no_hit :: "string \<Rightarrow> (unit, error, unit) sop" where
  "no_hit point = sret ()"

definition initialize_empty :: "'f file_ops \<Rightarrow> crc_fun \<Rightarrow> wal_identity \<Rightarrow> lsn \<Rightarrow> ('f, error, 'f wal_log) sop" where
  "initialize_empty ops crc identity start_after_lsn file =
     (case checked_add_u64 start_after_lsn 1 of
        None \<Rightarrow> (Inl InternalInvariantViolation, file)
      | Some next_lsn \<Rightarrow>
          (let payload = identity_payload identity start_after_lsn;
               init = sbind (append_frame ops crc no_hit InitRecord 0 0 0 payload) (\<lambda>_.
                      sbind (on_file (smap_err (\<lambda>_. DurabilityFailure) (sync_data ops))) (\<lambda>_.
                      mod_wal (\<lambda>w. w\<lparr>wl_sync_count := 1,
                        wl_scan_report := (wl_scan_report w)\<lparr>records_scanned := 1\<rparr>\<rparr>)))
           in case init (empty_log file identity start_after_lsn next_lsn, None) of
                (Inl e, (w, _)) \<Rightarrow> (Inl e, wl_file w)
              | (Inr _, (w, _)) \<Rightarrow> (Inr w, wl_file w)))"

definition is_torn_initialization_prefix :: "'f file_ops \<Rightarrow> crc_fun \<Rightarrow> wal_identity \<Rightarrow> lsn \<Rightarrow> nat \<Rightarrow>
    ('f, error, bool) sop" where
  "is_torn_initialization_prefix ops crc identity start_after_lsn len =
     sbind (sres (encode_frame crc WAL_FORMAT_VERSION InitRecord 0 0 0 (identity_payload identity start_after_lsn))) (\<lambda>expected.
     if len \<ge> length expected then sret False
     else sbind (wal_read_exact_at ops 0 len) (\<lambda>prefix. sret (prefix = take len expected)))"

text \<open>The torn-tail branch of \<open>open\<close>, on the file and the injector.\<close>

definition truncate_tail :: "'f file_ops \<Rightarrow> (string \<Rightarrow> ('i, error, unit) sop) \<Rightarrow> nat \<Rightarrow> ('f \<times> 'i option, error, unit) sop" where
  "truncate_tail ops hit valid_length =
     sbind (\<lambda>(f, i). case hit_fault hit ''before_wal_tail_truncate'' i of (r, i') \<Rightarrow> (r, (f, i'))) (\<lambda>_.
     sbind (\<lambda>(f, i). case set_len ops valid_length f of (r, f') \<Rightarrow> (r, (f', i))) (\<lambda>_.
     sbind (\<lambda>(f, i). case smap_err (\<lambda>_. DurabilityFailure) (sync_data ops) f of (r, f') \<Rightarrow> (r, (f', i))) (\<lambda>_.
     (\<lambda>(f, i). case hit_fault hit ''after_wal_tail_truncate'' i of (r, i') \<Rightarrow> (r, (f, i'))))))"

definition log_of_scan :: "'f \<Rightarrow> wal_identity \<Rightarrow> wal_scan \<Rightarrow> nat \<Rightarrow> 'f wal_log" where
  "log_of_scan file identity scan len =
     \<lparr>wl_file = file, wl_identity = identity, wl_format_version = ws_format_version scan,
      wl_next_lsn = ws_next_lsn scan, wl_next_batch_id = ws_next_batch_id scan,
      wl_history_start_lsn = ws_history_start_lsn scan, wl_committed = ws_committed scan,
      wl_scan_report = (ws_report scan)\<lparr>torn_tail_bytes := len - ws_valid_length scan\<rparr>,
      wl_sync_count = 0, wl_page_images = replayable_pages (ws_report scan),
      wl_append_nanos = 0, wl_sync_nanos = 0\<rparr>"

definition wal_open :: "'f file_ops \<Rightarrow> crc_fun \<Rightarrow> (string \<Rightarrow> ('i, error, unit) sop) \<Rightarrow> wal_identity \<Rightarrow> lsn \<Rightarrow>
    ('f \<times> 'i option, error, 'f wal_log) sop" where
  "wal_open ops crc hit identity start_after_lsn = (\<lambda>(file, injector).
     case file_len ops file of
       Inl e \<Rightarrow> (Inl e, (file, injector))
     | Inr len \<Rightarrow>
         if len = 0 then (case initialize_empty ops crc identity start_after_lsn file of (r, f) \<Rightarrow> (r, (f, injector)))
         else
           (case (if len < INIT_FRAME_SIZE
                  then is_torn_initialization_prefix ops crc identity start_after_lsn len file
                  else (Inr False, file)) of
              (Inl e, f) \<Rightarrow> (Inl e, (f, injector))
            | (Inr True, f) \<Rightarrow>
                (case sbind (smap_err (\<lambda>_. RecoveryFailure) (set_len ops 0)) (\<lambda>_.
                      sbind (smap_err (\<lambda>_. DurabilityFailure) (sync_data ops)) (\<lambda>_.
                      initialize_empty ops crc identity start_after_lsn)) f of
                   (r, f') \<Rightarrow> (r, (f', injector)))
            | (Inr False, f) \<Rightarrow>
                (case scan_wal ops crc identity f of
                   (Inl e, f') \<Rightarrow> (Inl e, (f', injector))
                 | (Inr scan, f') \<Rightarrow>
                     (case (if ws_valid_length scan < len then truncate_tail ops hit (ws_valid_length scan) (f', injector)
                            else (Inr (), (f', injector))) of
                        (Inl e, st) \<Rightarrow> (Inl e, st)
                      | (Inr _, (f'', i'')) \<Rightarrow> (Inr (log_of_scan f'' identity scan len), (f'', i''))))))"

definition resume_after :: "lsn \<Rightarrow> ('f wal_log, error, unit) sop" where
  "resume_after checkpoint w =
     (case checked_add_u64 checkpoint 1 of
        None \<Rightarrow> (Inl InternalInvariantViolation, w)
      | Some next_lsn \<Rightarrow> (Inr (), if wl_next_lsn w < next_lsn then w\<lparr>wl_next_lsn := next_lsn\<rparr> else w))"

definition wal_reset :: "'f file_ops \<Rightarrow> crc_fun \<Rightarrow> (string \<Rightarrow> ('i, error, unit) sop) \<Rightarrow> lsn \<Rightarrow>
    ('f wal_log \<times> 'i option, error, unit) sop" where
  "wal_reset ops crc hit checkpoint =
     sbind (get_wal (\<lambda>w. ensure (\<not> checkpoint < wl_history_start_lsn w) CheckpointFailure)) (\<lambda>_.
     sbind (wal_hit hit ''before_wal_reset'') (\<lambda>_.
     sbind (wal_hit hit ''during_wal_truncate'') (\<lambda>_.
     sbind (on_file (smap_err (\<lambda>_. CheckpointFailure) (set_len ops 0))) (\<lambda>_.
     sbind (wal_hit hit ''after_wal_truncate'') (\<lambda>_.
     sbind (wal_hit hit ''before_wal_reset_truncate_sync'') (\<lambda>_.
     sbind (wal_hit hit ''during_wal_reset_truncate_sync'') (\<lambda>_.
     sbind (on_file (smap_err (\<lambda>_. CheckpointFailure) (sync_data ops))) (\<lambda>_.
     sbind (wal_hit hit ''after_wal_reset_truncate_sync'') (\<lambda>_.
     sbind (mod_wal (\<lambda>w. w\<lparr>wl_history_start_lsn := checkpoint, wl_format_version := WAL_FORMAT_VERSION\<rparr>)) (\<lambda>_.
     sbind (sres (ok_or (checked_add_u64 checkpoint 1) InternalInvariantViolation)) (\<lambda>next_lsn.
     sbind (mod_wal (\<lambda>w. w\<lparr>wl_next_lsn := next_lsn, wl_next_batch_id := 1, wl_committed := [],
              wl_scan_report := scan_report_default\<lparr>records_scanned := 1\<rparr>, wl_page_images := 0\<rparr>)) (\<lambda>_.
     sbind (wal_hit hit ''before_wal_reinitialization'') (\<lambda>_.
     sbind (get_wal (\<lambda>w. Inr (identity_payload (wl_identity w) checkpoint))) (\<lambda>payload.
     sbind (wal_hit hit ''during_wal_reinitialization'') (\<lambda>_.
     sbind (append_frame ops crc hit InitRecord 0 0 0 payload) (\<lambda>_.
     sbind (wal_hit hit ''after_wal_reset_write'') (\<lambda>_.
     sbind (wal_hit hit ''before_wal_reset_sync'') (\<lambda>_.
     sbind (wal_hit hit ''during_wal_reset_sync'') (\<lambda>_.
     sbind (on_file (smap_err (\<lambda>_. CheckpointFailure) (sync_data ops))) (\<lambda>_.
     sbind (get_wal (\<lambda>w. ok_or (checked_add_u64 (wl_sync_count w) 1) InternalInvariantViolation)) (\<lambda>syncs.
     sbind (mod_wal (\<lambda>w. w\<lparr>wl_sync_count := syncs\<rparr>)) (\<lambda>_.
     wal_hit hit ''after_wal_reset_sync''))))))))))))))))))))))"

definition wal_metrics_of :: "'f file_ops \<Rightarrow> 'f wal_log \<Rightarrow> error + wal_metrics" where
  "wal_metrics_of ops w =
     rbind (file_len ops (wl_file w)) (\<lambda>len.
     Inr \<lparr>wm_wal_bytes = len, wm_wal_syncs = wl_sync_count w,
          wm_committed_batches = length (wl_committed w), wm_page_images = wl_page_images w,
          wm_append_nanos = wl_append_nanos w, wm_sync_nanos = wl_sync_nanos w\<rparr>)"

section \<open>Lemmas: frames\<close>

lemma wal_record_type_decode_code [simp]: "wal_record_type_decode (wal_record_type_code t) = Inr t"
  by (cases t) (simp_all add: wal_record_type_decode_def)

lemma length_WAL_MAGIC [simp]: "length WAL_MAGIC = 4"
  by (simp add: WAL_MAGIC_def)

definition frame_header :: "crc_fun \<Rightarrow> frame \<Rightarrow> bytes" where
  "frame_header crc fr = seal crc 40 (frame_header_fields crc (fr_format_version fr) (fr_record_type fr)
     (fr_record_lsn fr) (fr_batch_id fr) (fr_record_index fr) (fr_payload fr))"

definition frame_bytes :: "crc_fun \<Rightarrow> frame \<Rightarrow> bytes" where
  "frame_bytes crc fr = frame_header crc fr @ fr_payload fr @ to_le_u32 (of_nat (52 + length (fr_payload fr)))"

definition frame_ok :: "frame \<Rightarrow> bool" where
  "frame_ok fr \<longleftrightarrow> length (fr_payload fr) \<le> WAL_MAX_PAYLOAD_SIZE \<and>
     (fr_format_version fr = WAL_FORMAT_VERSION \<or> fr_format_version fr = LEGACY_WAL_FORMAT_VERSION)"

lemma encode_frame_iff [result_iff]:
  "encode_frame crc v t l b i p = Inr bs \<longleftrightarrow>
     length p \<le> WAL_MAX_PAYLOAD_SIZE \<and>
     bs = frame_bytes crc \<lparr>fr_format_version = v, fr_record_type = t, fr_record_lsn = l, fr_batch_id = b,
            fr_record_index = i, fr_payload = p\<rparr>"
  by (auto simp: encode_frame_def result_iff frame_bytes_def frame_header_def seal_def header_checksum_def Let_def
      checked_add_usize_def usize_max_def WAL_MAX_PAYLOAD_SIZE_def not_less add.commute add.left_commute
      Option.bind_eq_Some_conv split: if_splits)

lemma frame_header_fields_segs:
  fixes crc v t l b i p defines "h \<equiv> frame_header_fields crc v t l b i p"
  shows "length h = 48" "seg 0 4 h = WAL_MAGIC" "seg 4 6 h = to_le_u16 v" "seg 6 7 h = [wal_record_type_code t]"
    "seg 7 8 h = zeros 1" "seg 8 12 h = to_le_u32 (of_nat (52 + length p))" "seg 12 16 h = to_le_u32 (of_nat (length p))"
    "seg 16 24 h = to_le_u64 l" "seg 24 32 h = to_le_u64 b" "seg 32 36 h = to_le_u32 i" "seg 36 40 h = zeros 4"
    "seg 44 48 h = to_le_u32 (crc p)"
  by (simp_all add: h_def frame_header_fields_def bytes_simps add.commute)

lemma length_frame_header [simp]: "length (frame_header crc fr) = 48"
  by (simp add: frame_header_def length_seal frame_header_fields_segs)

lemma length_frame_bytes [simp]: "length (frame_bytes crc fr) = 52 + length (fr_payload fr)"
  by (simp add: frame_bytes_def bytes_simps)

lemma frame_header_segs:
  "b \<le> 40 \<or> 44 \<le> a \<Longrightarrow> seg a b (frame_header crc fr) =
     seg a b (frame_header_fields crc (fr_format_version fr) (fr_record_type fr)
     (fr_record_lsn fr) (fr_batch_id fr) (fr_record_index fr) (fr_payload fr))"
  by (auto simp: frame_header_def bytes_simps frame_header_fields_segs)

lemma decode_frame_header:
  assumes "frame_ok fr"
  shows "decode_header crc (frame_header crc fr) =
    Inr (fr_format_version fr, fr_record_type fr, 52 + length (fr_payload fr), length (fr_payload fr),
         fr_record_lsn fr, fr_batch_id fr, fr_record_index fr)"
proof -
  let ?h = "frame_header crc fr"
  have p: "length (fr_payload fr) \<le> 67108864" using assms by (simp add: frame_ok_def WAL_MAX_PAYLOAD_SIZE_def)
  have n: "unat (of_nat (52 + length (fr_payload fr)) :: u32) = 52 + length (fr_payload fr)"
    "unat (of_nat (length (fr_payload fr)) :: u32) = length (fr_payload fr)"
    using p by (simp_all add: unat_of_nat_u32 del: of_nat_add)
  have bytes: "?h ! 6 = wal_record_type_code (fr_record_type fr)" "?h ! 7 = 0"
    using nth_eq_seg [of 6 ?h] nth_eq_seg [of 7 ?h]
    by (simp_all add: frame_header_segs frame_header_fields_segs zeros_def)
  have "seg 40 44 ?h = to_le_u32 (header_checksum crc ?h)"
    by (simp add: frame_header_def header_checksum_def bytes_simps frame_header_fields_segs)
  with n bytes assms show ?thesis
    by (auto simp: decode_header_def frame_header_segs frame_header_fields_segs frame_ok_def zeros_def list_ex_iff
        simp del: of_nat_add)
qed

lemma payload_checksum_ok: "verify_payload_checksum crc (frame_header crc fr) (fr_payload fr) = Inr ()"
  by (simp add: verify_payload_checksum_def frame_header_segs frame_header_fields_segs)

section \<open>Lemmas: scanning the frames of a log\<close>

lemma frame_bytes_segs:
  "seg (length pre) (length pre + 48) (pre @ frame_bytes crc fr @ post) = frame_header crc fr"
  "seg (length pre + 48) (length pre + 48 + length (fr_payload fr)) (pre @ frame_bytes crc fr @ post) = fr_payload fr"
  "seg (length pre + 48 + length (fr_payload fr)) (length pre + 48 + length (fr_payload fr) + 4)
     (pre @ frame_bytes crc fr @ post) = to_le_u32 (of_nat (52 + length (fr_payload fr)))"
  by (simp_all add: frame_bytes_def seg_def length_to_le)

context reliable_file
begin

lemma scan_step_frame:
  assumes s: "healthy s" and v: "view s = pre @ frame_bytes crc fr @ post" and ok: "frame_ok fr"
    and version: "frames \<noteq> [] \<longrightarrow> fr_format_version (hd frames) = fr_format_version fr"
    and lsn: "case previous of None \<Rightarrow> True | Some p \<Rightarrow> p < fr_record_lsn fr"
  shows "\<exists>s'. scan_step ops crc (length (view s)) (length pre) previous frames s =
      (Inr (Some (fr, length (frame_bytes crc fr))), s') \<and> healthy s' \<and> view s' = view s \<and> stable s' = stable s"
proof -
  let ?n = "length (fr_payload fr)"
  have version': "frames = [] \<or> fr_format_version (hd frames) = fr_format_version fr" using version by blast
  have len: "length (view s) = length pre + (52 + ?n) + length post" by (simp add: v)
  have lim: "length (view s) < u64_limit" using healthy_len [OF s] by blast
  obtain s1 where r1: "wal_read_exact_at ops (length pre) 48 s = (Inr (frame_header crc fr), s1)"
    "healthy s1" "view s1 = view s" "stable s1 = stable s"
    using wal_read_exact_at_total [OF s, of "length pre" 48] len frame_bytes_segs(1) [of pre crc fr post]
    by (auto simp: v)
  obtain s2 where r2: "wal_read_exact_at ops (length pre + 48) ?n s1 = (Inr (fr_payload fr), s2)"
    "healthy s2" "view s2 = view s" "stable s2 = stable s"
    using wal_read_exact_at_total [OF r1(2), of "length pre + 48" ?n] len r1 frame_bytes_segs(2) [of pre fr crc post]
    by (auto simp: v)
  obtain s3 where r3: "wal_read_exact_at ops (length pre + 48 + ?n) 4 s2 = (Inr (to_le_u32 (of_nat (52 + ?n))), s3)"
    "healthy s3" "view s3 = view s" "stable s3 = stable s"
    using wal_read_exact_at_total [OF r2(2), of "length pre + 48 + ?n" 4] len r2 frame_bytes_segs(3) [of pre fr crc post]
    by (auto simp: v)
  have o: "checked_offset Corruption (length pre) 48 = Inr (length pre + 48)"
    "checked_offset Corruption (length pre) (48 + ?n) = Inr (length pre + 48 + ?n)"
    using len lim by (simp_all add: checked_offset_def)
  have "scan_step ops crc (length (view s)) (length pre) previous frames s =
      (Inr (Some (fr, length (frame_bytes crc fr))), s3)"
    using ok lsn len version'
    by (simp add: scan_step_def sbind_def r1(1) r2(1) r3(1) o decode_frame_header payload_checksum_ok
        frame_ok_def not_le split: option.splits del: of_nat_add)
  with r3 show ?thesis by blast
qed

lemma scan_step_torn:
  assumes s: "healthy s" and v: "view s = pre @ take k (frame_bytes crc fr)" and ok: "frame_ok fr"
    and k: "k < length (frame_bytes crc fr)"
    and version: "frames \<noteq> [] \<longrightarrow> fr_format_version (hd frames) = fr_format_version fr"
  shows "\<exists>s'. scan_step ops crc (length (view s)) (length pre) previous frames s = (Inr None, s') \<and>
    healthy s' \<and> view s' = view s \<and> stable s' = stable s"
proof (cases "k < 48")
  case True
  then show ?thesis using s k by (simp add: scan_step_def v)
next
  case False
  have version': "frames = [] \<or> fr_format_version (hd frames) = fr_format_version fr" using version by blast
  have len: "length (view s) = length pre + k" using k by (simp add: v)
  have "seg (length pre) (length pre + 48) (view s) = frame_header crc fr"
    using False by (simp add: v seg_def frame_bytes_def)
  then obtain s1 where r1: "wal_read_exact_at ops (length pre) 48 s = (Inr (frame_header crc fr), s1)"
    "healthy s1" "view s1 = view s" "stable s1 = stable s"
    using wal_read_exact_at_total [OF s, of "length pre" 48] len False by auto
  have "scan_step ops crc (length (view s)) (length pre) previous frames s = (Inr None, s1)"
    using ok version' len k False
    by (simp add: scan_step_def sbind_def r1(1) decode_frame_header frame_ok_def)
  with r1 show ?thesis by blast
qed

lemma scan_loop_frames:
  assumes "healthy s" and "view s = pre @ concat (map (frame_bytes crc) frs) @ take k (frame_bytes crc torn)"
    and "k < length (frame_bytes crc torn)" and "list_all (\<lambda>fr. frame_ok fr \<and> fr_format_version fr = version) (torn # frs)"
    and "frames \<noteq> [] \<longrightarrow> fr_format_version (hd frames) = version"
    and "sorted_wrt (<) (case previous of None \<Rightarrow> map fr_record_lsn frs | Some p \<Rightarrow> p # map fr_record_lsn frs)"
  shows "\<exists>s'. scan_loop ops crc (length (view s)) (length pre) previous frames s =
      (Inr (frames @ frs, if frs = [] then previous else Some (fr_record_lsn (last frs)),
            length pre + length (concat (map (frame_bytes crc) frs))), s') \<and>
    healthy s' \<and> view s' = view s \<and> stable s' = stable s"
  using assms
proof (induction frs arbitrary: pre previous frames s)
  case Nil
  then obtain s' where "scan_step ops crc (length (view s)) (length pre) previous frames s = (Inr None, s')"
    "healthy s'" "view s' = view s" "stable s' = stable s"
    using scan_step_torn [OF Nil(1), of pre k crc torn frames previous] by auto
  then show ?case using Nil(1) by (simp add: scan_loop.simps [of _ _ _ "length pre"])
next
  case (Cons fr frs)
  let ?post = "concat (map (frame_bytes crc) frs) @ take k (frame_bytes crc torn)"
  have v: "view s = pre @ frame_bytes crc fr @ ?post" using Cons.prems(2) by simp
  obtain s1 where step: "scan_step ops crc (length (view s)) (length pre) previous frames s =
      (Inr (Some (fr, length (frame_bytes crc fr))), s1)" "healthy s1" "view s1 = view s" "stable s1 = stable s"
    using scan_step_frame [OF Cons.prems(1) v, of frames previous] Cons.prems(4-6)
    by (auto split: option.splits)
  have v1: "view s1 = (pre @ frame_bytes crc fr) @ ?post" using step v by simp
  have hd: "frames @ [fr] \<noteq> [] \<longrightarrow> fr_format_version (hd (frames @ [fr])) = version"
    using Cons.prems(4,5) by (cases frames) auto
  obtain s' where "scan_loop ops crc (length (view s1)) (length (pre @ frame_bytes crc fr)) (Some (fr_record_lsn fr)) (frames @ [fr]) s1 =
      (Inr ((frames @ [fr]) @ frs, if frs = [] then Some (fr_record_lsn fr) else Some (fr_record_lsn (last frs)),
        length (pre @ frame_bytes crc fr) + length (concat (map (frame_bytes crc) frs))), s')"
    "healthy s'" "view s' = view s1" "stable s' = stable s1"
    using Cons.IH [OF step(2) v1 Cons.prems(3) _ hd, of "Some (fr_record_lsn fr)"] Cons.prems(4,6)
    by (auto split: option.splits)
  moreover have "length pre < length (view s)" by (simp add: v)
  ultimately show ?case
    using step by (simp add: scan_loop.simps [of _ _ _ "length pre"])
qed

end

end
