(* ===== verification/Dodb_Btree.thy ===== *)
theory Dodb_Btree
  imports Dodb_Cache Dodb_Wal
begin

text \<open>
  The tree engine of \<open>dodb-storage/src/btree/mod.rs\<close>: the store, the copy-on-write overlay in
  which a batch or a transaction is prepared, page allocation, overflow values, leaf and
  internal splits, point reads, range reads, mutations, and the assembly of the prepared
  batch. The data file, the log file, the checksum, the fault injector and the clock are
  parameters, collected in the record \<open>env\<close>.
\<close>

section \<open>Data\<close>

definition FIRST_DATA_PAGE :: u64 where "FIRST_DATA_PAGE = 2"
definition MAX_ENCODED_KEY_SIZE :: nat where "MAX_ENCODED_KEY_SIZE = 3992"
definition SUPERBLOCK_A_OFFSET :: nat where "SUPERBLOCK_A_OFFSET = 0"
definition SUPERBLOCK_B_OFFSET :: nat where "SUPERBLOCK_B_OFFSET = PAGE_SIZE"
definition RESPONSE_WIRE_OVERHEAD :: nat where "RESPONSE_WIRE_OVERHEAD = 17"
definition RESPONSE_MEMORY_OVERHEAD :: nat where "RESPONSE_MEMORY_OVERHEAD = 64 * 1024"

record storage_limits =
  inline_value_limit :: nat
  max_value_size :: nat

definition storage_limits_default :: storage_limits where
  "storage_limits_default = \<lparr>inline_value_limit = INLINE_VALUE_LIMIT, max_value_size = MAX_VALUE_SIZE\<rparr>"

record database_config =
  dc_database_uuid :: bytes
  dc_tenant_id :: tenant_id
  dc_shard_id :: shard_id
  dc_shard_epoch :: shard_epoch
  dc_cache_capacity :: nat
  dc_limits :: storage_limits

definition database_config_default :: database_config where
  "database_config_default = \<lparr>dc_database_uuid = replicate 16 0, dc_tenant_id = 0, dc_shard_id = 0,
     dc_shard_epoch = 0, dc_cache_capacity = 128, dc_limits = storage_limits_default\<rparr>"

definition with_cache_capacity :: "nat \<Rightarrow> database_config \<Rightarrow> database_config" where
  "with_cache_capacity capacity config = config\<lparr>dc_cache_capacity := capacity\<rparr>"

record btree_document =
  doc_key :: document_key
  doc_value :: bytes
  doc_revision :: revision

datatype batch_request =
    GetRequest document_key
  | PutRequest document_key bytes
  | DeleteRequest document_key
  | QueryRequest bytes "bytes option" nat
  | ScanRequest "document_key option" nat

datatype batch_response =
    GetResponse revision_state
  | PutResponse revision
  | DeleteResponse revision
  | QueryResponse "btree_document list"
  | ScanResponse "btree_document list"

record prepared_batch =
  pr_responses :: "batch_response list"
  pr_changed_pages :: "(page_id, bytes) ordmap"
  pr_changed_decoded :: "(page_id, page_data) ordmap"
  pr_read_pages :: "(page_id, page_data) ordmap"
  pr_new_superblock :: superblock
  pr_new_slot :: superblock_slot
  pr_base_generation :: u64
  pr_next_revision :: revision
  pr_root_page_id :: page_id
  pr_free_list_head :: "page_id option"
  pr_high_water_page_id :: page_id
  pr_commit_lsn :: "lsn option"
  pr_batch_id :: u64

record storage_metrics =
  validation_nanos :: u64
  btree_preparation_nanos :: u64
  publication_nanos :: u64

definition storage_metrics_default :: storage_metrics where
  "storage_metrics_default = \<lparr>validation_nanos = 0, btree_preparation_nanos = 0, publication_nanos = 0\<rparr>"

text \<open>The store; \<open>broken\<close> holds the error whose text the code keeps.\<close>

record ('f, 'w, 'i) btree_store =
  bs_file :: 'f
  bs_wal :: "'w wal_log option"
  bs_current_superblock :: superblock
  bs_active_slot :: superblock_slot
  bs_root_page_id :: page_id
  bs_free_list_head :: "page_id option"
  bs_high_water_page_id :: page_id
  bs_next_revision :: revision
  bs_next_lsn :: lsn
  bs_next_batch_id :: u64
  bs_cache :: page_cache
  bs_config :: database_config
  bs_dirty_pages :: "(page_id, bytes) ordmap"
  bs_dirty_superblock :: "bytes option"
  bs_track_published_pages :: bool
  bs_published_page_updates :: "(page_id, page_data) ordmap"
  bs_storage_metrics :: storage_metrics
  bs_broken :: "error option"
  bs_fault_injector :: "'i option"

record ('f, 'w, 'i) overlay =
  ov_store :: "('f, 'w, 'i) btree_store"
  ov_pages :: "(page_id, page_data) ordmap"
  ov_dirty :: "page_id list"
  ov_read_pages :: "(page_id, page_data) ordmap"
  ov_allocated :: "page_id set"
  ov_root_page_id :: page_id
  ov_free_list_head :: "page_id option"
  ov_high_water_page_id :: page_id
  ov_next_revision :: revision
  ov_last_lsn :: "lsn option"
  ov_next_lsn :: lsn
  ov_next_batch_id :: u64
  ov_current_superblock :: superblock
  ov_active_slot :: superblock_slot

text \<open>What the engine is given: the two files, the checksum, the injector's method and the
  durations the clock reports, in nanoseconds.\<close>

record ('f, 'w, 'i) env =
  data_ops :: "'f file_ops"
  wal_ops :: "'w file_ops"
  crc32c :: crc_fun
  fault_hit :: "string \<Rightarrow> ('i, error, unit) sop"
  append_time :: nat
  sync_time :: nat
  validation_time :: nat
  preparation_time :: nat
  publication_time :: nat
  checkpoint_time :: nat

section \<open>Small helpers\<close>

definition saturating_nanos :: "nat \<Rightarrow> u64" where
  "saturating_nanos elapsed = (if elapsed < 2 ^ 64 then of_nat elapsed else - 1)"

definition saturating_add_u64 :: "u64 \<Rightarrow> u64 \<Rightarrow> u64" where
  "saturating_add_u64 a b = (case checked_add_u64 a b of None \<Rightarrow> - 1 | Some c \<Rightarrow> c)"

definition validate_encoded_key :: "bytes \<Rightarrow> error + unit" where
  "validate_encoded_key key = ensure (\<not> length key > MAX_ENCODED_KEY_SIZE) InvalidInput"

text \<open>\<open>usize::try_from\<close> of a \<open>u64\<close> always succeeds on a 64-bit target.\<close>

fun value_length :: "value_ref \<Rightarrow> nat" where
  "value_length (Inline bs) = length bs"
| "value_length (Overflow head len) = unat len"

text \<open>\<open>page_id.get() * PAGE_SIZE as u64\<close>, unchecked.\<close>

definition page_offset :: "page_id \<Rightarrow> nat" where
  "page_offset pid = unat pid * PAGE_SIZE mod u64_limit"

fun other_slot :: "superblock_slot \<Rightarrow> superblock_slot" where
  "other_slot SlotA = SlotB"
| "other_slot SlotB = SlotA"

fun slot_offset :: "superblock_slot \<Rightarrow> nat" where
  "slot_offset SlotA = SUPERBLOCK_A_OFFSET"
| "slot_offset SlotB = SUPERBLOCK_B_OFFSET"

text \<open>The standard library's searches on the sorted entries of a page: \<open>partition_point\<close> is the
  length of the prefix on which the predicate holds; \<open>binary_search_by\<close> returns the index of
  the key or the index at which to insert it. Both are specified only for inputs in order,
  which decoded pages are.\<close>

definition partition_point :: "('a \<Rightarrow> bool) \<Rightarrow> 'a list \<Rightarrow> nat" where
  "partition_point P xs = length (takeWhile P xs)"

definition binary_search :: "('a \<Rightarrow> 'k::linorder) \<Rightarrow> 'k \<Rightarrow> 'a list \<Rightarrow> nat + nat" where
  "binary_search key k xs =
     (let index = partition_point (\<lambda>x. key x < k) xs in
      if index < length xs \<and> key (xs ! index) = k then Inr index else Inl index)"

definition insert_at :: "nat \<Rightarrow> 'a \<Rightarrow> 'a list \<Rightarrow> 'a list" where
  "insert_at i x xs = take i xs @ x # drop i xs"

definition abs_diff :: "nat \<Rightarrow> nat \<Rightarrow> nat" where
  "abs_diff a b = (if a \<le> b then b - a else a - b)"

function chunks :: "nat \<Rightarrow> 'a list \<Rightarrow> 'a list list" where
  "chunks n xs = (if xs = [] \<or> n = 0 then [] else take n xs # chunks n (drop n xs))"
  by pat_completeness auto
termination by (relation "measure (length \<circ> snd)") auto

declare chunks.simps [simp del]

definition div_ceil :: "nat \<Rightarrow> nat \<Rightarrow> nat" where
  "div_ceil a b = (if a mod b = 0 then a div b else a div b + 1)"

section \<open>Response budgets\<close>

record response_budget =
  maximum_wire :: nat
  maximum_memory :: nat
  used_wire :: nat
  used_memory :: nat

definition budget_new :: "nat \<Rightarrow> error + response_budget" where
  "budget_new maximum =
     rbind (ensure (\<not> maximum < RESPONSE_WIRE_OVERHEAD) ResponseTooLarge) (\<lambda>_.
     Inr \<lparr>maximum_wire = maximum, maximum_memory = saturating_add_usize maximum RESPONSE_MEMORY_OVERHEAD,
          used_wire = RESPONSE_WIRE_OVERHEAD, used_memory = 0\<rparr>)"

definition reserve :: "nat \<Rightarrow> nat \<Rightarrow> response_budget \<Rightarrow> error + response_budget" where
  "reserve wire memory b =
     rbind (ok_or (checked_add_usize (used_wire b) wire) ResponseTooLarge) (\<lambda>next_wire.
     rbind (ok_or (checked_add_usize (used_memory b) memory) ResponseTooLarge) (\<lambda>next_memory.
     rbind (ensure (\<not> (next_wire > maximum_wire b \<or> next_memory > maximum_memory b)) ResponseTooLarge) (\<lambda>_.
     Inr (b\<lparr>used_wire := next_wire, used_memory := next_memory\<rparr>))))"

definition reserve_state :: "nat \<Rightarrow> response_budget \<Rightarrow> error + response_budget" where
  "reserve_state value_len b = reserve (1 + 4 + value_len + 8) (saturating_add_usize value_len 32) b"

definition reserve_document :: "document_key \<Rightarrow> nat \<Rightarrow> response_budget \<Rightarrow> error + response_budget" where
  "reserve_document key value_len b =
     (let body = saturating_add_usize (saturating_add_usize (length (pk key)) (length (sk key))) value_len;
          materialized = saturating_add_usize body 64;
          encoded = saturating_add_usize body 20;
          wire = saturating_add_usize body 20
      in reserve wire (max materialized encoded) b)"

section \<open>Choosing a split\<close>

text \<open>\<open>sort_by_key\<close> is a stable sort.\<close>

definition split_candidates :: "nat \<Rightarrow> nat list" where
  "split_candidates len = sort_key (\<lambda>candidate. abs_diff candidate (len div 2)) [1..<len]"

definition choose_leaf_split :: "leaf_entry list \<Rightarrow> error + nat" where
  "choose_leaf_split entries =
     (case find (\<lambda>candidate. leaf_fits (take candidate entries) \<and> leaf_fits (drop candidate entries))
             (split_candidates (length entries)) of
        Some candidate \<Rightarrow> Inr candidate
      | None \<Rightarrow> Inl InvalidInput)"

definition choose_internal_split :: "page_id \<Rightarrow> internal_entry list \<Rightarrow> error + nat" where
  "choose_internal_split leftmost entries =
     rbind (ensure (\<not> length entries < 3) InvalidInput) (\<lambda>_.
     case find (\<lambda>candidate. internal_fits leftmost (take candidate entries) \<and>
                  internal_fits (ie_right_child (entries ! candidate)) (drop (candidate + 1) entries))
            (split_candidates (length entries)) of
       Some candidate \<Rightarrow> Inr candidate
     | None \<Rightarrow> Inl InvalidInput)"

section \<open>The overlay: pages and allocation\<close>

definition overlay_new :: "('f, 'w, 'i) btree_store \<Rightarrow> ('f, 'w, 'i) overlay" where
  "overlay_new store =
     \<lparr>ov_store = store, ov_pages = [], ov_dirty = [], ov_read_pages = [], ov_allocated = {},
      ov_root_page_id = bs_root_page_id store, ov_free_list_head = bs_free_list_head store,
      ov_high_water_page_id = bs_high_water_page_id store, ov_next_revision = bs_next_revision store,
      ov_last_lsn = None, ov_next_lsn = bs_next_lsn store, ov_next_batch_id = bs_next_batch_id store,
      ov_current_superblock = bs_current_superblock store, ov_active_slot = bs_active_slot store\<rparr>"

definition on_data :: "('f, error, 'a) sop \<Rightarrow> (('f, 'w, 'i) btree_store, error, 'a) sop" where
  "on_data m st = (case m (bs_file st) of (r, f) \<Rightarrow> (r, st\<lparr>bs_file := f\<rparr>))"

definition on_store :: "(('f, 'w, 'i) btree_store, error, 'a) sop \<Rightarrow> (('f, 'w, 'i) overlay, error, 'a) sop" where
  "on_store m ov = (case m (ov_store ov) of (r, st) \<Rightarrow> (r, ov\<lparr>ov_store := st\<rparr>))"

definition add_validation_time :: "u64 \<Rightarrow> ('f, 'w, 'i) btree_store \<Rightarrow> ('f, 'w, 'i) btree_store" where
  "add_validation_time nanos st =
     st\<lparr>bs_storage_metrics := (bs_storage_metrics st)\<lparr>
          validation_nanos := saturating_add_u64 (validation_nanos (bs_storage_metrics st)) nanos\<rparr>\<rparr>"

definition read_page_from_file :: "('f, 'w, 'i) env \<Rightarrow> page_id \<Rightarrow> (('f, 'w, 'i) btree_store, error, page_data) sop" where
  "read_page_from_file env pid =
     sbind (sget (\<lambda>st. Inr (om_get (bs_dirty_pages st) pid))) (\<lambda>dirty.
     case dirty of
       Some bs \<Rightarrow> sres (rbind (decode_page_at (crc32c env) bs (Some pid)) pd_decode)
     | None \<Rightarrow>
         sbind (on_data (read_exact_at (data_ops env) (page_offset pid) PAGE_SIZE)) (\<lambda>bs.
         sres (rbind (decode_page_at (crc32c env) bs (Some pid)) pd_decode)))"

definition check_page_id :: "page_id \<Rightarrow> page_id \<Rightarrow> error + unit" where
  "check_page_id high_water pid = ensure (\<not> (pid < FIRST_DATA_PAGE \<or> pid > high_water)) Corruption"

definition overlay_page :: "('f, 'w, 'i) env \<Rightarrow> page_id \<Rightarrow> (('f, 'w, 'i) overlay, error, page_data) sop" where
  "overlay_page env pid =
     sbind (sget (\<lambda>ov. check_page_id (ov_high_water_page_id ov) pid)) (\<lambda>_.
     sbind (sget (\<lambda>ov. Inr (om_get (ov_pages ov) pid))) (\<lambda>mine.
     case mine of
       Some page \<Rightarrow> sret page
     | None \<Rightarrow>
         sbind (on_store (\<lambda>st. case cache_get pid (bs_cache st) of (r, c) \<Rightarrow> (Inr r, st\<lparr>bs_cache := c\<rparr>))) (\<lambda>hit.
         case hit of
           Some page \<Rightarrow>
             sbind (smod (\<lambda>ov. ov\<lparr>ov_pages := om_insert pid page (ov_pages ov)\<rparr>)) (\<lambda>_. sret page)
         | None \<Rightarrow>
             sbind (on_store (read_page_from_file env pid)) (\<lambda>page.
             sbind (smod (\<lambda>ov. ov\<lparr>ov_read_pages := om_insert pid page (ov_read_pages ov),
                                  ov_pages := om_insert pid page (ov_pages ov)\<rparr>)) (\<lambda>_.
             sret page)))))"

text \<open>The leaf and internal views of a page: (next leaf, entries) and (leftmost child, entries).\<close>

definition overlay_leaf :: "('f, 'w, 'i) env \<Rightarrow> page_id \<Rightarrow>
    (('f, 'w, 'i) overlay, error, page_id option \<times> leaf_entry list) sop" where
  "overlay_leaf env pid =
     sbind (overlay_page env pid) (\<lambda>page.
     case page of LeafData l next_leaf entries \<Rightarrow> sret (next_leaf, entries) | _ \<Rightarrow> sfail Corruption)"

definition overlay_internal :: "('f, 'w, 'i) env \<Rightarrow> page_id \<Rightarrow>
    (('f, 'w, 'i) overlay, error, page_id \<times> internal_entry list) sop" where
  "overlay_internal env pid =
     sbind (overlay_page env pid) (\<lambda>page.
     case page of InternalData l leftmost entries \<Rightarrow> sret (leftmost, entries) | _ \<Rightarrow> sfail Corruption)"

definition replace_page :: "page_id \<Rightarrow> page_data \<Rightarrow> (('f, 'w, 'i) overlay, error, unit) sop" where
  "replace_page pid page =
     smod (\<lambda>ov. ov\<lparr>ov_pages := om_insert pid page (ov_pages ov), ov_dirty := insort_insert pid (ov_dirty ov)\<rparr>)"

definition allocate_page :: "('f, 'w, 'i) env \<Rightarrow> (('f, 'w, 'i) overlay, error, page_id) sop" where
  "allocate_page env =
     sbind (sget (\<lambda>ov. Inr (ov_free_list_head ov))) (\<lambda>head.
     case head of
       Some pid \<Rightarrow>
         sbind (overlay_page env pid) (\<lambda>page.
         case page of
           FreeData l next \<Rightarrow>
             sbind (smod (\<lambda>ov. ov\<lparr>ov_free_list_head := next, ov_allocated := insert pid (ov_allocated ov)\<rparr>)) (\<lambda>_.
             sret pid)
         | _ \<Rightarrow> sfail Corruption)
     | None \<Rightarrow>
         sbind (sget (\<lambda>ov. ok_or (checked_add_u64 (ov_high_water_page_id ov) 1) InternalInvariantViolation)) (\<lambda>pid.
         sbind (smod (\<lambda>ov. ov\<lparr>ov_high_water_page_id := pid, ov_allocated := insert pid (ov_allocated ov)\<rparr>)) (\<lambda>_.
         sret pid)))"

definition free_page :: "page_id \<Rightarrow> revision \<Rightarrow> (('f, 'w, 'i) overlay, error, unit) sop" where
  "free_page pid stamp =
     sbind (smod (\<lambda>ov. ov\<lparr>ov_allocated := ov_allocated ov - {pid}\<rparr>)) (\<lambda>_.
     sbind (sget (\<lambda>ov. Inr (ov_free_list_head ov))) (\<lambda>head.
     sbind (replace_page pid (FreeData stamp head)) (\<lambda>_.
     smod (\<lambda>ov. ov\<lparr>ov_free_list_head := Some pid\<rparr>))))"

definition allocate_revision :: "(('f, 'w, 'i) overlay, error, revision) sop" where
  "allocate_revision =
     sbind (sget (\<lambda>ov. Inr (case ov_last_lsn ov of Some l \<Rightarrow> revision_from_lsn l | None \<Rightarrow> ov_next_revision ov))) (\<lambda>stamp.
     sbind (smod (\<lambda>ov. ov\<lparr>ov_last_lsn := Some stamp\<rparr>)) (\<lambda>_.
     sret stamp))"

section \<open>Values\<close>

definition validate_value :: "storage_limits \<Rightarrow> bytes \<Rightarrow> error + unit" where
  "validate_value limits v =
     ensure (\<not> (length v > max_value_size limits \<or> length v > MAX_VALUE_SIZE)) InvalidInput"

fun allocate_pages :: "('f, 'w, 'i) env \<Rightarrow> nat \<Rightarrow> (('f, 'w, 'i) overlay, error, page_id list) sop" where
  "allocate_pages env 0 = sret []"
| "allocate_pages env (Suc n) =
     sbind (allocate_page env) (\<lambda>pid. sbind (allocate_pages env n) (\<lambda>pids. sret (pid # pids)))"

text \<open>The loop over the chunks of a value, the pages of the remaining chunks at hand.\<close>

fun write_chunks :: "revision \<Rightarrow> nat \<Rightarrow> page_id list \<Rightarrow> bytes list \<Rightarrow> (('f, 'w, 'i) overlay, error, unit) sop" where
  "write_chunks stamp total_len (pid # pids) (chunk # rest) =
     sbind (replace_page pid (OverflowData stamp (case pids of [] \<Rightarrow> None | q # _ \<Rightarrow> Some q) (of_nat total_len) chunk))
       (\<lambda>_. write_chunks stamp total_len pids rest)"
| "write_chunks stamp total_len _ _ = sret ()"

definition make_value :: "('f, 'w, 'i) env \<Rightarrow> bytes \<Rightarrow> revision \<Rightarrow> (('f, 'w, 'i) overlay, error, value_ref) sop" where
  "make_value env v stamp =
     sbind (sget (\<lambda>ov. Inr (inline_value_limit (dc_limits (bs_config (ov_store ov)))))) (\<lambda>limit.
     if length v \<le> limit \<and> length v \<le> INLINE_VALUE_LIMIT then sret (Inline v)
     else
       (let ids = div_ceil (length v) OVERFLOW_DATA_SIZE in
        sbind (sres (ensure (\<not> ids > MAX_OVERFLOW_PAGES) InvalidInput)) (\<lambda>_.
        sbind (allocate_pages env ids) (\<lambda>page_ids.
        sbind (write_chunks stamp (length v) page_ids (chunks OVERFLOW_DATA_SIZE v)) (\<lambda>_.
        sret (Overflow (hd page_ids) (of_nat (length v))))))))"

text \<open>The two loops over an overflow chain. They visit each page at most once, so the set of
  pages not visited yet decreases.\<close>

lemma visited_grows: "(pid :: page_id) \<notin> visited \<Longrightarrow> card (- insert pid visited) < card (- visited)"
  by (rule psubset_card_mono) auto

function free_chain :: "('f, 'w, 'i) env \<Rightarrow> u64 \<Rightarrow> revision \<Rightarrow> page_id option \<Rightarrow> page_id set \<Rightarrow> u64 \<Rightarrow> nat \<Rightarrow>
    (('f, 'w, 'i) overlay, error, u64) sop" where
  "free_chain env len stamp None visited total_length count ov = (Inr total_length, ov)"
| "free_chain env len stamp (Some current) visited total_length count ov =
     (if current \<in> visited \<or> count \<ge> MAX_OVERFLOW_PAGES then (Inl Corruption, ov)
      else
        (case overlay_page env current ov of
           (Inl e, ov') \<Rightarrow> (Inl e, ov')
         | (Inr (OverflowData l next page_total chunk), ov') \<Rightarrow>
             if page_total \<noteq> len then (Inl Corruption, ov')
             else
               (case checked_add_u64 total_length (of_nat (length chunk)) of
                  None \<Rightarrow> (Inl Corruption, ov')
                | Some total_len' \<Rightarrow>
                    (case free_page current stamp ov' of
                       (Inl e, ov'') \<Rightarrow> (Inl e, ov'')
                     | (Inr _, ov'') \<Rightarrow>
                         free_chain env len stamp next (insert current visited) total_len' (count + 1) ov''))
         | (Inr _, ov') \<Rightarrow> (Inl Corruption, ov')))"
  by pat_completeness auto
termination
  by (relation "measure (\<lambda>(env, len, stamp, p, visited, t, c, ov). card (- visited))")
    (auto simp: visited_grows simp del: Compl_insert)

definition free_value :: "('f, 'w, 'i) env \<Rightarrow> value_ref option \<Rightarrow> revision \<Rightarrow> (('f, 'w, 'i) overlay, error, unit) sop" where
  "free_value env value stamp =
     (case value of
        Some (Overflow head len) \<Rightarrow>
          sbind (free_chain env len stamp (Some head) {} 0 0) (\<lambda>total_length.
          sres (ensure (\<not> (total_length \<noteq> len \<or> len = 0)) Corruption))
      | _ \<Rightarrow> sret ())"

function read_chain :: "('f, 'w, 'i) env \<Rightarrow> u64 \<Rightarrow> page_id option \<Rightarrow> page_id set \<Rightarrow> nat \<Rightarrow> bytes \<Rightarrow>
    (('f, 'w, 'i) overlay, error, bytes) sop" where
  "read_chain env len None visited count output ov = (Inr output, ov)"
| "read_chain env len (Some current) visited count output ov =
     (if current \<in> visited \<or> count \<ge> MAX_OVERFLOW_PAGES then (Inl Corruption, ov)
      else
        (case overlay_page env current ov of
           (Inl e, ov') \<Rightarrow> (Inl e, ov')
         | (Inr (OverflowData l next total_length chunk), ov') \<Rightarrow>
             if total_length \<noteq> len then (Inl Corruption, ov')
             else read_chain env len next (insert current visited) (count + 1) (output @ chunk) ov'
         | (Inr _, ov') \<Rightarrow> (Inl Corruption, ov')))"
  by pat_completeness auto
termination
  by (relation "measure (\<lambda>(env, len, p, visited, c, out, ov). card (- visited))")
    (auto simp: visited_grows simp del: Compl_insert)

fun read_value :: "('f, 'w, 'i) env \<Rightarrow> value_ref \<Rightarrow> (('f, 'w, 'i) overlay, error, bytes) sop" where
  "read_value env (Inline v) = sret v"
| "read_value env (Overflow head len) =
     sbind (read_chain env len (Some head) {} 0 []) (\<lambda>output.
     sbind (sres (ensure (of_nat (length output) = len) Corruption)) (\<lambda>_.
     sret output))"

section \<open>Traversal\<close>

definition child_for :: "bytes \<Rightarrow> page_id \<Rightarrow> internal_entry list \<Rightarrow> page_id" where
  "child_for key leftmost entries =
     (let index = partition_point (\<lambda>e. ie_key e \<le> key) entries in
      if index = 0 then leftmost else ie_right_child (entries ! (index - 1)))"

function find_leaf_loop :: "('f, 'w, 'i) env \<Rightarrow> bytes \<Rightarrow> page_id \<Rightarrow> page_id list \<Rightarrow> page_id set \<Rightarrow>
    (('f, 'w, 'i) overlay, error, page_id \<times> page_id list) sop" where
  "find_leaf_loop env key pid route visited ov =
     (if pid \<in> visited then (Inl Corruption, ov)
      else
        (case overlay_page env pid ov of
           (Inl e, ov') \<Rightarrow> (Inl e, ov')
         | (Inr (LeafData l next entries), ov') \<Rightarrow> (Inr (pid, route @ [pid]), ov')
         | (Inr (InternalData l leftmost entries), ov') \<Rightarrow>
             find_leaf_loop env key (child_for key leftmost entries) (route @ [pid]) (insert pid visited) ov'
         | (Inr _, ov') \<Rightarrow> (Inl Corruption, ov')))"
  by pat_completeness auto
termination
  by (relation "measure (\<lambda>(env, key, pid, route, visited, ov). card (- visited))")
    (auto simp: visited_grows simp del: Compl_insert)

definition find_leaf :: "('f, 'w, 'i) env \<Rightarrow> bytes \<Rightarrow> (('f, 'w, 'i) overlay, error, page_id \<times> page_id list) sop" where
  "find_leaf env key ov = find_leaf_loop env key (ov_root_page_id ov) [] {} ov"

function leftmost_loop :: "('f, 'w, 'i) env \<Rightarrow> page_id \<Rightarrow> page_id set \<Rightarrow> (('f, 'w, 'i) overlay, error, page_id) sop" where
  "leftmost_loop env pid visited ov =
     (if pid \<in> visited then (Inl Corruption, ov)
      else
        (case overlay_page env pid ov of
           (Inl e, ov') \<Rightarrow> (Inl e, ov')
         | (Inr (LeafData l next entries), ov') \<Rightarrow> (Inr pid, ov')
         | (Inr (InternalData l leftmost entries), ov') \<Rightarrow> leftmost_loop env leftmost (insert pid visited) ov'
         | (Inr _, ov') \<Rightarrow> (Inl Corruption, ov')))"
  by pat_completeness auto
termination
  by (relation "measure (\<lambda>(env, pid, visited, ov). card (- visited))")
    (auto simp: visited_grows simp del: Compl_insert)

definition leftmost_leaf :: "('f, 'w, 'i) env \<Rightarrow> (('f, 'w, 'i) overlay, error, page_id) sop" where
  "leftmost_leaf env ov = leftmost_loop env (ov_root_page_id ov) {} ov"

declare find_leaf_loop.simps [simp del] leftmost_loop.simps [simp del]
  free_chain.simps [simp del] read_chain.simps [simp del]

section \<open>Point reads\<close>

text \<open>The budget is dropped with the failed call, so it is threaded through the results.\<close>

definition get_state_with_budget :: "('f, 'w, 'i) env \<Rightarrow> document_key \<Rightarrow> response_budget \<Rightarrow>
    (('f, 'w, 'i) overlay, error, revision_state \<times> response_budget) sop" where
  "get_state_with_budget env key budget =
     (let encoded = encode key in
      sbind (sres (validate_encoded_key encoded)) (\<lambda>_.
      sbind (find_leaf env encoded) (\<lambda>(leaf_id, _).
      sbind (overlay_leaf env leaf_id) (\<lambda>(_, entries).
      case find (\<lambda>e. le_key e = encoded) entries of
        None \<Rightarrow> sbind (sres (reserve_state 0 budget)) (\<lambda>b. sret (Missing 0, b))
      | Some entry \<Rightarrow>
          (case le_value entry of
             Some vref \<Rightarrow>
               sbind (sres (reserve_state (value_length vref) budget)) (\<lambda>b.
               sbind (read_value env vref) (\<lambda>v.
               sret (Present v (le_revision entry), b)))
           | None \<Rightarrow> sbind (sres (reserve_state 0 budget)) (\<lambda>b. sret (Missing (le_revision entry), b)))))))"

definition get_observed_state :: "('f, 'w, 'i) env \<Rightarrow> document_key \<Rightarrow> (('f, 'w, 'i) overlay, error, observed_state) sop" where
  "get_observed_state env key =
     (let encoded = encode key in
      sbind (sres (validate_encoded_key encoded)) (\<lambda>_.
      sbind (find_leaf env encoded) (\<lambda>(leaf_id, _).
      sbind (overlay_leaf env leaf_id) (\<lambda>(_, entries).
      case find (\<lambda>e. le_key e = encoded) entries of
        None \<Rightarrow> sret (OMissing 0)
      | Some entry \<Rightarrow>
          sret (if le_value entry \<noteq> None then OPresent (le_revision entry) else OMissing (le_revision entry))))))"

section \<open>Mutations\<close>

text \<open>\<open>route\<close> is given nearest ancestor first.\<close>

fun insert_separator :: "('f, 'w, 'i) env \<Rightarrow> page_id list \<Rightarrow> bytes \<Rightarrow> page_id \<Rightarrow> revision \<Rightarrow>
    (('f, 'w, 'i) overlay, error, unit) sop" where
  "insert_separator env [] separator right_child stamp =
     sbind (allocate_page env) (\<lambda>new_root_id.
     sbind (sget (\<lambda>ov. Inr (ov_root_page_id ov))) (\<lambda>root.
     sbind (replace_page new_root_id
              (InternalData stamp root [\<lparr>ie_key = separator, ie_right_child = right_child\<rparr>])) (\<lambda>_.
     smod (\<lambda>ov. ov\<lparr>ov_root_page_id := new_root_id\<rparr>))))"
| "insert_separator env (parent_id # ancestors) separator right_child stamp =
     sbind (overlay_internal env parent_id) (\<lambda>(leftmost, old_entries).
     let index = partition_point (\<lambda>e. ie_key e < separator) old_entries;
         entries = insert_at index \<lparr>ie_key = separator, ie_right_child = right_child\<rparr> old_entries in
     if internal_fits leftmost entries
     then replace_page parent_id (InternalData stamp leftmost entries)
     else
       sbind (sres (choose_internal_split leftmost entries)) (\<lambda>split.
       let promoted = ie_key (entries ! split); right_leftmost = ie_right_child (entries ! split) in
       sbind (allocate_page env) (\<lambda>right_id.
       let left_entries = take split entries; right_entries = drop (split + 1) entries in
       sbind (sres (ensure (\<not> (\<not> internal_fits leftmost left_entries
                \<or> \<not> internal_fits right_leftmost right_entries)) InvalidInput)) (\<lambda>_.
       sbind (replace_page parent_id (InternalData stamp leftmost left_entries)) (\<lambda>_.
       sbind (replace_page right_id (InternalData stamp right_leftmost right_entries)) (\<lambda>_.
       insert_separator env ancestors promoted right_id stamp))))))"

definition insert_parent_separator :: "('f, 'w, 'i) env \<Rightarrow> page_id list \<Rightarrow> bytes \<Rightarrow> page_id \<Rightarrow> revision \<Rightarrow>
    (('f, 'w, 'i) overlay, error, unit) sop" where
  "insert_parent_separator env route = insert_separator env (rev (butlast route))"

definition insert_leaf_entries :: "('f, 'w, 'i) env \<Rightarrow> page_id \<Rightarrow> page_id list \<Rightarrow> page_id option \<Rightarrow> leaf_entry list \<Rightarrow>
    revision \<Rightarrow> (('f, 'w, 'i) overlay, error, unit) sop" where
  "insert_leaf_entries env leaf_id route next_leaf entries stamp =
     (if leaf_fits entries then replace_page leaf_id (LeafData stamp next_leaf entries)
      else
        sbind (sres (choose_leaf_split entries)) (\<lambda>split.
        sbind (allocate_page env) (\<lambda>right_id.
        let left_entries = take split entries; right_entries = drop split entries in
        sbind (sres (ok_or (case right_entries of [] \<Rightarrow> None | e # _ \<Rightarrow> Some (le_key e)) InternalInvariantViolation))
          (\<lambda>separator.
        sbind (replace_page leaf_id (LeafData stamp (Some right_id) left_entries)) (\<lambda>_.
        sbind (replace_page right_id (LeafData stamp next_leaf right_entries)) (\<lambda>_.
        insert_parent_separator env route separator right_id stamp))))))"

definition overlay_put :: "('f, 'w, 'i) env \<Rightarrow> document_key \<Rightarrow> bytes \<Rightarrow> (('f, 'w, 'i) overlay, error, revision) sop" where
  "overlay_put env key v =
     sbind (sget (\<lambda>ov. validate_value (dc_limits (bs_config (ov_store ov))) v)) (\<lambda>_.
     let encoded = encode key in
     sbind (sres (validate_encoded_key encoded)) (\<lambda>_.
     sbind allocate_revision (\<lambda>stamp.
     sbind (find_leaf env encoded) (\<lambda>(leaf_id, route).
     sbind (overlay_leaf env leaf_id) (\<lambda>(next_leaf, entries).
     sbind (make_value env v stamp) (\<lambda>value_ref.
     let entry = \<lparr>le_key = encoded, le_revision = stamp, le_value = Some value_ref\<rparr> in
     sbind (case binary_search le_key encoded entries of
              Inr index \<Rightarrow>
                (let old_value = le_value (entries ! index) in
                 sbind (insert_leaf_entries env leaf_id route next_leaf (entries[index := entry]) stamp) (\<lambda>_.
                 free_value env old_value stamp))
            | Inl index \<Rightarrow>
                insert_leaf_entries env leaf_id route next_leaf (insert_at index entry entries) stamp) (\<lambda>_.
     sret stamp)))))))"

definition overlay_delete :: "('f, 'w, 'i) env \<Rightarrow> document_key \<Rightarrow> (('f, 'w, 'i) overlay, error, revision) sop" where
  "overlay_delete env key =
     (let encoded = encode key in
     sbind (sres (validate_encoded_key encoded)) (\<lambda>_.
     sbind allocate_revision (\<lambda>stamp.
     sbind (find_leaf env encoded) (\<lambda>(leaf_id, route).
     sbind (overlay_leaf env leaf_id) (\<lambda>(next_leaf, entries).
     let entry = \<lparr>le_key = encoded, le_revision = stamp, le_value = None\<rparr> in
     sbind (case binary_search le_key encoded entries of
              Inr index \<Rightarrow>
                (let old_value = le_value (entries ! index) in
                 sbind (replace_page leaf_id (LeafData stamp next_leaf (entries[index := entry]))) (\<lambda>_.
                 free_value env old_value stamp))
            | Inl index \<Rightarrow>
                insert_leaf_entries env leaf_id route next_leaf (insert_at index entry entries) stamp) (\<lambda>_.
     sret stamp))))))"

section \<open>Range reads\<close>

text \<open>The loop over the entries of one leaf. The result says whether the whole read is finished
  (\<open>return Ok(rows)\<close>) and carries the flag \<open>first\<close>, the rows and the budget.\<close>

fun query_entries :: "('f, 'w, 'i) env \<Rightarrow> bytes \<Rightarrow> bytes option \<Rightarrow> bytes option \<Rightarrow> nat \<Rightarrow> leaf_entry list \<Rightarrow> bool \<Rightarrow>
    btree_document list \<Rightarrow> response_budget \<Rightarrow> (('f, 'w, 'i) overlay, error, bool \<times> bool \<times> btree_document list \<times> response_budget) sop" where
  "query_entries env qpk after_sk cursor limit [] first rows budget = sret (False, first, rows, budget)"
| "query_entries env qpk after_sk cursor limit (entry # entries) first rows budget =
     (if first \<and> (case cursor of None \<Rightarrow> False | Some c \<Rightarrow> le_key entry \<le> c)
      then query_entries env qpk after_sk cursor limit entries first rows budget
      else
        sbind (sres (map_err (\<lambda>_. Corruption) (decode (le_key entry)))) (\<lambda>document_key.
        if pk document_key \<noteq> qpk then
          (if pk document_key > qpk then sret (True, False, rows, budget)
           else query_entries env qpk after_sk cursor limit entries False rows budget)
        else if (case after_sk of None \<Rightarrow> False | Some c \<Rightarrow> sk document_key \<le> c)
        then query_entries env qpk after_sk cursor limit entries False rows budget
        else
          (case le_value entry of
             None \<Rightarrow> query_entries env qpk after_sk cursor limit entries False rows budget
           | Some vref \<Rightarrow>
               sbind (sres (reserve_document document_key (value_length vref) budget)) (\<lambda>budget'.
               sbind (read_value env vref) (\<lambda>v.
               let rows' = rows @ [\<lparr>doc_key = document_key, doc_value = v, doc_revision = le_revision entry\<rparr>] in
               if length rows' = limit then sret (True, False, rows', budget')
               else query_entries env qpk after_sk cursor limit entries False rows' budget')))))"

function query_loop :: "('f, 'w, 'i) env \<Rightarrow> bytes \<Rightarrow> bytes option \<Rightarrow> bytes option \<Rightarrow> nat \<Rightarrow> page_id \<Rightarrow> page_id set \<Rightarrow>
    bool \<Rightarrow> btree_document list \<Rightarrow> response_budget \<Rightarrow> (('f, 'w, 'i) overlay, error, btree_document list \<times> response_budget) sop" where
  "query_loop env qpk after_sk cursor limit leaf_id visited first rows budget ov =
     (if length rows < limit then
        (if leaf_id \<in> visited then (Inl Corruption, ov)
         else
           (case overlay_leaf env leaf_id ov of
              (Inl e, ov') \<Rightarrow> (Inl e, ov')
            | (Inr (next_leaf, entries), ov') \<Rightarrow>
                (case query_entries env qpk after_sk cursor limit entries first rows budget ov' of
                   (Inl e, ov'') \<Rightarrow> (Inl e, ov'')
                 | (Inr (finished, first', rows', budget'), ov'') \<Rightarrow>
                     if finished then (Inr (rows', budget'), ov'')
                     else
                       (case next_leaf of
                          None \<Rightarrow> (Inr (rows', budget'), ov'')
                        | Some next \<Rightarrow>
                            query_loop env qpk after_sk cursor limit next (insert leaf_id visited) False rows' budget' ov''))))
      else (Inr (rows, budget), ov))"
  by pat_completeness auto
termination
  by (relation "measure (\<lambda>(env, qpk, after, cursor, limit, leaf_id, visited, first, rows, b, ov). card (- visited))")
    (auto simp: visited_grows simp del: Compl_insert)

definition query_with_budget :: "('f, 'w, 'i) env \<Rightarrow> bytes \<Rightarrow> bytes option \<Rightarrow> nat \<Rightarrow> response_budget \<Rightarrow>
    (('f, 'w, 'i) overlay, error, btree_document list \<times> response_budget) sop" where
  "query_with_budget env qpk after_sk limit budget =
     (if limit = 0 then sret ([], budget)
      else
        (let start_key = encode (DocumentKey qpk []) in
         sbind (sres (validate_encoded_key start_key)) (\<lambda>_.
         sbind (find_leaf env start_key) (\<lambda>(leaf_id, _).
         let cursor = map_option (\<lambda>s. encode (DocumentKey qpk s)) after_sk in
         sbind (sres (case cursor of None \<Rightarrow> Inr () | Some c \<Rightarrow> validate_encoded_key c)) (\<lambda>_.
         query_loop env qpk after_sk cursor limit leaf_id {} True [] budget)))))"

fun scan_entries :: "('f, 'w, 'i) env \<Rightarrow> bytes option \<Rightarrow> nat \<Rightarrow> leaf_entry list \<Rightarrow> btree_document list \<Rightarrow> response_budget \<Rightarrow>
    (('f, 'w, 'i) overlay, error, bool \<times> btree_document list \<times> response_budget) sop" where
  "scan_entries env cursor limit [] rows budget = sret (False, rows, budget)"
| "scan_entries env cursor limit (entry # entries) rows budget =
     (if (case cursor of None \<Rightarrow> False | Some c \<Rightarrow> le_key entry \<le> c)
      then scan_entries env cursor limit entries rows budget
      else
        sbind (sres (map_err (\<lambda>_. Corruption) (decode (le_key entry)))) (\<lambda>document_key.
        case le_value entry of
          None \<Rightarrow> scan_entries env cursor limit entries rows budget
        | Some vref \<Rightarrow>
            sbind (sres (reserve_document document_key (value_length vref) budget)) (\<lambda>budget'.
            sbind (read_value env vref) (\<lambda>v.
            let rows' = rows @ [\<lparr>doc_key = document_key, doc_value = v, doc_revision = le_revision entry\<rparr>] in
            if length rows' = limit then sret (True, rows', budget')
            else scan_entries env cursor limit entries rows' budget'))))"

function scan_leaves :: "('f, 'w, 'i) env \<Rightarrow> bytes option \<Rightarrow> nat \<Rightarrow> page_id \<Rightarrow> page_id set \<Rightarrow> btree_document list \<Rightarrow>
    response_budget \<Rightarrow> (('f, 'w, 'i) overlay, error, btree_document list \<times> response_budget) sop" where
  "scan_leaves env cursor limit leaf_id visited rows budget ov =
     (if leaf_id \<in> visited then (Inl Corruption, ov)
      else
        (case overlay_leaf env leaf_id ov of
           (Inl e, ov') \<Rightarrow> (Inl e, ov')
         | (Inr (next_leaf, entries), ov') \<Rightarrow>
             (case scan_entries env cursor limit entries rows budget ov' of
                (Inl e, ov'') \<Rightarrow> (Inl e, ov'')
              | (Inr (finished, rows', budget'), ov'') \<Rightarrow>
                  if finished then (Inr (rows', budget'), ov'')
                  else
                    (case next_leaf of
                       None \<Rightarrow> (Inr (rows', budget'), ov'')
                     | Some next \<Rightarrow> scan_leaves env cursor limit next (insert leaf_id visited) rows' budget' ov''))))"
  by pat_completeness auto
termination
  by (relation "measure (\<lambda>(env, cursor, limit, leaf_id, visited, rows, b, ov). card (- visited))")
    (auto simp: visited_grows simp del: Compl_insert)

declare query_loop.simps [simp del] scan_leaves.simps [simp del]

definition scan_with_budget :: "('f, 'w, 'i) env \<Rightarrow> document_key option \<Rightarrow> nat \<Rightarrow> response_budget \<Rightarrow>
    (('f, 'w, 'i) overlay, error, btree_document list \<times> response_budget) sop" where
  "scan_with_budget env cursor limit budget =
     (if limit = 0 then sret ([], budget)
      else
        sbind (case cursor of
                 Some key \<Rightarrow>
                   sbind (sres (validate_encoded_key (encode key))) (\<lambda>_.
                   sbind (find_leaf env (encode key)) (\<lambda>(leaf_id, _). sret leaf_id))
               | None \<Rightarrow> leftmost_leaf env) (\<lambda>leaf_id.
        scan_leaves env (map_option encode cursor) limit leaf_id {} [] budget))"

section \<open>Batches\<close>

fun execute_with_budget :: "('f, 'w, 'i) env \<Rightarrow> batch_request \<Rightarrow> response_budget \<Rightarrow>
    (('f, 'w, 'i) overlay, error, batch_response \<times> response_budget) sop" where
  "execute_with_budget env (GetRequest key) budget =
     sbind (get_state_with_budget env key budget) (\<lambda>(state, b). sret (GetResponse state, b))"
| "execute_with_budget env (PutRequest key v) budget =
     sbind (overlay_put env key v) (\<lambda>r. sret (PutResponse r, budget))"
| "execute_with_budget env (DeleteRequest key) budget =
     sbind (overlay_delete env key) (\<lambda>r. sret (DeleteResponse r, budget))"
| "execute_with_budget env (QueryRequest qpk after_sk limit) budget =
     sbind (query_with_budget env qpk after_sk limit budget) (\<lambda>(rows, b). sret (QueryResponse rows, b))"
| "execute_with_budget env (ScanRequest cursor limit) budget =
     sbind (scan_with_budget env cursor limit budget) (\<lambda>(rows, b). sret (ScanResponse rows, b))"

fun execute_all :: "('f, 'w, 'i) env \<Rightarrow> batch_request list \<Rightarrow> response_budget \<Rightarrow>
    (('f, 'w, 'i) overlay, error, batch_response list) sop" where
  "execute_all env [] budget = sret []"
| "execute_all env (request # requests) budget =
     sbind (execute_with_budget env request budget) (\<lambda>(response, b).
     sbind (execute_all env requests b) (\<lambda>responses. sret (response # responses)))"

fun restamp_state :: "revision_state \<Rightarrow> revision \<Rightarrow> revision \<Rightarrow> revision_state" where
  "restamp_state (Present v r) provisional committed = Present v (if r = provisional then committed else r)"
| "restamp_state (Missing r) provisional committed = Missing (if r = provisional then committed else r)"

fun restamp_response :: "revision \<Rightarrow> revision \<Rightarrow> batch_response \<Rightarrow> batch_response" where
  "restamp_response provisional committed (PutResponse r) = PutResponse (if r = provisional then committed else r)"
| "restamp_response provisional committed (DeleteResponse r) = DeleteResponse (if r = provisional then committed else r)"
| "restamp_response provisional committed (GetResponse state) = GetResponse (restamp_state state provisional committed)"
| "restamp_response provisional committed (QueryResponse rows) =
     QueryResponse (map (\<lambda>row. if doc_revision row = provisional then row\<lparr>doc_revision := committed\<rparr> else row) rows)"
| "restamp_response provisional committed (ScanResponse rows) =
     ScanResponse (map (\<lambda>row. if doc_revision row = provisional then row\<lparr>doc_revision := committed\<rparr> else row) rows)"

definition restamp_responses :: "batch_response list \<Rightarrow> revision \<Rightarrow> revision \<Rightarrow> batch_response list" where
  "restamp_responses responses provisional committed = map (restamp_response provisional committed) responses"

text \<open>The loops of \<open>finish\<close> and \<open>finish_transaction\<close> over the dirty pages.\<close>

fun restamp_dirty :: "page_id list \<Rightarrow> revision \<Rightarrow> lsn \<Rightarrow> (page_id, page_data) ordmap \<Rightarrow> error + (page_id, page_data) ordmap" where
  "restamp_dirty [] provisional committed pages = Inr pages"
| "restamp_dirty (pid # dirty) provisional committed pages =
     rbind (ok_or (om_get pages pid) InternalInvariantViolation) (\<lambda>page.
     restamp_dirty dirty provisional committed (om_insert pid (restamp page provisional committed) pages))"

fun encode_dirty :: "crc_fun \<Rightarrow> page_id list \<Rightarrow> (page_id, page_data) ordmap \<Rightarrow>
    error + ((page_id, bytes) ordmap \<times> (page_id, page_data) ordmap)" where
  "encode_dirty crc [] pages = Inr ([], [])"
| "encode_dirty crc (pid # dirty) pages =
     rbind (ok_or (om_get pages pid) InternalInvariantViolation) (\<lambda>page.
     rbind (pd_encode crc page pid) (\<lambda>image.
     rbind (encode_dirty crc dirty pages) (\<lambda>(changed_pages, changed_decoded).
     Inr (om_insert pid image changed_pages, om_insert pid page changed_decoded))))"

definition next_superblock :: "crc_fun \<Rightarrow> superblock \<Rightarrow> page_id \<Rightarrow> page_id option \<Rightarrow> page_id \<Rightarrow> error + superblock" where
  "next_superblock crc current root free_head high_water =
     rbind (ok_or (checked_add_u64 (sb_generation current) 1) InternalInvariantViolation) (\<lambda>generation.
     rbind (encode_superblock crc (current\<lparr>sb_generation := generation, sb_root_page_id := Some root,
              sb_free_list_head := free_head, sb_high_water_page_id := Some high_water\<rparr>)) (\<lambda>image.
     decode_superblock crc image))"

definition finish :: "('f, 'w, 'i) env \<Rightarrow> ('f, 'w, 'i) overlay \<Rightarrow> batch_response list \<Rightarrow> error + prepared_batch" where
  "finish env ov responses =
     (let store = ov_store ov; crc = crc32c env; provisional_lsn = ov_last_lsn ov in
      rbind (case provisional_lsn of
               None \<Rightarrow> Inr None
             | Some provisional \<Rightarrow>
                 rbind (ok_or (checked_add_usize (length (ov_dirty ov)) 1) InternalInvariantViolation) (\<lambda>image_count.
                 if bs_wal store \<noteq> None
                 then rbind (ok_or (checked_add_u64 (bs_next_lsn store) (of_nat image_count)) InternalInvariantViolation)
                        (\<lambda>l. Inr (Some l))
                 else Inr (Some provisional))) (\<lambda>commit.
      rbind (case (provisional_lsn, commit) of
               (Some provisional, Some committed) \<Rightarrow>
                 restamp_dirty (ov_dirty ov) (revision_from_lsn provisional) committed (ov_pages ov)
             | _ \<Rightarrow> Inr (ov_pages ov)) (\<lambda>pages.
      rbind (if commit \<noteq> None
             then next_superblock crc (bs_current_superblock store) (ov_root_page_id ov) (ov_free_list_head ov)
                    (ov_high_water_page_id ov)
             else Inr (bs_current_superblock store)) (\<lambda>new_superblock.
      rbind (encode_dirty crc (ov_dirty ov) pages) (\<lambda>(changed_pages, changed_decoded).
      rbind (case commit of
               Some l \<Rightarrow> ok_or (checked_add_u64 l 1) InternalInvariantViolation
             | None \<Rightarrow> Inr (bs_next_revision store)) (\<lambda>next_revision.
      Inr \<lparr>pr_responses =
             (case (provisional_lsn, commit) of
                (Some provisional, Some committed) \<Rightarrow>
                  restamp_responses responses (revision_from_lsn provisional) (revision_from_lsn committed)
              | _ \<Rightarrow> responses),
           pr_changed_pages = changed_pages, pr_changed_decoded = changed_decoded,
           pr_read_pages = ov_read_pages ov, pr_new_superblock = new_superblock,
           pr_new_slot = other_slot (bs_active_slot store),
           pr_base_generation = sb_generation (bs_current_superblock store), pr_next_revision = next_revision,
           pr_root_page_id = ov_root_page_id ov, pr_free_list_head = ov_free_list_head ov,
           pr_high_water_page_id = ov_high_water_page_id ov, pr_commit_lsn = commit,
           pr_batch_id = bs_next_batch_id store\<rparr>))))))"

section \<open>Transactions\<close>

definition validate_transaction_mutation :: "storage_limits \<Rightarrow> transaction_mutation \<Rightarrow> error + unit" where
  "validate_transaction_mutation limits mutation =
     (case mutation of
        MPut key v \<Rightarrow> rbind (validate_value limits v) (\<lambda>_. validate_encoded_key (encode key))
      | MDelete key \<Rightarrow> validate_encoded_key (encode key))"

fun check_tree_conditions :: "('f, 'w, 'i) env \<Rightarrow> transaction_condition list \<Rightarrow> (('f, 'w, 'i) overlay, error, unit) sop" where
  "check_tree_conditions env [] = sret ()"
| "check_tree_conditions env (condition # conditions) =
     sbind (get_observed_state env (condition_key condition)) (\<lambda>actual.
     if condition_satisfied condition actual then check_tree_conditions env conditions
     else
       sbind (on_store (smod (add_validation_time (saturating_nanos (validation_time env))))) (\<lambda>_.
       sfail (Conflict \<lparr>conflict_key = condition_key condition, conflict_expected = expectation condition,
                        conflict_actual = actual\<rparr>)))"

fun apply_tree_mutations :: "('f, 'w, 'i) env \<Rightarrow> transaction_mutation list \<Rightarrow> (('f, 'w, 'i) overlay, error, unit) sop" where
  "apply_tree_mutations env [] = sret ()"
| "apply_tree_mutations env (MPut key v # mutations) =
     sbind (overlay_put env key v) (\<lambda>_. apply_tree_mutations env mutations)"
| "apply_tree_mutations env (MDelete key # mutations) =
     sbind (overlay_delete env key) (\<lambda>_. apply_tree_mutations env mutations)"

text \<open>\<open>restamp\<close> runs in place, so the pages before a missing one keep the new stamp; a missing
  page is an internal error, on which the caller gives the overlay up.\<close>

definition finish_transaction :: "('f, 'w, 'i) env \<Rightarrow> (('f, 'w, 'i) overlay, error, prepared_batch) sop" where
  "finish_transaction env =
     sbind (sget (\<lambda>ov. ok_or (ov_last_lsn ov) InternalInvariantViolation)) (\<lambda>provisional.
     sbind (sget (\<lambda>ov. Inr (sb_generation (ov_current_superblock ov)))) (\<lambda>base_generation.
     sbind (sget (\<lambda>ov.
        if bs_wal (ov_store ov) \<noteq> None
        then rbind (ok_or (checked_add_usize (length (ov_dirty ov)) 1) InternalInvariantViolation) (\<lambda>image_count.
             ok_or (checked_add_u64 (ov_next_lsn ov) (of_nat image_count)) InternalInvariantViolation)
        else Inr provisional)) (\<lambda>commit.
     sbind (sget (\<lambda>ov. restamp_dirty (ov_dirty ov) (revision_from_lsn provisional) commit (ov_pages ov))) (\<lambda>pages.
     sbind (smod (\<lambda>ov. ov\<lparr>ov_pages := pages\<rparr>)) (\<lambda>_.
     sbind (sget (\<lambda>ov. next_superblock (crc32c env) (ov_current_superblock ov) (ov_root_page_id ov)
                         (ov_free_list_head ov) (ov_high_water_page_id ov))) (\<lambda>new_superblock.
     sbind (sget (\<lambda>ov. encode_dirty (crc32c env) (ov_dirty ov) (ov_pages ov))) (\<lambda>(changed_pages, changed_decoded).
     sbind (sget (\<lambda>ov. Inr (ov_read_pages ov))) (\<lambda>read_pages.
     sbind (smod (\<lambda>ov. ov\<lparr>ov_read_pages := []\<rparr>)) (\<lambda>_.
     sbind (sres (ok_or (checked_add_u64 commit 1) InternalInvariantViolation)) (\<lambda>next_revision.
     sbind (sget (\<lambda>ov. Inr
        \<lparr>pr_responses = [], pr_changed_pages = changed_pages, pr_changed_decoded = changed_decoded,
         pr_read_pages = read_pages, pr_new_superblock = new_superblock,
         pr_new_slot = other_slot (ov_active_slot ov), pr_base_generation = base_generation,
         pr_next_revision = next_revision, pr_root_page_id = ov_root_page_id ov,
         pr_free_list_head = ov_free_list_head ov, pr_high_water_page_id = ov_high_water_page_id ov,
         pr_commit_lsn = Some commit, pr_batch_id = ov_next_batch_id ov\<rparr>)) (\<lambda>prepared.
     sbind (smod (\<lambda>ov. ov\<lparr>ov_current_superblock := new_superblock, ov_active_slot := other_slot (ov_active_slot ov),
                          ov_next_revision := next_revision\<rparr>)) (\<lambda>_.
     sbind (sres (ok_or (checked_add_u64 commit 1) InternalInvariantViolation)) (\<lambda>next_lsn.
     sbind (smod (\<lambda>ov. ov\<lparr>ov_next_lsn := next_lsn\<rparr>)) (\<lambda>_.
     sbind (sget (\<lambda>ov. ok_or (checked_add_u64 (ov_next_batch_id ov) 1) InternalInvariantViolation)) (\<lambda>next_batch_id.
     sbind (smod (\<lambda>ov. ov\<lparr>ov_next_batch_id := next_batch_id, ov_dirty := [], ov_last_lsn := None\<rparr>)) (\<lambda>_.
     sret prepared))))))))))))))))"

definition prepare_transaction :: "('f, 'w, 'i) env \<Rightarrow> transaction_request \<Rightarrow>
    (('f, 'w, 'i) overlay, error, prepared_batch option) sop" where
  "prepare_transaction env request =
     sbind (sres (validate request)) (\<lambda>_.
     sbind (sget (\<lambda>ov. rmap (validate_transaction_mutation (dc_limits (bs_config (ov_store ov))))
                         (req_mutations request))) (\<lambda>_.
     sbind (check_tree_conditions env (req_conditions request)) (\<lambda>_.
     sbind (on_store (smod (add_validation_time (saturating_nanos (validation_time env))))) (\<lambda>_.
     if req_mutations request = [] then sret None
     else
       sbind (apply_tree_mutations env (req_mutations request)) (\<lambda>_.
       sbind (finish_transaction env) (\<lambda>prepared.
       sret (Some prepared)))))))"

end
