(* ===== verification/Dodb_Split.thy ===== *)
theory Dodb_Split
  imports Dodb_Btree
begin

text \<open>
  The choice of the split position of a full page. The lemmas show that a chosen position is
  valid and the closest to the middle, that the failure means that no position is valid, and
  that a position exists whenever every record takes at most half of the page.
\<close>

section \<open>Candidates\<close>

lemma set_split_candidates [simp]: "set (split_candidates len) = {1..<len}"
  by (simp add: split_candidates_def)

lemma sorted_split_candidates: "sorted (map (\<lambda>c. abs_diff c (len div 2)) (split_candidates len))"
  by (simp add: split_candidates_def)

lemma find_sorted_least:
  assumes "sorted (map f xs)" and "find P xs = Some x" and "y \<in> set xs" and "P y"
  shows "f x \<le> f y"
  using assms
proof (induction xs)
  case (Cons z zs)
  then show ?case by (cases "P z") auto
qed simp

lemma find_SomeD: "find P xs = Some x \<Longrightarrow> x \<in> set xs \<and> P x"
  by (auto simp: find_Some_iff)

definition leaf_split_ok :: "leaf_entry list \<Rightarrow> nat \<Rightarrow> bool" where
  "leaf_split_ok es c \<longleftrightarrow> 0 < c \<and> c < length es \<and> leaf_fits (take c es) \<and> leaf_fits (drop c es)"

definition internal_split_ok :: "page_id \<Rightarrow> internal_entry list \<Rightarrow> nat \<Rightarrow> bool" where
  "internal_split_ok leftmost es c \<longleftrightarrow> 0 < c \<and> c < length es \<and> internal_fits leftmost (take c es) \<and>
     internal_fits (ie_right_child (es ! c)) (drop (c + 1) es)"

lemma choose_leaf_split_Inr:
  assumes "choose_leaf_split es = Inr c"
  shows "leaf_split_ok es c"
  using assms by (auto simp: choose_leaf_split_def leaf_split_ok_def split: option.splits dest!: find_SomeD)

lemma choose_leaf_split_Inl: "choose_leaf_split es = Inl e \<longleftrightarrow> e = InvalidInput \<and> (\<nexists>c. leaf_split_ok es c)"
  by (auto simp: choose_leaf_split_def leaf_split_ok_def find_None_iff split: option.splits dest!: find_SomeD)

lemma choose_internal_split_Inr:
  assumes "choose_internal_split leftmost es = Inr c"
  shows "internal_split_ok leftmost es c"
  using assms
  by (auto simp: choose_internal_split_def internal_split_ok_def result_iff split: option.splits dest!: find_SomeD)

lemma choose_internal_split_Inl:
  "choose_internal_split leftmost es = Inl e \<longleftrightarrow>
     e = InvalidInput \<and> (length es < 3 \<or> (\<nexists>c. internal_split_ok leftmost es c))"
  by (auto simp: choose_internal_split_def internal_split_ok_def rbind_Inl_iff ensure_Inl_iff result_iff find_None_iff
      split: option.splits dest!: find_SomeD)

text \<open>The last candidate, which would leave the right page without separators, is tried last.\<close>

lemma insort_key_snoc: "f a \<le> f x \<Longrightarrow> insort_key f a (ys @ [x]) = insort_key f a ys @ [x]"
  by (induction ys) auto

lemma sort_key_snoc: "\<forall>y \<in> set xs. f y \<le> f x \<Longrightarrow> sort_key f (xs @ [x]) = sort_key f xs @ [x]"
  by (induction xs) (auto simp: insort_key_snoc)

lemma split_candidates_last: "2 \<le> n \<Longrightarrow> \<exists>cs. split_candidates n = cs @ [n - 1] \<and> set cs = {1..<n - 1}"
proof -
  assume n: "2 \<le> n"
  then obtain m where m: "n = Suc m" "1 \<le> m" by (cases n) auto
  then have "[1..<n] = [1..<n - 1] @ [n - 1]" by simp
  moreover have "\<forall>y \<in> set [1..<n - 1]. abs_diff y (n div 2) \<le> abs_diff (n - 1) (n div 2)" by (auto simp: abs_diff_def)
  ultimately have "split_candidates n = sort_key (\<lambda>c. abs_diff c (n div 2)) [1..<n - 1] @ [n - 1]"
    using sort_key_snoc [of "[1..<n - 1]" "\<lambda>c. abs_diff c (n div 2)" "n - 1"] by (simp add: split_candidates_def)
  then show ?thesis by (intro exI [of _ "sort_key (\<lambda>c. abs_diff c (n div 2)) [1..<n - 1]"]) simp
qed

lemma find_append_Some: "find P (xs @ ys) = Some x \<Longrightarrow> \<exists>y \<in> set xs. P y \<Longrightarrow> x \<in> set xs"
  by (induction xs) (auto split: if_splits)

lemma choose_internal_split_inner:
  assumes "choose_internal_split leftmost es = Inr c" and "internal_split_ok leftmost es c'" and "c' + 1 < length es"
  shows "c + 1 < length es"
proof -
  obtain cs where cs: "split_candidates (length es) = cs @ [length es - 1]" "set cs = {1..<length es - 1}"
    using split_candidates_last [of "length es"] assms by (auto simp: internal_split_ok_def)
  have "find (\<lambda>c. internal_fits leftmost (take c es) \<and> internal_fits (ie_right_child (es ! c)) (drop (c + 1) es))
      (cs @ [length es - 1]) = Some c"
    using assms(1) cs(1) by (auto simp: choose_internal_split_def result_iff split: option.splits)
  then have "c \<in> set cs" by (rule find_append_Some) (use assms(2,3) cs(2) in \<open>auto simp: internal_split_ok_def\<close>)
  then show ?thesis using cs(2) by auto
qed

section \<open>Existence\<close>

text \<open>If no weight exceeds \<open>m\<close> and the total exceeds the capacity by little enough, some prefix
  leaves at most the capacity on both sides.\<close>

lemma balanced_prefix:
  fixes ws :: "nat list"
  assumes total: "C < sum_list ws" "sum_list ws + m \<le> 2 * C + 1" and small: "\<And>w. w \<in> set ws \<Longrightarrow> w \<le> m"
  shows "\<exists>j. 0 < j \<and> j < length ws \<and> sum_list (take j ws) \<le> C \<and> sum_list (drop j ws) \<le> C"
proof -
  let ?P = "\<lambda>j. sum_list (take j ws) \<le> C"
  define j where "j = Max {i. i \<le> length ws \<and> ?P i}"
  have fin: "finite {i. i \<le> length ws \<and> ?P i}" by (rule finite_subset [of _ "{..length ws}"]) auto
  have "0 \<in> {i. i \<le> length ws \<and> ?P i}" by simp
  then have j: "j \<le> length ws" "?P j" using Max_in [OF fin] unfolding j_def by blast+
  have max: "i \<le> j" if "i \<le> length ws" "?P i" for i using Max_ge [OF fin, of i] that unfolding j_def by simp
  have "j \<noteq> length ws" using j total(1) by auto
  then have lt: "j < length ws" using j(1) by simp
  then have over: "C < sum_list (take (Suc j) ws)" using max [of "Suc j"] by force
  have "sum_list (take (Suc j) ws) = sum_list (take j ws) + ws ! j"
    using lt by (simp add: take_Suc_conv_app_nth)
  moreover have "ws ! j \<le> m" using small lt by simp
  ultimately have low: "C < sum_list (take j ws) + m" using over by linarith
  have "sum_list ws = sum_list (take j ws) + sum_list (drop j ws)"
    by (metis append_take_drop_id sum_list_append)
  then have "sum_list (drop j ws) \<le> C" and "0 < j" using low total j(2) by (auto intro: ccontr)
  with lt j(2) show ?thesis by blast
qed

definition leaf_weight :: "leaf_entry \<Rightarrow> nat" where
  "leaf_weight e = 40 + length (le_key e) + length (inline_bytes (le_value e))"

definition internal_weight :: "internal_entry \<Rightarrow> nat" where
  "internal_weight e = 20 + length (ie_key e)"

definition canonical :: "bytes \<Rightarrow> bool" where
  "canonical key \<longleftrightarrow> is_ok (decode key)"

lemma leaf_fits_iff:
  "leaf_fits es \<longleftrightarrow> sorted_wrt (<) (map le_key es) \<and> (\<forall>e \<in> set es. canonical (le_key e)) \<and>
     sum_list (map leaf_weight es) \<le> 4032"
proof -
  have "sum_list (map leaf_weight es) = 8 * length es + (\<Sum>e\<leftarrow>es. leaf_record_size e)"
    by (induction es) (simp_all add: leaf_weight_def leaf_record_size_def)
  then show ?thesis
    unfolding leaf_fits_def encode_leaf_ok_iff canonical_def by (auto simp: is_ok_iff)
qed

lemma internal_fits_iff:
  "internal_fits child es \<longleftrightarrow> 2 \<le> child \<and> sorted_wrt (<) (map ie_key es) \<and>
     (\<forall>e \<in> set es. 2 \<le> ie_right_child e \<and> canonical (ie_key e)) \<and> sum_list (map internal_weight es) \<le> 4032"
proof -
  have "sum_list (map internal_weight es) = 8 * length es + (\<Sum>e\<leftarrow>es. 12 + length (ie_key e))"
    by (induction es) (simp_all add: internal_weight_def)
  then show ?thesis
    unfolding internal_fits_def encode_internal_ok_iff canonical_def by (auto simp: is_ok_iff)
qed

lemma sorted_wrt_map_take: "sorted_wrt (<) (map f xs) \<Longrightarrow> sorted_wrt (<) (map f (take n xs))"
  by (metis sorted_wrt_take take_map)

lemma sorted_wrt_map_drop: "sorted_wrt (<) (map f xs) \<Longrightarrow> sorted_wrt (<) (map f (drop n xs))"
  by (metis sorted_wrt_drop drop_map)

lemma leaf_split_exists:
  assumes "sorted_wrt (<) (map le_key es)" "\<And>e. e \<in> set es \<Longrightarrow> canonical (le_key e)"
    and "\<not> leaf_fits es" and "\<And>e. e \<in> set es \<Longrightarrow> leaf_weight e \<le> 2016"
    and "sum_list (map leaf_weight es) \<le> 4032 + 2016"
  shows "\<exists>c. leaf_split_ok es c"
proof -
  have over: "4032 < sum_list (map leaf_weight es)" using assms by (auto simp: leaf_fits_iff)
  obtain j where j: "0 < j" "j < length es" "sum_list (take j (map leaf_weight es)) \<le> 4032"
    "sum_list (drop j (map leaf_weight es)) \<le> 4032"
    using balanced_prefix [OF over, of 2016] assms(4,5) by auto
  then have "leaf_split_ok es j"
    using assms(1,2) by (auto simp: leaf_split_ok_def leaf_fits_iff sorted_wrt_map_take sorted_wrt_map_drop
        take_map drop_map dest: in_set_takeD in_set_dropD)
  then show ?thesis by blast
qed

lemma internal_split_exists:
  assumes "sorted_wrt (<) (map ie_key es)" "\<And>e. e \<in> set es \<Longrightarrow> 2 \<le> ie_right_child e \<and> canonical (ie_key e)" "2 \<le> leftmost"
    and "\<not> internal_fits leftmost es" and "\<And>e. e \<in> set es \<Longrightarrow> internal_weight e \<le> 2016"
    and "sum_list (map internal_weight es) \<le> 4032 + 2016"
  shows "3 \<le> length es \<and> (\<exists>c. internal_split_ok leftmost es c)"
proof -
  have over: "4032 < sum_list (map internal_weight es)" using assms by (auto simp: internal_fits_iff)
  have "sum_list (map internal_weight es) \<le> length es * 2016"
    using sum_list_mono [of es internal_weight "\<lambda>_. 2016"] assms(5) by (simp add: sum_list_triv)
  with over have three: "3 \<le> length es" by linarith
  obtain j where j: "0 < j" "j < length es" "sum_list (take j (map internal_weight es)) \<le> 4032"
    "sum_list (drop j (map internal_weight es)) \<le> 4032"
    using balanced_prefix [OF over, of 2016] assms(5,6) by auto
  have "sum_list (drop (j + 1) (map internal_weight es)) \<le> sum_list (drop j (map internal_weight es))"
    using j(2) by (simp add: Cons_nth_drop_Suc [symmetric])
  then have "internal_split_ok leftmost es j"
    using assms(1,2,3) j by (auto simp: internal_split_ok_def internal_fits_iff sorted_wrt_map_take sorted_wrt_map_drop
        take_map drop_map dest: in_set_takeD in_set_dropD)
  with three show ?thesis by blast
qed

end
