(* ===== verification/Dodb_Tree.thy ===== *)
theory Dodb_Tree
  imports Dodb_Split "HOL-Library.Multiset"
begin

text \<open>
  Search trees as values: the shape of a B+tree with its page ids, separators and leaf entries,
  its representation in a page memory, its order, and the paths from the root to a leaf
  (a leaf in a list of one-hole nodes). The lemmas describe what replacing a subtree on a path
  and splitting a node do to each of these notions.
\<close>

section \<open>Trees\<close>

type_synonym memory = "page_id \<Rightarrow> page_data option"

datatype btree = Leaf (bt_id: page_id) "leaf_entry list" | Node (bt_id: page_id) "bytes list" "btree list"

fun bt_pages :: "btree \<Rightarrow> page_id list" where
  "bt_pages (Leaf p es) = [p]"
| "bt_pages (Node p ks ts) = p # concat (map bt_pages ts)"

fun bt_leaves :: "btree \<Rightarrow> (page_id \<times> leaf_entry list) list" where
  "bt_leaves (Leaf p es) = [(p, es)]"
| "bt_leaves (Node p ks ts) = concat (map bt_leaves ts)"

fun bt_seps :: "btree \<Rightarrow> bytes list" where
  "bt_seps (Leaf p es) = []"
| "bt_seps (Node p ks ts) = ks @ concat (map bt_seps ts)"

definition bt_entries :: "btree \<Rightarrow> leaf_entry list" where
  "bt_entries t = concat (map snd (bt_leaves t))"

definition separators :: "bytes list \<Rightarrow> page_id list \<Rightarrow> internal_entry list" where
  "separators ks ids = map2 (\<lambda>k i. \<lparr>ie_key = k, ie_right_child = i\<rparr>) ks ids"

definition node_page :: "lsn \<Rightarrow> bytes list \<Rightarrow> page_id list \<Rightarrow> page_data" where
  "node_page l ks ids = InternalData l (hd ids) (separators ks (tl ids))"

definition is_node :: "memory \<Rightarrow> page_id \<Rightarrow> bytes list \<Rightarrow> page_id list \<Rightarrow> bool" where
  "is_node mem p ks ids \<longleftrightarrow> (\<exists>l. mem p = Some (node_page l ks ids)) \<and> length ids = Suc (length ks)"

fun rep :: "memory \<Rightarrow> btree \<Rightarrow> bool" where
  "rep mem (Leaf p es) \<longleftrightarrow> (\<exists>l n. mem p = Some (LeafData l n es))"
| "rep mem (Node p ks ts) \<longleftrightarrow> is_node mem p ks (map bt_id ts) \<and> list_all (rep mem) ts"

definition node_fits :: "bytes list \<Rightarrow> page_id list \<Rightarrow> bool" where
  "node_fits ks ids \<longleftrightarrow> internal_fits (hd ids) (separators ks (tl ids))"

fun bt_fits :: "btree \<Rightarrow> bool" where
  "bt_fits (Leaf p es) \<longleftrightarrow> leaf_fits es"
| "bt_fits (Node p ks ts) \<longleftrightarrow> node_fits ks (map bt_id ts) \<and> list_all bt_fits ts"

lemma bt_id_pages: "bt_id t \<in> set (bt_pages t)"
  by (cases t) simp_all

lemma rep_cong: "(\<And>p. p \<in> set (bt_pages t) \<Longrightarrow> mem' p = mem p) \<Longrightarrow> rep mem' t \<longleftrightarrow> rep mem t"
proof (induction t)
  case (Node p ks ts)
  then have "rep mem' t \<longleftrightarrow> rep mem t" if "t \<in> set ts" for t using that by auto
  with Node.prems show ?case by (auto simp: is_node_def list_all_iff)
qed simp

lemma leaves_pages: "fst ` set (bt_leaves t) \<subseteq> set (bt_pages t)"
  by (induction t) fastforce+

lemma length_leaves: "length (bt_leaves t) \<le> length (bt_pages t)"
proof (induction t)
  case (Node p ks ts)
  then have "sum_list (map (\<lambda>t. length (bt_leaves t)) ts) \<le> sum_list (map (\<lambda>t. length (bt_pages t)) ts)" by (intro sum_list_mono)
  then show ?case by (simp add: length_concat comp_def)
qed simp

section \<open>Order\<close>

fun lo_lt :: "bytes option \<Rightarrow> bytes option \<Rightarrow> bool" where
  "lo_lt (Some a) (Some b) \<longleftrightarrow> a < b"
| "lo_lt _ _ \<longleftrightarrow> True"

fun in_range :: "bytes option \<Rightarrow> bytes option \<Rightarrow> bytes \<Rightarrow> bool" where
  "in_range lo hi k \<longleftrightarrow> (case lo of None \<Rightarrow> True | Some a \<Rightarrow> a \<le> k) \<and> (case hi of None \<Rightarrow> True | Some b \<Rightarrow> k < b)"

fun ordered :: "bytes option \<Rightarrow> bytes option \<Rightarrow> btree \<Rightarrow> bool"
  and ordered_list :: "bytes option \<Rightarrow> bytes option \<Rightarrow> bytes list \<Rightarrow> btree list \<Rightarrow> bool" where
  "ordered lo hi (Leaf p es) \<longleftrightarrow> sorted_wrt (<) (map le_key es) \<and> (\<forall>e \<in> set es. in_range lo hi (le_key e))"
| "ordered lo hi (Node p ks ts) \<longleftrightarrow> ordered_list lo hi ks ts"
| "ordered_list lo hi [] [t] \<longleftrightarrow> lo_lt lo hi \<and> ordered lo hi t"
| "ordered_list lo hi (k # ks) (t # ts) \<longleftrightarrow> lo_lt lo (Some k) \<and> ordered lo (Some k) t \<and> ordered_list (Some k) hi ks ts"
| "ordered_list lo hi _ _ \<longleftrightarrow> False"

lemma ordered_list_length: "ordered_list lo hi ks ts \<Longrightarrow> length ts = Suc (length ks)"
proof (induction ks arbitrary: ts lo)
  case Nil
  then show ?case by (cases ts rule: remdups_adj.cases) auto
next
  case (Cons k ks)
  then show ?case by (cases ts) auto
qed

lemma ordered_list_Nil: "ordered_list lo hi [] ts \<longleftrightarrow> (\<exists>t. ts = [t] \<and> lo_lt lo hi \<and> ordered lo hi t)"
  by (cases ts rule: remdups_adj.cases) auto

lemma ordered_list_Cons:
  "ordered_list lo hi (k # ks) ts \<longleftrightarrow>
     (\<exists>t ts'. ts = t # ts' \<and> lo_lt lo (Some k) \<and> ordered lo (Some k) t \<and> ordered_list (Some k) hi ks ts')"
  by (cases ts) auto

lemma lo_lt_trans: "lo_lt a (Some b) \<Longrightarrow> lo_lt (Some b) c \<Longrightarrow> lo_lt a c"
  by (cases a; cases c) auto

lemma ordered_list_bounds: "ordered_list lo hi ks ts \<Longrightarrow> lo_lt lo hi"
proof (induction ks arbitrary: lo ts)
  case (Cons k ks)
  then show ?case by (auto simp: ordered_list_Cons intro: lo_lt_trans)
qed (auto simp: ordered_list_Nil)

lemma ordered_list_member: "ordered_list lo hi ks ts \<Longrightarrow> t \<in> set ts \<Longrightarrow> \<exists>lo' hi'. ordered lo' hi' t"
proof (induction ks arbitrary: lo ts)
  case (Cons k ks)
  then show ?case by (fastforce simp: ordered_list_Cons)
qed (fastforce simp: ordered_list_Nil)

text \<open>Cutting a list of subtrees at a separator, and at a subtree.\<close>

lemma ordered_list_append:
  "length ts1 = Suc (length ks1) \<Longrightarrow>
   ordered_list lo hi (ks1 @ k # ks2) (ts1 @ ts2) \<longleftrightarrow> ordered_list lo (Some k) ks1 ts1 \<and> ordered_list (Some k) hi ks2 ts2"
proof (induction ks1 arbitrary: lo ts1)
  case Nil
  then obtain t where "ts1 = [t]" by (cases ts1) auto
  then show ?case by simp
next
  case (Cons a ks1)
  then obtain t ts where ts1: "ts1 = t # ts" "length ts = Suc (length ks1)" by (cases ts1) auto
  with Cons.IH [of ts "Some a"] show ?case by auto
qed

definition low :: "bytes option \<Rightarrow> bytes list \<Rightarrow> bytes option" where
  "low lo ks = (if ks = [] then lo else Some (last ks))"

definition high :: "bytes option \<Rightarrow> bytes list \<Rightarrow> bytes option" where
  "high hi ks = (if ks = [] then hi else Some (hd ks))"

text \<open>The subtrees on the two sides of a hole.\<close>

fun left_ordered :: "bytes option \<Rightarrow> bytes list \<Rightarrow> btree list \<Rightarrow> bool" where
  "left_ordered lo (k # ks) (t # ts) \<longleftrightarrow> lo_lt lo (Some k) \<and> ordered lo (Some k) t \<and> left_ordered (Some k) ks ts"
| "left_ordered lo [] [] \<longleftrightarrow> True"
| "left_ordered lo _ _ \<longleftrightarrow> False"

definition right_ordered :: "bytes option \<Rightarrow> bytes list \<Rightarrow> btree list \<Rightarrow> bool" where
  "right_ordered hi ks ts \<longleftrightarrow> (case ks of [] \<Rightarrow> ts = [] | k # ks' \<Rightarrow> ordered_list (Some k) hi ks' ts)"

lemma ordered_list_right:
  "ordered_list lo hi ks (t # ts) \<longleftrightarrow> lo_lt lo (high hi ks) \<and> ordered lo (high hi ks) t \<and> right_ordered hi ks ts"
  by (cases ks; cases ts) (auto simp: high_def right_ordered_def ordered_list_Nil)

lemma ordered_list_hole:
  "length ks1 = length ts1 \<Longrightarrow>
   ordered_list lo hi (ks1 @ ks2) (ts1 @ t # ts2) \<longleftrightarrow>
     left_ordered lo ks1 ts1 \<and> right_ordered hi ks2 ts2 \<and> lo_lt (low lo ks1) (high hi ks2) \<and>
     ordered (low lo ks1) (high hi ks2) t"
proof (induction ks1 arbitrary: lo ts1)
  case Nil
  then show ?case by (auto simp: low_def ordered_list_right)
next
  case (Cons a ks1)
  then obtain u us where ts1: "ts1 = u # us" "length ks1 = length us" by (cases ts1) auto
  have "low (Some a) ks1 = low lo (a # ks1)" by (simp add: low_def)
  with Cons.IH [OF ts1(2), of "Some a"] ts1(1) show ?case by auto
qed

lemma bt_entries_Node: "bt_entries (Node p ks ts) = concat (map bt_entries ts)"
  by (induction ts) (simp_all add: bt_entries_def)

lemma ordered_entries:
  "ordered lo hi t \<Longrightarrow> sorted_wrt (<) (map le_key (bt_entries t)) \<and> (\<forall>e \<in> set (bt_entries t). in_range lo hi (le_key e))"
  "ordered_list lo hi ks ts \<Longrightarrow> sorted_wrt (<) (map le_key (concat (map bt_entries ts))) \<and>
     (\<forall>e \<in> set (concat (map bt_entries ts)). in_range lo hi (le_key e))"
proof (induction lo hi t and lo hi ks ts rule: ordered_ordered_list.induct)
  case (2 lo hi p ks ts)
  then show ?case by (simp add: bt_entries_Node)
next
  case (4 lo hi k ks t ts)
  have "lo_lt lo hi" "lo_lt lo (Some k)" "lo_lt (Some k) hi"
    using 4(3) ordered_list_bounds by (auto intro: lo_lt_trans)
  with 4 show ?case
    by (cases lo; cases hi) (fastforce simp: sorted_wrt_append)+
qed (auto simp: bt_entries_def)

section \<open>Paths\<close>

text \<open>A path is a list of nodes with a hole, the nearest one first.\<close>

datatype hole = Hole (hole_id: page_id) (lkeys: "bytes list") (ltrees: "btree list") (rkeys: "bytes list") (rtrees: "btree list")

definition fill :: "hole \<Rightarrow> btree \<Rightarrow> btree" where
  "fill h t = Node (hole_id h) (lkeys h @ rkeys h) (ltrees h @ t # rtrees h)"

fun plug :: "btree \<Rightarrow> hole list \<Rightarrow> btree" where
  "plug t [] = t"
| "plug t (h # hs) = plug (fill h t) hs"

definition hole_wf :: "hole \<Rightarrow> bool" where
  "hole_wf h \<longleftrightarrow> length (lkeys h) = length (ltrees h) \<and> length (rkeys h) = length (rtrees h)"

fun left_leaves :: "hole list \<Rightarrow> (page_id \<times> leaf_entry list) list" where
  "left_leaves [] = []"
| "left_leaves (h # hs) = left_leaves hs @ concat (map bt_leaves (ltrees h))"

fun right_leaves :: "hole list \<Rightarrow> (page_id \<times> leaf_entry list) list" where
  "right_leaves [] = []"
| "right_leaves (h # hs) = concat (map bt_leaves (rtrees h)) @ right_leaves hs"

definition hole_pages :: "hole \<Rightarrow> page_id list" where
  "hole_pages h = hole_id h # concat (map bt_pages (ltrees h)) @ concat (map bt_pages (rtrees h))"

definition ctx_pages :: "hole list \<Rightarrow> page_id list" where
  "ctx_pages hs = concat (map hole_pages hs)"

definition ctx_seps :: "hole list \<Rightarrow> bytes list" where
  "ctx_seps hs = concat (map (\<lambda>h. lkeys h @ rkeys h @ concat (map bt_seps (ltrees h)) @ concat (map bt_seps (rtrees h))) hs)"

fun bounds :: "bytes option \<Rightarrow> bytes option \<Rightarrow> hole list \<Rightarrow> bytes option \<times> bytes option" where
  "bounds lo hi [] = (lo, hi)"
| "bounds lo hi (h # hs) = (low (fst (bounds lo hi hs)) (lkeys h), high (snd (bounds lo hi hs)) (rkeys h))"

fun ctx_ordered :: "bytes option \<Rightarrow> bytes option \<Rightarrow> hole list \<Rightarrow> bool" where
  "ctx_ordered lo hi [] \<longleftrightarrow> True"
| "ctx_ordered lo hi (h # hs) \<longleftrightarrow>
     left_ordered (fst (bounds lo hi hs)) (lkeys h) (ltrees h) \<and>
     right_ordered (snd (bounds lo hi hs)) (rkeys h) (rtrees h) \<and>
     lo_lt (low (fst (bounds lo hi hs)) (lkeys h)) (high (snd (bounds lo hi hs)) (rkeys h)) \<and>
     ctx_ordered lo hi hs"

definition hole_ids :: "hole \<Rightarrow> page_id \<Rightarrow> page_id list" where
  "hole_ids h i = map bt_id (ltrees h) @ i # map bt_id (rtrees h)"

fun rep_ctx :: "memory \<Rightarrow> page_id \<Rightarrow> hole list \<Rightarrow> bool" where
  "rep_ctx mem i [] \<longleftrightarrow> True"
| "rep_ctx mem i (h # hs) \<longleftrightarrow> is_node mem (hole_id h) (lkeys h @ rkeys h) (hole_ids h i) \<and>
     list_all (rep mem) (ltrees h) \<and> list_all (rep mem) (rtrees h) \<and> rep_ctx mem (hole_id h) hs"

fun ctx_fits :: "page_id \<Rightarrow> hole list \<Rightarrow> bool" where
  "ctx_fits i [] \<longleftrightarrow> True"
| "ctx_fits i (h # hs) \<longleftrightarrow> node_fits (lkeys h @ rkeys h) (hole_ids h i) \<and>
     list_all bt_fits (ltrees h) \<and> list_all bt_fits (rtrees h) \<and> ctx_fits (hole_id h) hs"

lemma bt_id_fill [simp]: "bt_id (fill h t) = hole_id h"
  by (simp add: fill_def)

lemma plug_append: "plug t (hs @ hs') = plug (plug t hs) hs'"
  by (induction hs arbitrary: t) simp_all

lemma bt_fits_fill: "bt_fits (fill h t) \<longleftrightarrow> node_fits (lkeys h @ rkeys h) (hole_ids h (bt_id t)) \<and>
    list_all bt_fits (ltrees h) \<and> list_all bt_fits (rtrees h) \<and> bt_fits t"
  by (auto simp: fill_def hole_ids_def)

lemma rep_fill: "rep mem (fill h t) \<longleftrightarrow> is_node mem (hole_id h) (lkeys h @ rkeys h) (hole_ids h (bt_id t)) \<and>
    list_all (rep mem) (ltrees h) \<and> list_all (rep mem) (rtrees h) \<and> rep mem t"
  by (auto simp: fill_def hole_ids_def)

lemma rep_plug: "rep mem (plug t hs) \<longleftrightarrow> rep_ctx mem (bt_id t) hs \<and> rep mem t"
  by (induction hs arbitrary: t) (auto simp: rep_fill)

lemma fits_plug: "bt_fits (plug t hs) \<longleftrightarrow> ctx_fits (bt_id t) hs \<and> bt_fits t"
  by (induction hs arbitrary: t) (auto simp: bt_fits_fill)

lemma leaves_plug: "bt_leaves (plug t hs) = left_leaves hs @ bt_leaves t @ right_leaves hs"
  by (induction hs arbitrary: t) (simp_all add: fill_def)

lemma entries_plug: "bt_entries (plug t hs) = concat (map snd (left_leaves hs)) @ bt_entries t @ concat (map snd (right_leaves hs))"
  by (simp add: bt_entries_def leaves_plug)

lemma mset_pages_plug: "mset (bt_pages (plug t hs)) = mset (bt_pages t) + mset (ctx_pages hs)"
  by (induction hs arbitrary: t) (simp_all add: fill_def ctx_pages_def hole_pages_def)

lemma set_pages_plug: "set (bt_pages (plug t hs)) = set (bt_pages t) \<union> set (ctx_pages hs)"
  using mset_pages_plug [of t hs] by (metis set_mset_mset set_mset_union)

lemma set_seps_plug: "set (bt_seps (plug t hs)) = set (bt_seps t) \<union> set (ctx_seps hs)"
  by (induction hs arbitrary: t) (auto simp: fill_def ctx_seps_def)

lemma ordered_fill:
  "hole_wf h \<Longrightarrow> ordered lo hi (fill h t) \<longleftrightarrow>
     left_ordered lo (lkeys h) (ltrees h) \<and> right_ordered hi (rkeys h) (rtrees h) \<and>
     lo_lt (low lo (lkeys h)) (high hi (rkeys h)) \<and> ordered (low lo (lkeys h)) (high hi (rkeys h)) t"
  by (simp add: fill_def hole_wf_def ordered_list_hole)

lemma ordered_plug:
  "list_all hole_wf hs \<Longrightarrow>
   ordered lo hi (plug t hs) \<longleftrightarrow> ctx_ordered lo hi hs \<and> ordered (fst (bounds lo hi hs)) (snd (bounds lo hi hs)) t"
  by (induction hs arbitrary: t) (auto simp: ordered_fill)

lemma rep_ctx_cong: "(\<And>p. p \<in> set (ctx_pages hs) \<Longrightarrow> mem' p = mem p) \<Longrightarrow> rep_ctx mem' i hs \<longleftrightarrow> rep_ctx mem i hs"
proof (induction hs arbitrary: i)
  case (Cons h hs)
  have "rep mem' t \<longleftrightarrow> rep mem t" if "t \<in> set (ltrees h) \<union> set (rtrees h)" for t
    using that Cons.prems by (intro rep_cong) (auto simp: ctx_pages_def hole_pages_def)
  then have "list_all (rep mem') (ltrees h) = list_all (rep mem) (ltrees h)"
    "list_all (rep mem') (rtrees h) = list_all (rep mem) (rtrees h)" by (auto simp: list_all_iff)
  with Cons show ?case by (simp add: is_node_def ctx_pages_def hole_pages_def)
qed simp

lemma left_leaves_pages: "fst ` set (left_leaves hs @ right_leaves hs) \<subseteq> set (ctx_pages hs)"
proof (induction hs)
  case (Cons h hs)
  then show ?case using leaves_pages by (fastforce simp: ctx_pages_def hole_pages_def)
qed simp

section \<open>Descending\<close>

lemma child_for_Cons: "child_for key leftmost (e # es) =
    (if ie_key e \<le> key then child_for key (ie_right_child e) es else leftmost)"
  by (cases "takeWhile (\<lambda>e. ie_key e \<le> key) es") (auto simp: child_for_def partition_point_def Let_def)

lemma child_for_Nil [simp]: "child_for key leftmost [] = leftmost"
  by (simp add: child_for_def partition_point_def)

lemma separators_simps [simp]:
  "separators [] ids = []" "separators ks [] = []"
  "separators (k # ks) (i # ids) = \<lparr>ie_key = k, ie_right_child = i\<rparr> # separators ks ids"
  by (simp_all add: separators_def)

lemma length_separators [simp]: "length (separators ks ids) = min (length ks) (length ids)"
  by (simp add: separators_def)

text \<open>The child chosen for a key in range: a hole whose bounds contain the key.\<close>

lemma child_for_hole:
  assumes "ordered_list lo hi ks ts" and "in_range lo hi key"
  shows "\<exists>h t. hole_wf h \<and> ks = lkeys h @ rkeys h \<and> ts = ltrees h @ t # rtrees h \<and>
    child_for key (bt_id (hd ts)) (separators ks (map bt_id (tl ts))) = bt_id t \<and>
    in_range (low lo (lkeys h)) (high hi (rkeys h)) key"
  using assms
proof (induction ks arbitrary: lo ts)
  case Nil
  then obtain t where t: "ts = [t]" by (auto simp: ordered_list_Nil)
  show ?case
    by (rule exI [of _ "Hole 0 [] [] [] []"], rule exI [of _ t])
      (use Nil.prems(2) t in \<open>simp add: hole_wf_def low_def high_def\<close>)
next
  case (Cons k ks)
  then obtain t ts' where ts: "ts = t # ts'" and rest: "ordered_list (Some k) hi ks ts'"
    by (auto simp: ordered_list_Cons)
  obtain u us where ts': "ts' = u # us" "length us = length ks"
    using ordered_list_length [OF rest] by (cases ts') auto
  show ?case
  proof (cases "k \<le> key")
    case True
    then have "in_range (Some k) hi key" using Cons.prems(2) by simp
    from Cons.IH [OF rest this] obtain h v where h: "hole_wf h" "ks = lkeys h @ rkeys h" "ts' = ltrees h @ v # rtrees h"
      "child_for key (bt_id (hd ts')) (separators ks (map bt_id (tl ts'))) = bt_id v"
      "in_range (low (Some k) (lkeys h)) (high hi (rkeys h)) key" by blast
    have "low (Some k) (lkeys h) = low lo (k # lkeys h)" by (simp add: low_def)
    moreover have "child_for key (bt_id (hd ts)) (separators (k # ks) (map bt_id (tl ts))) = bt_id v"
      using h(4) True ts ts'(1) by (simp add: child_for_Cons)
    ultimately show ?thesis
      by - (rule exI [of _ "Hole 0 (k # lkeys h) (t # ltrees h) (rkeys h) (rtrees h)"], rule exI [of _ v],
        use h ts in \<open>simp add: hole_wf_def del: in_range.simps\<close>)
  next
    case False
    then have "child_for key (bt_id (hd ts)) (separators (k # ks) (map bt_id (tl ts))) = bt_id t"
      using ts ts'(1) by (simp add: child_for_Cons)
    then show ?thesis
      by - (rule exI [of _ "Hole 0 [] [] (k # ks) ts'"], rule exI [of _ t],
        use Cons.prems(2) False ts ts' in \<open>simp add: hole_wf_def low_def high_def\<close>)
  qed
qed

section \<open>Inserting a separator and splitting a node\<close>

lemma map_ie_key_separators [simp]: "length ks \<le> length ids \<Longrightarrow> map ie_key (separators ks ids) = ks"
  by (induction ks ids rule: list_induct2') auto

lemma separators_append:
  "length ks1 = length ids1 \<Longrightarrow> separators (ks1 @ ks2) (ids1 @ ids2) = separators ks1 ids1 @ separators ks2 ids2"
  by (simp add: separators_def)

lemma take_separators: "take n (separators ks ids) = separators (take n ks) (take n ids)"
  by (simp add: separators_def take_map take_zip)

lemma drop_separators: "drop n (separators ks ids) = separators (drop n ks) (drop n ids)"
  by (simp add: separators_def drop_map drop_zip)

lemma nth_separators:
  "n < length ks \<Longrightarrow> n < length ids \<Longrightarrow> separators ks ids ! n = \<lparr>ie_key = ks ! n, ie_right_child = ids ! n\<rparr>"
  by (simp add: separators_def)

lemma separators_inject:
  "length ks = length ids \<Longrightarrow> length ks' = length ids' \<Longrightarrow> separators ks ids = separators ks' ids' \<Longrightarrow> ks = ks'"
  by (metis map_ie_key_separators order_refl)

lemma left_ordered_keys: "left_ordered lo ks ts \<Longrightarrow> lo_lt (low lo ks) (Some k) \<Longrightarrow> x \<in> set ks \<Longrightarrow> x < k"
proof (induction lo ks ts arbitrary: x rule: left_ordered.induct)
  case (1 lo a ks t ts)
  show ?case
  proof (cases ks)
    case Nil
    then show ?thesis using 1 by (simp add: low_def)
  next
    case (Cons b bs)
    then obtain u us where "ts = u # us" using 1(2) by (cases ts) auto
    then have "a < b" using 1(2) Cons by simp
    moreover have "low (Some a) ks = low lo (a # ks)" using Cons by (simp add: low_def)
    ultimately have "y < k" if "y \<in> set ks" for y using 1 that by auto
    moreover have "b \<in> set ks" using Cons by simp
    ultimately show ?thesis using \<open>a < b\<close> 1(4) by (cases "x = a") (auto intro: less_trans)
  qed
qed auto

text \<open>The entry list of a node after the split of the child in its hole.\<close>

lemma insert_separator_entries:
  assumes h: "hole_wf h" and left: "left_ordered lo (lkeys h) (ltrees h)"
    and low: "lo_lt (low lo (lkeys h)) (Some sep)" and high: "lo_lt (Some sep) (high hi (rkeys h))"
  shows "insert_at (partition_point (\<lambda>e. ie_key e < sep) (separators (lkeys h @ rkeys h) (tl (hole_ids h i))))
       \<lparr>ie_key = sep, ie_right_child = r\<rparr> (separators (lkeys h @ rkeys h) (tl (hole_ids h i))) =
     separators (lkeys h @ sep # rkeys h) (tl (map bt_id (ltrees h) @ i # r # map bt_id (rtrees h)))"
proof -
  let ?tl = "tl (map bt_id (ltrees h) @ [i])"
  have tl: "tl (hole_ids h i) = ?tl @ map bt_id (rtrees h)"
    "tl (map bt_id (ltrees h) @ i # r # map bt_id (rtrees h)) = ?tl @ r # map bt_id (rtrees h)"
    by (cases "ltrees h"; simp add: hole_ids_def)+
  have len: "length (lkeys h) = length ?tl" using h by (simp add: hole_wf_def)
  have eq: "separators (lkeys h @ rkeys h) (tl (hole_ids h i)) =
      separators (lkeys h) ?tl @ separators (rkeys h) (map bt_id (rtrees h))"
    unfolding tl by (rule separators_append [OF len])
  have keys: "map ie_key (separators (lkeys h) ?tl) = lkeys h" by (rule map_ie_key_separators) (simp only: len)
  have all: "ie_key e < sep" if "e \<in> set (separators (lkeys h) ?tl)" for e
  proof -
    have "ie_key e \<in> set (map ie_key (separators (lkeys h) ?tl))" using that by simp
    then show ?thesis unfolding keys by (rule left_ordered_keys [OF left low])
  qed
  have stop: "takeWhile (\<lambda>e. ie_key e < sep) (separators (rkeys h) (map bt_id (rtrees h))) = []"
  proof (cases "rkeys h")
    case (Cons k ks)
    then have "\<not> k < sep" using high by (simp add: high_def)
    moreover obtain u us where "rtrees h = u # us" using h Cons by (cases "rtrees h") (auto simp: hole_wf_def)
    ultimately show ?thesis using Cons by simp
  qed simp
  have pp: "partition_point (\<lambda>e. ie_key e < sep) (separators (lkeys h @ rkeys h) (tl (hole_ids h i))) = length (lkeys h)"
    using takeWhile_append2 [of "separators (lkeys h) ?tl" "\<lambda>e. ie_key e < sep" "separators (rkeys h) (map bt_id (rtrees h))"]
      all stop len unfolding partition_point_def eq by simp
  show ?thesis
    unfolding pp unfolding insert_at_def eq tl separators_append [OF len] using len by simp
qed

text \<open>The node with both halves of the split child.\<close>

definition widened_keys :: "hole \<Rightarrow> bytes \<Rightarrow> bytes list" where
  "widened_keys h sep = lkeys h @ sep # rkeys h"

definition widened_trees :: "hole \<Rightarrow> btree \<Rightarrow> btree \<Rightarrow> btree list" where
  "widened_trees h l r = ltrees h @ l # r # rtrees h"

lemma ordered_widened:
  assumes h: "hole_wf h" and "left_ordered lo (lkeys h) (ltrees h)" and "right_ordered hi (rkeys h) (rtrees h)"
    and "lo_lt (low lo (lkeys h)) (Some sep)" and "lo_lt (Some sep) (high hi (rkeys h))"
    and "ordered (low lo (lkeys h)) (Some sep) l" and "ordered (Some sep) (high hi (rkeys h)) r"
  shows "ordered_list lo hi (widened_keys h sep) (widened_trees h l r)"
proof -
  have len: "length (lkeys h) = length (ltrees h)" using h by (simp add: hole_wf_def)
  have "high hi (sep # rkeys h) = Some sep" by (simp add: high_def)
  moreover have "right_ordered hi (sep # rkeys h) (r # rtrees h)"
    using assms by (simp add: right_ordered_def ordered_list_right)
  ultimately show ?thesis
    using assms ordered_list_hole [OF len, of lo hi "sep # rkeys h" l "r # rtrees h"]
    by (simp add: widened_keys_def widened_trees_def)
qed

lemma length_widened: "hole_wf h \<Longrightarrow> length (widened_trees h l r) = Suc (length (widened_keys h sep))"
  by (simp add: hole_wf_def widened_keys_def widened_trees_def)

lemma split_node_entries:
  assumes "length ids = Suc (length ks)" and "c < length ks"
  shows "take c (separators ks (tl ids)) = separators (take c ks) (tl (take (Suc c) ids))"
    and "drop (c + 1) (separators ks (tl ids)) = separators (drop (Suc c) ks) (tl (drop (Suc c) ids))"
    and "ie_key (separators ks (tl ids) ! c) = ks ! c"
    and "ie_right_child (separators ks (tl ids) ! c) = hd (drop (Suc c) ids)"
    and "hd (take (Suc c) ids) = hd ids"
proof -
  obtain i js where ids: "ids = i # js" "length js = length ks" using assms(1) by (cases ids) auto
  show "take c (separators ks (tl ids)) = separators (take c ks) (tl (take (Suc c) ids))"
    by (simp add: ids take_separators)
  show "drop (c + 1) (separators ks (tl ids)) = separators (drop (Suc c) ks) (tl (drop (Suc c) ids))"
    by (simp add: ids drop_separators drop_Suc tl_drop)
  show "ie_key (separators ks (tl ids) ! c) = ks ! c" "ie_right_child (separators ks (tl ids) ! c) = hd (drop (Suc c) ids)"
    using assms(2) ids by (simp_all add: nth_separators hd_drop_conv_nth)
  show "hd (take (Suc c) ids) = hd ids" by (simp add: ids)
qed

lemma split_node_ordered:
  assumes "ordered_list lo hi ks ts" and "c < length ks"
  shows "ordered_list lo (Some (ks ! c)) (take c ks) (take (Suc c) ts) \<and>
    ordered_list (Some (ks ! c)) hi (drop (Suc c) ks) (drop (Suc c) ts)"
proof -
  have len: "length (take (Suc c) ts) = Suc (length (take c ks))"
    using ordered_list_length [OF assms(1)] assms(2) by simp
  have "ordered_list lo hi (take c ks @ ks ! c # drop (Suc c) ks) (take (Suc c) ts @ drop (Suc c) ts)"
    using assms by (simp add: id_take_nth_drop [symmetric])
  then show ?thesis unfolding ordered_list_append [OF len] .
qed

section \<open>Levels\<close>

text \<open>All leaves at the same depth, and no inner node without a separator.\<close>

fun level :: "nat \<Rightarrow> btree \<Rightarrow> bool" where
  "level d (Leaf p es) \<longleftrightarrow> d = 0"
| "level d (Node p ks ts) \<longleftrightarrow> 0 < d \<and> ks \<noteq> [] \<and> list_all (level (d - 1)) ts"

fun ctx_level :: "nat \<Rightarrow> hole list \<Rightarrow> bool" where
  "ctx_level d [] \<longleftrightarrow> True"
| "ctx_level d (h # hs) \<longleftrightarrow> lkeys h @ rkeys h \<noteq> [] \<and> list_all (level d) (ltrees h @ rtrees h) \<and> ctx_level (Suc d) hs"

definition balanced :: "btree \<Rightarrow> bool" where
  "balanced t \<longleftrightarrow> (\<exists>d. level d t)"

lemma level_fill: "level (Suc d) (fill h t) \<longleftrightarrow> lkeys h @ rkeys h \<noteq> [] \<and> list_all (level d) (ltrees h @ rtrees h) \<and> level d t"
  by (auto simp: fill_def)

lemma level_plug: "level (d + length hs) (plug t hs) \<longleftrightarrow> level d t \<and> ctx_level d hs"
proof (induction hs arbitrary: d t)
  case (Cons h hs)
  from Cons.IH [of "Suc d" "fill h t"] show ?case by (auto simp: level_fill simp del: list_all_append)
qed simp

lemma level_plug_depth: "level d (plug t hs) \<Longrightarrow> length hs \<le> d"
proof (induction hs arbitrary: d t rule: rev_induct)
  case (snoc h hs)
  from snoc.prems show ?case using snoc.IH [of "d - 1" t] by (cases d) (auto simp: plug_append fill_def)
qed simp

lemma balanced_plug: "balanced (plug t hs) \<longleftrightarrow> (\<exists>d. level d t \<and> ctx_level d hs)"
  unfolding balanced_def using level_plug level_plug_depth by (metis le_add_diff_inverse2)

lemma level_leaves:
  assumes "level d t" and "ordered lo hi t"
  shows "2 ^ d \<le> length (bt_leaves t)"
  using assms
proof (induction t arbitrary: d lo hi)
  case (Node p ks ts)
  obtain d' where d: "d = Suc d'" using Node.prems(1) by (cases d) auto
  have ord: "ordered_list lo hi ks ts" using Node.prems(2) by simp
  have "2 ^ d' \<le> length (bt_leaves t)" if t: "t \<in> set ts" for t
  proof -
    obtain lo' hi' where "ordered lo' hi' t" using ordered_list_member [OF ord t] by blast
    then show ?thesis using Node.IH [OF t] Node.prems(1) t d by (auto simp: list_all_iff)
  qed
  then have "sum_list (map (\<lambda>_. 2 ^ d') ts) \<le> sum_list (map (\<lambda>t. length (bt_leaves t)) ts)" by (rule sum_list_mono)
  moreover have "2 \<le> length ts" using ordered_list_length [OF ord] Node.prems(1) by (cases ks) auto
  then have "2 * 2 ^ d' \<le> (sum_list (map (\<lambda>_. 2 ^ d') ts) :: nat)" by (simp add: sum_list_triv)
  ultimately show ?case by (simp add: d length_concat comp_def)
qed simp

end
