(* ===== verification/Dodb_Overlay.thy ===== *)
theory Dodb_Overlay
  imports Dodb_Tree
begin

text \<open>
  The overlay as a page memory. On a file that works, the operations of the overlay act on an
  abstract state: the page memory, the root, the free list, the high-water mark and the
  counters. \<open>does m s Q F\<close> says that \<open>m\<close> run from the abstract state \<open>s\<close> returns \<open>x\<close> in a state in
  \<open>Q x\<close> or fails with \<open>e\<close> in a state in \<open>F e\<close>, without changing what the store holds.
\<close>

section \<open>Abstract states\<close>

definition page_of :: "crc_fun \<Rightarrow> bytes \<Rightarrow> page_id \<Rightarrow> page_data option" where
  "page_of crc bs p = (case rbind (decode_page_at crc bs (Some p)) pd_decode of Inl e \<Rightarrow> None | Inr d \<Rightarrow> Some d)"

text \<open>The committed pages of a store: the dirty images over the content of the data file.\<close>

definition base_page :: "crc_fun \<Rightarrow> bytes \<Rightarrow> (page_id, bytes) ordmap \<Rightarrow> memory" where
  "base_page crc content dirty p =
     (case om_get dirty p of
        Some bs \<Rightarrow> page_of crc bs p
      | None \<Rightarrow> if page_offset p + PAGE_SIZE \<le> length content
                then page_of crc (seg (page_offset p) (page_offset p + PAGE_SIZE) content) p else None)"

definition ov_mem :: "memory \<Rightarrow> ('f, 'w, 'i) overlay \<Rightarrow> memory" where
  "ov_mem base ov p = (case om_get (ov_pages ov) p of Some d \<Rightarrow> Some d | None \<Rightarrow> base p)"

text \<open>\<open>o_clean\<close> is the memory before the current batch: pages that are not dirty still agree
  with it.\<close>

record ostate =
  o_mem :: memory
  o_clean :: memory
  o_root :: page_id
  o_free :: "page_id option"
  o_high :: page_id
  o_dirty :: "page_id list"
  o_last :: "lsn option"
  o_next_revision :: revision
  o_next_lsn :: lsn
  o_next_batch :: u64
  o_superblock :: superblock
  o_slot :: superblock_slot

definition ov_state :: "memory \<Rightarrow> memory \<Rightarrow> ('f, 'w, 'i) overlay \<Rightarrow> ostate" where
  "ov_state base clean ov =
     \<lparr>o_mem = ov_mem base ov, o_clean = clean, o_root = ov_root_page_id ov, o_free = ov_free_list_head ov,
      o_high = ov_high_water_page_id ov, o_dirty = ov_dirty ov, o_last = ov_last_lsn ov,
      o_next_revision = ov_next_revision ov, o_next_lsn = ov_next_lsn ov, o_next_batch = ov_next_batch_id ov,
      o_superblock = ov_current_superblock ov, o_slot = ov_active_slot ov\<rparr>"

definition cache_coherent :: "memory \<Rightarrow> page_cache \<Rightarrow> bool" where
  "cache_coherent base c \<longleftrightarrow> cache_ok c \<and> (\<forall>p d. cached c p = Some d \<longrightarrow> base p = Some d)"

definition pages_coherent :: "memory \<Rightarrow> ostate \<Rightarrow> ('f, 'w, 'i) overlay \<Rightarrow> bool" where
  "pages_coherent base s ov \<longleftrightarrow>
     om_wf (ov_pages ov) \<and> om_wf (ov_read_pages ov) \<and>
     (\<forall>p d. om_get (ov_read_pages ov) p = Some d \<longrightarrow> o_clean s p = Some d) \<and>
     sorted_wrt (<) (ov_dirty ov) \<and> (\<forall>p \<in> set (ov_dirty ov). om_get (ov_pages ov) p \<noteq> None) \<and>
     (\<forall>p. p \<notin> set (ov_dirty ov) \<longrightarrow> o_mem s p = o_clean s p)"

definition same_store :: "('f, 'w, 'i) btree_store \<Rightarrow> ('f, 'w, 'i) btree_store \<Rightarrow> bool" where
  "same_store st0 st \<longleftrightarrow>
     st = st0\<lparr>bs_file := bs_file st, bs_cache := bs_cache st, bs_storage_metrics := bs_storage_metrics st\<rparr>"

lemma same_store_updates [simp]:
  "same_store st0 st \<Longrightarrow> same_store st0 (st\<lparr>bs_cache := c\<rparr>)"
  "same_store st0 st \<Longrightarrow> same_store st0 (st\<lparr>bs_file := f\<rparr>)"
  "same_store st0 st \<Longrightarrow> same_store st0 (st\<lparr>bs_storage_metrics := m\<rparr>)"
  by (cases st; cases st0; simp add: same_store_def)+

lemma ov_mem_store [simp]: "ov_mem base (ov\<lparr>ov_store := st\<rparr>) = ov_mem base ov"
  by (simp add: ov_mem_def fun_eq_iff)

lemma sorted_insort_insert: "sorted_wrt (<) xs \<Longrightarrow> sorted_wrt (<) (insort_insert (x :: 'a::linorder) xs)"
  by (simp add: strict_sorted_iff sorted_insort_insert distinct_insort_insert)

context reliable_file
begin

definition store_base :: "('f, 'w, 'i) env \<Rightarrow> ('f, 'w, 'i) btree_store \<Rightarrow> memory" where
  "store_base env st = base_page (crc32c env) (view (bs_file st)) (bs_dirty_pages st)"

definition holds :: "('f, 'w, 'i) env \<Rightarrow> ('f, 'w, 'i) btree_store \<Rightarrow> ostate \<Rightarrow> ('f, 'w, 'i) overlay \<Rightarrow> bool" where
  "holds env st0 s ov \<longleftrightarrow>
     data_ops env = ops \<and> healthy (bs_file (ov_store ov)) \<and>
     view (bs_file (ov_store ov)) = view (bs_file st0) \<and> stable (bs_file (ov_store ov)) = stable (bs_file st0) \<and>
     same_store st0 (ov_store ov) \<and> cache_coherent (store_base env st0) (bs_cache (ov_store ov)) \<and>
     pages_coherent (store_base env st0) s ov \<and> s = ov_state (store_base env st0) (o_clean s) ov"

definition does :: "('f, 'w, 'i) env \<Rightarrow> ('f, 'w, 'i) btree_store \<Rightarrow> (('f, 'w, 'i) overlay, error, 'a) sop \<Rightarrow> ostate \<Rightarrow>
    ('a \<Rightarrow> ostate \<Rightarrow> bool) \<Rightarrow> (error \<Rightarrow> ostate \<Rightarrow> bool) \<Rightarrow> bool" where
  "does env st0 m s Q F \<longleftrightarrow>
     (\<forall>ov r ov'. holds env st0 s ov \<longrightarrow> m ov = (r, ov') \<longrightarrow>
       (\<exists>s'. holds env st0 s' ov' \<and> (case r of Inr x \<Rightarrow> Q x s' | Inl e \<Rightarrow> F e s')))"

section \<open>Rules\<close>

lemma does_run:
  assumes "does env st0 m s Q F" and "holds env st0 s ov" and "m ov = (r, ov')"
  obtains s' where "holds env st0 s' ov'" and "case r of Inr x \<Rightarrow> Q x s' | Inl e \<Rightarrow> F e s'"
  using assms unfolding does_def by blast

lemma does_intro:
  assumes "\<And>ov r ov'. holds env st0 s ov \<Longrightarrow> m ov = (r, ov') \<Longrightarrow>
    \<exists>s'. holds env st0 s' ov' \<and> (case r of Inr x \<Rightarrow> Q x s' | Inl e \<Rightarrow> F e s')"
  shows "does env st0 m s Q F"
  using assms unfolding does_def by blast

lemma does_weaken:
  assumes "does env st0 m s Q F" and "\<And>x s'. Q x s' \<Longrightarrow> Q' x s'" and "\<And>e s'. F e s' \<Longrightarrow> F' e s'"
  shows "does env st0 m s Q' F'"
proof (rule does_intro)
  fix ov r ov' assume "holds env st0 s ov" "m ov = (r, ov')"
  from does_run [OF assms(1) this] obtain s' where "holds env st0 s' ov'" "case r of Inr x \<Rightarrow> Q x s' | Inl e \<Rightarrow> F e s'" .
  with assms(2,3) show "\<exists>s'. holds env st0 s' ov' \<and> (case r of Inr x \<Rightarrow> Q' x s' | Inl e \<Rightarrow> F' e s')"
    by (intro exI [of _ s']) (simp split: sum.splits)
qed

lemma does_bind:
  assumes "does env st0 m s R F" and "\<And>x s'. R x s' \<Longrightarrow> does env st0 (k x) s' Q F"
  shows "does env st0 (sbind m k) s Q F"
proof (rule does_intro)
  fix ov r ov' assume ov: "holds env st0 s ov" and run: "sbind m k ov = (r, ov')"
  obtain r1 ov1 where m: "m ov = (r1, ov1)" by (metis surj_pair)
  from does_run [OF assms(1) ov m] obtain s1
    where s1: "holds env st0 s1 ov1" "case r1 of Inr x \<Rightarrow> R x s1 | Inl e \<Rightarrow> F e s1" .
  show "\<exists>s'. holds env st0 s' ov' \<and> (case r of Inr x \<Rightarrow> Q x s' | Inl e \<Rightarrow> F e s')"
  proof (cases r1)
    case (Inl e)
    with run m s1 show ?thesis by (intro exI [of _ s1]) (auto simp: sbind_def)
  next
    case (Inr x)
    then have "k x ov1 = (r, ov')" "R x s1" using run m s1 by (auto simp: sbind_def)
    from does_run [OF assms(2) [OF this(2)] s1(1) this(1)] show ?thesis by blast
  qed
qed

lemma does_ret: "Q x s \<Longrightarrow> does env st0 (sret x) s Q F"
  by (rule does_intro) auto

lemma does_fail: "F e s \<Longrightarrow> does env st0 (sfail e) s Q F"
  by (rule does_intro) auto

lemma does_res: "(\<And>x. r = Inr x \<Longrightarrow> Q x s) \<Longrightarrow> (\<And>e. r = Inl e \<Longrightarrow> F e s) \<Longrightarrow> does env st0 (sres r) s Q F"
  by (rule does_intro) (auto split: sum.splits)

lemma does_res_bind:
  "(\<And>x. r = Inr x \<Longrightarrow> does env st0 (k x) s Q F) \<Longrightarrow> (\<And>e. r = Inl e \<Longrightarrow> F e s) \<Longrightarrow> does env st0 (sbind (sres r) k) s Q F"
  by (rule does_bind [of _ _ _ _ "\<lambda>x s'. r = Inr x \<and> s' = s"]) (auto intro: does_res)

lemma does_get:
  assumes "\<And>ov. holds env st0 s ov \<Longrightarrow> g ov = r"
    and "\<And>x. r = Inr x \<Longrightarrow> does env st0 (k x) s Q F" and "\<And>e. r = Inl e \<Longrightarrow> F e s"
  shows "does env st0 (sbind (sget g) k) s Q F"
proof (rule does_bind [of _ _ _ _ "\<lambda>x s'. r = Inr x \<and> s' = s"])
  show "does env st0 (sget g) s (\<lambda>x s'. r = Inr x \<and> s' = s) F"
    using assms(1,3) by (intro does_intro exI [of _ s]) (auto split: sum.splits)
qed (use assms(2) in auto)

lemma does_mod:
  "(\<And>ov. holds env st0 s ov \<Longrightarrow> holds env st0 s' (g ov)) \<Longrightarrow> Q () s' \<Longrightarrow> does env st0 (smod g) s Q F"
  by (intro does_intro exI [of _ s']) auto

lemma does_mod_bind:
  assumes "\<And>ov. holds env st0 s ov \<Longrightarrow> holds env st0 s' (g ov)" and "does env st0 (k ()) s' Q F"
  shows "does env st0 (sbind (smod g) k) s Q F"
  by (rule does_bind [OF does_mod [OF assms(1), where Q = "\<lambda>_ t. t = s'"]]) (use assms(2) in auto)

lemma holds_fields:
  assumes "holds env st0 s ov"
  shows "ov_root_page_id ov = o_root s" "ov_free_list_head ov = o_free s" "ov_high_water_page_id ov = o_high s"
    "ov_dirty ov = o_dirty s" "ov_last_lsn ov = o_last s" "ov_next_revision ov = o_next_revision s"
    "ov_next_lsn ov = o_next_lsn s" "ov_next_batch_id ov = o_next_batch s"
    "ov_current_superblock ov = o_superblock s" "ov_active_slot ov = o_slot s"
    "ov_mem (store_base env st0) ov = o_mem s"
proof -
  have "s = ov_state (store_base env st0) (o_clean s) ov" using assms by (simp add: holds_def)
  then show "ov_root_page_id ov = o_root s" "ov_free_list_head ov = o_free s" "ov_high_water_page_id ov = o_high s"
    "ov_dirty ov = o_dirty s" "ov_last_lsn ov = o_last s" "ov_next_revision ov = o_next_revision s"
    "ov_next_lsn ov = o_next_lsn s" "ov_next_batch_id ov = o_next_batch s"
    "ov_current_superblock ov = o_superblock s" "ov_active_slot ov = o_slot s"
    "ov_mem (store_base env st0) ov = o_mem s"
    by (metis ostate.select_convs ov_state_def)+
qed

lemma holds_store:
  assumes "holds env st0 s ov"
  shows "bs_config (ov_store ov) = bs_config st0" "bs_wal (ov_store ov) = bs_wal st0"
    "bs_dirty_pages (ov_store ov) = bs_dirty_pages st0"
proof -
  have eq: "ov_store ov = st0\<lparr>bs_file := bs_file (ov_store ov), bs_cache := bs_cache (ov_store ov),
      bs_storage_metrics := bs_storage_metrics (ov_store ov)\<rparr>"
    using assms unfolding holds_def same_store_def by blast
  show "bs_config (ov_store ov) = bs_config st0" using arg_cong [OF eq, of bs_config] by simp
  show "bs_wal (ov_store ov) = bs_wal st0" using arg_cong [OF eq, of bs_wal] by simp
  show "bs_dirty_pages (ov_store ov) = bs_dirty_pages st0" using arg_cong [OF eq, of bs_dirty_pages] by simp
qed

section \<open>Pages\<close>

lemma holds_replace:
  assumes h: "holds env st0 s ov"
  shows "holds env st0 (s\<lparr>o_mem := (o_mem s)(p \<mapsto> d), o_dirty := insort_insert p (o_dirty s)\<rparr>)
    (ov\<lparr>ov_pages := om_insert p d (ov_pages ov), ov_dirty := insort_insert p (ov_dirty ov)\<rparr>)"
proof -
  let ?b = "store_base env st0"
  let ?ov = "ov\<lparr>ov_pages := om_insert p d (ov_pages ov), ov_dirty := insort_insert p (ov_dirty ov)\<rparr>"
  have coh: "pages_coherent ?b s ov" using h by (simp add: holds_def)
  then have wf: "om_wf (ov_pages ov)" by (simp add: pages_coherent_def)
  have mem: "ov_mem ?b ?ov = (o_mem s)(p \<mapsto> d)"
    using holds_fields(11) [OF h] wf by (auto simp: ov_mem_def fun_eq_iff om_get_insert)
  have "pages_coherent ?b (s\<lparr>o_mem := (o_mem s)(p \<mapsto> d), o_dirty := insort_insert p (o_dirty s)\<rparr>) ?ov"
    using coh by (auto simp: pages_coherent_def om_wf_insert om_get_insert sorted_insort_insert set_insort_insert)
  then show ?thesis
    using h mem holds_fields [OF h] by (simp add: holds_def ov_state_def)
qed

lemma does_replace:
  "Q () (s\<lparr>o_mem := (o_mem s)(p \<mapsto> d), o_dirty := insort_insert p (o_dirty s)\<rparr>) \<Longrightarrow>
   does env st0 (replace_page p d) s Q F"
  unfolding replace_page_def by (rule does_mod [OF holds_replace])

lemma read_exact_at_total:
  assumes "healthy s" and "off + len \<le> length (view s)"
  shows "\<exists>s'. read_exact_at ops off len s = (Inr (seg off (off + len) (view s)), s') \<and>
    healthy s' \<and> view s' = view s \<and> stable s' = stable s"
proof -
  have lim: "off + len \<le> u64_limit" using healthy_len [OF assms(1)] assms(2) by simp
  have "wrapping_offset off k = Inr (off + k)" if "k < len" for k
    using lim that by (simp add: wrapping_offset_def)
  from read_exact_loop_total [OF assms, of "[]" wrapping_offset Corruption, OF _ this]
  obtain bs s' where r: "read_exact_at ops off len s = (Inr bs, s')" "healthy s'"
    by (auto simp: read_exact_at_def)
  from read_exact_at_ok [OF r(1) lim] r show ?thesis by simp
qed

lemma read_page_run:
  assumes "data_ops env = ops" and "healthy (bs_file st)" and "base_page (crc32c env) (view (bs_file st)) (bs_dirty_pages st) p = Some d"
  shows "\<exists>f. read_page_from_file env p st = (Inr d, st\<lparr>bs_file := f\<rparr>) \<and> healthy f \<and> view f = view (bs_file st) \<and>
    stable f = stable (bs_file st)"
proof (cases "om_get (bs_dirty_pages st) p")
  case (Some bs)
  then have "rbind (decode_page_at (crc32c env) bs (Some p)) pd_decode = Inr d"
    using assms(3) by (simp add: base_page_def page_of_def split: sum.splits)
  then show ?thesis
    using Some assms(2) by (intro exI [of _ "bs_file st"]) (simp add: read_page_from_file_def sbind_def)
next
  case None
  then have len: "page_offset p + PAGE_SIZE \<le> length (view (bs_file st))"
    and dec: "rbind (decode_page_at (crc32c env) (seg (page_offset p) (page_offset p + PAGE_SIZE) (view (bs_file st))) (Some p)) pd_decode = Inr d"
    using assms(3) by (auto simp: base_page_def page_of_def split: sum.splits if_splits)
  obtain f where "read_exact_at ops (page_offset p) PAGE_SIZE (bs_file st) =
      (Inr (seg (page_offset p) (page_offset p + PAGE_SIZE) (view (bs_file st))), f)"
      "healthy f" "view f = view (bs_file st)" "stable f = stable (bs_file st)"
    using read_exact_at_total [OF assms(2) len] by blast
  then show ?thesis
    using None assms(1) dec by (intro exI [of _ f]) (simp add: read_page_from_file_def sbind_def on_data_def)
qed

text \<open>A page of the memory is returned, and what is cached or remembered about it leaves the
  abstract state as it is.\<close>

lemma holds_cached:
  assumes h: "holds env st0 s ov" and c: "cache_coherent (store_base env st0) c"
  shows "holds env st0 s (ov\<lparr>ov_store := (ov_store ov)\<lparr>bs_cache := c\<rparr>\<rparr>)"
  using h c by (simp add: holds_def pages_coherent_def ov_state_def)

lemma holds_read:
  assumes h: "holds env st0 s ov" and b: "store_base env st0 p = Some d" and n: "om_get (ov_pages ov) p = None"
  shows "holds env st0 s (ov\<lparr>ov_pages := om_insert p d (ov_pages ov)\<rparr>)"
    "holds env st0 s (ov\<lparr>ov_read_pages := om_insert p d (ov_read_pages ov), ov_pages := om_insert p d (ov_pages ov)\<rparr>)"
proof -
  let ?b = "store_base env st0"
  have coh: "pages_coherent ?b s ov" using h by (simp add: holds_def)
  then have wf: "om_wf (ov_pages ov)" "om_wf (ov_read_pages ov)" by (simp_all add: pages_coherent_def)
  have mem: "ov_mem ?b (ov\<lparr>ov_pages := om_insert p d (ov_pages ov)\<rparr>) = o_mem s"
    "ov_mem ?b (ov\<lparr>ov_read_pages := om_insert p d (ov_read_pages ov), ov_pages := om_insert p d (ov_pages ov)\<rparr>) = o_mem s"
    unfolding holds_fields(11) [OF h, symmetric] using wf b n by (auto simp: ov_mem_def fun_eq_iff om_get_insert)
  have "o_mem s p = Some d" unfolding holds_fields(11) [OF h, symmetric] using b n by (simp add: ov_mem_def)
  moreover have "p \<notin> set (ov_dirty ov)" using coh n by (auto simp: pages_coherent_def)
  ultimately have clean: "o_clean s p = Some d" using coh by (auto simp: pages_coherent_def)
  have "pages_coherent ?b s (ov\<lparr>ov_pages := om_insert p d (ov_pages ov)\<rparr>)"
    "pages_coherent ?b s (ov\<lparr>ov_read_pages := om_insert p d (ov_read_pages ov), ov_pages := om_insert p d (ov_pages ov)\<rparr>)"
    using coh wf clean by (auto simp: pages_coherent_def om_wf_insert om_get_insert)
  then show "holds env st0 s (ov\<lparr>ov_pages := om_insert p d (ov_pages ov)\<rparr>)"
    "holds env st0 s (ov\<lparr>ov_read_pages := om_insert p d (ov_read_pages ov), ov_pages := om_insert p d (ov_pages ov)\<rparr>)"
    using h mem holds_fields [OF h] by (simp_all add: holds_def ov_state_def)
qed

lemma overlay_page_run:
  assumes h: "holds env st0 s ov" and m: "o_mem s p = Some d" and r: "FIRST_DATA_PAGE \<le> p" "p \<le> o_high s"
  shows "\<exists>ov'. overlay_page env p ov = (Inr d, ov') \<and> holds env st0 s ov'"
proof (cases "om_get (ov_pages ov) p")
  case (Some d')
  then have "d' = d" using m unfolding holds_fields(11) [OF h, symmetric] by (simp add: ov_mem_def)
  then show ?thesis
    using Some h r holds_fields(3) [OF h] by (simp add: overlay_page_def sbind_def check_page_id_def ensure_def leD)
next
  case None
  let ?b = "store_base env st0" and ?c = "bs_cache (ov_store ov)"
  have b: "?b p = Some d" using None m unfolding holds_fields(11) [OF h, symmetric] by (simp add: ov_mem_def)
  obtain hit c where c: "cache_get p ?c = (hit, c)" by (metis surj_pair)
  have coh: "cache_coherent ?b ?c" using h by (simp add: holds_def)
  then have hit: "hit = cached ?c p" and coh': "cache_coherent ?b c"
    using cache_get_result [of p ?c] cache_get_keeps [of ?c p] c by (auto simp: cache_coherent_def)
  let ?ov1 = "ov\<lparr>ov_store := (ov_store ov)\<lparr>bs_cache := c\<rparr>\<rparr>"
  have h1: "holds env st0 s ?ov1" by (rule holds_cached [OF h coh'])
  have start: "overlay_page env p ov =
      (case hit of Some page \<Rightarrow> (Inr page, ?ov1\<lparr>ov_pages := om_insert p page (ov_pages ov)\<rparr>)
       | None \<Rightarrow> sbind (on_store (read_page_from_file env p)) (\<lambda>page.
             sbind (smod (\<lambda>ov. ov\<lparr>ov_read_pages := om_insert p page (ov_read_pages ov),
                                  ov_pages := om_insert p page (ov_pages ov)\<rparr>)) (\<lambda>_. sret page)) ?ov1)"
    using None r c holds_fields(3) [OF h]
    by (simp add: overlay_page_def sbind_def check_page_id_def ensure_def leD on_store_def split: option.splits)
  show ?thesis
  proof (cases hit)
    case (Some d')
    then have "d' = d" using hit coh b by (auto simp: cache_coherent_def)
    then show ?thesis using start Some holds_read(1) [OF h1 b] None by simp
  next
    case miss: None
    have base: "base_page (crc32c env) (view (bs_file (ov_store ?ov1))) (bs_dirty_pages (ov_store ?ov1)) p = Some d"
      using b h holds_store(3) [OF h] by (simp add: holds_def store_base_def)
    have "data_ops env = ops" "healthy (bs_file (ov_store ?ov1))" using h by (simp_all add: holds_def)
    from read_page_run [OF this base] obtain f
      where f: "read_page_from_file env p (ov_store ?ov1) = (Inr d, (ov_store ?ov1)\<lparr>bs_file := f\<rparr>)" "healthy f"
        "view f = view (bs_file (ov_store ?ov1))" "stable f = stable (bs_file (ov_store ?ov1))" by blast
    let ?ov2 = "?ov1\<lparr>ov_store := (ov_store ?ov1)\<lparr>bs_file := f\<rparr>\<rparr>"
    have h2: "holds env st0 s ?ov2"
      using h1 f by (simp add: holds_def pages_coherent_def ov_state_def)
    have "overlay_page env p ov = (Inr d, ?ov2\<lparr>ov_read_pages := om_insert p d (ov_read_pages ?ov2),
        ov_pages := om_insert p d (ov_pages ?ov2)\<rparr>)"
      using start miss f(1) by (simp add: sbind_def on_store_def)
    then show ?thesis using holds_read(2) [OF h2 b] None by auto
  qed
qed

lemma does_page:
  assumes "o_mem s p = Some d" "FIRST_DATA_PAGE \<le> p" "p \<le> o_high s" and "does env st0 (k d) s Q F"
  shows "does env st0 (sbind (overlay_page env p) k) s Q F"
proof (rule does_bind [of _ _ _ _ "\<lambda>x s'. x = d \<and> s' = s"])
  show "does env st0 (overlay_page env p) s (\<lambda>x s'. x = d \<and> s' = s) F"
    using overlay_page_run [OF _ assms(1-3)] by (intro does_intro exI [of _ s]) fastforce
qed (use assms(4) in auto)

lemma does_leaf:
  assumes "o_mem s p = Some (LeafData l nx es)" "FIRST_DATA_PAGE \<le> p" "p \<le> o_high s" and "does env st0 (k (nx, es)) s Q F"
  shows "does env st0 (sbind (overlay_leaf env p) k) s Q F"
proof (rule does_bind [of _ _ _ _ "\<lambda>x s'. x = (nx, es) \<and> s' = s"])
  show "does env st0 (overlay_leaf env p) s (\<lambda>x s'. x = (nx, es) \<and> s' = s) F"
    unfolding overlay_leaf_def using assms(1-3) by (auto intro!: does_page does_ret)
qed (use assms(4) in auto)

lemma does_internal:
  assumes "o_mem s p = Some (InternalData l c0 es)" "FIRST_DATA_PAGE \<le> p" "p \<le> o_high s" and "does env st0 (k (c0, es)) s Q F"
  shows "does env st0 (sbind (overlay_internal env p) k) s Q F"
proof (rule does_bind [of _ _ _ _ "\<lambda>x s'. x = (c0, es) \<and> s' = s"])
  show "does env st0 (overlay_internal env p) s (\<lambda>x s'. x = (c0, es) \<and> s' = s) F"
    unfolding overlay_internal_def using assms(1-3) by (auto intro!: does_page does_ret)
qed (use assms(4) in auto)

end

end
