(* ===== verification/Dodb_Values.thy ===== *)
theory Dodb_Values
  imports Dodb_Overlay
begin

text \<open>
  Page ownership and values. Every page from the first data page to the high-water mark is
  either in use or on the free list, exactly once; allocation moves a page from the free list (or
  past the high-water mark) to the used ones, freeing moves it back. Values are stored in the
  leaf record or in a chain of overflow pages.
\<close>

section \<open>Ownership\<close>

fun free_list :: "memory \<Rightarrow> page_id option \<Rightarrow> page_id list \<Rightarrow> bool" where
  "free_list mem head [] \<longleftrightarrow> head = None"
| "free_list mem head (p # ps) \<longleftrightarrow> head = Some p \<and> (\<exists>l n. mem p = Some (FreeData l n) \<and> free_list mem n ps)"

definition pages_ok :: "ostate \<Rightarrow> page_id list \<Rightarrow> page_id list \<Rightarrow> bool" where
  "pages_ok s used frees \<longleftrightarrow>
     distinct (used @ frees) \<and> set (used @ frees) = {FIRST_DATA_PAGE..o_high s} \<and>
     free_list (o_mem s) (o_free s) frees \<and> set (o_dirty s) \<subseteq> {FIRST_DATA_PAGE..o_high s} \<and> 1 \<le> o_high s"

text \<open>What the tree operations leave alone, and how far the high-water mark may move.\<close>

definition grows :: "nat \<Rightarrow> ostate \<Rightarrow> ostate \<Rightarrow> bool" where
  "grows n s s' \<longleftrightarrow>
     o_clean s' = o_clean s \<and> o_last s' = o_last s \<and> o_next_revision s' = o_next_revision s \<and>
     o_next_lsn s' = o_next_lsn s \<and> o_next_batch s' = o_next_batch s \<and> o_superblock s' = o_superblock s \<and>
     o_slot s' = o_slot s \<and> o_high s \<le> o_high s' \<and> unat (o_high s') \<le> unat (o_high s) + n \<and>
     set (o_dirty s) \<subseteq> set (o_dirty s')"

definition room :: "nat \<Rightarrow> ostate \<Rightarrow> bool" where
  "room n s \<longleftrightarrow> unat (o_high s) + n < 2 ^ 64"

definition keeps :: "page_id set \<Rightarrow> ostate \<Rightarrow> ostate \<Rightarrow> bool" where
  "keeps S s s' \<longleftrightarrow> (\<forall>p \<in> S. o_mem s' p = o_mem s p)"

lemma dirty_insert [simp]: "set (insort_insert p ps) = insert p (set ps)" "set ps \<subseteq> insert p (set ps)"
    "insort_insert p ps \<noteq> []"
proof -
  show "set (insort_insert p ps) = insert p (set ps)" "set ps \<subseteq> insert p (set ps)" by (auto simp: set_insort_insert)
  then show "insort_insert p ps \<noteq> []" by (metis empty_not_insert list.set(1))
qed

lemma grows_refl [simp]: "grows n s s"
  by (simp add: grows_def)

lemma grows_mono: "grows m s s' \<Longrightarrow> m \<le> n \<Longrightarrow> grows n s s'"
  by (auto simp: grows_def)

lemma grows_trans: "grows m s s1 \<Longrightarrow> grows n s1 s2 \<Longrightarrow> grows (m + n) s s2"
  by (auto simp: grows_def)

lemma grows_room: "grows m s s' \<Longrightarrow> room (m + n) s \<Longrightarrow> room n s'"
  by (auto simp: grows_def room_def)

lemma keeps_trans: "keeps S s s1 \<Longrightarrow> keeps S s1 s2 \<Longrightarrow> keeps S s s2"
  by (simp add: keeps_def)

lemma keeps_mono: "keeps S s s' \<Longrightarrow> S' \<subseteq> S \<Longrightarrow> keeps S' s s'"
  by (auto simp: keeps_def)

lemma free_list_cong: "(\<And>p. p \<in> set frees \<Longrightarrow> mem' p = mem p) \<Longrightarrow> free_list mem' head frees \<longleftrightarrow> free_list mem head frees"
  by (induction frees arbitrary: head) auto

lemma pages_ok_perm: "mset used = mset used' \<Longrightarrow> pages_ok s used frees \<longleftrightarrow> pages_ok s used' frees"
proof -
  assume "mset used = mset used'"
  then have "set used = set used'" "distinct used = distinct used'"
    by (metis set_mset_mset, metis mset_eq_imp_distinct_iff)
  then show ?thesis by (simp add: pages_ok_def)
qed

lemma pages_ok_range: "pages_ok s used frees \<Longrightarrow> p \<in> set used \<Longrightarrow> FIRST_DATA_PAGE \<le> p \<and> p \<le> o_high s"
  by (auto simp: pages_ok_def)

abbreviation replaced :: "ostate \<Rightarrow> page_id \<Rightarrow> page_data \<Rightarrow> ostate" where
  "replaced s p d \<equiv> s\<lparr>o_mem := (o_mem s)(p \<mapsto> d), o_dirty := insort_insert p (o_dirty s)\<rparr>"

lemma pages_ok_replaced:
  assumes "pages_ok s used frees" and "p \<in> set used"
  shows "pages_ok (replaced s p d) used frees"
proof -
  have "p \<notin> set frees" using assms by (auto simp: pages_ok_def)
  then have "free_list ((o_mem s)(p \<mapsto> d)) (o_free s) frees \<longleftrightarrow> free_list (o_mem s) (o_free s) frees"
    by (intro free_list_cong) auto
  moreover have "p \<in> {FIRST_DATA_PAGE..o_high s}" using assms by (auto simp: pages_ok_def)
  ultimately show ?thesis using assms(1) by (auto simp: pages_ok_def set_insort_insert)
qed

lemma grows_replaced [simp]: "grows n s (replaced s p d)"
  by (simp add: grows_def)

lemma keeps_replaced: "p \<notin> S \<Longrightarrow> keeps S s (replaced s p d)"
  by (auto simp: keeps_def)

section \<open>Stored values\<close>

text \<open>A chain of overflow pages holding a value, and the value behind a reference together with
  the pages it occupies.\<close>

definition chain_next :: "page_id list \<Rightarrow> page_id option" where
  "chain_next ps = (case ps of [] \<Rightarrow> None | q # _ \<Rightarrow> Some q)"

fun overflow :: "memory \<Rightarrow> u64 \<Rightarrow> page_id list \<Rightarrow> bytes \<Rightarrow> bool" where
  "overflow mem len [] v \<longleftrightarrow> v = []"
| "overflow mem len (p # ps) v \<longleftrightarrow>
     (\<exists>l chunk v'. mem p = Some (OverflowData l (chain_next ps) len chunk) \<and> v = chunk @ v' \<and>
        chunk \<noteq> [] \<and> length chunk \<le> OVERFLOW_DATA_SIZE \<and> overflow mem len ps v')"

fun stores :: "memory \<Rightarrow> page_id list \<Rightarrow> value_ref \<Rightarrow> bytes \<Rightarrow> bool" where
  "stores mem ids (Inline bs) v \<longleftrightarrow> ids = [] \<and> bs = v \<and> length v \<le> INLINE_VALUE_LIMIT"
| "stores mem ids (Overflow p len) v \<longleftrightarrow> ids \<noteq> [] \<and> p = hd ids \<and> overflow mem len ids v \<and> unat len = length v \<and>
     length v \<le> MAX_VALUE_SIZE \<and> length ids \<le> MAX_OVERFLOW_PAGES"

definition row_at :: "memory \<Rightarrow> page_id list \<Rightarrow> leaf_entry \<Rightarrow> revision_state \<Rightarrow> bool" where
  "row_at mem ids e st =
     (case le_value e of
        None \<Rightarrow> ids = [] \<and> st = Missing (le_revision e)
      | Some vref \<Rightarrow> (\<exists>v. stores mem ids vref v \<and> st = Present v (le_revision e)))"

lemma OVERFLOW_DATA_SIZE_value: "OVERFLOW_DATA_SIZE = 4032"
  by (simp add: format_sizes PAGE_SIZE_def PAGE_HEADER_SIZE_def)

lemma overflow_pages_bound: "n \<le> MAX_VALUE_SIZE \<Longrightarrow> div_ceil n OVERFLOW_DATA_SIZE \<le> MAX_OVERFLOW_PAGES"
proof -
  assume n: "n \<le> MAX_VALUE_SIZE"
  obtain q r where qr: "n = q * 4032 + r" "r < 4032" by (rule that [of "n div 4032" "n mod 4032"]) simp_all
  then have "div_ceil n OVERFLOW_DATA_SIZE \<le> (n + 4031) div 4032"
    by (simp add: div_ceil_def OVERFLOW_DATA_SIZE_value less_eq_div_iff_mult_less_eq)
  also have "\<dots> \<le> (MAX_VALUE_SIZE + 4031) div 4032" using n by (simp add: div_le_mono)
  finally show ?thesis by (simp add: MAX_OVERFLOW_PAGES_def OVERFLOW_DATA_SIZE_value)
qed

lemma chain_next_simps [simp]: "chain_next [] = None" "chain_next (p # ps) = Some p"
  by (simp_all add: chain_next_def)

lemma overflow_cong: "(\<And>p. p \<in> set ids \<Longrightarrow> mem' p = mem p) \<Longrightarrow> overflow mem' len ids v \<longleftrightarrow> overflow mem len ids v"
  by (induction ids arbitrary: v) auto

lemma stores_cong: "(\<And>p. p \<in> set ids \<Longrightarrow> mem' p = mem p) \<Longrightarrow> stores mem' ids vref v \<longleftrightarrow> stores mem ids vref v"
  by (cases vref) (auto simp: overflow_cong [of ids mem' mem])

lemma row_at_cong: "(\<And>p. p \<in> set ids \<Longrightarrow> mem' p = mem p) \<Longrightarrow> row_at mem' ids e st \<longleftrightarrow> row_at mem ids e st"
  by (auto simp: row_at_def stores_cong [of ids mem' mem] split: option.splits)

lemma chunks_simps: "0 < n \<Longrightarrow> chunks n xs = (if xs = [] then [] else take n xs # chunks n (drop n xs))"
  by (subst chunks.simps) simp

lemma chunks_ok:
  assumes "0 < n"
  shows "concat (chunks n xs) = xs \<and> length (chunks n xs) = div_ceil (length xs) n \<and>
    (\<forall>c \<in> set (chunks n xs). c \<noteq> [] \<and> length c \<le> n)"
proof (induction "length xs" arbitrary: xs rule: less_induct)
  case less
  show ?case
  proof (cases "xs = []")
    case False
    then have "length (drop n xs) < length xs" using assms by simp
    from less [OF this] have IH: "concat (chunks n (drop n xs)) = drop n xs"
      "length (chunks n (drop n xs)) = div_ceil (length xs - n) n" "\<forall>c \<in> set (chunks n (drop n xs)). c \<noteq> [] \<and> length c \<le> n"
      by auto
    have "Suc (div_ceil (length xs - n) n) = div_ceil (length xs) n"
    proof (cases "n \<le> length xs")
      case True
      then obtain k where "length xs = n + k" using le_Suc_ex by blast
      then show ?thesis using assms div_add_self1 [of n k] by (simp add: div_ceil_def)
    next
      case less: False
      then show ?thesis using False by (auto simp: div_ceil_def)
    qed
    then show ?thesis using False assms IH by (subst (1 2 3) chunks_simps) auto
  qed (simp add: chunks_simps [OF assms] div_ceil_def)
qed

text \<open>The chain loops as sequences of operations.\<close>

lemma free_chain_Some:
  "free_chain env len stamp (Some p) visited t c =
     (if p \<in> visited \<or> c \<ge> MAX_OVERFLOW_PAGES then sfail Corruption
      else sbind (overlay_page env p) (\<lambda>d.
        case d of
          OverflowData l nx page_total chunk \<Rightarrow>
            if page_total \<noteq> len then sfail Corruption
            else sbind (sres (ok_or (checked_add_u64 t (of_nat (length chunk))) Corruption)) (\<lambda>t'.
                 sbind (free_page p stamp) (\<lambda>_.
                 free_chain env len stamp nx (insert p visited) t' (c + 1)))
        | _ \<Rightarrow> sfail Corruption))"
  by (rule ext, subst free_chain.simps)
    (auto simp: sbind_def ok_or_def split: prod.splits sum.splits page_data.splits option.splits)

lemma free_chain_None: "free_chain env len stamp None visited t c = sret t"
  by (rule ext) (simp add: free_chain.simps)

lemma read_chain_Some:
  "read_chain env len (Some p) visited c output =
     (if p \<in> visited \<or> c \<ge> MAX_OVERFLOW_PAGES then sfail Corruption
      else sbind (overlay_page env p) (\<lambda>d.
        case d of
          OverflowData l nx page_total chunk \<Rightarrow>
            if page_total \<noteq> len then sfail Corruption
            else read_chain env len nx (insert p visited) (c + 1) (output @ chunk)
        | _ \<Rightarrow> sfail Corruption))"
  by (rule ext, subst read_chain.simps)
    (auto simp: sbind_def split: prod.splits sum.splits page_data.splits)

lemma read_chain_None: "read_chain env len None visited c output = sret output"
  by (rule ext) (simp add: read_chain.simps)

context reliable_file
begin

lemma does_known:
  "(\<And>ov. holds env st0 s ov \<Longrightarrow> g ov = Inr x) \<Longrightarrow> does env st0 (k x) s Q F \<Longrightarrow> does env st0 (sbind (sget g) k) s Q F"
  by (rule does_get [where r = "Inr x"]) auto

lemma holds_meta:
  assumes h: "holds env st0 s ov" and st: "ov_store ov' = ov_store ov" "ov_pages ov' = ov_pages ov"
      "ov_read_pages ov' = ov_read_pages ov" "ov_dirty ov' = ov_dirty ov"
    and s': "o_mem s' = o_mem s" "o_clean s' = o_clean s" "o_dirty s' = o_dirty s" "o_root s' = ov_root_page_id ov'"
      "o_free s' = ov_free_list_head ov'" "o_high s' = ov_high_water_page_id ov'" "o_last s' = ov_last_lsn ov'"
      "o_next_revision s' = ov_next_revision ov'" "o_next_lsn s' = ov_next_lsn ov'" "o_next_batch s' = ov_next_batch_id ov'"
      "o_superblock s' = ov_current_superblock ov'" "o_slot s' = ov_active_slot ov'"
  shows "holds env st0 s' ov'"
proof -
  have "ov_mem (store_base env st0) ov' = o_mem s"
    unfolding holds_fields(11) [OF h, symmetric] using st by (simp add: ov_mem_def fun_eq_iff)
  then have "s' = ov_state (store_base env st0) (o_clean s') ov'"
    using s' st holds_fields(4) [OF h] by (intro ostate.equality) (simp_all add: ov_state_def)
  moreover have "pages_coherent (store_base env st0) s' ov'"
    using h st s' by (simp add: holds_def pages_coherent_def)
  ultimately show ?thesis using h st by (simp add: holds_def)
qed

lemma allocate_high:
  assumes "pages_ok s used []" and "room 1 s"
  shows "pages_ok (s\<lparr>o_high := o_high s + 1\<rparr>) ((o_high s + 1) # used) [] \<and> grows 1 s (s\<lparr>o_high := o_high s + 1\<rparr>) \<and>
    o_high s + 1 \<notin> set used"
proof -
  have up: "unat (o_high s + 1) = unat (o_high s) + 1"
    using assms(2) by (simp add: room_def unat_word_ariths)
  then have lt: "o_high s < o_high s + 1" by (simp add: word_less_nat_alt)
  have le: "x \<le> o_high s + 1 \<longleftrightarrow> x \<le> o_high s \<or> x = o_high s + 1" for x
    using up by (auto simp: word_le_nat_alt word_unat_eq_iff)
  have first: "FIRST_DATA_PAGE \<le> o_high s + 1"
    using assms(1) up by (simp add: pages_ok_def word_le_nat_alt FIRST_DATA_PAGE_def)
  have "{FIRST_DATA_PAGE..o_high s + 1} = insert (o_high s + 1) {FIRST_DATA_PAGE..o_high s}"
    using first le by (intro set_eqI) (simp, blast)
  moreover have "o_high s + 1 \<notin> set used" using assms(1) lt by (auto simp: pages_ok_def)
  moreover have "1 \<le> o_high s + 1" using up by (simp add: word_le_nat_alt)
  ultimately show ?thesis
    using assms(1) lt up by (auto simp: pages_ok_def grows_def)
qed

lemma allocate_free:
  assumes "pages_ok s used (p # frees)"
  shows "\<exists>l n. o_mem s p = Some (FreeData l n) \<and> pages_ok (s\<lparr>o_free := n\<rparr>) (p # used) frees \<and> o_free s = Some p"
  using assms by (auto simp: pages_ok_def)

lemma does_allocate_page:
  assumes ok: "pages_ok s used frees" and full: "\<not> room 1 s \<Longrightarrow> F InternalInvariantViolation s"
  shows "does env st0 (allocate_page env) s (\<lambda>p s'. \<exists>frees'. pages_ok s' (p # used) frees' \<and> o_mem s' = o_mem s \<and>
    o_root s' = o_root s \<and> grows 1 s s') F" (is "does _ _ _ _ ?R _")
proof (cases frees)
  case Nil
  then have none: "o_free s = None" using ok by (simp add: pages_ok_def)
  have h: "holds env st0 (s\<lparr>o_high := pid\<rparr>) (ov\<lparr>ov_high_water_page_id := pid, ov_allocated := insert pid (ov_allocated ov)\<rparr>)"
    if "holds env st0 s ov" for ov pid
    by (rule holds_meta [OF that]) (use holds_fields [OF that] in simp_all)
  have "does env st0 (sbind (sget (\<lambda>ov. ok_or (checked_add_u64 (ov_high_water_page_id ov) 1) InternalInvariantViolation))
      (\<lambda>pid. sbind (smod (\<lambda>ov. ov\<lparr>ov_high_water_page_id := pid, ov_allocated := insert pid (ov_allocated ov)\<rparr>)) (\<lambda>_.
       sret pid))) s ?R F"
  proof (rule does_get [where r = "ok_or (checked_add_u64 (o_high s) 1) InternalInvariantViolation"])
    fix pid assume "ok_or (checked_add_u64 (o_high s) 1) InternalInvariantViolation = Inr pid"
    then have pid: "pid = o_high s + 1" and "room 1 s"
      by (auto simp: ok_or_def checked_add_u64_def room_def split: if_splits option.splits)
    with allocate_high [of s used] ok Nil have "?R pid (s\<lparr>o_high := pid\<rparr>)" by auto
    then show "does env st0 (sbind (smod (\<lambda>ov. ov\<lparr>ov_high_water_page_id := pid, ov_allocated := insert pid (ov_allocated ov)\<rparr>))
        (\<lambda>_. sret pid)) s ?R F"
      by (intro does_mod_bind [OF h] does_ret)
  qed (use full holds_fields(3) in \<open>auto simp: ok_or_def checked_add_u64_def room_def split: if_splits option.splits\<close>)
  moreover have "Inr (ov_free_list_head ov) = Inr None" if "holds env st0 s ov" for ov
    using none holds_fields(2) [OF that] by simp
  ultimately show ?thesis
    unfolding allocate_page_def by (intro does_known [where x = None]) simp_all
next
  case (Cons p ps)
  then obtain l n where m: "o_mem s p = Some (FreeData l n)" and ok': "pages_ok (s\<lparr>o_free := n\<rparr>) (p # used) ps"
    and head: "o_free s = Some p"
    using ok allocate_free by blast
  have h: "holds env st0 (s\<lparr>o_free := n\<rparr>) (ov\<lparr>ov_free_list_head := n, ov_allocated := insert p (ov_allocated ov)\<rparr>)"
    if "holds env st0 s ov" for ov
    by (rule holds_meta [OF that]) (use holds_fields [OF that] in simp_all)
  have "p \<in> {FIRST_DATA_PAGE..o_high s}" using ok Cons unfolding pages_ok_def by (metis in_set_conv_decomp)
  then have range: "FIRST_DATA_PAGE \<le> p" "p \<le> o_high s" by simp_all
  have "?R p (s\<lparr>o_free := n\<rparr>)" using ok' by (auto simp: grows_def)
  then have "does env st0 (sbind (smod (\<lambda>ov. ov\<lparr>ov_free_list_head := n, ov_allocated := insert p (ov_allocated ov)\<rparr>))
      (\<lambda>_. sret p)) s ?R F"
    by (intro does_mod_bind [OF h] does_ret)
  moreover have "Inr (ov_free_list_head ov) = Inr (Some p)" if "holds env st0 s ov" for ov
    using head holds_fields(2) [OF that] by simp
  ultimately show ?thesis
    unfolding allocate_page_def by (intro does_known [where x = "Some p"]) (simp_all add: does_page [OF m range])
qed

lemma does_allocate:
  assumes ok: "pages_ok s used frees"
    and step: "\<And>p s' frees'. pages_ok s' (p # used) frees' \<Longrightarrow> o_mem s' = o_mem s \<Longrightarrow> o_root s' = o_root s \<Longrightarrow>
      grows 1 s s' \<Longrightarrow> does env st0 (k p) s' Q F"
    and full: "\<not> room 1 s \<Longrightarrow> F InternalInvariantViolation s"
  shows "does env st0 (sbind (allocate_page env) k) s Q F"
  by (rule does_bind [OF does_allocate_page [where F = F, OF ok full]]) (use step in blast)+

lemma free_page_ok:
  assumes "pages_ok s (p # used) frees"
  shows "pages_ok ((replaced s p (FreeData l (o_free s)))\<lparr>o_free := Some p\<rparr>) used (p # frees)"
proof -
  have "p \<in> {FIRST_DATA_PAGE..o_high s}" using assms unfolding pages_ok_def by (metis append_Cons list.set_intros(1))
  moreover have "p \<notin> set frees" using assms by (simp add: pages_ok_def)
  moreover have "free_list ((o_mem s)(p \<mapsto> FreeData l (o_free s))) (o_free s) frees \<longleftrightarrow> free_list (o_mem s) (o_free s) frees"
    using calculation by (intro free_list_cong) auto
  ultimately show ?thesis using assms by (auto simp: pages_ok_def set_insort_insert)
qed

lemma does_free_page:
  assumes ok: "pages_ok s (p # used) frees"
    and post: "\<And>s'. pages_ok s' used (p # frees) \<Longrightarrow> keeps (- {p}) s s' \<Longrightarrow> o_root s' = o_root s \<Longrightarrow> grows 0 s s' \<Longrightarrow> Q () s'"
  shows "does env st0 (free_page p stamp) s Q F"
proof -
  let ?s1 = "replaced s p (FreeData stamp (o_free s))"
  have h1: "holds env st0 s (ov\<lparr>ov_allocated := ov_allocated ov - {p}\<rparr>)" if "holds env st0 s ov" for ov
    by (rule holds_meta [OF that]) (use holds_fields [OF that] in simp_all)
  have h2: "holds env st0 (?s1\<lparr>o_free := Some p\<rparr>) (ov\<lparr>ov_free_list_head := Some p\<rparr>)" if "holds env st0 ?s1 ov" for ov
    by (rule holds_meta [OF that]) (use holds_fields [OF that] in simp_all)
  have head: "Inr (ov_free_list_head ov) = Inr (o_free s)" if "holds env st0 s ov" for ov
    using holds_fields(2) [OF that] by simp
  have "Q () (?s1\<lparr>o_free := Some p\<rparr>)"
    by (rule post [OF free_page_ok [OF ok]]) (simp_all add: keeps_def grows_def)
  then have last: "does env st0 (smod (\<lambda>ov. ov\<lparr>ov_free_list_head := Some p\<rparr>)) ?s1 Q F"
    by (intro does_mod [OF h2])
  have "does env st0 (replace_page p (FreeData stamp (o_free s))) s (\<lambda>_ s'. s' = ?s1) F"
    by (rule does_replace) simp
  then show ?thesis
    unfolding free_page_def
    by (intro does_mod_bind [OF h1] does_known [OF head] does_bind [where R = "\<lambda>_ s'. s' = ?s1"]) (use last in auto)
qed

section \<open>Values\<close>

lemma does_allocate_pages:
  assumes "pages_ok s used frees" and "\<And>s'. \<not> room n s \<Longrightarrow> F InternalInvariantViolation s'"
  shows "does env st0 (allocate_pages env n) s (\<lambda>ids s'. length ids = n \<and> (\<exists>frees'. pages_ok s' (ids @ used) frees') \<and>
    o_mem s' = o_mem s \<and> o_root s' = o_root s \<and> grows n s s') F"
  using assms
proof (induction n arbitrary: s used frees)
  case 0
  then show ?case unfolding allocate_pages.simps by (intro does_ret) auto
next
  case (Suc n)
  show ?case
    unfolding allocate_pages.simps
  proof (rule does_allocate [OF Suc.prems(1)])
    fix p s1 frees1
    assume s1: "pages_ok s1 (p # used) frees1" "o_mem s1 = o_mem s" "o_root s1 = o_root s" "grows 1 s s1"
    have "does env st0 (allocate_pages env n) s1 (\<lambda>ids s'. length ids = n \<and> (\<exists>frees'. pages_ok s' (ids @ p # used) frees') \<and>
      o_mem s' = o_mem s1 \<and> o_root s' = o_root s1 \<and> grows n s1 s') F"
      using Suc.IH [OF s1(1)] Suc.prems(2) grows_room [OF s1(4), of n] by auto
    then show "does env st0 (sbind (allocate_pages env n) (\<lambda>pids. sret (p # pids))) s1
      (\<lambda>ids s'. length ids = Suc n \<and> (\<exists>frees'. pages_ok s' (ids @ used) frees') \<and> o_mem s' = o_mem s \<and>
        o_root s' = o_root s \<and> grows (Suc n) s s') F"
    proof (rule does_bind)
      fix ids s2 assume s2: "length ids = n \<and> (\<exists>frees'. pages_ok s2 (ids @ p # used) frees') \<and>
        o_mem s2 = o_mem s1 \<and> o_root s2 = o_root s1 \<and> grows n s1 s2"
      then obtain frees2 where "pages_ok s2 (ids @ p # used) frees2" by blast
      then have "pages_ok s2 ((p # ids) @ used) frees2" by (subst pages_ok_perm [where used' = "ids @ p # used"]) auto
      moreover have "grows (Suc n) s s2" using grows_trans [OF s1(4), of n s2] s2 by simp
      ultimately show "does env st0 (sret (p # ids)) s2
        (\<lambda>ids s'. length ids = Suc n \<and> (\<exists>frees'. pages_ok s' (ids @ used) frees') \<and> o_mem s' = o_mem s \<and>
          o_root s' = o_root s \<and> grows (Suc n) s s') F"
        using s1 s2 by (intro does_ret) auto
    qed
  next
    show "F InternalInvariantViolation s" if "\<not> room 1 s"
      using Suc.prems(2) that by (auto simp: room_def)
  qed
qed

lemma does_write_chunks:
  assumes "pages_ok s used frees" and "distinct ids" and "set ids \<subseteq> set used" and "length cs = length ids"
    and "\<And>c. c \<in> set cs \<Longrightarrow> c \<noteq> [] \<and> length c \<le> OVERFLOW_DATA_SIZE"
  shows "does env st0 (write_chunks stamp n ids cs) s (\<lambda>_ s'. pages_ok s' used frees \<and> keeps (- set ids) s s' \<and>
    o_root s' = o_root s \<and> grows 0 s s' \<and> overflow (o_mem s') (of_nat n) ids (concat cs)) F"
  using assms
proof (induction ids arbitrary: s cs)
  case Nil
  then show ?case unfolding write_chunks.simps by (intro does_ret) (auto simp: keeps_def)
next
  case (Cons p ids)
  then obtain c cs' where cs: "cs = c # cs'" by (cases cs) auto
  let ?d = "OverflowData stamp (chain_next ids) (of_nat n) c"
  let ?s1 = "replaced s p ?d"
  have ok1: "pages_ok ?s1 used frees" using Cons.prems by (intro pages_ok_replaced) auto
  have rep: "does env st0 (replace_page p ?d) s (\<lambda>_ s'. s' = ?s1) F" by (rule does_replace) simp
  have rest: "does env st0 (write_chunks stamp n ids cs') ?s1 (\<lambda>_ s'. pages_ok s' used frees \<and> keeps (- set ids) ?s1 s' \<and>
    o_root s' = o_root ?s1 \<and> grows 0 ?s1 s' \<and> overflow (o_mem s') (of_nat n) ids (concat cs')) F"
    using Cons.prems cs by (intro Cons.IH [OF ok1]) auto
  have "does env st0 (write_chunks stamp n ids cs') ?s1 (\<lambda>_ s'. pages_ok s' used frees \<and> keeps (- set (p # ids)) s s' \<and>
    o_root s' = o_root s \<and> grows 0 s s' \<and> overflow (o_mem s') (of_nat n) (p # ids) (concat cs)) F"
  proof (rule does_weaken [OF rest])
    fix x s' assume s': "pages_ok s' used frees \<and> keeps (- set ids) ?s1 s' \<and> o_root s' = o_root ?s1 \<and> grows 0 ?s1 s' \<and>
      overflow (o_mem s') (of_nat n) ids (concat cs')"
    then have "o_mem s' p = Some ?d" using Cons.prems(2) by (auto simp: keeps_def)
    then have "overflow (o_mem s') (of_nat n) (p # ids) (concat cs)"
      using s' Cons.prems(5) [of c] cs by auto
    moreover have "keeps (- set (p # ids)) s s'" using s' by (auto simp: keeps_def)
    ultimately show "pages_ok s' used frees \<and> keeps (- set (p # ids)) s s' \<and> o_root s' = o_root s \<and> grows 0 s s' \<and>
      overflow (o_mem s') (of_nat n) (p # ids) (concat cs)"
      using s' by (auto simp: grows_def)
  qed
  then show ?case
    unfolding cs write_chunks.simps chain_next_def [symmetric]
    by (intro does_bind [OF rep]) auto
qed

lemma does_make_value:
  assumes ok: "pages_ok s used frees" and v: "length v \<le> MAX_VALUE_SIZE"
    and full: "\<And>s'. \<not> room (div_ceil (length v) OVERFLOW_DATA_SIZE) s \<Longrightarrow> F InternalInvariantViolation s'"
  shows "does env st0 (make_value env v stamp) s (\<lambda>vref s'. \<exists>ids frees'. pages_ok s' (ids @ used) frees' \<and>
    stores (o_mem s') ids vref v \<and> keeps (set used) s s' \<and> o_root s' = o_root s \<and>
    grows (div_ceil (length v) OVERFLOW_DATA_SIZE) s s') F" (is "does _ _ _ _ ?Q _")
  unfolding make_value_def
proof (rule does_known)
  show "Inr (inline_value_limit (dc_limits (bs_config (ov_store ov)))) = Inr (inline_value_limit (dc_limits (bs_config st0)))"
    if "holds env st0 s ov" for ov using holds_store(1) [OF that] by simp
  let ?n = "div_ceil (length v) OVERFLOW_DATA_SIZE" and ?limit = "inline_value_limit (dc_limits (bs_config st0))"
  let ?cs = "chunks OVERFLOW_DATA_SIZE v"
  have pos: "0 < OVERFLOW_DATA_SIZE" by (simp add: OVERFLOW_DATA_SIZE_value)
  have cs: "concat ?cs = v" "length ?cs = ?n" "\<And>c. c \<in> set ?cs \<Longrightarrow> c \<noteq> [] \<and> length c \<le> OVERFLOW_DATA_SIZE"
    using chunks_ok [OF pos, of v] by auto
  show "does env st0 (if length v \<le> ?limit \<and> length v \<le> INLINE_VALUE_LIMIT then sret (Inline v) else
       let ids = ?n in sbind (sres (ensure (\<not> ids > MAX_OVERFLOW_PAGES) InvalidInput)) (\<lambda>_.
        sbind (allocate_pages env ids) (\<lambda>page_ids.
        sbind (write_chunks stamp (length v) page_ids ?cs) (\<lambda>_.
        sret (Overflow (hd page_ids) (of_nat (length v))))))) s ?Q F"
  proof (cases "length v \<le> ?limit \<and> length v \<le> INLINE_VALUE_LIMIT")
    case True
    have "?Q (Inline v) s" using ok True by (intro exI [of _ "[]"] exI [of _ frees]) (auto simp: keeps_def)
    then show ?thesis unfolding if_P [OF True] by (rule does_ret)
  next
    case False
    then have ne: "v \<noteq> []" by auto
    have max: "?n \<le> MAX_OVERFLOW_PAGES" by (rule overflow_pages_bound [OF v])
    then have fits: "ensure (\<not> ?n > MAX_OVERFLOW_PAGES) InvalidInput = Inr ()" by (simp add: ensure_def)
    have n: "0 < ?n" using ne cs by (metis concat.simps(1) length_greater_0_conv)
    have len: "unat (of_nat (length v) :: u64) = length v" using v by (intro unat_of_nat_u64) (simp add: MAX_VALUE_SIZE_def usize_max_def)
    have "does env st0 (sbind (allocate_pages env ?n) (\<lambda>ids. sbind (write_chunks stamp (length v) ids ?cs) (\<lambda>_.
        sret (Overflow (hd ids) (of_nat (length v)))))) s ?Q F"
    proof (rule does_bind [OF does_allocate_pages [where F = F, OF ok full]])
      fix ids s1 assume s1: "length ids = ?n \<and> (\<exists>frees'. pages_ok s1 (ids @ used) frees') \<and>
        o_mem s1 = o_mem s \<and> o_root s1 = o_root s \<and> grows ?n s s1"
      then obtain frees1 where ok1: "pages_ok s1 (ids @ used) frees1" by blast
      then have dis: "distinct ids" "set ids \<inter> set used = {}" by (auto simp: pages_ok_def)
      have "does env st0 (write_chunks stamp (length v) ids ?cs) s1 (\<lambda>_ s'. pages_ok s' (ids @ used) frees1 \<and>
        keeps (- set ids) s1 s' \<and> o_root s' = o_root s1 \<and> grows 0 s1 s' \<and>
        overflow (o_mem s') (of_nat (length v)) ids (concat ?cs)) F"
        using s1 cs dis by (intro does_write_chunks [OF ok1]) auto
      then show "does env st0 (sbind (write_chunks stamp (length v) ids ?cs) (\<lambda>_.
          sret (Overflow (hd ids) (of_nat (length v))))) s1 ?Q F"
      proof (rule does_bind)
        fix x s2 assume s2: "pages_ok s2 (ids @ used) frees1 \<and> keeps (- set ids) s1 s2 \<and> o_root s2 = o_root s1 \<and>
          grows 0 s1 s2 \<and> overflow (o_mem s2) (of_nat (length v)) ids (concat ?cs)"
        have "keeps (set used) s s2" using s1 s2 dis by (auto simp: keeps_def)
        moreover have "grows ?n s s2" using grows_trans [of ?n s s1 0 s2] s1 s2 by simp
        ultimately show "does env st0 (sret (Overflow (hd ids) (of_nat (length v)))) s2 ?Q F"
          using s1 s2 cs n max len v by (intro does_ret exI [of _ ids] exI [of _ frees1]) auto
      qed
    qed
    then show ?thesis
      unfolding if_not_P [OF False] Let_def fits by (intro does_res_bind) simp_all
  qed
qed

lemma does_free_chain:
  assumes "pages_ok s (ids @ used) frees" and "overflow (o_mem s) len ids v" and "set ids \<inter> visited = {}"
    and "cnt + length ids \<le> MAX_OVERFLOW_PAGES" and "unat t + length v < 2 ^ 64"
  shows "does env st0 (free_chain env len stamp (chain_next ids) visited t cnt) s (\<lambda>t' s'. unat t' = unat t + length v \<and>
    (\<exists>frees'. pages_ok s' used frees') \<and> keeps (- set ids) s s' \<and> o_root s' = o_root s \<and> grows 0 s s') F"
  using assms
proof (induction ids arbitrary: s frees visited t cnt v)
  case Nil
  then show ?case unfolding chain_next_simps free_chain_None by (intro does_ret) (auto simp: keeps_def)
next
  case (Cons p ids)
  from Cons.prems(2) obtain l chunk v' where m: "o_mem s p = Some (OverflowData l (chain_next ids) len chunk)"
    and v: "v = chunk @ v'" and rest: "overflow (o_mem s) len ids v'" by auto
  have range: "FIRST_DATA_PAGE \<le> p" "p \<le> o_high s" using pages_ok_range [OF Cons.prems(1), of p] by auto
  have p: "p \<notin> set ids" "p \<notin> set used" using Cons.prems(1) by (auto simp: pages_ok_def)
  have small: "length chunk \<le> usize_max" "unat t + length chunk < 2 ^ 64" using Cons.prems(5) v by (auto simp: usize_max_def)
  obtain t' where t': "checked_add_u64 t (of_nat (length chunk)) = Some t'" "unat t' = unat t + length chunk"
    using small checked_add_u64_Some [of t "of_nat (length chunk)"] unat_of_nat_u64 [OF small(1)]
    by (auto simp: checked_add_u64_def)
  let ?Q = "\<lambda>t' s'. unat t' = unat t + length v \<and> (\<exists>frees'. pages_ok s' used frees') \<and> keeps (- set (p # ids)) s s' \<and>
    o_root s' = o_root s \<and> grows 0 s s'"
  have "does env st0 (sbind (free_page p stamp) (\<lambda>_. free_chain env len stamp (chain_next ids) (insert p visited) t' (cnt + 1))) s ?Q F"
  proof (rule does_bind [OF does_free_page])
    show "pages_ok s (p # ids @ used) frees" using Cons.prems(1) by simp
    fix s1 assume s1: "pages_ok s1 (ids @ used) (p # frees)" "keeps (- {p}) s s1" "o_root s1 = o_root s" "grows 0 s s1"
    have "overflow (o_mem s1) len ids v'"
      using rest s1(2) p overflow_cong [of ids "o_mem s1" "o_mem s"] by (auto simp: keeps_def)
    then have "does env st0 (free_chain env len stamp (chain_next ids) (insert p visited) t' (cnt + 1)) s1
      (\<lambda>u s'. unat u = unat t' + length v' \<and> (\<exists>frees'. pages_ok s' used frees') \<and> keeps (- set ids) s1 s' \<and>
         o_root s' = o_root s1 \<and> grows 0 s1 s') F"
      using Cons.prems(3-5) t'(2) p v by (intro Cons.IH [OF s1(1)]) auto
    moreover have "keeps (- set (p # ids)) s s'" if "keeps (- set ids) s1 s'" for s' using that s1(2) by (auto simp: keeps_def)
    moreover have "grows 0 s s'" if "grows 0 s1 s'" for s' using grows_trans [OF s1(4) that] by simp
    ultimately show "does env st0 (free_chain env len stamp (chain_next ids) (insert p visited) t' (cnt + 1)) s1 ?Q F"
      by (elim does_weaken) (use t'(2) v s1(3) in auto)
  qed
  then show ?case
    unfolding chain_next_simps free_chain_Some
    using Cons.prems(3,4) by (auto intro!: does_page [OF m range] does_res_bind simp: t'(1) ok_or_def)
qed

lemma overflow_nonempty: "overflow mem len ids v \<Longrightarrow> ids \<noteq> [] \<Longrightarrow> v \<noteq> []"
  by (cases ids) auto

lemma does_free_value:
  assumes ok: "pages_ok s (ids @ used) frees" and row: "row_at (o_mem s) ids e st"
  shows "does env st0 (free_value env (le_value e) stamp) s (\<lambda>_ s'. (\<exists>frees'. pages_ok s' used frees') \<and>
    keeps (- set ids) s s' \<and> o_root s' = o_root s \<and> grows 0 s s') F" (is "does _ _ _ _ ?Q _")
proof (cases "\<exists>p len. le_value e = Some (Overflow p len)")
  case False
  then have "ids = []" using row by (auto simp: row_at_def split: option.splits value_ref.splits elim!: stores.elims)
  then have "?Q () s" using ok by (auto simp: keeps_def)
  moreover have "free_value env (le_value e) stamp = sret ()"
    using False by (auto simp: free_value_def split: option.splits value_ref.splits)
  ultimately show ?thesis by (simp only:) (rule does_ret)
next
  case True
  then obtain p len v where le: "le_value e = Some (Overflow p len)" and st: "stores (o_mem s) ids (Overflow p len) v"
    using row by (auto simp: row_at_def)
  then have head: "Some p = chain_next ids" and len: "unat len = length v" "v \<noteq> []"
    using overflow_nonempty by (cases ids; auto)+
  have "does env st0 (free_chain env len stamp (chain_next ids) {} 0 0) s (\<lambda>t' s'. unat t' = unat (0 :: u64) + length v \<and>
    (\<exists>frees'. pages_ok s' used frees') \<and> keeps (- set ids) s s' \<and> o_root s' = o_root s \<and> grows 0 s s') F"
    by (rule does_free_chain [OF ok]) (use st in \<open>auto simp: MAX_VALUE_SIZE_def\<close>)
  then have "does env st0 (sbind (free_chain env len stamp (Some p) {} 0 0) (\<lambda>t. sres (ensure (\<not> (t \<noteq> len \<or> len = 0)) Corruption))) s ?Q F"
    unfolding head
  proof (rule does_bind)
    fix t :: u64 and s' assume s': "unat t = unat (0 :: u64) + length v \<and> (\<exists>frees'. pages_ok s' used frees') \<and> keeps (- set ids) s s' \<and>
      o_root s' = o_root s \<and> grows 0 s s'"
    then have "t = len" using len by (simp add: word_unat_eq_iff)
    moreover have "len \<noteq> 0" using len by auto
    ultimately show "does env st0 (sres (ensure (\<not> (t \<noteq> len \<or> len = 0)) Corruption)) s' ?Q F"
      using s' by (intro does_res) (auto simp: ensure_def)
  qed
  then show ?thesis by (simp add: free_value_def le)
qed

lemma does_read_chain:
  assumes "pages_ok s used frees" and "set ids \<subseteq> set used" and "distinct ids" and "overflow (o_mem s) len ids v"
    and "set ids \<inter> visited = {}" and "cnt + length ids \<le> MAX_OVERFLOW_PAGES"
  shows "does env st0 (read_chain env len (chain_next ids) visited cnt out) s (\<lambda>r s'. r = out @ v \<and> s' = s) F"
  using assms
proof (induction ids arbitrary: visited cnt out v)
  case Nil
  then show ?case unfolding chain_next_simps read_chain_None by (intro does_ret) simp
next
  case (Cons p ids)
  from Cons.prems(4) obtain l chunk v' where m: "o_mem s p = Some (OverflowData l (chain_next ids) len chunk)"
    and v: "v = chunk @ v'" and rest: "overflow (o_mem s) len ids v'" by auto
  have range: "FIRST_DATA_PAGE \<le> p" "p \<le> o_high s" using pages_ok_range [OF Cons.prems(1), of p] Cons.prems(2) by auto
  have "does env st0 (read_chain env len (chain_next ids) (insert p visited) (cnt + 1) (out @ chunk)) s
    (\<lambda>r s'. r = (out @ chunk) @ v' \<and> s' = s) F"
    using Cons.prems rest by (intro Cons.IH) auto
  then show ?case
    unfolding chain_next_simps read_chain_Some v using Cons.prems(5,6) by (auto intro!: does_page [OF m range])
qed

lemma does_read_value:
  assumes "pages_ok s used frees" and "set ids \<subseteq> set used" and "distinct ids" and st: "stores (o_mem s) ids vref v"
    and k: "does env st0 (k v) s Q F"
  shows "does env st0 (sbind (read_value env vref) k) s Q F"
proof (rule does_bind [where R = "\<lambda>r s'. r = v \<and> s' = s"])
  show "does env st0 (read_value env vref) s (\<lambda>r s'. r = v \<and> s' = s) F"
  proof (cases vref)
    case (Inline bs)
    then show ?thesis using st unfolding Inline read_value.simps by (intro does_ret) simp
  next
    case (Overflow p len)
    then have head: "Some p = chain_next ids" and eq: "unat len = length v" using st by (cases ids; simp)+
    have len: "of_nat (length v) = len" unfolding eq [symmetric] by simp
    have "does env st0 (read_chain env len (chain_next ids) {} 0 []) s (\<lambda>r s'. r = [] @ v \<and> s' = s) F"
      by (rule does_read_chain [OF assms(1-3)]) (use st Overflow in auto)
    then show ?thesis
      unfolding Overflow read_value.simps head
      by (rule does_bind) (use len in \<open>auto intro!: does_res_bind does_ret simp: ensure_def\<close>)
  qed
qed (use k in auto)

end

end
