(* ===== verification/Dodb_Insert.thy ===== *)
theory Dodb_Insert
  imports Dodb_Values
begin

text \<open>
  Descent and insertion. \<open>find_leaf\<close> returns the leaf whose range contains the key together with
  the ids on the path; \<open>insert_separator\<close> and \<open>insert_leaf_entries\<close> turn a search tree into one
  whose leaves hold the new entries, splitting nodes on the way up.
\<close>

section \<open>Leaf chains\<close>

definition chain_head :: "(page_id \<times> leaf_entry list) list \<Rightarrow> page_id option \<Rightarrow> page_id option" where
  "chain_head ls tail = (case ls of [] \<Rightarrow> tail | l # _ \<Rightarrow> Some (fst l))"

fun linked :: "memory \<Rightarrow> (page_id \<times> leaf_entry list) list \<Rightarrow> page_id option \<Rightarrow> bool" where
  "linked mem [] tail \<longleftrightarrow> True"
| "linked mem (l # ls) tail \<longleftrightarrow>
     (\<exists>stamp. mem (fst l) = Some (LeafData stamp (chain_head ls tail) (snd l))) \<and> linked mem ls tail"

lemma chain_head_simps [simp]:
  "chain_head [] tail = tail" "chain_head (l # ls) tail = Some (fst l)"
  "chain_head (xs @ ys) tail = chain_head xs (chain_head ys tail)"
  by (simp_all add: chain_head_def split: list.splits)

lemma linked_append: "linked mem (xs @ ys) tail \<longleftrightarrow> linked mem xs (chain_head ys tail) \<and> linked mem ys tail"
  by (induction xs) simp_all

lemma linked_cong: "(\<And>p. p \<in> fst ` set ls \<Longrightarrow> mem' p = mem p) \<Longrightarrow> linked mem' ls tail \<longleftrightarrow> linked mem ls tail"
  by (induction ls) simp_all

section \<open>Separate pages\<close>

lemma leaves_distinct_holes:
  "distinct (ctx_pages hs) \<Longrightarrow> fst ` set (left_leaves hs @ right_leaves hs) \<inter> hole_id ` set hs = {}"
proof (induction hs)
  case (Cons h hs)
  let ?sub = "concat (map bt_pages (ltrees h)) @ concat (map bt_pages (rtrees h))"
  let ?ls = "concat (map bt_leaves (ltrees h)) @ concat (map bt_leaves (rtrees h))"
  have split: "(L \<union> S) \<inter> insert q H = {}"
    if "L \<inter> H = {}" "L \<subseteq> C" "H \<subseteq> C" "S \<subseteq> B" "B \<inter> C = {}" "q \<notin> B" "q \<notin> C" for L S H B C :: "page_id set" and q
    using that by blast
  have ctx_Cons: "ctx_pages (h # hs) = (hole_id h # ?sub) @ ctx_pages hs" by (simp add: ctx_pages_def hole_pages_def)
  have d: "distinct (ctx_pages hs)" "hole_id h \<notin> set ?sub" "set ?sub \<inter> set (ctx_pages hs) = {}" "hole_id h \<notin> set (ctx_pages hs)"
    using Cons.prems unfolding ctx_Cons distinct_append by simp_all
  have sub: "fst ` set ?ls \<subseteq> set ?sub" using leaves_pages by fastforce
  have ids: "hole_id ` set hs \<subseteq> set (ctx_pages hs)" by (auto simp: ctx_pages_def hole_pages_def)
  have "fst ` set (left_leaves (h # hs) @ right_leaves (h # hs)) =
      fst ` set (left_leaves hs @ right_leaves hs) \<union> fst ` set ?ls" by (simp add: image_Un Un_ac)
  then show ?case
    using split [OF Cons.IH [OF d(1)] left_leaves_pages ids sub d(3) d(2) d(4)] by simp
qed simp

section \<open>Widened nodes\<close>

lemma ordered_list_keys: "ordered_list lo hi ks ts \<Longrightarrow> sorted_wrt (<) ks \<and> (\<forall>k \<in> set ks. lo_lt lo (Some k))"
proof (induction ks arbitrary: lo ts)
  case (Cons k ks)
  then obtain t ts' where "ordered_list (Some k) hi ks ts'" and "lo_lt lo (Some k)" by (auto simp: ordered_list_Cons)
  then show ?case using Cons.IH [of "Some k" ts'] by (auto intro: lo_lt_trans)
qed simp

lemma bt_id_plug: "bt_id t = bt_id t' \<Longrightarrow> bt_id (plug t hs) = bt_id (plug t' hs)"
  by (induction hs arbitrary: t t') simp_all

lemma map_bt_id_widened: "map bt_id (widened_trees h l r) = map bt_id (ltrees h) @ bt_id l # bt_id r # map bt_id (rtrees h)"
  by (simp add: widened_trees_def)

lemma sum_weights_separators:
  "length ks \<le> length ids \<Longrightarrow> sum_list (map internal_weight (separators ks ids)) = (\<Sum>k\<leftarrow>ks. 20 + length k)"
  by (induction ks ids rule: list_induct2') (auto simp: internal_weight_def)

lemma separators_all:
  "length js = length ks \<Longrightarrow> (\<forall>e \<in> set (separators ks js). P (ie_right_child e) \<and> Q (ie_key e)) \<longleftrightarrow>
     (\<forall>j \<in> set js. P j) \<and> (\<forall>k \<in> set ks. Q k)"
  by (induction js ks rule: list_induct2) auto

lemma node_fits_iff:
  assumes "length ids = Suc (length ks)"
  shows "node_fits ks ids \<longleftrightarrow> (\<forall>i \<in> set ids. 2 \<le> i) \<and> sorted_wrt (<) ks \<and> (\<forall>k \<in> set ks. canonical k) \<and> (\<Sum>k\<leftarrow>ks. 20 + length k) \<le> 4032"
proof -
  obtain i js where ids: "ids = i # js" "length js = length ks" using assms by (cases ids) auto
  then show ?thesis using separators_all [OF ids(2), of "\<lambda>i. 2 \<le> i" canonical]
    by (auto simp: node_fits_def internal_fits_iff sum_weights_separators)
qed

text \<open>A node that fits, widened by one separator, either fits or can be split, unless one of its
  keys takes more than half of a page.\<close>

lemma widened_split_error:
  assumes h: "hole_wf h" and old: "node_fits (lkeys h @ rkeys h) (hole_ids h (bt_id l))"
    and ord: "ordered_list lo hi (widened_keys h sep) (widened_trees h l r)"
    and sep: "canonical sep" and r: "2 \<le> bt_id r"
    and over: "\<not> node_fits (widened_keys h sep) (map bt_id (widened_trees h l r))"
    and err: "choose_internal_split (hd (map bt_id (widened_trees h l r)))
      (separators (widened_keys h sep) (tl (map bt_id (widened_trees h l r)))) = Inl e"
  shows "e = InvalidInput \<and> (\<exists>k \<in> set (widened_keys h sep). 1996 < length k)"
proof -
  let ?ks = "widened_keys h sep" and ?ids = "map bt_id (widened_trees h l r)"
  let ?es = "separators ?ks (tl ?ids)"
  have len: "length ?ids = Suc (length ?ks)" using length_widened [OF h] by simp
  have len0: "length (hole_ids h (bt_id l)) = Suc (length (lkeys h @ rkeys h))" using h by (simp add: hole_wf_def hole_ids_def)
  have ids: "\<forall>i \<in> set ?ids. 2 \<le> i" and can: "\<forall>k \<in> set ?ks. canonical k"
    and sum: "(\<Sum>k\<leftarrow>?ks. 20 + length k) \<le> 4032 + (20 + length sep)"
    using old r sep unfolding node_fits_iff [OF len0] by (auto simp: widened_keys_def widened_trees_def hole_ids_def)
  have sorted: "sorted_wrt (<) ?ks" using ordered_list_keys [OF ord] by blast
  have "length ?es = length ?ks" "map ie_key ?es = ?ks" using len by simp_all
  have "\<exists>k \<in> set ?ks. 1996 < length k"
  proof (rule ccontr)
    assume light: "\<not> (\<exists>k \<in> set ?ks. 1996 < length k)"
    have weight: "internal_weight e \<le> 2016" if "e \<in> set ?es" for e
    proof -
      have "ie_key e \<in> set ?ks" using that \<open>map ie_key ?es = ?ks\<close> by (metis image_eqI list.set_map)
      then show ?thesis using light by (force simp: internal_weight_def)
    qed
    have "length (tl ?ids) = length ?ks" using len by simp
    moreover have "\<forall>j \<in> set (tl ?ids). 2 \<le> j" using ids by (metis list.sel(2) list.set_sel(2))
    ultimately have child: "2 \<le> ie_right_child e \<and> canonical (ie_key e)" if "e \<in> set ?es" for e
      using separators_all [of "tl ?ids" ?ks "\<lambda>i. 2 \<le> i" canonical] can that by blast
    have "length sep \<le> 1996" using light by (force simp: widened_keys_def)
    then have total: "sum_list (map internal_weight ?es) \<le> 4032 + 2016" using sum len by (simp add: sum_weights_separators)
    have "?ids \<noteq> []" using len by auto
    then have "2 \<le> hd ?ids" using ids list.set_sel(1) by blast
    moreover have "\<not> internal_fits (hd ?ids) ?es" using over by (simp add: node_fits_def)
    ultimately have "3 \<le> length ?es \<and> (\<exists>c. internal_split_ok (hd ?ids) ?es c)"
      using internal_split_exists [of ?es "hd ?ids"] sorted \<open>map ie_key ?es = ?ks\<close> child weight total by simp
    then show False using err by (auto simp: choose_internal_split_Inl)
  qed
  then show ?thesis using err by (simp add: choose_internal_split_Inl)
qed

text \<open>Splitting a widened node never leaves a half without separators.\<close>

lemma inner_prefix:
  fixes m :: nat
  assumes "sum_list (xs @ ys) \<le> m" and "x \<le> m" and "2 \<le> length (xs @ ys)"
  shows "\<exists>c > 0. Suc c < length (xs @ x # ys) \<and> sum_list (take c (xs @ x # ys)) \<le> m \<and> sum_list (drop (Suc c) (xs @ x # ys)) \<le> m"
proof -
  consider (first) y ys' where "xs = []" "ys = y # ys'" "ys' \<noteq> []" | (final) x' xs' where "ys = []" "xs = xs' @ [x']" "xs' \<noteq> []"
    | (inner) "xs \<noteq> []" "ys \<noteq> []"
  proof (cases "xs = [] \<or> ys = []")
    case True
    then show ?thesis
    proof
      assume "xs = []"
      with assms(3) that(1) show ?thesis by (cases ys; cases "tl ys") auto
    next
      assume "ys = []"
      with assms(3) that(2) show ?thesis by (cases xs rule: rev_cases; cases "butlast xs" rule: rev_cases) auto
    qed
  qed (use that in blast)
  then show ?thesis
  proof cases
    case first
    then show ?thesis using assms by (intro exI [of _ 1]) auto
  next
    case final
    then show ?thesis using assms by (intro exI [of _ "length xs'"]) auto
  next
    case inner
    then show ?thesis using assms by (intro exI [of _ "length xs"]) auto
  qed
qed

lemma widened_split_inner:
  assumes h: "hole_wf h" and old: "node_fits (lkeys h @ rkeys h) (hole_ids h (bt_id l))"
    and ord: "ordered_list lo hi (widened_keys h sep) (widened_trees h l r)"
    and sep: "canonical sep" "length sep \<le> 4012" and r: "2 \<le> bt_id r"
    and c: "choose_internal_split (hd (map bt_id (widened_trees h l r)))
      (separators (widened_keys h sep) (tl (map bt_id (widened_trees h l r)))) = Inr c"
  shows "Suc c < length (widened_keys h sep)"
proof -
  let ?ks = "widened_keys h sep" and ?ids = "map bt_id (widened_trees h l r)"
  let ?es = "separators ?ks (tl ?ids)"
  have len: "length ?ids = Suc (length ?ks)" using length_widened [OF h] by simp
  have len0: "length (hole_ids h (bt_id l)) = Suc (length (lkeys h @ rkeys h))" using h by (simp add: hole_wf_def hole_ids_def)
  have ids: "\<forall>i \<in> set ?ids. 2 \<le> i" and can: "\<forall>k \<in> set ?ks. canonical k"
    and sum: "(\<Sum>k\<leftarrow>lkeys h @ rkeys h. 20 + length k) \<le> 4032"
    using old r sep unfolding node_fits_iff [OF len0] by (auto simp: widened_keys_def widened_trees_def hole_ids_def)
  have sorted: "sorted_wrt (<) ?ks" using ordered_list_keys [OF ord] by blast
  have n: "3 \<le> length ?ks" using c len by (auto simp: choose_internal_split_def result_iff)
  have ws: "map (\<lambda>k. 20 + length k) (lkeys h) @ (20 + length sep) # map (\<lambda>k. 20 + length k) (rkeys h) = map (\<lambda>k. 20 + length k) ?ks"
    by (simp add: widened_keys_def)
  obtain d where d: "0 < d" "Suc d < length ?ks" "(\<Sum>k\<leftarrow>take d ?ks. 20 + length k) \<le> 4032" "(\<Sum>k\<leftarrow>drop (Suc d) ?ks. 20 + length k) \<le> 4032"
    using inner_prefix [of "map (\<lambda>k. 20 + length k) (lkeys h)" "map (\<lambda>k. 20 + length k) (rkeys h)" 4032 "20 + length sep"] sum sep(2) n
    unfolding ws take_map drop_map length_map by (auto simp: widened_keys_def)
  have "\<forall>i \<in> set (take (Suc d) ?ids) \<union> set (drop (Suc d) ?ids). 2 \<le> i" "\<forall>k \<in> set (take d ?ks) \<union> set (drop (Suc d) ?ks). canonical k"
    using ids can by (blast dest: in_set_takeD in_set_dropD)+
  then have part: "node_fits (take d ?ks) (take (Suc d) ?ids)" "node_fits (drop (Suc d) ?ks) (drop (Suc d) ?ids)"
    using d len sorted by (simp_all add: node_fits_iff)
  note e = split_node_entries [OF len Suc_lessD [OF d(2)]]
  have "internal_split_ok (hd ?ids) ?es d"
    using part d e len by (simp add: internal_split_ok_def node_fits_def)
  then show ?thesis using choose_internal_split_inner [OF c] d(2) len by simp
qed

section \<open>Inserting a separator\<close>

text \<open>A tree in which the child in the hole of \<open>hs\<close> has been split into \<open>l\<close> and \<open>r\<close>, with the
  separator not yet in the parent; \<open>others\<close> are the used pages outside the tree.\<close>

definition half_split :: "ostate \<Rightarrow> hole list \<Rightarrow> btree \<Rightarrow> bytes \<Rightarrow> btree \<Rightarrow> page_id list \<Rightarrow> page_id list \<Rightarrow> bool" where
  "half_split s hs l sep r others frees \<longleftrightarrow>
     list_all hole_wf hs \<and> rep_ctx (o_mem s) (bt_id l) hs \<and> ctx_ordered None None hs \<and> ctx_fits (bt_id l) hs \<and>
     rep (o_mem s) l \<and> rep (o_mem s) r \<and> bt_fits l \<and> bt_fits r \<and>
     ordered (fst (bounds None None hs)) (Some sep) l \<and> ordered (Some sep) (snd (bounds None None hs)) r \<and>
     lo_lt (fst (bounds None None hs)) (Some sep) \<and> lo_lt (Some sep) (snd (bounds None None hs)) \<and>
     canonical sep \<and> length sep \<le> 4012 \<and> o_root s = bt_id (plug l hs) \<and>
     pages_ok s (bt_pages l @ bt_pages r @ ctx_pages hs @ others) frees \<and> (\<exists>d. level d l \<and> level d r \<and> ctx_level d hs)"

text \<open>A complete tree with the given leaves.\<close>

definition rebuilt :: "ostate \<Rightarrow> page_id list \<Rightarrow> page_id set \<Rightarrow> (page_id \<times> leaf_entry list) list \<Rightarrow> bytes set \<Rightarrow> nat \<Rightarrow> ostate \<Rightarrow> bool" where
  "rebuilt s others kept leaves seps n s' \<longleftrightarrow>
     (\<exists>t frees. o_root s' = bt_id t \<and> rep (o_mem s') t \<and> ordered None None t \<and> bt_fits t \<and> balanced t \<and> bt_leaves t = leaves \<and>
        set (bt_seps t) \<subseteq> seps \<and> pages_ok s' (bt_pages t @ others) frees) \<and> keeps kept s s' \<and> grows n s s'"

lemma pages_ok_distinct: "pages_ok s used frees \<Longrightarrow> distinct used"
  by (simp add: pages_ok_def)

lemma rep_replaced: "p \<notin> set (bt_pages t) \<Longrightarrow> rep (m(p \<mapsto> d)) t \<longleftrightarrow> rep m t"
  by (rule rep_cong) auto

lemma rep_ctx_replaced: "p \<notin> set (ctx_pages hs) \<Longrightarrow> rep_ctx (m(p \<mapsto> d)) i hs \<longleftrightarrow> rep_ctx m i hs"
  by (rule rep_ctx_cong) auto

lemma ctx_pages_Cons: "ctx_pages (h # hs) = hole_id h # concat (map bt_pages (ltrees h)) @ concat (map bt_pages (rtrees h)) @ ctx_pages hs"
  by (simp add: ctx_pages_def hole_pages_def)

lemma new_root_ok:
  assumes s: "half_split s [] l sep r others frees" and s1: "pages_ok s1 (q # bt_pages l @ bt_pages r @ others) frees1"
    and m: "o_mem s1 = o_mem s" and g: "grows 1 s s1"
  shows "rebuilt s others (set (bt_pages l @ bt_pages r @ others)) (bt_leaves l @ bt_leaves r)
    (insert sep (set (bt_seps l) \<union> set (bt_seps r))) 1
    ((replaced s1 q (node_page stamp [sep] [bt_id l, bt_id r]))\<lparr>o_root := q\<rparr>)" (is "rebuilt _ _ _ _ _ _ ?s2")
proof -
  let ?t = "Node q [sep] [l, r]"
  have q: "q \<notin> set (bt_pages l)" "q \<notin> set (bt_pages r)" "q \<notin> set others" using s1 by (auto simp: pages_ok_def)
  have ids: "2 \<le> bt_id l" "2 \<le> bt_id r"
    using pages_ok_range [OF s1] bt_id_pages [of l] bt_id_pages [of r] by (auto simp: FIRST_DATA_PAGE_def)
  have "rep (o_mem ?s2) ?t"
    using s m q by (auto simp: half_split_def is_node_def rep_replaced)
  moreover have "ordered None None ?t" using s by (auto simp: half_split_def ordered_list_Cons)
  moreover have "bt_fits ?t"
    using s ids by (auto simp: half_split_def node_fits_iff)
  moreover have "pages_ok ?s2 (bt_pages ?t @ others) frees1"
    using pages_ok_replaced [OF s1, of q] by (simp add: pages_ok_def)
  moreover obtain d where "level d l" "level d r" using s by (auto simp: half_split_def)
  then have "level (Suc d) ?t" by simp
  then have "balanced ?t" unfolding balanced_def by blast
  ultimately have "\<exists>t frees. o_root ?s2 = bt_id t \<and> rep (o_mem ?s2) t \<and> ordered None None t \<and> bt_fits t \<and> balanced t \<and>
      bt_leaves t = bt_leaves l @ bt_leaves r \<and> set (bt_seps t) \<subseteq> insert sep (set (bt_seps l) \<union> set (bt_seps r)) \<and>
      pages_ok ?s2 (bt_pages t @ others) frees"
    by (intro exI [of _ ?t] exI [of _ frees1]) simp
  moreover have "keeps (set (bt_pages l @ bt_pages r @ others)) s ?s2" using m q by (auto simp: keeps_def)
  moreover have "grows 1 s ?s2" using g by (auto simp: grows_def)
  ultimately show ?thesis unfolding rebuilt_def by blast
qed

lemma half_split_widened:
  assumes s: "half_split s (h # hs) l sep r others frees"
  shows "ordered_list (fst (bounds None None hs)) (snd (bounds None None hs)) (widened_keys h sep) (widened_trees h l r)"
    "list_all (rep (o_mem s)) (widened_trees h l r)" "list_all bt_fits (widened_trees h l r)"
    "length (widened_trees h l r) = Suc (length (widened_keys h sep))"
    "pages_ok s (hole_id h # concat (map bt_pages (widened_trees h l r)) @ ctx_pages hs @ others) frees"
    "rep_ctx (o_mem s) (hole_id h) hs" "ctx_ordered None None hs" "ctx_fits (hole_id h) hs" "list_all hole_wf hs"
    "\<forall>k \<in> set (widened_keys h sep). canonical k \<and> length k \<le> 4012"
    "\<exists>d. list_all (level d) (widened_trees h l r) \<and> ctx_level (Suc d) hs"
proof -
  show "\<exists>d. list_all (level d) (widened_trees h l r) \<and> ctx_level (Suc d) hs"
    using s by (auto simp: half_split_def widened_trees_def)
  have h: "hole_wf h" "list_all hole_wf hs" using s by (simp_all add: half_split_def)
  then show "length (widened_trees h l r) = Suc (length (widened_keys h sep))" by (simp add: length_widened)
  show "ordered_list (fst (bounds None None hs)) (snd (bounds None None hs)) (widened_keys h sep) (widened_trees h l r)"
    using s h by (intro ordered_widened) (simp_all add: half_split_def)
  show "list_all (rep (o_mem s)) (widened_trees h l r)" "list_all bt_fits (widened_trees h l r)"
    using s by (simp_all add: half_split_def widened_trees_def)
  show "rep_ctx (o_mem s) (hole_id h) hs" "ctx_ordered None None hs" "ctx_fits (hole_id h) hs" "list_all hole_wf hs"
    using s by (simp_all add: half_split_def)
  have "pages_ok s (bt_pages l @ bt_pages r @ ctx_pages (h # hs) @ others) frees" using s by (simp add: half_split_def)
  then show "pages_ok s (hole_id h # concat (map bt_pages (widened_trees h l r)) @ ctx_pages hs @ others) frees"
    by (rule pages_ok_perm [THEN iffD1, rotated]) (simp add: ctx_pages_Cons widened_trees_def)
  have len: "length (hole_ids h (bt_id l)) = Suc (length (lkeys h @ rkeys h))" using h(1) by (simp add: hole_wf_def hole_ids_def)
  have fits: "node_fits (lkeys h @ rkeys h) (hole_ids h (bt_id l))" using s by (simp add: half_split_def)
  have "length k \<le> 4012" if "k \<in> set (lkeys h @ rkeys h)" for k
    using fits member_le_sum_list [of "20 + length k" "map (\<lambda>k. 20 + length k) (lkeys h @ rkeys h)"] that
    unfolding node_fits_iff [OF len] by fastforce
  then show "\<forall>k \<in> set (widened_keys h sep). canonical k \<and> length k \<le> 4012"
    using fits s unfolding node_fits_iff [OF len] by (auto simp: widened_keys_def half_split_def)
qed

lemma widen_ok:
  assumes s: "half_split s (h # hs) l sep r others frees"
    and fits: "node_fits (widened_keys h sep) (map bt_id (widened_trees h l r))"
  shows "rebuilt s others (set (bt_pages l @ bt_pages r @ ctx_pages (h # hs) @ others) - {hole_id h})
    (left_leaves (h # hs) @ bt_leaves l @ bt_leaves r @ right_leaves (h # hs))
    (insert sep (set (bt_seps l) \<union> set (bt_seps r) \<union> set (ctx_seps (h # hs)))) 0
    (replaced s (hole_id h) (node_page stamp (widened_keys h sep) (map bt_id (widened_trees h l r))))"
    (is "rebuilt _ _ _ _ ?seps _ ?s'")
proof -
  note w = half_split_widened [OF s]
  let ?n = "Node (hole_id h) (widened_keys h sep) (widened_trees h l r)"
  let ?t = "plug ?n hs"
  have fresh: "hole_id h \<notin> set (concat (map bt_pages (widened_trees h l r)))" "hole_id h \<notin> set (ctx_pages hs)"
    using w(5) by (auto simp: pages_ok_def)
  have "rep (o_mem ?s') ?n"
    using w(2,4) fresh(1) by (auto simp: is_node_def list_all_iff rep_replaced)
  moreover have "rep_ctx (o_mem ?s') (hole_id h) hs" using w(6) fresh(2) by (simp add: rep_ctx_replaced)
  ultimately have "rep (o_mem ?s') ?t" by (simp add: rep_plug)
  moreover have "ordered None None ?t" using w(1,7,9) by (simp add: ordered_plug)
  moreover have "bt_fits ?t" using w(3,8) fits by (simp add: fits_plug)
  moreover obtain d where "list_all (level d) (widened_trees h l r)" "ctx_level (Suc d) hs" using w(11) by blast
  then have "level (Suc d) ?n \<and> ctx_level (Suc d) hs" by (simp add: widened_keys_def)
  then have "balanced ?t" unfolding balanced_plug by blast
  moreover have "bt_leaves ?t = left_leaves (h # hs) @ bt_leaves l @ bt_leaves r @ right_leaves (h # hs)"
    by (simp add: leaves_plug widened_trees_def)
  moreover have "set (bt_seps ?t) \<subseteq> ?seps"
    by (auto simp: set_seps_plug ctx_seps_def widened_keys_def widened_trees_def)
  moreover have "pages_ok ?s' (bt_pages ?t @ others) frees"
  proof -
    have "pages_ok ?s' (hole_id h # concat (map bt_pages (widened_trees h l r)) @ ctx_pages hs @ others) frees"
      by (rule pages_ok_replaced [OF w(5)]) simp
    then show ?thesis by (rule pages_ok_perm [THEN iffD1, rotated]) (simp add: mset_pages_plug)
  qed
  moreover have "o_root ?s' = bt_id ?t" using s bt_id_plug [of ?n "fill h l" hs] by (simp add: half_split_def)
  ultimately show ?thesis unfolding rebuilt_def by (auto simp: keeps_def)
qed

lemma split_up_ok:
  assumes s: "half_split s (h # hs) l sep r others frees"
    and s1: "pages_ok s1 (q # bt_pages l @ bt_pages r @ ctx_pages (h # hs) @ others) frees1"
    and m: "o_mem s1 = o_mem s" "o_root s1 = o_root s"
    and c: "0 < c" "Suc c < length (widened_keys h sep)"
    and ks: "ks = widened_keys h sep" and ts: "ts = widened_trees h l r"
    and fits: "node_fits (take c ks) (map bt_id (take (Suc c) ts))" "node_fits (drop (Suc c) ks) (map bt_id (drop (Suc c) ts))"
  shows "half_split (replaced (replaced s1 (hole_id h) (node_page stamp (take c ks) (map bt_id (take (Suc c) ts)))) q
      (node_page stamp (drop (Suc c) ks) (map bt_id (drop (Suc c) ts)))) hs
    (Node (hole_id h) (take c ks) (take (Suc c) ts)) (ks ! c) (Node q (drop (Suc c) ks) (drop (Suc c) ts)) others frees1"
    (is "half_split ?s' hs ?l ?sep ?r others frees1")
proof -
  note w = half_split_widened [OF s, folded ks ts]
  have c': "c < length ks" using c ks by simp
  obtain d where "list_all (level d) ts" "ctx_level (Suc d) hs" using w(11) by blast
  then have "level (Suc d) ?l" "level (Suc d) ?r" "ctx_level (Suc d) hs"
    using c ks by (auto simp: list_all_iff dest: in_set_takeD in_set_dropD)
  then have lev: "\<exists>d. level d ?l \<and> level d ?r \<and> ctx_level d hs" by blast
  have parts: "concat (map bt_pages (take (Suc c) ts)) @ concat (map bt_pages (drop (Suc c) ts)) = concat (map bt_pages ts)"
    by (simp flip: concat_append map_append)
  have pages: "pages_ok s1 (q # hole_id h # concat (map bt_pages ts) @ ctx_pages hs @ others) frees1"
    by (rule pages_ok_perm [THEN iffD1, OF _ s1]) (simp add: ts widened_trees_def ctx_pages_Cons)
  then have d: "distinct (q # hole_id h # concat (map bt_pages ts) @ ctx_pages hs @ others)" by (rule pages_ok_distinct)
  have in_ts: "t \<in> set (take (Suc c) ts) \<Longrightarrow> t \<in> set ts" "t \<in> set (drop (Suc c) ts) \<Longrightarrow> t \<in> set ts" for t
    by (auto dest: in_set_takeD in_set_dropD)
  have rep: "rep (o_mem ?s') t" if "t \<in> set ts" for t
  proof -
    have "q \<notin> set (bt_pages t)" "hole_id h \<notin> set (bt_pages t)" using d that by auto
    then show ?thesis using w(2) that m(1) by (simp add: rep_replaced list_all_iff)
  qed
  have ord: "ordered_list (fst (bounds None None hs)) (Some ?sep) (take c ks) (take (Suc c) ts)"
    "ordered_list (Some ?sep) (snd (bounds None None hs)) (drop (Suc c) ks) (drop (Suc c) ts)"
    using split_node_ordered [OF w(1) c'] by auto
  have "pages_ok ?s' (q # hole_id h # concat (map bt_pages ts) @ ctx_pages hs @ others) frees1"
    by (intro pages_ok_replaced pages) auto
  then have "pages_ok ?s' (bt_pages ?l @ bt_pages ?r @ ctx_pages hs @ others) frees1"
    by (rule pages_ok_perm [THEN iffD1, rotated]) (simp flip: parts)
  moreover have "rep_ctx (o_mem ?s') (hole_id h) hs" using w(6) m(1) d by (simp add: rep_ctx_replaced)
  moreover have "rep (o_mem ?s') ?l" "rep (o_mem ?s') ?r"
    using rep in_ts w(4) c' d by (auto simp: is_node_def list_all_iff)
  moreover have "bt_fits ?l" "bt_fits ?r" using fits w(3) in_ts by (auto simp: list_all_iff)
  moreover have "o_root ?s' = bt_id (plug ?l hs)" using s m(2) bt_id_plug [of ?l "fill h l" hs] by (simp add: half_split_def)
  moreover have "canonical ?sep" "length ?sep \<le> 4012" using w(10) c' by auto
  ultimately show ?thesis
    unfolding half_split_def using w(7-9) ord ordered_list_bounds [OF ord(1)] ordered_list_bounds [OF ord(2)] lev by simp
qed

lemma widened_halves:
  assumes "length ids = Suc (length ks)" and "internal_split_ok (hd ids) (separators ks (tl ids)) c"
  shows "c < length ks" "node_fits (take c ks) (take (Suc c) ids)" "node_fits (drop (Suc c) ks) (drop (Suc c) ids)"
proof -
  show c: "c < length ks" using assms by (simp add: internal_split_ok_def)
  note e = split_node_entries [OF assms(1) c]
  show "node_fits (take c ks) (take (Suc c) ids)" "node_fits (drop (Suc c) ks) (drop (Suc c) ids)"
    using assms(2) e by (simp_all add: internal_split_ok_def node_fits_def)
qed

lemma rebuilt_after:
  assumes "rebuilt s1 others K1 leaves seps1 n s'" and "keeps K s s1" and "K \<subseteq> K1" and "seps1 \<subseteq> seps" and "grows m s s1" and "m + n \<le> k"
  shows "rebuilt s others K leaves seps k s'"
proof -
  have "keeps K s s'" using assms keeps_mono keeps_trans by (meson rebuilt_def)
  moreover have "grows k s s'" using grows_trans [OF assms(5), of n s'] assms(1,6) by (auto simp: rebuilt_def grows_def)
  moreover have "\<exists>t frees. o_root s' = bt_id t \<and> rep (o_mem s') t \<and> ordered None None t \<and> bt_fits t \<and> balanced t \<and> bt_leaves t = leaves \<and>
      set (bt_seps t) \<subseteq> seps \<and> pages_ok s' (bt_pages t @ others) frees"
  proof -
    obtain t frees where t: "o_root s' = bt_id t" "rep (o_mem s') t" "ordered None None t" "bt_fits t" "balanced t" "bt_leaves t = leaves"
      "set (bt_seps t) \<subseteq> seps1" "pages_ok s' (bt_pages t @ others) frees" using assms(1) unfolding rebuilt_def by blast
    then show ?thesis by - (rule exI [of _ t], rule exI [of _ frees], use assms(4) in auto)
  qed
  ultimately show ?thesis by (simp add: rebuilt_def)
qed

lemma split_seps:
  "c < length ks \<Longrightarrow> insert (ks ! c) (set (bt_seps (Node p (take c ks) (take (Suc c) ts))) \<union>
     set (bt_seps (Node q (drop (Suc c) ks) (drop (Suc c) ts)))) \<subseteq> set (bt_seps (Node p ks ts))"
  by (auto dest: in_set_takeD in_set_dropD)

section \<open>Replacing the entries of a leaf\<close>

text \<open>The tree around the leaf \<open>p\<close>, and entries that may be stored there.\<close>

definition around_leaf :: "ostate \<Rightarrow> hole list \<Rightarrow> page_id \<Rightarrow> page_id list \<Rightarrow> page_id list \<Rightarrow> bool" where
  "around_leaf s hs p others frees \<longleftrightarrow>
     list_all hole_wf hs \<and> rep_ctx (o_mem s) p hs \<and> ctx_ordered None None hs \<and> ctx_fits p hs \<and>
     o_root s = bt_id (plug (Leaf p []) hs) \<and> pages_ok s (p # ctx_pages hs @ others) frees \<and>
     linked (o_mem s) (left_leaves hs) (Some p) \<and> linked (o_mem s) (right_leaves hs) None \<and> ctx_level 0 hs"

definition leaf_entries_ok :: "hole list \<Rightarrow> leaf_entry list \<Rightarrow> bool" where
  "leaf_entries_ok hs es \<longleftrightarrow> sorted_wrt (<) (map le_key es) \<and>
     (\<forall>e \<in> set es. canonical (le_key e) \<and> in_range (fst (bounds None None hs)) (snd (bounds None None hs)) (le_key e))"

lemma around_leaf_holes:
  assumes "around_leaf s hs p others frees"
  shows "fst ` set (left_leaves hs @ right_leaves hs) \<subseteq> set (ctx_pages hs @ others) - hole_id ` set hs" "p \<notin> set (ctx_pages hs)"
    "p \<notin> hole_id ` set hs" "p \<notin> set others" "set others \<inter> hole_id ` set hs = {}"
proof -
  have d: "distinct (p # ctx_pages hs @ others)" 
    using assms pages_ok_distinct [of s "p # ctx_pages hs @ others" frees] by (simp add: around_leaf_def)
  then have dc: "distinct (ctx_pages hs)" by simp
  have ids: "hole_id ` set hs \<subseteq> set (ctx_pages hs)" by (auto simp: ctx_pages_def hole_pages_def)
  show "fst ` set (left_leaves hs @ right_leaves hs) \<subseteq> set (ctx_pages hs @ others) - hole_id ` set hs"
    using leaves_distinct_holes [OF dc] left_leaves_pages [of hs] by (simp only: set_append) blast
  show "p \<notin> set (ctx_pages hs)" "p \<notin> hole_id ` set hs" "p \<notin> set others" "set others \<inter> hole_id ` set hs = {}" using d ids by auto
qed

lemma leaf_fits_ok:
  assumes s: "around_leaf s hs p others frees" and es: "leaf_entries_ok hs es" and fits: "leaf_fits es"
    and nx: "nx = chain_head (right_leaves hs) None"
  shows "rebuilt s others (set others) (left_leaves hs @ [(p, es)] @ right_leaves hs) (set (ctx_seps hs)) 0
      (replaced s p (LeafData stamp nx es)) \<and>
    linked (o_mem (replaced s p (LeafData stamp nx es))) (left_leaves hs @ [(p, es)] @ right_leaves hs) None" (is "rebuilt _ _ _ _ _ _ ?s' \<and> ?linked")
proof -
  let ?t = "plug (Leaf p es) hs"
  note p = around_leaf_holes [OF s]
  have "rep (o_mem ?s') ?t" using s p by (simp add: rep_plug around_leaf_def rep_ctx_replaced)
  moreover have "ordered None None ?t" using s es by (simp add: ordered_plug around_leaf_def leaf_entries_ok_def)
  moreover have "bt_fits ?t" using s fits by (simp add: fits_plug around_leaf_def)
  moreover have "balanced ?t" using s by (auto simp: balanced_plug around_leaf_def)
  moreover have "pages_ok ?s' (bt_pages ?t @ others) frees"
  proof -
    have "pages_ok ?s' (p # ctx_pages hs @ others) frees" using s by (intro pages_ok_replaced) (auto simp: around_leaf_def)
    then show ?thesis by (rule pages_ok_perm [THEN iffD1, rotated]) (simp add: mset_pages_plug)
  qed
  moreover have "o_root ?s' = bt_id ?t" using s bt_id_plug [of "Leaf p es" "Leaf p []" hs] by (simp add: around_leaf_def)
  moreover have "set (bt_seps ?t) \<subseteq> set (ctx_seps hs)" by (simp add: set_seps_plug)
  moreover have "keeps (set others) s ?s'" using p by (auto simp: keeps_def)
  ultimately have "rebuilt s others (set others) (left_leaves hs @ [(p, es)] @ right_leaves hs) (set (ctx_seps hs)) 0 ?s'"
    unfolding rebuilt_def using leaves_plug [of "Leaf p es" hs] by auto
  moreover have "q \<noteq> p" if "q \<in> fst ` set (left_leaves hs) \<union> fst ` set (right_leaves hs)" for q using that p by auto
  then have "linked (o_mem ?s') (left_leaves hs) (Some p)" "linked (o_mem ?s') (right_leaves hs) None"
    using s linked_cong [of "left_leaves hs" "o_mem ?s'" "o_mem s"] linked_cong [of "right_leaves hs" "o_mem ?s'" "o_mem s"]
    by (auto simp: around_leaf_def)
  then have ?linked using nx by (simp add: linked_append)
  ultimately show ?thesis by blast
qed

lemma leaf_halves_ordered:
  assumes es: "leaf_entries_ok hs es" and c: "0 < c" "c < length es" and sep: "sep = le_key (es ! c)"
  shows "ordered (fst (bounds None None hs)) (Some sep) (Leaf p (take c es))"
    "ordered (Some sep) (snd (bounds None None hs)) (Leaf q (drop c es))"
    "lo_lt (fst (bounds None None hs)) (Some sep)" "lo_lt (Some sep) (snd (bounds None None hs))" "canonical sep"
proof -
  let ?lo = "fst (bounds None None hs)" and ?hi = "snd (bounds None None hs)"
  have sorted: "sorted_wrt (<) (map le_key es)" and each: "\<And>e. e \<in> set es \<Longrightarrow> in_range ?lo ?hi (le_key e)"
    and can: "\<And>e. e \<in> set es \<Longrightarrow> canonical (le_key e)" using es by (auto simp: leaf_entries_ok_def)
  have less: "le_key (es ! i) < le_key (es ! j)" if "i < j" "j < length es" for i j
    using sorted_wrt_nth_less [OF sorted, of i j] that by simp
  have left: "le_key e < sep" if e: "e \<in> set (take c es)" for e
  proof -
    obtain i where i: "i < length (take c es)" "e = take c es ! i" using e by (metis in_set_conv_nth)
    then have "e = es ! i" "i < c" by simp_all
    then show ?thesis using less [of i c] c(2) sep by simp
  qed
  have right: "sep \<le> le_key e" if e: "e \<in> set (drop c es)" for e
  proof -
    obtain i where i: "i < length (drop c es)" "e = drop c es ! i" using e by (metis in_set_conv_nth)
    then have i: "e = es ! (c + i)" "c + i < length es" by simp_all
    show ?thesis
    proof (cases "i = 0")
      case False
      then show ?thesis using i less [of c "c + i"] sep by simp
    qed (use i sep in simp)
  qed
  have at: "in_range ?lo ?hi sep" "canonical sep" using each can c(2) sep by simp_all
  have "es ! 0 \<in> set es" using c by (intro nth_mem) linarith
  then have first: "in_range ?lo ?hi (le_key (es ! 0))" "le_key (es ! 0) < sep" using each c less [of 0 c] sep by blast+
  show "ordered ?lo (Some sep) (Leaf p (take c es))"
    using sorted_wrt_map_take [OF sorted] left each by (auto dest: in_set_takeD split: option.splits)
  show "ordered (Some sep) ?hi (Leaf q (drop c es))"
    using sorted_wrt_map_drop [OF sorted] right each by (auto dest: in_set_dropD split: option.splits)
  show "lo_lt ?lo (Some sep)" using first by (cases ?lo) auto
  show "lo_lt (Some sep) ?hi" using at by (cases ?hi) auto
  show "canonical sep" by (rule at(2))
qed

lemma leaf_split_half:
  assumes s: "around_leaf s hs p others frees" and es: "leaf_entries_ok hs es" and c: "leaf_split_ok es c"
    and s1: "pages_ok s1 (q # p # ctx_pages hs @ others) frees1" "o_mem s1 = o_mem s" "o_root s1 = o_root s"
  shows "half_split (replaced (replaced s1 p (LeafData stamp (Some q) (take c es))) q (LeafData stamp nx (drop c es))) hs
    (Leaf p (take c es)) (le_key (es ! c)) (Leaf q (drop c es)) others frees1" (is "half_split ?s' _ _ _ _ _ _")
proof -
  have c': "0 < c" "c < length es" using c by (auto simp: leaf_split_ok_def)
  note ord = leaf_halves_ordered [OF es c' refl]
  have d: "distinct (q # p # ctx_pages hs @ others)" by (rule pages_ok_distinct [OF s1(1)])
  have "pages_ok ?s' (q # p # ctx_pages hs @ others) frees1" by (intro pages_ok_replaced s1(1)) auto
  then have "pages_ok ?s' (bt_pages (Leaf p (take c es)) @ bt_pages (Leaf q (drop c es)) @ ctx_pages hs @ others) frees1"
    by (rule pages_ok_perm [THEN iffD1, rotated]) simp
  moreover have "rep_ctx (o_mem ?s') p hs" using s s1(2) d by (simp add: around_leaf_def rep_ctx_replaced)
  moreover have "o_root ?s' = bt_id (plug (Leaf p (take c es)) hs)"
    using s s1(3) bt_id_plug [of "Leaf p (take c es)" "Leaf p []" hs] by (simp add: around_leaf_def)
  moreover have "length (le_key (es ! c)) \<le> 4012"
  proof -
    have "es ! c \<in> set (drop c es)" using c'(2) by (metis Cons_nth_drop_Suc list.set_intros(1))
    then have "leaf_weight (es ! c) \<le> sum_list (map leaf_weight (drop c es))" by (intro member_le_sum_list) auto
    then show ?thesis using c by (auto simp: leaf_split_ok_def leaf_fits_iff leaf_weight_def)
  qed
  ultimately show ?thesis
    unfolding half_split_def using s ord c d by (auto simp: around_leaf_def leaf_split_ok_def)
qed

lemma leaf_split_error:
  assumes es: "leaf_entries_ok hs es" and over: "\<not> leaf_fits es" and err: "choose_leaf_split es = Inl e"
    and total: "(\<forall>e \<in> set es. leaf_weight e \<le> 2016) \<longrightarrow> sum_list (map leaf_weight es) \<le> 4032 + 2016"
  shows "e = InvalidInput \<and> (\<exists>e \<in> set es. 2016 < leaf_weight e)"
proof -
  have "\<exists>c. leaf_split_ok es c" if "\<forall>e \<in> set es. leaf_weight e \<le> 2016"
    using that es total by (intro leaf_split_exists [OF _ _ over]) (auto simp: leaf_entries_ok_def)
  then show ?thesis using err unfolding choose_leaf_split_Inl by (metis not_le)
qed

definition leaf_replaced :: "ostate \<Rightarrow> hole list \<Rightarrow> page_id list \<Rightarrow> leaf_entry list \<Rightarrow> ostate \<Rightarrow> bool" where
  "leaf_replaced s hs others es s' \<longleftrightarrow>
     (\<exists>ls. concat (map snd ls) = es \<and>
        rebuilt s others (set others) (left_leaves hs @ ls @ right_leaves hs) (set (ctx_seps hs) \<union> le_key ` set es) (length hs + 2) s' \<and>
        linked (o_mem s') (left_leaves hs @ ls @ right_leaves hs) None) \<and> o_dirty s' \<noteq> []"

lemma leaf_split_linked:
  assumes s: "around_leaf s hs p others frees" and m: "o_mem s1 = o_mem s" and q: "q \<notin> set (p # ctx_pages hs @ others)"
    and up: "keeps (set (p # q # ctx_pages hs @ others) - hole_id ` set hs)
      (replaced (replaced s1 p (LeafData stamp (Some q) L)) q (LeafData stamp (chain_head (right_leaves hs) None) R)) s'"
    and qh: "q \<notin> hole_id ` set hs"
  shows "linked (o_mem s') (left_leaves hs @ [(p, L), (q, R)] @ right_leaves hs) None"
proof -
  let ?s3 = "replaced (replaced s1 p (LeafData stamp (Some q) L)) q (LeafData stamp (chain_head (right_leaves hs) None) R)"
  note p = around_leaf_holes [OF s]
  have "o_mem s' x = o_mem s x" if x: "x \<in> fst ` set (left_leaves hs) \<union> fst ` set (right_leaves hs)" for x
  proof -
    have "x \<in> set (ctx_pages hs @ others) - hole_id ` set hs" using x p(1) by auto
    moreover have "x \<noteq> p" "x \<noteq> q" using calculation p q by auto
    ultimately show ?thesis using up m by (auto simp: keeps_def)
  qed
  then have "linked (o_mem s') (left_leaves hs) (Some p)" "linked (o_mem s') (right_leaves hs) None"
    using s linked_cong [of "left_leaves hs" "o_mem s'" "o_mem s"] linked_cong [of "right_leaves hs" "o_mem s'" "o_mem s"]
    by (auto simp: around_leaf_def)
  moreover have "o_mem s' p = o_mem ?s3 p" "o_mem s' q = o_mem ?s3 q" using up p(3) qh by (auto simp: keeps_def)
  moreover have "p \<noteq> q" using q by auto
  ultimately show ?thesis by (simp add: linked_append)
qed

lemma leaf_split_done:
  assumes s: "around_leaf s hs p others frees" and c: "c < length es"
    and s1: "pages_ok s1 (q # p # ctx_pages hs @ others) frees1" "o_mem s1 = o_mem s" "grows 1 s s1"
    and s3: "s3 = replaced (replaced s1 p (LeafData stamp (Some q) (take c es))) q
      (LeafData stamp (chain_head (right_leaves hs) None) (drop c es))"
    and up: "rebuilt s3 others (set ([p] @ [q] @ ctx_pages hs @ others) - hole_id ` set hs)
      (left_leaves hs @ [(p, take c es)] @ [(q, drop c es)] @ right_leaves hs)
      (insert (le_key (es ! c)) (set (ctx_seps hs))) (Suc (length hs)) s'"
  shows "leaf_replaced s hs others es s'"
proof -
  have q: "q \<notin> set (p # ctx_pages hs @ others)" using pages_ok_distinct [OF s1(1)] by simp
  have qh: "q \<notin> hole_id ` set hs" using q by (auto simp: ctx_pages_def hole_pages_def)
  note p = around_leaf_holes [OF s]
  have "keeps (set (p # q # ctx_pages hs @ others) - hole_id ` set hs) s3 s'" using up by (simp add: rebuilt_def insert_commute)
  then have link: "linked (o_mem s') (left_leaves hs @ [(p, take c es), (q, drop c es)] @ right_leaves hs) None"
    unfolding s3 by (rule leaf_split_linked [OF s s1(2) q _ qh])
  have keep: "keeps (set others) s s3" using p(4) q s1(2) by (auto simp: keeps_def s3)
  have grow: "grows 1 s s3" using s1(3) by (auto simp: s3 grows_def)
  have "rebuilt s others (set others) (left_leaves hs @ [(p, take c es)] @ [(q, drop c es)] @ right_leaves hs)
      (set (ctx_seps hs) \<union> le_key ` set es) (length hs + 2) s'"
    by (rule rebuilt_after [OF up keep _ _ grow]) (use p(5) c in auto)
  moreover have "set (o_dirty s3) \<subseteq> set (o_dirty s')" "q \<in> set (o_dirty s3)" using up by (simp_all add: rebuilt_def grows_def s3)
  then have "o_dirty s' \<noteq> []" by auto
  ultimately show ?thesis
    using link unfolding leaf_replaced_def by (intro conjI exI [of _ "[(p, take c es), (q, drop c es)]"]) simp_all
qed

section \<open>Descent\<close>

lemma find_leaf_loop_eq:
  "find_leaf_loop env key pid route visited =
     (if pid \<in> visited then sfail Corruption
      else sbind (overlay_page env pid) (\<lambda>d.
        case d of
          LeafData l nx es \<Rightarrow> sret (pid, route @ [pid])
        | InternalData l leftmost es \<Rightarrow> find_leaf_loop env key (child_for key leftmost es) (route @ [pid]) (insert pid visited)
        | _ \<Rightarrow> sfail Corruption))"
  by (rule ext, subst find_leaf_loop.simps)
    (auto simp: sbind_def split: prod.splits sum.splits page_data.splits)

text \<open>The leaf \<open>p\<close> at the end of the path \<open>path\<close> is the one whose range contains the key.\<close>

definition found :: "btree \<Rightarrow> bytes option \<Rightarrow> bytes option \<Rightarrow> bytes \<Rightarrow> page_id \<Rightarrow> page_id list \<Rightarrow> bool" where
  "found t lo hi key p path \<longleftrightarrow>
     (\<exists>es hs. t = plug (Leaf p es) hs \<and> list_all hole_wf hs \<and> path = map hole_id (rev hs) @ [p] \<and>
        in_range (fst (bounds lo hi hs)) (snd (bounds lo hi hs)) key)"

lemma bounds_snoc: "bounds lo hi (hs @ [h]) = bounds (low lo (lkeys h)) (high hi (rkeys h)) hs"
  by (induction hs) simp_all

lemma found_leaf: "in_range lo hi key \<Longrightarrow> found (Leaf p es) lo hi key p [p]"
  unfolding found_def by (rule exI [of _ es], rule exI [of _ "[]"]) simp

lemma found_node:
  assumes "found t (low lo (lkeys h)) (high hi (rkeys h)) key p path" and "hole_wf h"
  shows "found (fill h t) lo hi key p (hole_id h # path)"
proof -
  obtain es hs where "t = plug (Leaf p es) hs" "list_all hole_wf hs" "path = map hole_id (rev hs) @ [p]"
    "in_range (fst (bounds (low lo (lkeys h)) (high hi (rkeys h)) hs)) (snd (bounds (low lo (lkeys h)) (high hi (rkeys h)) hs)) key"
    using assms(1) unfolding found_def by blast
  then show ?thesis
    unfolding found_def
    by - (rule exI [of _ es], rule exI [of _ "hs @ [h]"], use assms(2) in \<open>simp add: plug_append bounds_snoc del: in_range.simps\<close>)
qed

context reliable_file
begin

lemma does_find_leaf_loop:
  assumes "rep (o_mem s) t" and "ordered lo hi t" and "in_range lo hi key" and "set (bt_pages t) \<subseteq> {FIRST_DATA_PAGE..o_high s}"
    and "distinct (bt_pages t)" and "set (bt_pages t) \<inter> visited = {}"
  shows "does env st0 (find_leaf_loop env key (bt_id t) route visited) s
    (\<lambda>r s'. s' = s \<and> (\<exists>path. snd r = route @ path \<and> found t lo hi key (fst r) path)) F"
  using assms
proof (induction t arbitrary: lo hi route visited)
  case (Leaf p es)
  then obtain l nx where m: "o_mem s p = Some (LeafData l nx es)" by auto
  have "does env st0 (sret (p, route @ [p])) s
    (\<lambda>r s'. s' = s \<and> (\<exists>path. snd r = route @ path \<and> found (Leaf p es) lo hi key (fst r) path)) F"
    using found_leaf [OF Leaf.prems(3), of p es] by (intro does_ret) simp
  then show ?case
    using Leaf.prems(4,6) by (subst find_leaf_loop_eq) (auto intro!: does_page [OF m])
next
  case (Node p ks ts)
  have ord: "ordered_list lo hi ks ts" using Node.prems(2) by simp
  obtain h t where h: "hole_wf h" "ks = lkeys h @ rkeys h" "ts = ltrees h @ t # rtrees h"
    "child_for key (bt_id (hd ts)) (separators ks (map bt_id (tl ts))) = bt_id t"
    "in_range (low lo (lkeys h)) (high hi (rkeys h)) key"
    using child_for_hole [OF ord Node.prems(3)] by blast
  have t: "t \<in> set ts" using h by simp
  obtain l where m: "o_mem s p = Some (node_page l ks (map bt_id ts))" using Node.prems(1) by (auto simp: is_node_def)
  have ne: "ts \<noteq> []" using t by auto
  have child: "child_for key (hd (map bt_id ts)) (separators ks (tl (map bt_id ts))) = bt_id t"
    using h(4) ne by (simp add: hd_map map_tl)
  let ?h = "Hole p (lkeys h) (ltrees h) (rkeys h) (rtrees h)"
  have node: "Node p ks ts = fill ?h t" and wf: "hole_wf ?h" using h by (simp_all add: fill_def hole_wf_def)
  have ord_t: "ordered (low lo (lkeys h)) (high hi (rkeys h)) t"
    using Node.prems(2) unfolding node ordered_fill [OF wf] by simp
  have dis: "distinct (bt_pages t)" "p \<notin> set (bt_pages t)" "set (bt_pages t) \<subseteq> set (bt_pages (Node p ks ts))"
    using Node.prems(5) t by (auto simp: distinct_concat_iff)
  have up: "found (Node p ks ts) lo hi key q (p # path)"
    if "found t (low lo (lkeys h)) (high hi (rkeys h)) key q path" for q path
    using found_node [of t lo ?h hi key q path] that wf node by simp
  have "does env st0 (find_leaf_loop env key (bt_id t) (route @ [p]) (insert p visited)) s
    (\<lambda>r s'. s' = s \<and> (\<exists>path. snd r = (route @ [p]) @ path \<and> found t (low lo (lkeys h)) (high hi (rkeys h)) key (fst r) path)) F"
    using Node.prems dis t by (intro Node.IH [OF t _ ord_t h(5)]) (auto simp: list_all_iff)
  then have step: "does env st0 (find_leaf_loop env key (bt_id t) (route @ [p]) (insert p visited)) s
    (\<lambda>r s'. s' = s \<and> (\<exists>path. snd r = route @ path \<and> found (Node p ks ts) lo hi key (fst r) path)) F"
    by (rule does_weaken) (use up in fastforce)+
  then show ?case
    using Node.prems(4,6) child m
    by (subst find_leaf_loop_eq) (auto intro!: does_page [OF m] simp: node_page_def)
qed

section \<open>Separators\<close>

lemma does_replace_bind: "does env st0 (k ()) (replaced s p d) Q F \<Longrightarrow> does env st0 (sbind (replace_page p d) k) s Q F"
  by (rule does_bind [OF does_replace [where Q = "\<lambda>_ s'. s' = replaced s p d"]]) auto

lemma does_new_root:
  assumes s: "half_split s [] l sep r others frees" and full: "\<not> room 1 s \<Longrightarrow> F InternalInvariantViolation s"
  shows "does env st0 (insert_separator env [] sep (bt_id r) stamp) s
    (\<lambda>_. rebuilt s others (set (bt_pages l @ bt_pages r @ others)) (bt_leaves l @ bt_leaves r)
       (insert sep (set (bt_seps l) \<union> set (bt_seps r))) 1) F" (is "does _ _ _ _ ?Q _")
  unfolding insert_separator.simps
proof (rule does_allocate)
  show "pages_ok s (bt_pages l @ bt_pages r @ others) frees" using s by (simp add: half_split_def ctx_pages_def)
  fix q s1 frees1
  assume s1: "pages_ok s1 (q # bt_pages l @ bt_pages r @ others) frees1" "o_mem s1 = o_mem s" "o_root s1 = o_root s" "grows 1 s s1"
  let ?d = "InternalData stamp (bt_id l) [\<lparr>ie_key = sep, ie_right_child = bt_id r\<rparr>]"
  let ?s2 = "replaced s1 q ?d"
  have h: "holds env st0 (?s2\<lparr>o_root := q\<rparr>) (ov\<lparr>ov_root_page_id := q\<rparr>)" if "holds env st0 ?s2 ov" for ov
    by (rule holds_meta [OF that]) (use holds_fields [OF that] in simp_all)
  have "?Q () (?s2\<lparr>o_root := q\<rparr>)"
    using new_root_ok [OF s s1(1,2,4), of stamp] by (simp add: node_page_def)
  then have set_root: "does env st0 (smod (\<lambda>ov. ov\<lparr>ov_root_page_id := q\<rparr>)) ?s2 ?Q F"
    by (intro does_mod [OF h])
  have "o_root s1 = bt_id l" using s s1(3) by (simp add: half_split_def)
  then have "Inr (ov_root_page_id ov) = Inr (bt_id l)" if "holds env st0 s1 ov" for ov
    using holds_fields(1) [OF that] by simp
  then show "does env st0 (sbind (sget (\<lambda>ov. Inr (ov_root_page_id ov))) (\<lambda>root.
      sbind (replace_page q (InternalData stamp root [\<lparr>ie_key = sep, ie_right_child = bt_id r\<rparr>])) (\<lambda>_.
      smod (\<lambda>ov. ov\<lparr>ov_root_page_id := q\<rparr>)))) s1 ?Q F"
    by (intro does_known [of env st0 s1 _ "bt_id l"] does_replace_bind) (use set_root in simp_all)
qed (rule full)

text \<open>Splitting the parent hands two half nodes and a separator to the continuation.\<close>

lemma does_split_node:
  assumes s: "half_split s (h # hs) l sep r others frees"
    and ks: "ks = widened_keys h sep" and ts: "ts = widened_trees h l r" and ids: "ids = map bt_id ts" and es: "es = separators ks (tl ids)"
    and over: "\<not> node_fits ks ids"
    and full: "\<not> room 1 s \<Longrightarrow> F InternalInvariantViolation s"
    and heavy: "\<And>k. k \<in> set ks \<Longrightarrow> 1996 < length k \<Longrightarrow> F InvalidInput s"
    and step: "\<And>s3 A B c frees3. half_split s3 hs A (ks ! c) B others frees3 \<Longrightarrow> c < length ks \<Longrightarrow>
      keeps (set (bt_pages l @ bt_pages r @ ctx_pages (h # hs) @ others) - {hole_id h}) s s3 \<Longrightarrow> grows 1 s s3 \<Longrightarrow>
      bt_leaves A @ bt_leaves B = concat (map bt_leaves ts) \<Longrightarrow>
      set (bt_pages A @ bt_pages B) \<supseteq> set (concat (map bt_pages ts)) \<Longrightarrow>
      insert (ks ! c) (set (bt_seps A) \<union> set (bt_seps B)) \<subseteq> set (bt_seps (Node (hole_id h) ks ts)) \<Longrightarrow>
      does env st0 (k (ks ! c) (bt_id B)) s3 Q F"
  shows "does env st0 (sbind (sres (choose_internal_split (hd ids) es)) (\<lambda>split.
       sbind (allocate_page env) (\<lambda>right_id.
       sbind (sres (ensure (\<not> (\<not> internal_fits (hd ids) (take split es)
                \<or> \<not> internal_fits (ie_right_child (es ! split)) (drop (split + 1) es))) InvalidInput)) (\<lambda>_.
       sbind (replace_page (hole_id h) (InternalData stamp (hd ids) (take split es))) (\<lambda>_.
       sbind (replace_page right_id (InternalData stamp (ie_right_child (es ! split)) (drop (split + 1) es))) (\<lambda>_.
       k (ie_key (es ! split)) right_id)))))) s Q F"
proof (rule does_res_bind)
  note w = half_split_widened [OF s, folded ks ts]
  have len: "length ids = Suc (length ks)" using w(4) ids by simp
  have fits: "node_fits (lkeys h @ rkeys h) (hole_ids h (bt_id l))" "hole_wf h" "canonical sep" "length sep \<le> 4012"
    using s by (simp_all add: half_split_def)
  have r2: "2 \<le> bt_id r" using pages_ok_range [OF w(5), of "bt_id r"] bt_id_pages [of r]
    by (auto simp: ts widened_trees_def FIRST_DATA_PAGE_def)
  show "F e s" if "choose_internal_split (hd ids) es = Inl e" for e
    using widened_split_error [OF fits(2,1) w(1) [unfolded ks ts] fits(3) r2] over that heavy unfolding ks ts ids es by blast
  fix c assume "choose_internal_split (hd ids) es = Inr c"
  then have inner: "Suc c < length ks" and c: "internal_split_ok (hd ids) (separators ks (tl ids)) c"
    using widened_split_inner [OF fits(2,1) w(1) [unfolded ks ts] fits(3,4) r2] choose_internal_split_Inr unfolding ks ts ids es by blast+
  then have c0: "0 < c" by (simp add: internal_split_ok_def)
  note halves = widened_halves [OF len c]
  note e = split_node_entries [OF len halves(1)]
  have used: "pages_ok s (bt_pages l @ bt_pages r @ ctx_pages (h # hs) @ others) frees" using s by (simp add: half_split_def)
  let ?A = "Node (hole_id h) (take c ks) (take (Suc c) ts)"
  show "does env st0 (sbind (allocate_page env) (\<lambda>right_id.
       sbind (sres (ensure (\<not> (\<not> internal_fits (hd ids) (take c es)
                \<or> \<not> internal_fits (ie_right_child (es ! c)) (drop (c + 1) es))) InvalidInput)) (\<lambda>_.
       sbind (replace_page (hole_id h) (InternalData stamp (hd ids) (take c es))) (\<lambda>_.
       sbind (replace_page right_id (InternalData stamp (ie_right_child (es ! c)) (drop (c + 1) es))) (\<lambda>_.
       k (ie_key (es ! c)) right_id))))) s Q F"
  proof (rule does_allocate [where F = F, OF used _ full])
    fix q s1 frees1
    assume s1: "pages_ok s1 (q # bt_pages l @ bt_pages r @ ctx_pages (h # hs) @ others) frees1" "o_mem s1 = o_mem s"
      "o_root s1 = o_root s" "grows 1 s s1"
    let ?B = "Node q (drop (Suc c) ks) (drop (Suc c) ts)"
    let ?dA = "node_page stamp (take c ks) (map bt_id (take (Suc c) ts))"
    let ?dB = "node_page stamp (drop (Suc c) ks) (map bt_id (drop (Suc c) ts))"
    let ?s3 = "replaced (replaced s1 (hole_id h) ?dA) q ?dB"
    have pages: "InternalData stamp (hd ids) (take c es) = ?dA"
      "InternalData stamp (ie_right_child (es ! c)) (drop (c + 1) es) = ?dB" "ie_key (es ! c) = ks ! c"
      using e by (simp_all add: es node_page_def ids take_map drop_map)
    have "q \<notin> set (bt_pages l @ bt_pages r @ ctx_pages (h # hs) @ others)" using pages_ok_distinct [OF s1(1)] by simp
    then have keep: "keeps (set (bt_pages l @ bt_pages r @ ctx_pages (h # hs) @ others) - {hole_id h}) s ?s3"
      using s1(2) by (auto simp: keeps_def)
    have half: "half_split ?s3 hs ?A (ks ! c) ?B others frees1"
      using halves inner c0 by (intro split_up_ok [OF s s1(1-3) _ _ ks ts]) (simp_all add: ks ids take_map drop_map)
    have app: "concat (map f (take (Suc c) ts)) @ concat (map f (drop (Suc c) ts)) = concat (map f ts)" for f :: "btree \<Rightarrow> 'z list"
      by (simp flip: concat_append map_append)
    have "does env st0 (k (ks ! c) q) ?s3 Q F"
      using step [OF half halves(1) keep] s1(4) split_seps [OF halves(1), of "hole_id h" ts q]
        app [of bt_leaves] arg_cong [OF app [of bt_pages], of set] by (simp add: grows_def subset_insertI2)
    moreover have "ensure (\<not> (\<not> internal_fits (hd ids) (take c es) \<or>
        \<not> internal_fits (ie_right_child (es ! c)) (drop (c + 1) es))) InvalidInput = Inr ()"
      using c by (simp add: internal_split_ok_def es ensure_def)
    ultimately show "does env st0 (sbind (sres (ensure (\<not> (\<not> internal_fits (hd ids) (take c es)
                \<or> \<not> internal_fits (ie_right_child (es ! c)) (drop (c + 1) es))) InvalidInput)) (\<lambda>_.
       sbind (replace_page (hole_id h) (InternalData stamp (hd ids) (take c es))) (\<lambda>_.
       sbind (replace_page q (InternalData stamp (ie_right_child (es ! c)) (drop (c + 1) es))) (\<lambda>_.
       k (ie_key (es ! c)) q)))) s1 Q F"
      unfolding pages by (intro does_res_bind does_replace_bind) simp_all
  qed
qed

lemma does_insert_separator:
  assumes "half_split s hs l sep r others frees" and "\<And>s'. \<not> room (Suc (length hs)) s \<Longrightarrow> F InternalInvariantViolation s'"
    and "\<And>s' k. k \<in> set (sep # ctx_seps hs) \<Longrightarrow> 1996 < length k \<Longrightarrow> F InvalidInput s'"
  shows "does env st0 (insert_separator env (map hole_id hs) sep (bt_id r) stamp) s
    (\<lambda>_. rebuilt s others (set (bt_pages l @ bt_pages r @ ctx_pages hs @ others) - hole_id ` set hs)
       (left_leaves hs @ bt_leaves l @ bt_leaves r @ right_leaves hs)
       (insert sep (set (bt_seps l) \<union> set (bt_seps r) \<union> set (ctx_seps hs))) (Suc (length hs))) F"
  using assms
proof (induction hs arbitrary: s l sep r frees)
  case Nil
  then show ?case
    using does_new_root [of s l sep r others frees F env st0 stamp] by (simp add: ctx_pages_def ctx_seps_def)
next
  case (Cons h hs)
  note s = Cons.prems(1)
  note w = half_split_widened [OF s]
  let ?ks = "widened_keys h sep" and ?ts = "widened_trees h l r"
  let ?ids = "map bt_id ?ts"
  let ?es = "separators ?ks (tl ?ids)" and ?seps = "insert sep (set (bt_seps l) \<union> set (bt_seps r) \<union> set (ctx_seps (h # hs)))"
  let ?used = "bt_pages l @ bt_pages r @ ctx_pages (h # hs) @ others"
  let ?Q = "\<lambda>_ :: unit. rebuilt s others (set ?used - hole_id ` set (h # hs))
    (left_leaves (h # hs) @ bt_leaves l @ bt_leaves r @ right_leaves (h # hs)) ?seps (Suc (length (h # hs)))"
  have h: "hole_wf h" using s by (simp add: half_split_def)
  obtain lp where m: "o_mem s (hole_id h) = Some (InternalData lp (hd (hole_ids h (bt_id l)))
      (separators (lkeys h @ rkeys h) (tl (hole_ids h (bt_id l)))))"
    using s by (auto simp: half_split_def is_node_def node_page_def)
  have hd: "hd (hole_ids h (bt_id l)) = hd ?ids" by (cases "ltrees h") (simp_all add: hole_ids_def widened_trees_def)
  have es: "insert_at (partition_point (\<lambda>e. ie_key e < sep) (separators (lkeys h @ rkeys h) (tl (hole_ids h (bt_id l)))))
      \<lparr>ie_key = sep, ie_right_child = bt_id r\<rparr> (separators (lkeys h @ rkeys h) (tl (hole_ids h (bt_id l)))) = ?es"
    using insert_separator_entries [OF h, of "fst (bounds None None hs)" sep "snd (bounds None None hs)" "bt_id l" "bt_id r"] s
    by (simp add: half_split_def widened_keys_def widened_trees_def)
  have keys: "set ?ks \<subseteq> set (sep # ctx_seps (h # hs))" "set (bt_seps (Node (hole_id h) ?ks ?ts)) \<subseteq> ?seps"
    by (auto simp: widened_keys_def widened_trees_def ctx_seps_def)
  have ctx: "set (ctx_seps hs) \<subseteq> set (ctx_seps (h # hs))" by (auto simp: ctx_seps_def)
  have range: "FIRST_DATA_PAGE \<le> hole_id h" "hole_id h \<le> o_high s" using pages_ok_range [OF w(5), of "hole_id h"] by auto
  have next_level: "does env st0 (insert_separator env (map hole_id hs) (?ks ! c) (bt_id B) stamp) s3 ?Q F"
    if half: "half_split s3 hs A (?ks ! c) B others frees3" and c: "c < length ?ks"
      and keep: "keeps (set ?used - {hole_id h}) s s3" and g: "grows 1 s s3"
      and leaves: "bt_leaves A @ bt_leaves B = concat (map bt_leaves ?ts)"
      and pages: "set (concat (map bt_pages ?ts)) \<subseteq> set (bt_pages A @ bt_pages B)"
      and seps: "insert (?ks ! c) (set (bt_seps A) \<union> set (bt_seps B)) \<subseteq> set (bt_seps (Node (hole_id h) ?ks ?ts))" for s3 A B c frees3
  proof (rule does_weaken [OF Cons.IH [OF half]])
    show "F InternalInvariantViolation s'" if "\<not> room (Suc (length hs)) s3" for s'
      using Cons.prems(2) grows_room [OF g, of "Suc (length hs)"] that by auto
    show "F InvalidInput s'" if k: "k \<in> set (?ks ! c # ctx_seps hs)" "1996 < length k" for s' k
    proof (rule Cons.prems(3) [OF _ k(2)])
      show "k \<in> set (sep # ctx_seps (h # hs))"
        using k(1) subsetD [OF keys(1) nth_mem [OF c]] subsetD [OF ctx] by (cases "k = ?ks ! c") auto
    qed
    fix s' assume up: "rebuilt s3 others (set (bt_pages A @ bt_pages B @ ctx_pages hs @ others) - hole_id ` set hs)
       (left_leaves hs @ bt_leaves A @ bt_leaves B @ right_leaves hs)
       (insert (?ks ! c) (set (bt_seps A) \<union> set (bt_seps B) \<union> set (ctx_seps hs))) (Suc (length hs)) s'"
    have eq: "left_leaves (h # hs) @ bt_leaves l @ bt_leaves r @ right_leaves (h # hs) =
        left_leaves hs @ bt_leaves A @ bt_leaves B @ right_leaves hs"
      using arg_cong [OF leaves, of "\<lambda>x. left_leaves hs @ x @ right_leaves hs"] by (simp add: widened_trees_def)
    have "set ?used = insert (hole_id h) (set (concat (map bt_pages ?ts)) \<union> set (ctx_pages hs) \<union> set others)"
      by (simp add: ctx_pages_Cons widened_trees_def) blast
    with pages have "set ?used - hole_id ` set (h # hs) \<subseteq> set (bt_pages A @ bt_pages B @ ctx_pages hs @ others) - hole_id ` set hs"
      by (simp only: list.set image_insert set_append) blast
    moreover have "insert (?ks ! c) (set (bt_seps A) \<union> set (bt_seps B) \<union> set (ctx_seps hs)) \<subseteq> ?seps"
      using seps keys(2) ctx by blast
    moreover have "keeps (set ?used - hole_id ` set (h # hs)) s s3" using keep by (rule keeps_mono) auto
    ultimately show "?Q () s'" unfolding eq by (intro rebuilt_after [OF up _ _ _ g]) simp_all
  qed
  have "does env st0 (if internal_fits (hd ?ids) ?es then replace_page (hole_id h) (InternalData stamp (hd ?ids) ?es)
     else sbind (sres (choose_internal_split (hd ?ids) ?es)) (\<lambda>split.
       sbind (allocate_page env) (\<lambda>right_id.
       sbind (sres (ensure (\<not> (\<not> internal_fits (hd ?ids) (take split ?es)
                \<or> \<not> internal_fits (ie_right_child (?es ! split)) (drop (split + 1) ?es))) InvalidInput)) (\<lambda>_.
       sbind (replace_page (hole_id h) (InternalData stamp (hd ?ids) (take split ?es))) (\<lambda>_.
       sbind (replace_page right_id (InternalData stamp (ie_right_child (?es ! split)) (drop (split + 1) ?es))) (\<lambda>_.
       insert_separator env (map hole_id hs) (ie_key (?es ! split)) right_id stamp)))))) s ?Q F"
  proof (cases "node_fits ?ks ?ids")
    case True
    have "?Q () (replaced s (hole_id h) (node_page stamp ?ks ?ids))"
      by (rule rebuilt_after [OF widen_ok [OF s True, of stamp], of _ _ _ 0]) (auto simp: keeps_def)
    then show ?thesis using True by (simp add: node_fits_def node_page_def does_replace)
  next
    case False
    have full: "F InternalInvariantViolation s" if "\<not> room 1 s" using Cons.prems(2) that by (simp add: room_def)
    have heavy: "F InvalidInput s" if "k \<in> set ?ks" "1996 < length k" for k using Cons.prems(3) keys(1) that by blast
    show ?thesis
      using False unfolding node_fits_def
      by (simp only: if_False) (rule does_split_node [where k = "\<lambda>p q. insert_separator env (map hole_id hs) p q stamp",
        OF s refl refl refl refl False full heavy next_level])
  qed
  then show ?case
    unfolding list.map insert_separator.simps by (intro does_internal [OF m range]) (simp only: prod.case Let_def es hd)
qed

section \<open>Leaves\<close>

lemma does_insert_leaf_entries:
  assumes s: "around_leaf s hs p others frees" and es: "leaf_entries_ok hs es"
    and nx: "nx = chain_head (right_leaves hs) None" and route: "route = map hole_id (rev hs) @ [p]"
    and total: "(\<forall>e \<in> set es. leaf_weight e \<le> 2016) \<longrightarrow> sum_list (map leaf_weight es) \<le> 4032 + 2016"
    and full: "\<And>s'. \<not> room (length hs + 2) s \<Longrightarrow> F InternalInvariantViolation s'"
    and heavy: "\<And>s' e. e \<in> set es \<Longrightarrow> 2016 < leaf_weight e \<Longrightarrow> F InvalidInput s'"
      "\<And>s' k. k \<in> set (ctx_seps hs) \<Longrightarrow> 1996 < length k \<Longrightarrow> F InvalidInput s'"
  shows "does env st0 (insert_leaf_entries env p route nx es stamp) s (\<lambda>_. leaf_replaced s hs others es) F"
proof (cases "leaf_fits es")
  case True
  note fits = leaf_fits_ok [OF s es True nx, of stamp]
  have "rebuilt s others (set others) (left_leaves hs @ [(p, es)] @ right_leaves hs) (set (ctx_seps hs) \<union> le_key ` set es)
      (length hs + 2) (replaced s p (LeafData stamp nx es))"
    by (rule rebuilt_after [OF conjunct1 [OF fits] _ _ _ grows_refl [of 0]]) (simp_all add: keeps_def)
  with fits have "leaf_replaced s hs others es (replaced s p (LeafData stamp nx es))"
    unfolding leaf_replaced_def by (intro conjI exI [of _ "[(p, es)]"]) simp_all
  then show ?thesis using True by (simp add: insert_leaf_entries_def does_replace)
next
  case False
  have used: "pages_ok s (p # ctx_pages hs @ others) frees" using s by (simp add: around_leaf_def)
  have parents: "rev (butlast route) = map hole_id hs" by (simp add: route rev_map)
  have "does env st0 (sbind (sres (choose_leaf_split es)) (\<lambda>split.
        sbind (allocate_page env) (\<lambda>right_id.
        sbind (sres (ok_or (case drop split es of [] \<Rightarrow> None | e # _ \<Rightarrow> Some (le_key e)) InternalInvariantViolation))
          (\<lambda>separator.
        sbind (replace_page p (LeafData stamp (Some right_id) (take split es))) (\<lambda>_.
        sbind (replace_page right_id (LeafData stamp nx (drop split es))) (\<lambda>_.
        insert_separator env (map hole_id hs) separator right_id stamp)))))) s (\<lambda>_. leaf_replaced s hs others es) F"
  proof (rule does_res_bind)
    show "F e s" if "choose_leaf_split es = Inl e" for e
      using leaf_split_error [OF es False that total] heavy(1) by blast
    fix c assume "choose_leaf_split es = Inr c"
    then have c: "leaf_split_ok es c" by (rule choose_leaf_split_Inr)
    then have c': "c < length es" by (simp add: leaf_split_ok_def)
    have sep: "ok_or (case drop c es of [] \<Rightarrow> None | e # _ \<Rightarrow> Some (le_key e)) InternalInvariantViolation = Inr (le_key (es ! c))"
      using Cons_nth_drop_Suc [OF c', symmetric] by (simp add: ok_or_def)
    show "does env st0 (sbind (allocate_page env) (\<lambda>right_id.
        sbind (sres (ok_or (case drop c es of [] \<Rightarrow> None | e # _ \<Rightarrow> Some (le_key e)) InternalInvariantViolation))
          (\<lambda>separator.
        sbind (replace_page p (LeafData stamp (Some right_id) (take c es))) (\<lambda>_.
        sbind (replace_page right_id (LeafData stamp nx (drop c es))) (\<lambda>_.
        insert_separator env (map hole_id hs) separator right_id stamp))))) s (\<lambda>_. leaf_replaced s hs others es) F"
    proof (rule does_allocate [where F = F, OF used])
      fix q s1 frees1
      assume s1: "pages_ok s1 (q # p # ctx_pages hs @ others) frees1" "o_mem s1 = o_mem s" "o_root s1 = o_root s" "grows 1 s s1"
      let ?s3 = "replaced (replaced s1 p (LeafData stamp (Some q) (take c es))) q (LeafData stamp nx (drop c es))"
      have half: "half_split ?s3 hs (Leaf p (take c es)) (le_key (es ! c)) (Leaf q (drop c es)) others frees1"
        by (rule leaf_split_half [OF s es c s1(1-3)])
      have "does env st0 (insert_separator env (map hole_id hs) (le_key (es ! c)) q stamp) ?s3 (\<lambda>_. leaf_replaced s hs others es) F"
      proof (rule does_weaken [OF does_insert_separator [OF half, unfolded btree.sel]])
        show "F InternalInvariantViolation s'" if "\<not> room (Suc (length hs)) ?s3" for s'
          using full that s1(4) by (auto simp: room_def grows_def)
        have "2016 < leaf_weight (es ! c)" if "1996 < length (le_key (es ! c))" using that by (simp add: leaf_weight_def)
        then show "F InvalidInput s'" if "k \<in> set (le_key (es ! c) # ctx_seps hs)" "1996 < length k" for s' k
          using heavy(1) [OF nth_mem [OF c']] heavy(2) that by (cases "k = le_key (es ! c)") auto
        fix s' assume "rebuilt ?s3 others (set (bt_pages (Leaf p (take c es)) @ bt_pages (Leaf q (drop c es)) @ ctx_pages hs @ others) -
            hole_id ` set hs) (left_leaves hs @ bt_leaves (Leaf p (take c es)) @ bt_leaves (Leaf q (drop c es)) @ right_leaves hs)
          (insert (le_key (es ! c)) (set (bt_seps (Leaf p (take c es))) \<union> set (bt_seps (Leaf q (drop c es))) \<union> set (ctx_seps hs)))
          (Suc (length hs)) s'"
        then show "leaf_replaced s hs others es s'"
          by (intro leaf_split_done [OF s c' s1(1,2,4) refl]) (simp add: nx)
      qed
      then show "does env st0 (sbind (sres (ok_or (case drop c es of [] \<Rightarrow> None | e # _ \<Rightarrow> Some (le_key e)) InternalInvariantViolation))
          (\<lambda>separator.
        sbind (replace_page p (LeafData stamp (Some q) (take c es))) (\<lambda>_.
        sbind (replace_page q (LeafData stamp nx (drop c es))) (\<lambda>_.
        insert_separator env (map hole_id hs) separator q stamp)))) s1 (\<lambda>_. leaf_replaced s hs others es) F"
        unfolding sep by (intro does_res_bind does_replace_bind) simp_all
    qed (use full in \<open>simp add: room_def\<close>)
  qed
  then show ?thesis using False by (simp add: insert_leaf_entries_def insert_parent_separator_def parents Let_def)
qed

end

end
