(* ===== verification/Dodb_Contents.thy ===== *)
theory Dodb_Contents
  imports Dodb_Insert
begin

text \<open>
  The contents of a tree. \<open>tree_inv\<close> is the representation invariant of the engine: a search
  tree whose leaves are linked in order, whose values sit in the leaf records or in overflow
  chains of their own, and which together with the free list accounts for every page exactly
  once. The abstraction is an ordered map from encoded keys to committed states; put, delete and
  get act on it as insertion and lookup.
\<close>

section \<open>The invariant\<close>

definition owned :: "(bytes \<Rightarrow> page_id list) \<Rightarrow> leaf_entry list \<Rightarrow> page_id list" where
  "owned own es = concat (map (\<lambda>e. own (le_key e)) es)"

definition rows_at :: "memory \<Rightarrow> (bytes \<Rightarrow> page_id list) \<Rightarrow> leaf_entry list \<Rightarrow> (bytes, revision_state) ordmap \<Rightarrow> bool" where
  "rows_at mem own es rows \<longleftrightarrow>
     list_all2 (\<lambda>e row. fst row = le_key e \<and> row_at mem (own (le_key e)) e (snd row)) es rows"

definition tree_at :: "ostate \<Rightarrow> btree \<Rightarrow> bool" where
  "tree_at s t \<longleftrightarrow> o_root s = bt_id t \<and> rep (o_mem s) t \<and> ordered None None t \<and> bt_fits t \<and> balanced t \<and>
     linked (o_mem s) (bt_leaves t) None \<and> set (bt_seps t) \<subseteq> le_key ` set (bt_entries t)"

definition tree_inv :: "ostate \<Rightarrow> btree \<Rightarrow> (bytes \<Rightarrow> page_id list) \<Rightarrow> page_id list \<Rightarrow> (bytes, revision_state) ordmap \<Rightarrow> bool" where
  "tree_inv s t own frees rows \<longleftrightarrow> tree_at s t \<and> pages_ok s (bt_pages t @ owned own (bt_entries t)) frees \<and>
     rows_at (o_mem s) own (bt_entries t) rows"

definition holds_rows :: "ostate \<Rightarrow> (bytes, revision_state) ordmap \<Rightarrow> bool" where
  "holds_rows s rows \<longleftrightarrow> (\<exists>t own frees. tree_inv s t own frees rows)"

lemma owned_simps [simp]:
  "owned own [] = []" "owned own (e # es) = own (le_key e) @ owned own es" "owned own (xs @ ys) = owned own xs @ owned own ys"
  by (simp_all add: owned_def)

lemma owned_cong: "(\<And>e. e \<in> set es \<Longrightarrow> le_key e \<noteq> k) \<Longrightarrow> owned (own(k := ids)) es = owned own es"
  by (induction es) auto

lemma rows_at_simps [simp]:
  "rows_at mem own [] rows \<longleftrightarrow> rows = []"
  "rows_at mem own (e # es) rows \<longleftrightarrow>
     (\<exists>st rest. rows = (le_key e, st) # rest \<and> row_at mem (own (le_key e)) e st \<and> rows_at mem own es rest)"
  by (auto simp: rows_at_def list_all2_Cons1)

lemma rows_at_append: "rows_at mem own (xs @ ys) rows \<longleftrightarrow> (\<exists>rx ry. rows = rx @ ry \<and> rows_at mem own xs rx \<and> rows_at mem own ys ry)"
proof
  assume "rows_at mem own (xs @ ys) rows"
  then show "\<exists>rx ry. rows = rx @ ry \<and> rows_at mem own xs rx \<and> rows_at mem own ys ry"
    by (auto simp: rows_at_def list_all2_append1)
next
  assume "\<exists>rx ry. rows = rx @ ry \<and> rows_at mem own xs rx \<and> rows_at mem own ys ry"
  then show "rows_at mem own (xs @ ys) rows" unfolding rows_at_def by (auto intro: list_all2_appendI)
qed

lemma rows_at_keys: "rows_at mem own es rows \<Longrightarrow> map fst rows = map le_key es"
  by (induction es arbitrary: rows) auto

lemma rows_at_all: "rows_at mem own es rows \<Longrightarrow> (\<forall>r \<in> set rows. P (fst r)) \<longleftrightarrow> (\<forall>e \<in> set es. P (le_key e))"
proof -
  assume r: "rows_at mem own es rows"
  have "(\<forall>k \<in> set (map fst rows). P k) \<longleftrightarrow> (\<forall>k \<in> set (map le_key es). P k)" by (simp only: rows_at_keys [OF r])
  then show ?thesis by simp
qed

lemma rows_at_cong:
  "(\<And>p. p \<in> set (owned own es) \<Longrightarrow> mem' p = mem p) \<Longrightarrow> rows_at mem' own es rows \<longleftrightarrow> rows_at mem own es rows"
proof (induction es arbitrary: rows)
  case (Cons e es)
  then have "row_at mem' (own (le_key e)) e st \<longleftrightarrow> row_at mem (own (le_key e)) e st" for st by (intro row_at_cong) auto
  with Cons show ?case by auto
qed simp

lemma rows_at_own_cong: "(\<And>e. e \<in> set es \<Longrightarrow> le_key e \<noteq> k) \<Longrightarrow> rows_at mem (own(k := ids)) es rows \<longleftrightarrow> rows_at mem own es rows"
  by (induction es arbitrary: rows) auto

lemma rows_moved:
  assumes "rows_at mem own es rows" and "\<And>e. e \<in> set es \<Longrightarrow> le_key e \<noteq> k" and "\<And>p. p \<in> set (owned own es) \<Longrightarrow> mem' p = mem p"
  shows "rows_at mem' (own(k := ids)) es rows"
  using assms(1) rows_at_own_cong [OF assms(2)] rows_at_cong [OF assms(3)] by simp

lemma tree_at_keeps:
  assumes "tree_at s t" and k: "keeps (set (bt_pages t)) s s'" and "o_root s' = o_root s"
  shows "tree_at s' t"
proof -
  have "rep (o_mem s') t \<longleftrightarrow> rep (o_mem s) t" using k by (intro rep_cong) (auto simp: keeps_def)
  moreover have "linked (o_mem s') (bt_leaves t) None \<longleftrightarrow> linked (o_mem s) (bt_leaves t) None"
    using k leaves_pages [of t] by (intro linked_cong) (auto simp: keeps_def)
  ultimately show ?thesis using assms by (simp add: tree_at_def)
qed

lemma tree_inv_wf: "tree_inv s t own frees rows \<Longrightarrow> om_wf rows"
  using ordered_entries(1) [of None None t] rows_at_keys [of "o_mem s" own "bt_entries t" rows]
  by (auto simp: tree_inv_def tree_at_def om_wf_def)

section \<open>Ordered maps around a key\<close>

lemma om_insert_split:
  assumes "\<forall>x \<in> set xs. fst x < k" and "\<forall>y \<in> set ys. k < fst y"
  shows "om_insert k v (xs @ ys) = xs @ (k, v) # ys" and "om_insert k v (xs @ (k, w) # ys) = xs @ (k, v) # ys"
proof -
  have ys: "om_insert k v ys = (k, v) # ys" using assms(2) by (cases ys) auto
  show "om_insert k v (xs @ ys) = xs @ (k, v) # ys" using assms(1) ys by (induction xs) (auto dest: less_not_sym)
  show "om_insert k v (xs @ (k, w) # ys) = xs @ (k, v) # ys" using assms(1) by (induction xs) (auto dest: less_not_sym)
qed

lemma binary_search_split:
  assumes sorted: "sorted_wrt (<) (map key es)"
  obtains (found) xs e ys where "binary_search key k es = Inr (length xs)" "es = xs @ e # ys" "key e = k"
      "\<forall>x \<in> set xs. key x < k" "\<forall>y \<in> set ys. k < key y"
    | (absent) xs ys where "binary_search key k es = Inl (length xs)" "es = xs @ ys"
      "\<forall>x \<in> set xs. key x < k" "\<forall>y \<in> set ys. k < key y"
proof -
  define xs where "xs = takeWhile (\<lambda>x. key x < k) es"
  define ys where "ys = dropWhile (\<lambda>x. key x < k) es"
  have es: "es = xs @ ys" by (simp add: xs_def ys_def)
  have less: "\<forall>x \<in> set xs. key x < k" by (auto simp: xs_def dest: set_takeWhileD)
  have up: "sorted_wrt (<) (map key ys)" using sorted unfolding es by (simp add: sorted_wrt_append)
  have search: "binary_search key k es = (if length xs < length es \<and> key (es ! length xs) = k then Inr (length xs) else Inl (length xs))"
    by (simp add: binary_search_def partition_point_def xs_def Let_def)
  show ?thesis
  proof (cases ys)
    case Nil
    then show ?thesis using absent [of xs ys] less search es by simp
  next
    case (Cons y zs)
    then have ge: "\<not> key y < k" unfolding ys_def by (metis hd_dropWhile list.discI list.sel(1))
    have after: "\<forall>z \<in> set zs. key y < key z" using up Cons by auto
    show ?thesis
    proof (cases "key y = k")
      case True
      then show ?thesis using found [of xs y zs] less after search es Cons by simp
    next
      case False
      then have "k < key y" using ge by simp
      then have "\<forall>z \<in> set ys. k < key z" using after Cons by (auto intro: less_trans)
      then show ?thesis using absent [of xs ys] False less search es Cons by simp
    qed
  qed
qed

section \<open>One leaf of the tree\<close>

lemma entries_around: "bt_entries (plug (Leaf p es) hs) = concat (map snd (left_leaves hs)) @ es @ concat (map snd (right_leaves hs))"
  by (simp add: bt_entries_def leaves_plug)

lemma focus_leaf:
  assumes t: "tree_at s t" "t = plug (Leaf p es) hs" "list_all hole_wf hs" and ok: "pages_ok s (bt_pages t @ others) frees"
  shows "around_leaf s hs p others frees" "leaf_entries_ok hs es" "leaf_fits es"
    "\<exists>l. o_mem s p = Some (LeafData l (chain_head (right_leaves hs) None) es)"
proof -
  have "linked (o_mem s) (left_leaves hs @ (p, es) # right_leaves hs) None"
    using t leaves_plug [of "Leaf p es" hs] by (simp add: tree_at_def)
  then have l: "linked (o_mem s) (left_leaves hs) (Some p)" "linked (o_mem s) (right_leaves hs) None"
    "\<exists>l. o_mem s p = Some (LeafData l (chain_head (right_leaves hs) None) es)" by (simp_all add: linked_append)
  then show "\<exists>l. o_mem s p = Some (LeafData l (chain_head (right_leaves hs) None) es)" by simp
  have "pages_ok s (p # ctx_pages hs @ others) frees"
    using ok by (rule pages_ok_perm [THEN iffD1, rotated]) (simp add: t(2) mset_pages_plug)
  moreover have "o_root s = bt_id (plug (Leaf p []) hs)"
    using t bt_id_plug [of "Leaf p es" "Leaf p []" hs] by (simp add: tree_at_def)
  moreover have "rep_ctx (o_mem s) p hs" "ctx_ordered None None hs" "ctx_fits p hs" "ctx_level 0 hs"
    using t by (auto simp: tree_at_def rep_plug ordered_plug fits_plug balanced_plug)
  ultimately show "around_leaf s hs p others frees" using t(3) l by (simp add: around_leaf_def)
  show fits: "leaf_fits es" using t by (auto simp: tree_at_def fits_plug)
  have "ordered (fst (bounds None None hs)) (snd (bounds None None hs)) (Leaf p es)"
    using t by (auto simp: tree_at_def ordered_plug)
  then show "leaf_entries_ok hs es" using fits by (auto simp: leaf_entries_ok_def leaf_fits_iff)
qed

text \<open>A key in the range of a leaf lies between the entries of the other leaves.\<close>

lemma range_between:
  assumes t: "ordered None None (plug (Leaf p es) hs)" "list_all hole_wf hs"
    and key: "in_range (fst (bounds None None hs)) (snd (bounds None None hs)) key"
  shows "\<forall>e \<in> set (concat (map snd (left_leaves hs))). le_key e < key" "\<forall>e \<in> set (concat (map snd (right_leaves hs))). key < le_key e"
proof -
  let ?e = "\<lparr>le_key = key, le_revision = 0, le_value = None\<rparr>"
  have "ordered None None (plug (Leaf p [?e]) hs)" using t key by (simp add: ordered_plug)
  then have "sorted_wrt (<) (map le_key (bt_entries (plug (Leaf p [?e]) hs)))" using ordered_entries(1) by blast
  then show "\<forall>e \<in> set (concat (map snd (left_leaves hs))). le_key e < key" "\<forall>e \<in> set (concat (map snd (right_leaves hs))). key < le_key e"
    unfolding entries_around by (auto simp: sorted_wrt_append)
qed

text \<open>Storing an entry in its leaf is an insertion into the rows; the pages of the entry it
  replaces, if there is one, are left over.\<close>

lemma insert_between:
  assumes "rows_at mem own xs ra" "rows_at mem own olds ro" "rows_at mem own ys rb"
    and "\<forall>x \<in> set xs. le_key x < key" "\<forall>y \<in> set ys. key < le_key y"
    and olds: "length olds \<le> 1" "\<forall>x \<in> set olds. le_key x = key"
  shows "om_insert key st (ra @ ro @ rb) = ra @ (key, st) # rb"
proof -
  have *: "\<forall>x \<in> set ra. fst x < key" "\<forall>y \<in> set rb. key < fst y"
    using rows_at_all [OF assms(1), of "\<lambda>k. k < key"] rows_at_all [OF assms(3), of "\<lambda>k. key < k"] assms(4,5) by simp_all
  show ?thesis
  proof (cases olds)
    case Nil
    then show ?thesis using assms(2) om_insert_split(1) [OF *] by simp
  next
    case (Cons x zs)
    then obtain w where "ro = [(key, w)]" using assms(2) olds by auto
    then show ?thesis using om_insert_split(2) [OF *] by simp
  qed
qed

lemma update_leaf:
  assumes t: "tree_at s t" "t = plug (Leaf p (xs @ olds @ ys)) hs" "list_all hole_wf hs"
    and rows: "rows_at (o_mem s) own (bt_entries t) rows"
    and key: "in_range (fst (bounds None None hs)) (snd (bounds None None hs)) key" "le_key e = key"
    and olds: "length olds \<le> 1" "\<forall>x \<in> set olds. le_key x = key"
    and sides: "\<forall>x \<in> set xs. le_key x < key" "\<forall>y \<in> set ys. key < le_key y"
    and new: "row_at (o_mem s) ids e st"
    and fin: "leaf_replaced s hs (ids @ owned own (bt_entries t)) (xs @ e # ys) s'"
  shows "\<exists>t' frees'. tree_at s' t' \<and> rows_at (o_mem s') (own(key := ids)) (bt_entries t') (om_insert key st rows) \<and>
    pages_ok s' (owned own olds @ bt_pages t' @ owned (own(key := ids)) (bt_entries t')) frees'"
proof -
  let ?A = "concat (map snd (left_leaves hs))" and ?B = "concat (map snd (right_leaves hs))"
  have ent: "bt_entries t = (?A @ xs) @ olds @ ys @ ?B" using t(2) entries_around by simp
  note between = range_between [OF t(1) [unfolded t(2) tree_at_def, THEN conjunct2, THEN conjunct2, THEN conjunct1] t(3) key(1)]
  obtain ls where ls: "concat (map snd ls) = xs @ e # ys"
    and built: "rebuilt s (ids @ owned own (bt_entries t)) (set (ids @ owned own (bt_entries t)))
      (left_leaves hs @ ls @ right_leaves hs) (set (ctx_seps hs) \<union> le_key ` set (xs @ e # ys)) (length hs + 2) s'"
    and link: "linked (o_mem s') (left_leaves hs @ ls @ right_leaves hs) None"
    using fin unfolding leaf_replaced_def by blast
  from built obtain t' frees' where t': "o_root s' = bt_id t'" "rep (o_mem s') t'" "ordered None None t'" "bt_fits t' \<and> balanced t'"
    "bt_leaves t' = left_leaves hs @ ls @ right_leaves hs" "set (bt_seps t') \<subseteq> set (ctx_seps hs) \<union> le_key ` set (xs @ e # ys)"
    and ok: "pages_ok s' (bt_pages t' @ ids @ owned own (bt_entries t)) frees'"
    and keep: "keeps (set (ids @ owned own (bt_entries t))) s s'" unfolding rebuilt_def by blast
  have ent': "bt_entries t' = (?A @ xs) @ e # ys @ ?B" using t'(5) ls by (simp add: bt_entries_def)
  have left: "\<forall>x \<in> set (?A @ xs). le_key x < key" and right: "\<forall>x \<in> set (ys @ ?B). key < le_key x" using between sides by auto
  then have neq: "le_key x \<noteq> key" if "x \<in> set (?A @ xs) \<union> set (ys @ ?B)" for x using that by fastforce
  obtain ra ro rb where r: "rows = ra @ ro @ rb" "rows_at (o_mem s) own (?A @ xs) ra" "rows_at (o_mem s) own olds ro"
    "rows_at (o_mem s) own (ys @ ?B) rb" using rows unfolding ent by (metis rows_at_append)
  have ins: "om_insert key st rows = ra @ (key, st) # rb" unfolding r(1) by (rule insert_between [OF r(2-4) left right olds])
  have "rows_at (o_mem s') (own(key := ids)) (?A @ xs) ra \<and> rows_at (o_mem s') (own(key := ids)) (ys @ ?B) rb"
    using keep neq by (intro conjI rows_moved [OF r(2)] rows_moved [OF r(4)]) (auto simp: keeps_def ent)
  moreover have "row_at (o_mem s') ids e st"
    using new keep row_at_cong [of ids "o_mem s'" "o_mem s"] by (auto simp: keeps_def)
  ultimately have "rows_at (o_mem s') (own(key := ids)) (bt_entries t') (om_insert key st rows)"
    unfolding ent' ins rows_at_append [of _ _ "?A @ xs"] using key(2) by auto
  moreover have "pages_ok s' (owned own olds @ bt_pages t' @ owned (own(key := ids)) (bt_entries t')) frees'"
  proof -
    have "owned (own(key := ids)) (?A @ xs) = owned own (?A @ xs)" "owned (own(key := ids)) (ys @ ?B) = owned own (ys @ ?B)"
      by (intro owned_cong neq UnI1, assumption) (intro owned_cong neq UnI2, assumption)
    then have "owned (own(key := ids)) (bt_entries t') = owned own (?A @ xs) @ ids @ owned own (ys @ ?B)"
      unfolding ent' owned_simps(3) [of _ "?A @ xs"] using key(2) by simp
    then show ?thesis by (intro pages_ok_perm [THEN iffD1, OF _ ok]) (simp add: ent)
  qed
  moreover have "set (bt_seps t') \<subseteq> le_key ` set (bt_entries t')"
  proof -
    have "set (ctx_seps hs) \<subseteq> le_key ` set (bt_entries t)" using t by (auto simp: tree_at_def set_seps_plug)
    also have "\<dots> \<subseteq> le_key ` set (bt_entries t')" unfolding ent ent' using olds key(2) by auto
    finally show ?thesis using t'(6) ent' by auto
  qed
  ultimately show ?thesis
    by - (rule exI [of _ t'], rule exI [of _ frees'], use t' link in \<open>simp add: tree_at_def\<close>)
qed

lemma leaf_replaced_keeps: "leaf_replaced s hs others es s' \<Longrightarrow> keeps (set others) s s' \<and> grows (length hs + 2) s s'"
  by (auto simp: leaf_replaced_def rebuilt_def)

lemma leaf_replaced_fits:
  assumes s: "around_leaf s hs p others frees" and es: "leaf_entries_ok hs es" "leaf_fits es"
    and nx: "nx = chain_head (right_leaves hs) None"
  shows "leaf_replaced s hs others es (replaced s p (LeafData stamp nx es))"
proof -
  note fits = leaf_fits_ok [OF s es nx, of stamp]
  have "rebuilt s others (set others) (left_leaves hs @ [(p, es)] @ right_leaves hs) (set (ctx_seps hs) \<union> le_key ` set es)
      (length hs + 2) (replaced s p (LeafData stamp nx es))"
    by (rule rebuilt_after [OF conjunct1 [OF fits] _ _ _ grows_refl [of 0]]) (simp_all add: keeps_def)
  with fits show ?thesis unfolding leaf_replaced_def by (intro conjI exI [of _ "[(p, es)]"]) simp_all
qed

lemma leaf_entries_ok_update:
  assumes "leaf_entries_ok hs (xs @ olds @ ys)" and "le_key e = key" "canonical key"
    and "in_range (fst (bounds None None hs)) (snd (bounds None None hs)) key"
    and "\<forall>x \<in> set xs. le_key x < key" "\<forall>y \<in> set ys. key < le_key y"
  shows "leaf_entries_ok hs (xs @ e # ys)"
  using assms by (auto simp: leaf_entries_ok_def sorted_wrt_append)

text \<open>A record weighs its key and at most an inline value, so only long keys make it heavy.\<close>

definition LIGHT_KEY :: nat where "LIGHT_KEY = 1464"

lemma row_weight: "row_at mem ids e st \<Longrightarrow> leaf_weight e \<le> 552 + length (le_key e)"
  by (auto simp: row_at_def leaf_weight_def inline_bytes_def INLINE_VALUE_LIMIT_def split: option.splits elim!: stores.elims)

lemma rows_weight: "rows_at mem own es rows \<Longrightarrow> e \<in> set es \<Longrightarrow> leaf_weight e \<le> 552 + length (le_key e)"
  by (induction es arbitrary: rows) (auto simp: row_weight)

lemma canonical_encode: "canonical (encode k)"
  by (simp add: canonical_def is_ok_iff decode_encode)

text \<open>The depth of a path is below the number of pages.\<close>

lemma depth_bound:
  assumes "around_leaf s hs p others frees"
  shows "2 ^ length hs \<le> unat (o_high s)" "length hs < 64"
proof -
  let ?t = "plug (Leaf p []) hs"
  have ok: "pages_ok s (p # ctx_pages hs @ others) frees" using assms by (simp add: around_leaf_def)
  have pages: "mset (bt_pages ?t) = mset (p # ctx_pages hs)" by (simp add: mset_pages_plug)
  then have same: "length (bt_pages ?t) = length (p # ctx_pages hs)" by (rule mset_eq_length)
  have "ordered None None ?t" "level (0 + length hs) ?t"
    unfolding level_plug using assms by (simp_all add: around_leaf_def ordered_plug)
  then have "2 ^ length hs \<le> length (bt_leaves ?t)" using level_leaves by fastforce
  also have "\<dots> \<le> length (bt_pages ?t)" by (rule length_leaves)
  also have "\<dots> = card (set (p # ctx_pages hs))" using same pages_ok_distinct [OF ok] by (simp add: distinct_card)
  also have "\<dots> \<le> card {FIRST_DATA_PAGE..o_high s}" using pages_ok_range [OF ok] by (intro card_mono) auto
  also have "\<dots> \<le> card {0<..o_high s}" by (intro card_mono) (auto simp: FIRST_DATA_PAGE_def word_less_nat_alt word_le_nat_alt)
  also have "\<dots> = card (unat ` {0<..o_high s})" by (rule card_image [symmetric]) (simp add: inj_on_def word_unat_eq_iff)
  also have "\<dots> \<le> card {0<..unat (o_high s)}" by (intro card_mono) (auto simp: word_less_nat_alt word_le_nat_alt)
  finally show bound: "2 ^ length hs \<le> unat (o_high s)" by simp
  then have "(2 :: nat) ^ length hs < 2 ^ 64" using unat_bound [of "o_high s"] by simp
  then show "length hs < 64" by (rule power_less_imp_less_exp [rotated]) simp
qed

text \<open>Pages were written, at most \<open>n\<close> of them new.\<close>

definition touched :: "nat \<Rightarrow> ostate \<Rightarrow> ostate \<Rightarrow> bool" where
  "touched n s s' \<longleftrightarrow> grows n s s' \<and> o_dirty s' \<noteq> []"

definition stored :: "ostate \<Rightarrow> (bytes \<Rightarrow> page_id list) \<Rightarrow> leaf_entry list \<Rightarrow> bytes \<Rightarrow> revision_state \<Rightarrow> (bytes, revision_state) ordmap \<Rightarrow>
    page_id list \<Rightarrow> nat \<Rightarrow> ostate \<Rightarrow> bool" where
  "stored s own olds key st rows ids n s' \<longleftrightarrow>
     (\<exists>t' frees'. tree_at s' t' \<and> rows_at (o_mem s') (own(key := ids)) (bt_entries t') (om_insert key st rows) \<and>
        pages_ok s' (owned own olds @ bt_pages t' @ owned (own(key := ids)) (bt_entries t')) frees') \<and>
     (\<exists>ro. rows_at (o_mem s') own olds ro) \<and> touched n s s'"

lemma stored_intro:
  assumes t: "tree_at s t" "t = plug (Leaf p (xs @ olds @ ys)) hs" "list_all hole_wf hs"
    and rows: "rows_at (o_mem s) own (bt_entries t) rows"
    and key: "in_range (fst (bounds None None hs)) (snd (bounds None None hs)) key" "le_key e = key"
    and olds: "length olds \<le> 1" "\<forall>x \<in> set olds. le_key x = key"
    and sides: "\<forall>x \<in> set xs. le_key x < key" "\<forall>y \<in> set ys. key < le_key y"
    and new: "row_at (o_mem s) ids e st"
    and fin: "leaf_replaced s hs (ids @ owned own (bt_entries t)) (xs @ e # ys) s'"
  shows "stored s own olds key st rows ids (length hs + 2) s'"
proof -
  have ent: "bt_entries t = (concat (map snd (left_leaves hs)) @ xs) @ olds @ ys @ concat (map snd (right_leaves hs))"
    using t(2) entries_around by simp
  obtain ro where ro: "rows_at (o_mem s) own olds ro" using rows unfolding ent rows_at_append by blast
  have keep: "keeps (set (ids @ owned own (bt_entries t))) s s'" "grows (length hs + 2) s s'"
    using leaf_replaced_keeps [OF fin] by auto
  have "rows_at (o_mem s') own olds ro"
    using ro keep(1) rows_at_cong [of own olds "o_mem s'" "o_mem s"] by (auto simp: keeps_def ent)
  moreover have "o_dirty s' \<noteq> []" using fin by (simp add: leaf_replaced_def)
  ultimately show ?thesis unfolding stored_def touched_def using keep(2) update_leaf [OF assms] by blast
qed

context reliable_file
begin

section \<open>Finding and storing\<close>

lemma does_cong:
  assumes "\<And>ov. holds env st0 s ov \<Longrightarrow> m ov = m' ov" and "does env st0 m' s Q F"
  shows "does env st0 m s Q F"
proof (rule does_intro)
  fix ov r ov' assume "holds env st0 s ov" "m ov = (r, ov')"
  then show "\<exists>s'. holds env st0 s' ov' \<and> (case r of Inr x \<Rightarrow> Q x s' | Inl e \<Rightarrow> F e s')"
    using assms(1) does_run [OF assms(2), of ov r ov'] by metis
qed

lemma does_find_leaf:
  assumes t: "tree_at s t" and ok: "pages_ok s (bt_pages t @ others) frees"
    and k: "\<And>p es hs. t = plug (Leaf p es) hs \<Longrightarrow> list_all hole_wf hs \<Longrightarrow>
      in_range (fst (bounds None None hs)) (snd (bounds None None hs)) key \<Longrightarrow>
      does env st0 (k (p, map hole_id (rev hs) @ [p])) s Q F"
  shows "does env st0 (sbind (find_leaf env key) k) s Q F"
proof (rule does_bind [where R = "\<lambda>r s'. s' = s \<and> found t None None key (fst r) (snd r)"])
  have d: "distinct (bt_pages t)" "set (bt_pages t) \<subseteq> {FIRST_DATA_PAGE..o_high s}" using ok by (auto simp: pages_ok_def)
  have "does env st0 (find_leaf_loop env key (bt_id t) [] {}) s
    (\<lambda>r s'. s' = s \<and> (\<exists>path. snd r = [] @ path \<and> found t None None key (fst r) path)) F"
    by (rule does_find_leaf_loop) (use t d in \<open>auto simp: tree_at_def\<close>)
  moreover have "find_leaf env key ov = find_leaf_loop env key (bt_id t) [] {} ov" if "holds env st0 s ov" for ov
    using t holds_fields(1) [OF that] by (simp add: find_leaf_def tree_at_def)
  ultimately show "does env st0 (find_leaf env key) s (\<lambda>r s'. s' = s \<and> found t None None key (fst r) (snd r)) F"
    by (intro does_cong [of env st0 s "find_leaf env key"]) simp_all
  fix x s' assume "s' = s \<and> found t None None key (fst x) (snd x)"
  then show "does env st0 (k x) s' Q F" using k by (cases x) (auto simp: found_def)
qed

end

end
