(* ===== verification/Dodb_Operations.thy ===== *)
theory Dodb_Operations
  imports Dodb_Contents
begin

text \<open>
  The operations of the overlay on the contents: put, delete and get refine insertion and lookup
  in the ordered map of rows, and fail only for over-long keys or an exhausted page space.
\<close>

section \<open>Revisions and failures\<close>

definition stamp_of :: "ostate \<Rightarrow> revision" where
  "stamp_of s = (case o_last s of Some l \<Rightarrow> revision_from_lsn l | None \<Rightarrow> o_next_revision s)"

abbreviation stamped :: "ostate \<Rightarrow> ostate" where
  "stamped s \<equiv> s\<lparr>o_last := Some (stamp_of s)\<rparr>"

text \<open>No put or delete takes more new pages than this: an overflow chain, a split on every level of
  the tree and a new root.\<close>

definition PUT_GROWTH :: nat where "PUT_GROWTH = 2 ^ 21"

text \<open>Why storing a row may fail: a key longer than a third of a page, or no page ids left.\<close>

definition write_error :: "ostate \<Rightarrow> (bytes, revision_state) ordmap \<Rightarrow> bytes \<Rightarrow> error \<Rightarrow> bool" where
  "write_error s rows key e \<longleftrightarrow>
     e = InvalidInput \<and> (\<exists>k \<in> insert key (fst ` set rows). LIGHT_KEY < length k) \<or>
     e = InternalInvariantViolation \<and> 2 ^ 62 \<le> unat (o_high s)"

lemma tree_inv_last [simp]: "tree_inv (s\<lparr>o_last := x\<rparr>) t own frees rows \<longleftrightarrow> tree_inv s t own frees rows"
  by (simp add: tree_inv_def tree_at_def pages_ok_def)

lemma touched_mono: "touched m s s' \<Longrightarrow> m \<le> n \<Longrightarrow> touched n s s'"
  by (auto simp: touched_def intro: grows_mono)

lemma touched_trans:
  "grows m s s1 \<Longrightarrow> touched n s1 s2 \<Longrightarrow> touched (m + n) s s2" "touched m s s1 \<Longrightarrow> grows n s1 s2 \<Longrightarrow> touched (m + n) s s2"
  by (auto simp: touched_def intro: grows_trans) (auto simp: grows_def)

lemma rows_at_keeps: "rows_at (o_mem s) own es rows \<Longrightarrow> keeps (set (owned own es)) s s' \<Longrightarrow> rows_at (o_mem s') own es rows"
  using rows_at_cong [of own es "o_mem s'" "o_mem s" rows] by (simp add: keeps_def)

lemma stored_rows:
  assumes "stored s own [] key st rows ids n s'"
  shows "holds_rows s' (om_insert key st rows) \<and> touched n s s'"
  using assms unfolding stored_def holds_rows_def tree_inv_def by auto

definition put_error :: "database_config \<Rightarrow> ostate \<Rightarrow> (bytes, revision_state) ordmap \<Rightarrow> bytes \<Rightarrow> bytes \<Rightarrow> error \<Rightarrow> bool" where
  "put_error config s rows key v e \<longleftrightarrow> write_error s rows key e \<or>
     e = InvalidInput \<and> (max_value_size (dc_limits config) < length v \<or> MAX_VALUE_SIZE < length v)"

lemma long_key_error: "validate_encoded_key key = Inl e \<Longrightarrow> write_error s rows key e"
  by (auto simp: validate_encoded_key_def write_error_def ensure_def MAX_ENCODED_KEY_SIZE_def LIGHT_KEY_def split: if_splits)

context reliable_file
begin

lemma does_allocate_revision:
  assumes "does env st0 (k (stamp_of s)) (stamped s) Q F"
  shows "does env st0 (sbind allocate_revision k) s Q F"
proof (rule does_bind [where R = "\<lambda>r s'. r = stamp_of s \<and> s' = stamped s"])
  have g: "Inr (case ov_last_lsn ov of Some l \<Rightarrow> revision_from_lsn l | None \<Rightarrow> ov_next_revision ov) = Inr (stamp_of s)"
    if "holds env st0 s ov" for ov using holds_fields [OF that] by (simp add: stamp_of_def split: option.splits)
  have h: "holds env st0 (stamped s) (ov\<lparr>ov_last_lsn := Some (stamp_of s)\<rparr>)" if "holds env st0 s ov" for ov
    by (rule holds_meta [OF that]) (use holds_fields [OF that] in simp_all)
  show "does env st0 allocate_revision s (\<lambda>r s'. r = stamp_of s \<and> s' = stamped s) F"
    unfolding allocate_revision_def by (intro does_known [OF g] does_mod_bind [OF h] does_ret) simp_all
qed (use assms in auto)

lemma does_free_stored:
  assumes st: "stored s own [x] key st rows ids n s1" and x: "le_key x = key"
  shows "does env st0 (free_value env (le_value x) stamp) s1 (\<lambda>_ s'. holds_rows s' (om_insert key st rows) \<and> touched n s s') F"
proof -
  from st obtain t' frees' ro where t': "tree_at s1 t'" "rows_at (o_mem s1) (own(key := ids)) (bt_entries t') (om_insert key st rows)"
    and ok: "pages_ok s1 (own key @ bt_pages t' @ owned (own(key := ids)) (bt_entries t')) frees'"
    and old: "rows_at (o_mem s1) own [x] ro" and g: "touched n s s1" using x by (auto simp: stored_def)
  obtain w where row: "row_at (o_mem s1) (own key) x w" using old x by auto
  show ?thesis
  proof (rule does_weaken [OF does_free_value [OF ok row]])
    fix y s' assume "(\<exists>frees'. pages_ok s' (bt_pages t' @ owned (own(key := ids)) (bt_entries t')) frees') \<and>
      keeps (- set (own key)) s1 s' \<and> o_root s' = o_root s1 \<and> grows 0 s1 s'"
    then obtain frees2 where s': "pages_ok s' (bt_pages t' @ owned (own(key := ids)) (bt_entries t')) frees2"
      "keeps (- set (own key)) s1 s'" "o_root s' = o_root s1" "grows 0 s1 s'" by blast
    have d: "set (own key) \<inter> set (bt_pages t' @ owned (own(key := ids)) (bt_entries t')) = {}"
      using pages_ok_distinct [OF ok] by (simp only: distinct_append)
    then have "keeps (set (bt_pages t')) s1 s'" using s'(2) by (auto simp: keeps_def)
    then have "tree_at s' t'" by (rule tree_at_keeps [OF t'(1) _ s'(3)])
    moreover have "rows_at (o_mem s') (own(key := ids)) (bt_entries t') (om_insert key st rows)"
      using d s'(2) by (intro rows_at_keeps [OF t'(2)]) (auto simp: keeps_def)
    ultimately have "tree_inv s' t' (own(key := ids)) frees2 (om_insert key st rows)" using s'(1) by (simp add: tree_inv_def)
    then show "holds_rows s' (om_insert key st rows) \<and> touched n s s'"
      using touched_trans(2) [OF g s'(4)] by (auto simp: holds_rows_def)
  qed auto
qed

text \<open>An entry replaced or inserted at the place the search found.\<close>

lemma does_place:
  assumes t: "tree_at s t" "t = plug (Leaf p es) hs" "list_all hole_wf hs"
    and rows: "rows_at (o_mem s) own (bt_entries t) rows"
    and ok: "pages_ok s (bt_pages t @ ids @ owned own (bt_entries t)) frees"
    and key: "in_range (fst (bounds None None hs)) (snd (bounds None None hs)) key" "le_key e = key" "canonical key"
    and es: "es = xs @ olds @ ys" "length olds \<le> 1" "\<forall>x \<in> set olds. le_key x = key"
      "\<forall>x \<in> set xs. le_key x < key" "\<forall>y \<in> set ys. key < le_key y"
    and new: "row_at (o_mem s) ids e st"
    and nx: "nx = chain_head (right_leaves hs) None" and route: "route = map hole_id (rev hs) @ [p]"
    and full: "\<And>s'. \<not> room (length hs + 2) s \<Longrightarrow> F InternalInvariantViolation s'"
    and heavy: "\<And>s' k. k \<in> insert key (fst ` set rows) \<Longrightarrow> LIGHT_KEY < length k \<Longrightarrow> F InvalidInput s'"
  shows "does env st0 (insert_leaf_entries env p route nx (xs @ e # ys) stamp) s
    (\<lambda>_. stored s own olds key st rows ids (length hs + 2)) F"
proof -
  have around: "around_leaf s hs p (ids @ owned own (bt_entries t)) frees" and old: "leaf_entries_ok hs es" "leaf_fits es"
    by (rule focus_leaf [OF t ok])+
  have entries: "set es \<subseteq> set (bt_entries t)" using t(2) entries_around by auto
  have keys: "le_key ` set (bt_entries t) = fst ` set rows" using rows_at_keys [OF rows] by (metis list.set_map)
  have ok': "leaf_entries_ok hs (xs @ e # ys)" by (rule leaf_entries_ok_update [OF old(1) [unfolded es(1)] key(2,3,1) es(4,5)])
  have weight: "leaf_weight x \<le> 552 + length (le_key x) \<and> le_key x \<in> insert key (fst ` set rows)" if "x \<in> set (xs @ e # ys)" for x
  proof (cases "x = e")
    case True
    then show ?thesis using row_weight [OF new] key(2) by simp
  next
    case False
    then have "x \<in> set (bt_entries t)" using that es(1) entries by auto
    then show ?thesis using rows_weight [OF rows] keys by auto
  qed
  have "sum_list (map leaf_weight es) \<le> 4032" using old(2) by (simp add: leaf_fits_iff)
  then have total: "(\<forall>x \<in> set (xs @ e # ys). leaf_weight x \<le> 2016) \<longrightarrow> sum_list (map leaf_weight (xs @ e # ys)) \<le> 4032 + 2016"
    by (auto simp: es(1))
  have seps: "set (ctx_seps hs) \<subseteq> fst ` set rows" using t(1,2) keys by (auto simp: tree_at_def set_seps_plug)
  show ?thesis
  proof (rule does_weaken [OF does_insert_leaf_entries [where F = F, OF around ok' nx route total full]])
    show "F InvalidInput s'" if "x \<in> set (xs @ e # ys)" "2016 < leaf_weight x" for s' x
    proof (rule heavy)
      show "le_key x \<in> insert key (fst ` set rows)" "LIGHT_KEY < length (le_key x)"
        using weight [OF that(1)] that(2) by (simp_all add: LIGHT_KEY_def)
    qed
    show "F InvalidInput s'" if "k \<in> set (ctx_seps hs)" "1996 < length k" for s' k
      by (rule heavy [of k]) (use seps that in \<open>auto simp: LIGHT_KEY_def\<close>)
    show "stored s own olds key st rows ids (length hs + 2) s'"
      if "leaf_replaced s hs (ids @ owned own (bt_entries t)) (xs @ e # ys) s'" for s'
      by (rule stored_intro [OF t(1) t(2) [unfolded es(1)] t(3) rows key(1,2) es(2-5) new that])
  qed
qed

section \<open>Put\<close>

lemma does_store_entry:
  assumes t: "tree_at s t" "t = plug (Leaf p es) hs" "list_all hole_wf hs"
    and rows: "rows_at (o_mem s) own (bt_entries t) rows"
    and ok: "pages_ok s (bt_pages t @ ids @ owned own (bt_entries t)) frees"
    and key: "in_range (fst (bounds None None hs)) (snd (bounds None None hs)) key" "le_key e = key" "canonical key"
    and new: "row_at (o_mem s) ids e st"
    and nx: "nx = chain_head (right_leaves hs) None" and route: "route = map hole_id (rev hs) @ [p]"
    and full: "\<And>s'. \<not> room (length hs + 2) s \<Longrightarrow> F InternalInvariantViolation s'"
    and heavy: "\<And>s' k. k \<in> insert key (fst ` set rows) \<Longrightarrow> LIGHT_KEY < length k \<Longrightarrow> F InvalidInput s'"
  shows "does env st0 (case binary_search le_key key es of
       Inr index \<Rightarrow> sbind (insert_leaf_entries env p route nx (es[index := e]) stamp) (\<lambda>_. free_value env (le_value (es ! index)) stamp)
     | Inl index \<Rightarrow> insert_leaf_entries env p route nx (insert_at index e es) stamp) s
    (\<lambda>_ s'. holds_rows s' (om_insert key st rows) \<and> touched (length hs + 2) s s') F"
proof -
  note place = does_place [where F = F and stamp = stamp, OF t rows ok key _ _ _ _ _ new nx route full heavy]
  have "sorted_wrt (<) (map le_key es)" using focus_leaf(2) [OF t ok] by (simp add: leaf_entries_ok_def)
  then show ?thesis
  proof (cases rule: binary_search_split [of le_key es key])
    case (found xs x ys)
    have "does env st0 (insert_leaf_entries env p route nx (xs @ e # ys) stamp) s
        (\<lambda>_. stored s own [x] key st rows ids (length hs + 2)) F"
      by (rule place) (use found in auto)
    then have "does env st0 (sbind (insert_leaf_entries env p route nx (xs @ e # ys) stamp) (\<lambda>_. free_value env (le_value x) stamp)) s
        (\<lambda>_ s'. holds_rows s' (om_insert key st rows) \<and> touched (length hs + 2) s s') F"
      by (rule does_bind) (rule does_free_stored [OF _ found(3)])
    then show ?thesis unfolding found(1) using found(2) by simp
  next
    case (absent xs ys)
    have "does env st0 (insert_leaf_entries env p route nx (xs @ e # ys) stamp) s
        (\<lambda>_. stored s own [] key st rows ids (length hs + 2)) F"
      by (rule place) (use absent in auto)
    then have "does env st0 (insert_leaf_entries env p route nx (xs @ e # ys) stamp) s
        (\<lambda>_ s'. holds_rows s' (om_insert key st rows) \<and> touched (length hs + 2) s s') F"
      by (rule does_weaken) (use stored_rows in blast)+
    then show ?thesis unfolding absent(1) using absent(2) by (simp add: insert_at_def)
  qed
qed

lemma does_put:
  assumes inv: "tree_inv s t own frees rows" and len: "length v \<le> MAX_VALUE_SIZE"
    and err: "\<And>e s'. write_error s rows key e \<Longrightarrow> F e s'" and can: "canonical key"
  shows "does env st0 (sbind (find_leaf env key) (\<lambda>(leaf_id, route).
     sbind (overlay_leaf env leaf_id) (\<lambda>(next_leaf, entries).
     sbind (make_value env v stamp) (\<lambda>value_ref.
     let entry = \<lparr>le_key = key, le_revision = stamp, le_value = Some value_ref\<rparr> in
     sbind (case binary_search le_key key entries of
              Inr index \<Rightarrow>
                (let old_value = le_value (entries ! index) in
                 sbind (insert_leaf_entries env leaf_id route next_leaf (entries[index := entry]) stamp) (\<lambda>_.
                 free_value env old_value stamp))
            | Inl index \<Rightarrow>
                insert_leaf_entries env leaf_id route next_leaf (insert_at index entry entries) stamp) (\<lambda>_.
     sret stamp))))) s
    (\<lambda>r s'. r = stamp \<and> holds_rows s' (om_insert key (Present v stamp) rows) \<and> touched PUT_GROWTH s s') F"
    (is "does _ _ _ _ ?Q _")
proof -
  have t: "tree_at s t" and ok: "pages_ok s (bt_pages t @ owned own (bt_entries t)) frees"
    and rows: "rows_at (o_mem s) own (bt_entries t) rows" using inv by (simp_all add: tree_inv_def)
  let ?n = "div_ceil (length v) OVERFLOW_DATA_SIZE"
  have n: "?n \<le> 2 ^ 20" using overflow_pages_bound [OF len]
    by (rule order_trans) (simp add: MAX_OVERFLOW_PAGES_def MAX_VALUE_SIZE_def OVERFLOW_DATA_SIZE_value)
  show ?thesis
  proof (rule does_find_leaf [OF t ok], unfold prod.case)
    fix p es hs assume hs: "t = plug (Leaf p es) hs" "list_all hole_wf hs"
      "in_range (fst (bounds None None hs)) (snd (bounds None None hs)) key"
    have around: "around_leaf s hs p (owned own (bt_entries t)) frees" and es: "leaf_entries_ok hs es"
      by (rule focus_leaf [OF t hs(1,2) ok])+
    obtain l where m: "o_mem s p = Some (LeafData l (chain_head (right_leaves hs) None) es)"
      using focus_leaf(4) [OF t hs(1,2) ok] by blast
    let ?nx = "chain_head (right_leaves hs) None" and ?route = "map hole_id (rev hs) @ [p]"
    have range: "FIRST_DATA_PAGE \<le> p" "p \<le> o_high s" using pages_ok_range [OF ok, of p] hs(1) by (auto simp: set_pages_plug)
    have depth: "length hs < 64" by (rule depth_bound [OF around])
    have roomy: "unat (o_high s) + (?n + (length hs + 2)) < 2 ^ 64" if "\<not> 2 ^ 62 \<le> unat (o_high s)" using that depth n by simp
    show "does env st0 (sbind (overlay_leaf env p) (\<lambda>(next_leaf, entries).
     sbind (make_value env v stamp) (\<lambda>value_ref.
     let entry = \<lparr>le_key = key, le_revision = stamp, le_value = Some value_ref\<rparr> in
     sbind (case binary_search le_key key entries of
              Inr index \<Rightarrow>
                (let old_value = le_value (entries ! index) in
                 sbind (insert_leaf_entries env p ?route next_leaf (entries[index := entry]) stamp) (\<lambda>_.
                 free_value env old_value stamp))
            | Inl index \<Rightarrow>
                insert_leaf_entries env p ?route next_leaf (insert_at index entry entries) stamp) (\<lambda>_.
     sret stamp)))) s ?Q F"
    proof (rule does_leaf [OF m range], unfold prod.case Let_def, rule does_bind [OF does_make_value [OF ok len]])
      show "F InternalInvariantViolation s'" if "\<not> room ?n s" for s'
        using err [of InternalInvariantViolation] that roomy by (auto simp: write_error_def room_def)
      fix vref s1 assume "\<exists>ids frees'. pages_ok s1 (ids @ bt_pages t @ owned own (bt_entries t)) frees' \<and>
        stores (o_mem s1) ids vref v \<and> keeps (set (bt_pages t @ owned own (bt_entries t))) s s1 \<and> o_root s1 = o_root s \<and> grows ?n s s1"
      then obtain ids frees1 where s1: "pages_ok s1 (ids @ bt_pages t @ owned own (bt_entries t)) frees1"
        "stores (o_mem s1) ids vref v" "keeps (set (bt_pages t @ owned own (bt_entries t))) s s1" "o_root s1 = o_root s" "grows ?n s s1"
        by blast
      have t1: "tree_at s1 t" "rows_at (o_mem s1) own (bt_entries t) rows"
        by (rule tree_at_keeps [OF t keeps_mono [OF s1(3)] s1(4)], simp) (rule rows_at_keeps [OF rows keeps_mono [OF s1(3)]], simp)
      have ok1: "pages_ok s1 (bt_pages t @ ids @ owned own (bt_entries t)) frees1"
        by (rule pages_ok_perm [THEN iffD1, OF _ s1(1)]) simp
      have new: "row_at (o_mem s1) ids \<lparr>le_key = key, le_revision = stamp, le_value = Some vref\<rparr> (Present v stamp)"
        using s1(2) by (simp add: row_at_def)
      have full: "F InternalInvariantViolation s'" if "\<not> room (length hs + 2) s1" for s'
        using err [of InternalInvariantViolation] grows_room [OF s1(5), of "length hs + 2"] that roomy
        by (auto simp: write_error_def room_def)
      have heavy: "F InvalidInput s'" if "k \<in> insert key (fst ` set rows)" "LIGHT_KEY < length k" for s' k
        using err [of InvalidInput] that by (auto simp: write_error_def)
      note store = does_store_entry [where F = F and stamp = stamp, OF t1(1) hs(1,2) t1(2) ok1 hs(3) _ can new refl refl full heavy]
      show "does env st0 (sbind (case binary_search le_key key es of
              Inr index \<Rightarrow>
                 sbind (insert_leaf_entries env p ?route ?nx (es[index := \<lparr>le_key = key, le_revision = stamp, le_value = Some vref\<rparr>]) stamp) (\<lambda>_.
                 free_value env (le_value (es ! index)) stamp)
            | Inl index \<Rightarrow>
                insert_leaf_entries env p ?route ?nx (insert_at index \<lparr>le_key = key, le_revision = stamp, le_value = Some vref\<rparr> es) stamp) (\<lambda>_.
        sret stamp)) s1 ?Q F"
      proof (rule does_bind [OF store])
        fix s' assume "holds_rows s' (om_insert key (Present v stamp) rows) \<and> touched (length hs + 2) s1 s'"
        then show "does env st0 (sret stamp) s' ?Q F"
          using touched_mono [OF touched_trans(1) [OF s1(5), of "length hs + 2" s'], of PUT_GROWTH] depth n
          by (intro does_ret) (auto simp: PUT_GROWTH_def)
      qed simp
    qed
  qed
qed

lemma does_overlay_put:
  assumes inv: "holds_rows s rows"
  shows "does env st0 (overlay_put env key v) s
    (\<lambda>r s'. r = stamp_of s \<and> holds_rows s' (om_insert (encode key) (Present v r) rows) \<and> touched PUT_GROWTH (stamped s) s')
    (\<lambda>e _. put_error (bs_config st0) s rows (encode key) v e)"
  unfolding overlay_put_def
proof (rule does_get [where r = "validate_value (dc_limits (bs_config st0)) v"], goal_cases)
  case (1 ov)
  then show ?case by (simp add: holds_store(1) [OF 1])
next
  case (2 u)
  have len: "length v \<le> MAX_VALUE_SIZE" using 2 by (auto simp: validate_value_def ensure_def split: if_splits)
  obtain t own frees where t: "tree_inv (stamped s) t own frees rows" using inv by (auto simp: holds_rows_def)
  have err: "put_error (bs_config st0) s rows (encode key) v e" if "write_error (stamped s) rows (encode key) e" for e
    using that by (simp add: put_error_def write_error_def)
  have long: "put_error (bs_config st0) s rows (encode key) v e" if "validate_encoded_key (encode key) = Inl e" for e
    using long_key_error [OF that] by (simp add: put_error_def)
  show ?case
    unfolding Let_def [of "encode key"]
    by (rule does_res_bind, rule does_allocate_revision,
      rule does_weaken [OF does_put [where F = "\<lambda>e _. put_error (bs_config st0) s rows (encode key) v e", OF t len err canonical_encode]])
      (auto intro: long)
next
  case (3 e)
  then show ?case by (auto simp: validate_value_def put_error_def ensure_def split: if_splits)
qed

section \<open>Delete\<close>

lemma does_tombstone:
  assumes t: "tree_at s t" "t = plug (Leaf p (xs @ x # ys)) hs" "list_all hole_wf hs"
    and rows: "rows_at (o_mem s) own (bt_entries t) rows"
    and ok: "pages_ok s (bt_pages t @ owned own (bt_entries t)) frees"
    and key: "in_range (fst (bounds None None hs)) (snd (bounds None None hs)) key" "le_key x = key" "canonical key"
    and es: "\<forall>x \<in> set xs. le_key x < key" "\<forall>y \<in> set ys. key < le_key y"
    and e: "e = \<lparr>le_key = key, le_revision = stamp, le_value = None\<rparr>"
    and nx: "nx = chain_head (right_leaves hs) None"
  shows "does env st0 (sbind (replace_page p (LeafData stamp nx (xs @ e # ys))) (\<lambda>_. free_value env (le_value x) stamp)) s
    (\<lambda>_ s'. holds_rows s' (om_insert key (Missing stamp) rows) \<and> touched (length hs + 2) s s') F"
proof (rule does_replace_bind)
  have around: "around_leaf s hs p (owned own (bt_entries t)) frees" and old: "leaf_entries_ok hs (xs @ [x] @ ys)" "leaf_fits (xs @ x # ys)"
    using focus_leaf [OF t ok] by simp_all
  have ok': "leaf_entries_ok hs (xs @ e # ys)" by (rule leaf_entries_ok_update [OF old(1) _ key(3,1) es]) (simp add: e)
  have "leaf_weight e \<le> leaf_weight x" using key(2) by (simp add: e leaf_weight_def inline_bytes_def)
  then have "leaf_fits (xs @ e # ys)" using old(2) ok' by (auto simp: leaf_fits_iff leaf_entries_ok_def)
  then have "leaf_replaced s hs ([] @ owned own (bt_entries t)) (xs @ e # ys) (replaced s p (LeafData stamp nx (xs @ e # ys)))"
    using leaf_replaced_fits [OF around ok' _ nx] by simp
  then have "stored s own [x] key (Missing stamp) rows [] (length hs + 2) (replaced s p (LeafData stamp nx (xs @ e # ys)))"
    using key t es by (intro stored_intro [OF t(1) _ t(3) rows key(1)]) (auto simp: e row_at_def)
  then show "does env st0 (free_value env (le_value x) stamp) (replaced s p (LeafData stamp nx (xs @ e # ys)))
    (\<lambda>_ s'. holds_rows s' (om_insert key (Missing stamp) rows) \<and> touched (length hs + 2) s s') F"
    by (rule does_free_stored [OF _ key(2)])
qed

lemma does_delete:
  assumes inv: "tree_inv s t own frees rows" and err: "\<And>e s'. write_error s rows key e \<Longrightarrow> F e s'" and can: "canonical key"
  shows "does env st0 (sbind (find_leaf env key) (\<lambda>(leaf_id, route).
     sbind (overlay_leaf env leaf_id) (\<lambda>(next_leaf, entries).
     let entry = \<lparr>le_key = key, le_revision = stamp, le_value = None\<rparr> in
     sbind (case binary_search le_key key entries of
              Inr index \<Rightarrow>
                (let old_value = le_value (entries ! index) in
                 sbind (replace_page leaf_id (LeafData stamp next_leaf (entries[index := entry]))) (\<lambda>_.
                 free_value env old_value stamp))
            | Inl index \<Rightarrow>
                insert_leaf_entries env leaf_id route next_leaf (insert_at index entry entries) stamp) (\<lambda>_.
     sret stamp)))) s
    (\<lambda>r s'. r = stamp \<and> holds_rows s' (om_insert key (Missing stamp) rows) \<and> touched PUT_GROWTH s s') F"
    (is "does _ _ _ _ ?Q _")
proof -
  have t: "tree_at s t" and ok: "pages_ok s (bt_pages t @ owned own (bt_entries t)) frees"
    and rows: "rows_at (o_mem s) own (bt_entries t) rows" using inv by (simp_all add: tree_inv_def)
  let ?e = "\<lparr>le_key = key, le_revision = stamp, le_value = None\<rparr>"
  show ?thesis
  proof (rule does_find_leaf [OF t ok], unfold prod.case, goal_cases)
    case hs: (1 p es hs)
    let ?nx = "chain_head (right_leaves hs) None" and ?route = "map hole_id (rev hs) @ [p]"
    have around: "around_leaf s hs p (owned own (bt_entries t)) frees" and es: "leaf_entries_ok hs es"
      by (rule focus_leaf [OF t hs(1,2) ok])+
    obtain l where m: "o_mem s p = Some (LeafData l ?nx es)"
      using focus_leaf(4) [OF t hs(1,2) ok] by blast
    have range: "FIRST_DATA_PAGE \<le> p" "p \<le> o_high s" using pages_ok_range [OF ok, of p] hs(1) by (auto simp: set_pages_plug)
    have full: "F InternalInvariantViolation s'" if "\<not> room (length hs + 2) s" for s'
      using err [of InternalInvariantViolation] depth_bound(2) [OF around] that by (auto simp: write_error_def room_def)
    have heavy: "F InvalidInput s'" if "k \<in> insert key (fst ` set rows)" "LIGHT_KEY < length k" for s' k
      using err [of InvalidInput] that by (auto simp: write_error_def)
    have growth: "touched (length hs + 2) s s' \<Longrightarrow> touched PUT_GROWTH s s'" for s'
      using touched_mono [of "length hs + 2" s s' PUT_GROWTH] depth_bound(2) [OF around] by (simp add: PUT_GROWTH_def)
    let ?step = "case binary_search le_key key es of
        Inr index \<Rightarrow> sbind (replace_page p (LeafData stamp ?nx (es[index := ?e]))) (\<lambda>_. free_value env (le_value (es ! index)) stamp)
      | Inl index \<Rightarrow> insert_leaf_entries env p ?route ?nx (insert_at index ?e es) stamp"
    have "sorted_wrt (<) (map le_key es)" using es by (simp add: leaf_entries_ok_def)
    then have "does env st0 ?step s (\<lambda>_ s'. holds_rows s' (om_insert key (Missing stamp) rows) \<and> touched (length hs + 2) s s') F"
    proof (cases rule: binary_search_split [of le_key es key])
      case (found xs x ys)
      then show ?thesis
        using does_tombstone [OF t _ hs(2) rows ok hs(3) _ can _ _ refl refl, of p xs x ys env st0 stamp F] hs(1) by simp
    next
      case (absent xs ys)
      have "does env st0 (insert_leaf_entries env p ?route ?nx (xs @ ?e # ys) stamp) s
          (\<lambda>_. stored s own [] key (Missing stamp) rows [] (length hs + 2)) F"
        by (rule does_place [where F = F, OF t hs(1,2) rows _ hs(3) _ can _ _ _ _ _ _ refl refl full heavy])
          (use absent ok in \<open>auto simp: row_at_def\<close>)
      then have "does env st0 (insert_leaf_entries env p ?route ?nx (xs @ ?e # ys) stamp) s
          (\<lambda>_ s'. holds_rows s' (om_insert key (Missing stamp) rows) \<and> touched (length hs + 2) s s') F"
        by (rule does_weaken) (use stored_rows in blast)+
      then show ?thesis unfolding absent(1) using absent(2) by (simp add: insert_at_def)
    qed
    then show ?case
      unfolding Let_def by (intro does_leaf [OF m range], unfold prod.case) (erule does_bind, intro does_ret, use growth in blast)
  qed
qed

lemma does_overlay_delete:
  assumes inv: "holds_rows s rows"
  shows "does env st0 (overlay_delete env key) s
    (\<lambda>r s'. r = stamp_of s \<and> holds_rows s' (om_insert (encode key) (Missing r) rows) \<and> touched PUT_GROWTH (stamped s) s')
    (\<lambda>e _. write_error s rows (encode key) e)"
proof -
  obtain t own frees where t: "tree_inv (stamped s) t own frees rows" using inv by (auto simp: holds_rows_def)
  have err: "write_error s rows (encode key) e" if "write_error (stamped s) rows (encode key) e" for e
    using that by (simp add: write_error_def)
  show ?thesis
    unfolding overlay_delete_def Let_def [of "encode key"]
    by (rule does_res_bind, rule does_allocate_revision,
      rule does_weaken [OF does_delete [where F = "\<lambda>e _. write_error s rows (encode key) e", OF t err canonical_encode]])
      (auto intro: long_key_error)
qed

end

end
