(* ===== verification/Dodb_Reads.thy ===== *)
theory Dodb_Reads
  imports Dodb_Operations
begin

text \<open>
  Reads of the overlay on the contents: point reads are lookups, scans and queries walk the rows
  in key order. \<open>scan_rows\<close> and \<open>query_rows\<close> are the reads as functions of the rows, the response
  budget included; the traversals of the leaf chain return exactly their results.
\<close>

section \<open>Reads of the rows\<close>

definition lookup :: "(bytes, revision_state) ordmap \<Rightarrow> bytes \<Rightarrow> revision_state" where
  "lookup rows key = (case om_get rows key of Some st \<Rightarrow> st | None \<Rightarrow> Missing 0)"

fun state_length :: "revision_state \<Rightarrow> nat" where
  "state_length (Present v r) = length v"
| "state_length (Missing r) = 0"

definition key_of :: "bytes \<Rightarrow> document_key" where
  "key_of k = projr (decode k)"

definition up_to :: "bytes option \<Rightarrow> bytes \<Rightarrow> bool" where
  "up_to cursor k = (case cursor of None \<Rightarrow> False | Some c \<Rightarrow> k \<le> c)"

fun scan_rows :: "bytes option \<Rightarrow> nat \<Rightarrow> (bytes, revision_state) ordmap \<Rightarrow> btree_document list \<Rightarrow> response_budget \<Rightarrow>
    error + btree_document list \<times> response_budget" where
  "scan_rows cursor limit [] acc b = Inr (acc, b)"
| "scan_rows cursor limit ((k, st) # rows) acc b =
     (if up_to cursor k then scan_rows cursor limit rows acc b
      else case st of
        Missing r \<Rightarrow> scan_rows cursor limit rows acc b
      | Present v r \<Rightarrow>
          rbind (reserve_document (key_of k) (length v) b) (\<lambda>b'.
          let acc' = acc @ [\<lparr>doc_key = key_of k, doc_value = v, doc_revision = r\<rparr>] in
          if length acc' = limit then Inr (acc', b') else scan_rows cursor limit rows acc' b'))"

fun query_rows :: "bytes \<Rightarrow> bytes option \<Rightarrow> nat \<Rightarrow> (bytes, revision_state) ordmap \<Rightarrow> btree_document list \<Rightarrow> response_budget \<Rightarrow>
    error + btree_document list \<times> response_budget" where
  "query_rows qpk after_sk limit [] acc b = Inr (acc, b)"
| "query_rows qpk after_sk limit ((k, st) # rows) acc b =
     (if pk (key_of k) > qpk then Inr (acc, b)
      else if pk (key_of k) < qpk \<or> up_to after_sk (sk (key_of k)) then query_rows qpk after_sk limit rows acc b
      else case st of
        Missing r \<Rightarrow> query_rows qpk after_sk limit rows acc b
      | Present v r \<Rightarrow>
          rbind (reserve_document (key_of k) (length v) b) (\<lambda>b'.
          let acc' = acc @ [\<lparr>doc_key = key_of k, doc_value = v, doc_revision = r\<rparr>] in
          if length acc' = limit then Inr (acc', b') else query_rows qpk after_sk limit rows acc' b'))"

lemma scan_rows_skip: "\<forall>r \<in> set xs. up_to cursor (fst r) \<Longrightarrow> scan_rows cursor limit (xs @ ys) acc b = scan_rows cursor limit ys acc b"
  by (induction xs) auto

lemma query_rows_skip: "\<forall>r \<in> set xs. pk (key_of (fst r)) < qpk \<Longrightarrow> query_rows qpk after_sk limit (xs @ ys) acc b = query_rows qpk after_sk limit ys acc b"
  by (induction xs) auto

lemma encode_key_of: "canonical k \<Longrightarrow> encode (key_of k) = k"
  by (auto simp: canonical_def is_ok_iff key_of_def encode_decode)

lemma canonical_le: "canonical k \<Longrightarrow> k \<le> encode d \<longleftrightarrow> key_of k \<le> d"
  using encode_less_iff [of d "key_of k"] encode_key_of [of k] by (metis not_le)

lemma canonical_less: "canonical k \<Longrightarrow> k < encode d \<longleftrightarrow> key_of k < d"
  using encode_less_iff [of "key_of k" d] encode_key_of [of k] by simp

section \<open>Entries and rows\<close>

lemma rows_at_entry:
  assumes "rows_at mem own es rows" and "e \<in> set es"
  shows "\<exists>st. (le_key e, st) \<in> set rows \<and> row_at mem (own (le_key e)) e st"
proof -
  obtain i where i: "i < length es" "es ! i = e" using assms(2) by (metis in_set_conv_nth)
  then have "i < length rows" "fst (rows ! i) = le_key e" "row_at mem (own (le_key e)) e (snd (rows ! i))"
    using assms(1) by (auto simp: rows_at_def list_all2_conv_all_nth)
  then show ?thesis by (metis nth_mem prod.collapse)
qed

lemma stores_length: "stores mem ids vref v \<Longrightarrow> value_length vref = length v"
  by (cases vref) auto

lemma row_at_cases:
  assumes "row_at mem ids e st"
  obtains (missing) "le_value e = None" "st = Missing (le_revision e)"
    | (present) vref v where "le_value e = Some vref" "st = Present v (le_revision e)" "stores mem ids vref v"
  using assms by (auto simp: row_at_def split: option.splits)

lemma owned_part: "e \<in> set es \<Longrightarrow> set (own (le_key e)) \<subseteq> set (owned own es)"
  by (auto simp: owned_def)

lemma owned_distinct: "distinct (owned own es) \<Longrightarrow> e \<in> set es \<Longrightarrow> distinct (own (le_key e))"
  by (induction es) auto

text \<open>A loop over part of the rows either ends the read or hands the rest to the next leaf.\<close>

definition reads_part :: "((bytes, revision_state) ordmap \<Rightarrow> btree_document list \<Rightarrow> response_budget \<Rightarrow>
    error + btree_document list \<times> response_budget) \<Rightarrow> (bytes, revision_state) ordmap \<Rightarrow> btree_document list \<Rightarrow> response_budget \<Rightarrow>
    bool \<times> btree_document list \<times> response_budget \<Rightarrow> bool" where
  "reads_part f part acc b r \<longleftrightarrow>
     (if fst r then \<forall>rest. f (part @ rest) acc b = Inr (snd r) else \<forall>rest. f (part @ rest) acc b = f rest (fst (snd r)) (snd (snd r)))"

lemma sbind_sret [simp]: "sbind (sret x) f = f x"
  by (rule ext) (simp add: sbind_def)

lemma scan_leaves_eq:
  "scan_leaves env cursor limit leaf visited rows b =
     (if leaf \<in> visited then sfail Corruption
      else sbind (overlay_leaf env leaf) (\<lambda>(next_leaf, entries).
           sbind (scan_entries env cursor limit entries rows b) (\<lambda>(finished, rows', b').
           if finished then sret (rows', b')
           else case next_leaf of
             None \<Rightarrow> sret (rows', b')
           | Some nx \<Rightarrow> scan_leaves env cursor limit nx (insert leaf visited) rows' b')))"
  by (rule ext, subst scan_leaves.simps) (auto simp: sbind_def split: prod.splits sum.splits option.splits)

lemma query_loop_eq:
  "query_loop env qpk after_sk cursor limit leaf visited first rows b =
     (if length rows < limit then
        (if leaf \<in> visited then sfail Corruption
         else sbind (overlay_leaf env leaf) (\<lambda>(next_leaf, entries).
              sbind (query_entries env qpk after_sk cursor limit entries first rows b) (\<lambda>(finished, first', rows', b').
              if finished then sret (rows', b')
              else case next_leaf of
                None \<Rightarrow> sret (rows', b')
              | Some nx \<Rightarrow> query_loop env qpk after_sk cursor limit nx (insert leaf visited) False rows' b')))
      else sret (rows, b))"
  by (rule ext, subst query_loop.simps) (auto simp: sbind_def split: prod.splits sum.splits option.splits)

text \<open>A chain of leaves with the rows it holds.\<close>

definition leaf_chain :: "ostate \<Rightarrow> (bytes \<Rightarrow> page_id list) \<Rightarrow> page_id list \<Rightarrow> (page_id \<times> leaf_entry list) list \<Rightarrow>
    (bytes, revision_state) ordmap \<Rightarrow> bool" where
  "leaf_chain s own used ls rows \<longleftrightarrow>
     linked (o_mem s) ls None \<and> distinct (map fst ls) \<and> fst ` set ls \<subseteq> {FIRST_DATA_PAGE..o_high s} \<and>
     rows_at (o_mem s) own (concat (map snd ls)) rows \<and> set (owned own (concat (map snd ls))) \<subseteq> set used \<and>
     distinct (owned own (concat (map snd ls))) \<and> (\<forall>e \<in> set (concat (map snd ls)). canonical (le_key e))"

lemma leaf_chain_Cons:
  assumes "leaf_chain s own used (l # ls) rows"
  obtains re rest stamp where "rows = re @ rest" "rows_at (o_mem s) own (snd l) re" "leaf_chain s own used ls rest"
    "o_mem s (fst l) = Some (LeafData stamp (chain_head ls None) (snd l))" "FIRST_DATA_PAGE \<le> fst l" "fst l \<le> o_high s"
    "fst l \<notin> fst ` set ls" "set (owned own (snd l)) \<subseteq> set used" "distinct (owned own (snd l))" "\<forall>e \<in> set (snd l). canonical (le_key e)"
proof -
  obtain re rest where r: "rows = re @ rest" "rows_at (o_mem s) own (snd l) re" "rows_at (o_mem s) own (concat (map snd ls)) rest"
    using assms by (auto simp: leaf_chain_def rows_at_append)
  then have "leaf_chain s own used ls rest" using assms by (auto simp: leaf_chain_def)
  moreover obtain stamp where "o_mem s (fst l) = Some (LeafData stamp (chain_head ls None) (snd l))"
    using assms by (auto simp: leaf_chain_def)
  ultimately show ?thesis using r assms by (intro that [of re rest stamp]) (auto simp: leaf_chain_def)
qed

lemma leaves_mset: "mset (map fst (bt_leaves t)) \<subseteq># mset (bt_pages t)"
proof (induction t)
  case (Node p ks ts)
  have "mset (map fst (concat (map bt_leaves us))) \<subseteq># mset (concat (map bt_pages us))" if "set us \<subseteq> set ts" for us
    using that
  proof (induction us)
    case (Cons u us)
    then show ?case using Node.IH [of u] by (auto intro: subset_mset.add_mono)
  qed simp
  from this [of ts] show ?case by (auto intro: subset_mset.order_trans)
qed simp

lemma mset_sub_distinct: assumes "mset ys \<subseteq># mset xs" and "distinct xs" shows "distinct ys"
  unfolding distinct_count_atmost_1
proof
  fix a
  have "count (mset ys) a \<le> count (mset xs) a" using assms(1) by (rule mset_subset_eq_count)
  also have "\<dots> \<le> 1" using assms(2) by (simp add: distinct_count_atmost_1)
  finally have "count (mset ys) a \<le> 1" .
  moreover have "0 < count (mset ys) a \<longleftrightarrow> a \<in> set ys" by simp
  ultimately show "count (mset ys) a = (if a \<in> set ys then 1 else 0)" by (cases "count (mset ys) a") (auto simp del: count_mset_0_iff)
qed

lemma leaves_distinct: "distinct (bt_pages t) \<Longrightarrow> distinct (map fst (bt_leaves t))"
  by (rule mset_sub_distinct [OF leaves_mset])

lemma leaves_nonempty: "ordered lo hi t \<Longrightarrow> bt_leaves t \<noteq> []" "ordered_list lo hi ks ts \<Longrightarrow> concat (map bt_leaves ts) \<noteq> []"
  by (induction lo hi t and lo hi ks ts rule: ordered_ordered_list.induct) auto

lemma fits_canonical: "bt_fits t \<Longrightarrow> e \<in> set (bt_entries t) \<Longrightarrow> canonical (le_key e)"
proof (induction t)
  case (Leaf p es)
  then show ?case by (simp add: bt_entries_def leaf_fits_iff)
next
  case (Node p ks ts)
  then show ?case by (auto simp: bt_entries_Node list_all_iff)
qed

lemma tree_chain:
  assumes inv: "tree_inv s t own frees rows"
  shows "leaf_chain s own (bt_pages t @ owned own (bt_entries t)) (bt_leaves t) rows"
proof -
  have t: "tree_at s t" and ok: "pages_ok s (bt_pages t @ owned own (bt_entries t)) frees"
    and rows: "rows_at (o_mem s) own (bt_entries t) rows" using inv by (simp_all add: tree_inv_def)
  have d: "distinct (bt_pages t)" "distinct (owned own (bt_entries t))" using pages_ok_distinct [OF ok] by simp_all
  have "fst ` set (bt_leaves t) \<subseteq> {FIRST_DATA_PAGE..o_high s}" using leaves_pages [of t] ok by (auto simp: pages_ok_def)
  moreover have "canonical (le_key e)" if "e \<in> set (bt_entries t)" for e
    using fits_canonical that t by (auto simp: tree_at_def)
  ultimately show ?thesis
    using t d rows leaves_distinct [OF d(1)] by (auto simp: leaf_chain_def tree_at_def bt_entries_def)
qed

lemma leaf_chain_suffix:
  assumes "leaf_chain s own used (xs @ ls) rows"
  obtains ra rb where "rows = ra @ rb" "rows_at (o_mem s) own (concat (map snd xs)) ra" "leaf_chain s own used ls rb"
proof -
  obtain ra rb where r: "rows = ra @ rb" "rows_at (o_mem s) own (concat (map snd xs)) ra" "rows_at (o_mem s) own (concat (map snd ls)) rb"
    using assms by (auto simp: leaf_chain_def rows_at_append)
  have "leaf_chain s own used ls rb" using assms r by (auto simp: leaf_chain_def linked_append)
  with r(1,2) show ?thesis by (rule that)
qed

context reliable_file
begin

section \<open>Point reads\<close>

text \<open>The leaf for a key holds the row of the key, if there is one.\<close>

lemma does_leaf_row:
  assumes inv: "tree_inv s t own frees rows"
    and absent: "om_get rows key = None \<Longrightarrow> does env st0 (k None) s Q F"
    and present: "\<And>e st. om_get rows key = Some st \<Longrightarrow> le_key e = key \<Longrightarrow> e \<in> set (bt_entries t) \<Longrightarrow> row_at (o_mem s) (own key) e st \<Longrightarrow>
      does env st0 (k (Some e)) s Q F"
  shows "does env st0 (sbind (find_leaf env key) (\<lambda>(leaf_id, _). sbind (overlay_leaf env leaf_id) (\<lambda>(_, entries).
    k (find (\<lambda>e. le_key e = key) entries)))) s Q F"
proof -
  have t: "tree_at s t" and ok: "pages_ok s (bt_pages t @ owned own (bt_entries t)) frees"
    and rows: "rows_at (o_mem s) own (bt_entries t) rows" using inv by (simp_all add: tree_inv_def)
  have wf: "om_wf rows" by (rule tree_inv_wf [OF inv])
  show ?thesis
  proof (rule does_find_leaf [OF t ok], unfold prod.case, goal_cases)
    case hs: (1 p es hs)
    obtain l where m: "o_mem s p = Some (LeafData l (chain_head (right_leaves hs) None) es)"
      using focus_leaf(4) [OF t hs(1,2) ok] by blast
    have range: "FIRST_DATA_PAGE \<le> p" "p \<le> o_high s" using pages_ok_range [OF ok, of p] hs(1) by (auto simp: set_pages_plug)
    have ent: "bt_entries t = concat (map snd (left_leaves hs)) @ es @ concat (map snd (right_leaves hs))"
      using hs(1) entries_around by simp
    have "ordered None None (plug (Leaf p es) hs)" using t hs(1) by (simp add: tree_at_def)
    note between = range_between [OF this hs(2,3)]
    have "does env st0 (k (find (\<lambda>e. le_key e = key) es)) s Q F"
    proof (cases "find (\<lambda>e. le_key e = key) es")
      case None
      then have "le_key e \<noteq> key" if "e \<in> set (bt_entries t)" for e
        using that between unfolding ent by (auto simp: find_None_iff)
      then have "key \<notin> fst ` set rows" using rows_at_all [OF rows, of "\<lambda>k. k \<noteq> key"] by auto
      then show ?thesis using absent None by (simp add: om_get_notin)
    next
      case (Some e)
      then have e: "e \<in> set (bt_entries t)" "le_key e = key" using find_SomeD [OF Some] unfolding ent by auto
      then show ?thesis
        using rows_at_entry [OF rows e(1)] present [of _ e] Some om_get_eq_Some [OF wf, of key] by auto
    qed
    then show ?case by (intro does_leaf [OF m range]) simp
  qed
qed

lemma does_get_state:
  assumes inv: "holds_rows s rows"
  shows "does env st0 (get_state_with_budget env key b) s
    (\<lambda>r s'. s' = s \<and> fst r = lookup rows (encode key) \<and> reserve_state (state_length (fst r)) b = Inr (snd r))
    (\<lambda>e _. e = InvalidInput \<and> MAX_ENCODED_KEY_SIZE < length (encode key) \<or>
       reserve_state (state_length (lookup rows (encode key))) b = Inl e)"
    (is "does _ _ _ _ ?Q ?F")
proof -
  obtain t own frees where inv: "tree_inv s t own frees rows" using inv by (auto simp: holds_rows_def)
  then have ok: "pages_ok s (bt_pages t @ owned own (bt_entries t)) frees" by (simp add: tree_inv_def)
  let ?k = "\<lambda>found. case found of
        None \<Rightarrow> sbind (sres (reserve_state 0 b)) (\<lambda>b. sret (Missing 0, b))
      | Some entry \<Rightarrow>
          (case le_value entry of
             Some vref \<Rightarrow>
               sbind (sres (reserve_state (value_length vref) b)) (\<lambda>b.
               sbind (read_value env vref) (\<lambda>v.
               sret (Present v (le_revision entry), b)))
           | None \<Rightarrow> sbind (sres (reserve_state 0 b)) (\<lambda>b. sret (Missing (le_revision entry), b)))"
  have "does env st0 (?k (Some e)) s ?Q ?F"
    if st: "om_get rows (encode key) = Some st" "le_key e = encode key" "e \<in> set (bt_entries t)" "row_at (o_mem s) (own (encode key)) e st" for e st
    using st(4)
  proof (cases rule: row_at_cases)
    case missing
    then show ?thesis using st(1) by (auto intro!: does_res_bind does_ret simp: lookup_def)
  next
    case v: (present vref v)
    have own: "set (own (encode key)) \<subseteq> set (bt_pages t @ owned own (bt_entries t))" "distinct (own (encode key))"
      using owned_part [OF st(3), of own] owned_distinct [OF _ st(3), of own] pages_ok_distinct [OF ok] st(2) by auto
    show ?thesis
      using v st(1) stores_length [OF v(3)] by (auto intro!: does_res_bind does_read_value [OF ok own v(3)] does_ret simp: lookup_def)
  qed
  moreover have "does env st0 (?k None) s ?Q ?F" if "om_get rows (encode key) = None"
    using that by (auto intro!: does_res_bind does_ret simp: lookup_def)
  ultimately have "does env st0 (sbind (find_leaf env (encode key)) (\<lambda>(leaf_id, _). sbind (overlay_leaf env leaf_id) (\<lambda>(_, entries).
      ?k (find (\<lambda>e. le_key e = encode key) entries)))) s ?Q ?F"
    by (intro does_leaf_row [OF inv])
  then show ?thesis
    unfolding get_state_with_budget_def Let_def
    by (intro does_res_bind) (auto simp: validate_encoded_key_def ensure_def split: if_splits)
qed

lemma does_observe:
  assumes inv: "holds_rows s rows"
  shows "does env st0 (get_observed_state env key) s (\<lambda>r s'. s' = s \<and> r = rs_observed (lookup rows (encode key)) \<and> length (encode key) \<le> MAX_ENCODED_KEY_SIZE)
    (\<lambda>e s'. s' = s \<and> e = InvalidInput \<and> MAX_ENCODED_KEY_SIZE < length (encode key))" (is "does _ _ _ _ ?P ?F")
proof -
  obtain t own frees where inv: "tree_inv s t own frees rows" using inv by (auto simp: holds_rows_def)
  let ?Q = "\<lambda>r s'. s' = s \<and> r = rs_observed (lookup rows (encode key))"
  let ?k = "\<lambda>found. case found of
        None \<Rightarrow> sret (OMissing 0)
      | Some entry \<Rightarrow> sret (if le_value entry \<noteq> None then OPresent (le_revision entry) else OMissing (le_revision entry))"
  have "does env st0 (?k (Some e)) s ?Q ?F" if "om_get rows (encode key) = Some st" "row_at (o_mem s) (own (encode key)) e st" for e st
    using that(2) by (cases rule: row_at_cases) (use that(1) in \<open>auto intro!: does_ret simp: lookup_def\<close>)
  moreover have "does env st0 (?k None) s ?Q ?F" if "om_get rows (encode key) = None"
    using that by (auto intro!: does_ret simp: lookup_def)
  ultimately have "does env st0 (sbind (find_leaf env (encode key)) (\<lambda>(leaf_id, _). sbind (overlay_leaf env leaf_id) (\<lambda>(_, entries).
      ?k (find (\<lambda>e. le_key e = encode key) entries)))) s ?Q ?F"
    by (intro does_leaf_row [OF inv])
  note read = this
  show ?thesis
    unfolding get_observed_state_def Let_def
  proof (rule does_res_bind, goal_cases)
    case (1 x)
    then show ?case by (intro does_weaken [OF read]) (auto simp: validate_encoded_key_def ensure_def split: if_splits)
  qed (auto simp: validate_encoded_key_def ensure_def split: if_splits)
qed

section \<open>Scans\<close>

lemma does_scan_entries:
  assumes ok: "pages_ok s used frees" and "rows_at (o_mem s) own es re" and "set (owned own es) \<subseteq> set used" "distinct (owned own es)"
    and "\<forall>e \<in> set es. canonical (le_key e)"
  shows "does env st0 (scan_entries env cursor limit es acc b) s
    (\<lambda>r s'. s' = s \<and> reads_part (scan_rows cursor limit) re acc b r)
    (\<lambda>e _. \<forall>rest. scan_rows cursor limit (re @ rest) acc b = Inl e)"
  using assms(2-)
proof (induction es arbitrary: re acc b)
  case Nil
  then show ?case unfolding scan_entries.simps by (intro does_ret) (simp add: reads_part_def)
next
  case (Cons e es)
  then obtain st re' where re: "re = (le_key e, st) # re'" and row: "row_at (o_mem s) (own (le_key e)) e st"
    and re': "rows_at (o_mem s) own es re'" by auto
  let ?Q = "\<lambda>r s'. s' = s \<and> reads_part (scan_rows cursor limit) re acc b r"
  let ?F = "\<lambda>e _. \<forall>rest. scan_rows cursor limit (re @ rest) acc b = Inl e"
  have go: "does env st0 (scan_entries env cursor limit es acc' b') s ?Q ?F"
    if step: "\<And>rest. scan_rows cursor limit (re @ rest) acc b = scan_rows cursor limit (re' @ rest) acc' b'" for acc' b'
  proof (rule does_weaken [OF Cons.IH [OF re']])
    show "set (owned own es) \<subseteq> set used" "distinct (owned own es)" "\<forall>e \<in> set es. canonical (le_key e)" using Cons.prems by auto
  qed (use step in \<open>auto simp: reads_part_def\<close>)
  have dec: "map_err (\<lambda>_. Corruption) (decode (le_key e)) = Inr (key_of (le_key e))"
    using Cons.prems(4) by (auto simp: canonical_def is_ok_iff key_of_def)
  show ?case
  proof (cases "up_to cursor (le_key e)")
    case True
    then show ?thesis using go [of acc b] re by (simp add: up_to_def split: option.splits)
  next
    case False
    then have skip: "(case cursor of None \<Rightarrow> False | Some c \<Rightarrow> le_key e \<le> c) = False" by (simp add: up_to_def)
    from row show ?thesis
    proof (cases rule: row_at_cases)
      case missing
      then show ?thesis
        unfolding scan_entries.simps skip if_False dec using go [of acc b] re False by (auto intro!: does_res_bind)
    next
      case v: (present vref v)
      have own: "set (own (le_key e)) \<subseteq> set used" "distinct (own (le_key e))" using Cons.prems by auto
      note len = stores_length [OF v(3)]
      let ?acc = "acc @ [\<lparr>doc_key = key_of (le_key e), doc_value = v, doc_revision = le_revision e\<rparr>]"
      have fin: "reads_part (scan_rows cursor limit) re acc b (True, ?acc, b')"
        if "reserve_document (key_of (le_key e)) (length v) b = Inr b'" "length ?acc = limit" for b'
        using that re v False by (simp add: reads_part_def)
      have more: "does env st0 (scan_entries env cursor limit es ?acc b') s ?Q ?F"
        if "reserve_document (key_of (le_key e)) (length v) b = Inr b'" "length ?acc \<noteq> limit" for b'
        using that re v False by (intro go) simp
      show ?thesis
        unfolding scan_entries.simps skip if_False dec v(1) option.case len Let_def
        using fin more
        by (auto intro!: does_res_bind does_read_value [OF ok own v(3)] does_ret simp: re v False split: if_splits)
    qed
  qed
qed

lemma does_scan_leaves:
  assumes ok: "pages_ok s used frees" and "leaf_chain s own used ls rows" and "ls \<noteq> []" and "fst ` set ls \<inter> visited = {}"
  shows "does env st0 (scan_leaves env cursor limit (fst (hd ls)) visited acc b) s
    (\<lambda>r s'. s' = s \<and> scan_rows cursor limit rows acc b = Inr r) (\<lambda>e _. scan_rows cursor limit rows acc b = Inl e)"
  using assms(2-)
proof (induction ls arbitrary: rows visited acc b)
  case (Cons l ls)
  from Cons.prems(1) obtain re rest stamp where r: "rows = re @ rest" "rows_at (o_mem s) own (snd l) re" "leaf_chain s own used ls rest"
    "o_mem s (fst l) = Some (LeafData stamp (chain_head ls None) (snd l))" "FIRST_DATA_PAGE \<le> fst l" "fst l \<le> o_high s"
    "fst l \<notin> fst ` set ls" "set (owned own (snd l)) \<subseteq> set used" "distinct (owned own (snd l))" "\<forall>e \<in> set (snd l). canonical (le_key e)"
    by (rule leaf_chain_Cons)
  let ?Q = "\<lambda>r s'. s' = s \<and> scan_rows cursor limit rows acc b = Inr r"
  let ?F = "\<lambda>e _. scan_rows cursor limit rows acc b = Inl e"
  have "does env st0 (sbind (scan_entries env cursor limit (snd l) acc b) (\<lambda>(finished, rows', b').
       if finished then sret (rows', b')
       else case chain_head ls None of
         None \<Rightarrow> sret (rows', b')
       | Some nx \<Rightarrow> scan_leaves env cursor limit nx (insert (fst l) visited) rows' b')) s ?Q ?F"
  proof (rule does_bind [OF does_weaken [OF does_scan_entries [OF ok r(2,8,9,10)]]])
    fix x s' assume x: "s' = s \<and> reads_part (scan_rows cursor limit) re acc b x"
    obtain fin acc' b' where x': "x = (fin, acc', b')" by (cases x)
    show "does env st0 (case x of (finished, rows', b') \<Rightarrow>
       if finished then sret (rows', b')
       else case chain_head ls None of
         None \<Rightarrow> sret (rows', b')
       | Some nx \<Rightarrow> scan_leaves env cursor limit nx (insert (fst l) visited) rows' b') s' ?Q ?F"
    proof (cases "fin \<or> ls = []")
      case True
      have "rest = []" if "ls = []" using r(3) that by (simp add: leaf_chain_def)
      then have "scan_rows cursor limit rows acc b = Inr (acc', b')"
        using x x' r(1) True by (auto simp: reads_part_def split: if_splits dest: spec [of _ "[]"])
      then show ?thesis using x x' True by (auto intro!: does_ret)
    next
      case False
      then have step: "scan_rows cursor limit rows acc b = scan_rows cursor limit rest acc' b'"
        using x x' r(1) by (simp add: reads_part_def)
      have "does env st0 (scan_leaves env cursor limit (fst (hd ls)) (insert (fst l) visited) acc' b') s
        (\<lambda>r s'. s' = s \<and> scan_rows cursor limit rest acc' b' = Inr r) (\<lambda>e _. scan_rows cursor limit rest acc' b' = Inl e)"
        using Cons.prems(3) r(7) False by (intro Cons.IH [OF r(3)]) auto
      then show ?thesis using x x' False step by (cases ls) auto
    qed
  qed (use r(1) in auto)
  then show ?case
    unfolding list.sel using Cons.prems(3) by (subst scan_leaves_eq) (auto intro!: does_leaf [OF r(4,5,6)])
qed simp

lemma leftmost_loop_eq:
  "leftmost_loop env pid visited =
     (if pid \<in> visited then sfail Corruption
      else sbind (overlay_page env pid) (\<lambda>d.
        case d of
          LeafData l nx es \<Rightarrow> sret pid
        | InternalData l leftmost es \<Rightarrow> leftmost_loop env leftmost (insert pid visited)
        | _ \<Rightarrow> sfail Corruption))"
  by (rule ext, subst leftmost_loop.simps)
    (auto simp: sbind_def split: prod.splits sum.splits page_data.splits)

lemma does_leftmost_loop:
  assumes "rep (o_mem s) t" and "ordered lo hi t" and "set (bt_pages t) \<subseteq> {FIRST_DATA_PAGE..o_high s}"
    and "distinct (bt_pages t)" and "set (bt_pages t) \<inter> visited = {}"
  shows "does env st0 (leftmost_loop env (bt_id t) visited) s (\<lambda>r s'. s' = s \<and> r = fst (hd (bt_leaves t))) F"
  using assms
proof (induction t arbitrary: lo hi visited)
  case (Leaf p es)
  then obtain l nx where m: "o_mem s p = Some (LeafData l nx es)" by auto
  have "does env st0 (sret p) s (\<lambda>r s'. s' = s \<and> r = fst (hd (bt_leaves (Leaf p es)))) F" by (intro does_ret) simp
  then show ?case using Leaf.prems(3,5) by (subst leftmost_loop_eq) (auto intro!: does_page [OF m])
next
  case (Node p ks ts)
  have ord: "ordered_list lo hi ks ts" using Node.prems(2) by simp
  obtain t us where ts: "ts = t # us" using ordered_list_length [OF ord] by (cases ts) auto
  have ot: "ordered lo (high hi ks) t" using ord unfolding ts ordered_list_right by blast
  obtain l where m: "o_mem s p = Some (node_page l ks (map bt_id ts))" using Node.prems(1) by (auto simp: is_node_def)
  have d: "distinct (bt_pages t)" "p \<notin> set (bt_pages t)" using Node.prems(4) ts by auto
  have "does env st0 (leftmost_loop env (bt_id t) (insert p visited)) s (\<lambda>r s'. s' = s \<and> r = fst (hd (bt_leaves t))) F"
    using Node.prems d ts by (intro Node.IH [OF _ _ ot]) auto
  moreover have "hd (bt_leaves (Node p ks ts)) = hd (bt_leaves t)" using leaves_nonempty(1) [OF ot] ts by simp
  ultimately show ?case
    using Node.prems(3,5) m ts by (subst leftmost_loop_eq) (auto intro!: does_page [OF m] simp: node_page_def)
qed

lemma does_leftmost_leaf:
  assumes t: "tree_at s t" and ok: "pages_ok s (bt_pages t @ others) frees"
  shows "does env st0 (leftmost_leaf env) s (\<lambda>r s'. s' = s \<and> r = fst (hd (bt_leaves t))) F"
proof (rule does_cong)
  show "leftmost_leaf env ov = leftmost_loop env (bt_id t) {} ov" if "holds env st0 s ov" for ov
    using t holds_fields(1) [OF that] by (simp add: leftmost_leaf_def tree_at_def)
  show "does env st0 (leftmost_loop env (bt_id t) {}) s (\<lambda>r s'. s' = s \<and> r = fst (hd (bt_leaves t))) F"
    using t ok by (intro does_leftmost_loop [of s t None None]) (auto simp: tree_at_def pages_ok_def)
qed

lemma does_scan:
  assumes inv: "holds_rows s rows"
  shows "does env st0 (scan_with_budget env cursor limit b) s
    (\<lambda>r s'. s' = s \<and> (if limit = 0 then r = ([], b) else scan_rows (map_option encode cursor) limit rows [] b = Inr r))
    (\<lambda>e _. limit \<noteq> 0 \<and> (e = InvalidInput \<and> (\<exists>c. cursor = Some c \<and> MAX_ENCODED_KEY_SIZE < length (encode c)) \<or>
       scan_rows (map_option encode cursor) limit rows [] b = Inl e))" (is "does _ _ _ _ ?Q ?F")
proof -
  obtain t own frees where inv: "tree_inv s t own frees rows" using inv by (auto simp: holds_rows_def)
  then have t: "tree_at s t" and ok: "pages_ok s (bt_pages t @ owned own (bt_entries t)) frees" by (simp_all add: tree_inv_def)
  have chain: "leaf_chain s own (bt_pages t @ owned own (bt_entries t)) (bt_leaves t) rows" by (rule tree_chain [OF inv])
  have walk: "does env st0 (scan_leaves env (map_option encode cursor) limit (fst (hd ls)) {} [] b) s ?Q ?F"
    if ls: "bt_leaves t = xs @ ls" "ls \<noteq> []" "limit \<noteq> 0"
      and before: "\<forall>e \<in> set (concat (map snd xs)). up_to (map_option encode cursor) (le_key e)" for xs ls
  proof -
    obtain ra rb where r: "rows = ra @ rb" "rows_at (o_mem s) own (concat (map snd xs)) ra"
      "leaf_chain s own (bt_pages t @ owned own (bt_entries t)) ls rb"
      using leaf_chain_suffix [OF chain [unfolded ls(1)]] unfolding ls(1) by blast
    have "\<forall>r \<in> set ra. up_to (map_option encode cursor) (fst r)" using before rows_at_all [OF r(2)] by blast
    then have "scan_rows (map_option encode cursor) limit rows [] b = scan_rows (map_option encode cursor) limit rb [] b"
      unfolding r(1) by (rule scan_rows_skip)
    then show ?thesis
      using ls(3) by (intro does_weaken [OF does_scan_leaves [OF ok r(3) ls(2), of "{}"]]) auto
  qed
  show ?thesis
  proof (cases "limit = 0")
    case True
    then show ?thesis by (auto simp: scan_with_budget_def intro!: does_ret)
  next
    case limit: False
    show ?thesis
    proof (cases cursor)
      case None
      have "does env st0 (sbind (leftmost_leaf env) (\<lambda>leaf_id. scan_leaves env None limit leaf_id {} [] b)) s ?Q ?F"
        by (rule does_bind [OF does_leftmost_leaf [OF t ok]])
          (use walk [of "[]" "bt_leaves t"] leaves_nonempty(1) [of None None t] t limit None in \<open>auto simp: tree_at_def\<close>)
      then show ?thesis using None limit by (simp add: scan_with_budget_def)
    next
      case (Some c)
      have from_leaf: "does env st0 (scan_leaves env (Some (encode c)) limit p {} [] b) s ?Q ?F"
        if hs: "t = plug (Leaf p es) hs" "list_all hole_wf hs" "in_range (fst (bounds None None hs)) (snd (bounds None None hs)) (encode c)" for p es hs
      proof -
        have "ordered None None (plug (Leaf p es) hs)" using t hs(1) by (simp add: tree_at_def)
        then have "\<forall>e \<in> set (concat (map snd (left_leaves hs))). le_key e < encode c" by (rule range_between(1) [OF _ hs(2,3)])
        then have "\<forall>e \<in> set (concat (map snd (left_leaves hs))). up_to (map_option encode cursor) (le_key e)"
          using Some by (simp add: up_to_def) (meson less_imp_le)
        then show ?thesis
          using walk [of "left_leaves hs" "(p, es) # right_leaves hs"] leaves_plug [of "Leaf p es" hs] hs(1) limit Some by auto
      qed
      have "does env st0 (sbind (sres (validate_encoded_key (encode c))) (\<lambda>_.
          sbind (find_leaf env (encode c)) (\<lambda>(leaf_id, _). scan_leaves env (Some (encode c)) limit leaf_id {} [] b))) s ?Q ?F"
        by (rule does_res_bind, rule does_find_leaf [OF t ok])
          (use from_leaf Some limit in \<open>auto simp: validate_encoded_key_def ensure_def split: if_splits\<close>)
      then show ?thesis using Some limit by (simp add: scan_with_budget_def sbind_assoc split_def)
    qed
  qed
qed

section \<open>Queries\<close>

lemma does_query_entries:
  assumes ok: "pages_ok s used frees" and "rows_at (o_mem s) own es re" and "set (owned own es) \<subseteq> set used" "distinct (owned own es)"
    and "\<forall>e \<in> set es. canonical (le_key e)" and "length acc < limit"
    and cur: "cursor = map_option (\<lambda>s. encode (DocumentKey qpk s)) after_sk"
  shows "does env st0 (query_entries env qpk after_sk cursor limit es first acc b) s
    (\<lambda>r s'. s' = s \<and> reads_part (query_rows qpk after_sk limit) re acc b (fst r, snd (snd r)) \<and> (\<not> fst r \<longrightarrow> length (fst (snd (snd r))) < limit))
    (\<lambda>e _. \<forall>rest. query_rows qpk after_sk limit (re @ rest) acc b = Inl e)"
  using assms(2-6)
proof (induction es arbitrary: re first acc b)
  case Nil
  then show ?case unfolding query_entries.simps by (intro does_ret) (simp add: reads_part_def)
next
  case (Cons e es)
  then obtain st re' where re: "re = (le_key e, st) # re'" and row: "row_at (o_mem s) (own (le_key e)) e st"
    and re': "rows_at (o_mem s) own es re'" by auto
  let ?Q = "\<lambda>r s'. s' = s \<and> reads_part (query_rows qpk after_sk limit) re acc b (fst r, snd (snd r)) \<and> (\<not> fst r \<longrightarrow> length (fst (snd (snd r))) < limit)"
  let ?F = "\<lambda>e _. \<forall>rest. query_rows qpk after_sk limit (re @ rest) acc b = Inl e"
  let ?k = "key_of (le_key e)"
  have go: "does env st0 (query_entries env qpk after_sk cursor limit es first' acc' b') s ?Q ?F"
    if step: "\<And>rest. query_rows qpk after_sk limit (re @ rest) acc b = query_rows qpk after_sk limit (re' @ rest) acc' b'"
      and len: "length acc' < limit" for first' acc' b'
  proof (rule does_weaken [OF Cons.IH [OF re' _ _ _ len]])
    show "set (owned own es) \<subseteq> set used" "distinct (owned own es)" "\<forall>e \<in> set es. canonical (le_key e)" using Cons.prems by auto
  qed (use step in \<open>auto simp: reads_part_def\<close>)
  have can: "canonical (le_key e)" using Cons.prems(4) by simp
  then have dec: "map_err (\<lambda>_. Corruption) (decode (le_key e)) = Inr ?k"
    by (auto simp: canonical_def is_ok_iff key_of_def)
  have below: "pk ?k < qpk \<or> pk ?k = qpk \<and> up_to after_sk (sk ?k)" if "case cursor of None \<Rightarrow> False | Some c \<Rightarrow> le_key e \<le> c"
    using that canonical_le [OF can] cur by (cases ?k) (auto simp: up_to_def less_eq_document_key_def split: option.splits)
  show ?case
  proof (cases "first \<and> (case cursor of None \<Rightarrow> False | Some c \<Rightarrow> le_key e \<le> c)")
    case True
    then have "query_rows qpk after_sk limit (re @ rest) acc b = query_rows qpk after_sk limit (re' @ rest) acc b" for rest
      using re below by (auto dest: less_not_sym)
    then show ?thesis using go [of acc b first] True Cons.prems(5) by simp
  next
    case skip: False
    consider (above) "pk ?k > qpk" | (under) "pk ?k < qpk" | (after) "pk ?k = qpk" "up_to after_sk (sk ?k)"
      | (row) "pk ?k = qpk" "\<not> up_to after_sk (sk ?k)" by (meson linorder_neqE)
    then show ?thesis
    proof cases
      case above
      then show ?thesis unfolding query_entries.simps if_not_P [OF skip] dec
        by (auto intro!: does_res_bind does_ret simp: reads_part_def re)
    next
      case under
      then show ?thesis unfolding query_entries.simps if_not_P [OF skip] dec
        using go [of acc b False] re Cons.prems(5) by (auto intro!: does_res_bind)
    next
      case after
      then show ?thesis unfolding query_entries.simps if_not_P [OF skip] dec
        using go [of acc b False] re Cons.prems(5) by (auto intro!: does_res_bind simp flip: up_to_def)
    next
      case k: row
      from row show ?thesis
      proof (cases rule: row_at_cases)
        case missing
        then show ?thesis unfolding query_entries.simps if_not_P [OF skip] dec
          using go [of acc b False] re k Cons.prems(5) by (auto intro!: does_res_bind simp flip: up_to_def)
      next
        case v: (present vref v)
        have own: "set (own (le_key e)) \<subseteq> set used" "distinct (own (le_key e))" using Cons.prems by auto
        note len = stores_length [OF v(3)]
        let ?acc = "acc @ [\<lparr>doc_key = key_of (le_key e), doc_value = v, doc_revision = le_revision e\<rparr>]"
        have fin: "reads_part (query_rows qpk after_sk limit) re acc b (True, ?acc, b')"
          if "reserve_document ?k (length v) b = Inr b'" "length ?acc = limit" for b'
          using that re v k by (simp add: reads_part_def)
        have more: "does env st0 (query_entries env qpk after_sk cursor limit es False ?acc b') s ?Q ?F"
          if "reserve_document ?k (length v) b = Inr b'" "length ?acc \<noteq> limit" for b'
          using that re v k Cons.prems(5) by (intro go) auto
        show ?thesis
          unfolding query_entries.simps if_not_P [OF skip]
          unfolding dec v(1) option.case len Let_def up_to_def [symmetric]
          using fin more
          by (auto intro!: does_res_bind does_read_value [OF ok own v(3)] does_ret simp: re v k split: if_splits)
      qed
    qed
  qed
qed

lemma does_query_loop:
  assumes ok: "pages_ok s used frees" and "leaf_chain s own used ls rows" and "ls \<noteq> []" and "fst ` set ls \<inter> visited = {}"
    and "length acc < limit" and cur: "cursor = map_option (\<lambda>s. encode (DocumentKey qpk s)) after_sk"
  shows "does env st0 (query_loop env qpk after_sk cursor limit (fst (hd ls)) visited first acc b) s
    (\<lambda>r s'. s' = s \<and> query_rows qpk after_sk limit rows acc b = Inr r) (\<lambda>e _. query_rows qpk after_sk limit rows acc b = Inl e)"
  using assms(2-5)
proof (induction ls arbitrary: rows visited first acc b)
  case (Cons l ls)
  from Cons.prems(1) obtain re rest stamp where r: "rows = re @ rest" "rows_at (o_mem s) own (snd l) re" "leaf_chain s own used ls rest"
    "o_mem s (fst l) = Some (LeafData stamp (chain_head ls None) (snd l))" "FIRST_DATA_PAGE \<le> fst l" "fst l \<le> o_high s"
    "fst l \<notin> fst ` set ls" "set (owned own (snd l)) \<subseteq> set used" "distinct (owned own (snd l))" "\<forall>e \<in> set (snd l). canonical (le_key e)"
    by (rule leaf_chain_Cons)
  let ?Q = "\<lambda>r s'. s' = s \<and> query_rows qpk after_sk limit rows acc b = Inr r"
  let ?F = "\<lambda>e _. query_rows qpk after_sk limit rows acc b = Inl e"
  have "does env st0 (sbind (query_entries env qpk after_sk cursor limit (snd l) first acc b) (\<lambda>(finished, first', rows', b').
       if finished then sret (rows', b')
       else case chain_head ls None of
         None \<Rightarrow> sret (rows', b')
       | Some nx \<Rightarrow> query_loop env qpk after_sk cursor limit nx (insert (fst l) visited) False rows' b')) s ?Q ?F"
  proof (rule does_bind [OF does_weaken [OF does_query_entries [OF ok r(2,8,9,10) Cons.prems(4) cur]]])
    fix x s' assume x: "s' = s \<and> reads_part (query_rows qpk after_sk limit) re acc b (fst x, snd (snd x)) \<and>
      (\<not> fst x \<longrightarrow> length (fst (snd (snd x))) < limit)"
    obtain fin f acc' b' where x': "x = (fin, f, acc', b')" by (cases x)
    show "does env st0 (case x of (finished, first', rows', b') \<Rightarrow>
       if finished then sret (rows', b')
       else case chain_head ls None of
         None \<Rightarrow> sret (rows', b')
       | Some nx \<Rightarrow> query_loop env qpk after_sk cursor limit nx (insert (fst l) visited) False rows' b') s' ?Q ?F"
    proof (cases "fin \<or> ls = []")
      case True
      have "rest = []" if "ls = []" using r(3) that by (simp add: leaf_chain_def)
      then have "query_rows qpk after_sk limit rows acc b = Inr (acc', b')"
        using x x' r(1) True by (auto simp: reads_part_def split: if_splits dest: spec [of _ "[]"])
      then show ?thesis using x x' True by (auto intro!: does_ret)
    next
      case False
      then have step: "query_rows qpk after_sk limit rows acc b = query_rows qpk after_sk limit rest acc' b'"
        using x x' r(1) by (simp add: reads_part_def)
      have "does env st0 (query_loop env qpk after_sk cursor limit (fst (hd ls)) (insert (fst l) visited) False acc' b') s
        (\<lambda>r s'. s' = s \<and> query_rows qpk after_sk limit rest acc' b' = Inr r) (\<lambda>e _. query_rows qpk after_sk limit rest acc' b' = Inl e)"
        using Cons.prems(3) r(7) False x x' by (intro Cons.IH [OF r(3)]) auto
      then show ?thesis using x x' False step by (cases ls) auto
    qed
  qed (use r(1) in auto)
  then show ?case
    unfolding list.sel using Cons.prems(3,4) by (subst query_loop_eq) (auto intro!: does_leaf [OF r(4,5,6)])
qed simp

lemma does_query:
  assumes inv: "holds_rows s rows"
  shows "does env st0 (query_with_budget env qpk after_sk limit b) s
    (\<lambda>r s'. s' = s \<and> (if limit = 0 then r = ([], b) else query_rows qpk after_sk limit rows [] b = Inr r))
    (\<lambda>e _. limit \<noteq> 0 \<and> (e = InvalidInput \<and> (\<exists>c \<in> insert [] (set_option after_sk). MAX_ENCODED_KEY_SIZE < length (encode (DocumentKey qpk c))) \<or>
       query_rows qpk after_sk limit rows [] b = Inl e))" (is "does _ _ _ _ ?Q ?F")
proof (cases "limit = 0")
  case True
  then show ?thesis by (auto simp: query_with_budget_def intro!: does_ret)
next
  case limit: False
  obtain t own frees where inv: "tree_inv s t own frees rows" using inv by (auto simp: holds_rows_def)
  then have t: "tree_at s t" and ok: "pages_ok s (bt_pages t @ owned own (bt_entries t)) frees" by (simp_all add: tree_inv_def)
  have chain: "leaf_chain s own (bt_pages t @ owned own (bt_entries t)) (bt_leaves t) rows" by (rule tree_chain [OF inv])
  let ?start = "encode (DocumentKey qpk [])" and ?cursor = "map_option (\<lambda>s. encode (DocumentKey qpk s)) after_sk"
  have from_leaf: "does env st0 (query_loop env qpk after_sk ?cursor limit p {} True [] b) s ?Q ?F"
    if hs: "t = plug (Leaf p es) hs" "list_all hole_wf hs" "in_range (fst (bounds None None hs)) (snd (bounds None None hs)) ?start" for p es hs
  proof -
    have "ordered None None (plug (Leaf p es) hs)" using t hs(1) by (simp add: tree_at_def)
    then have before: "\<forall>e \<in> set (concat (map snd (left_leaves hs))). le_key e < ?start" by (rule range_between(1) [OF _ hs(2,3)])
    have ls: "bt_leaves t = left_leaves hs @ (p, es) # right_leaves hs" using leaves_plug [of "Leaf p es" hs] hs(1) by simp
    obtain ra rb where r: "rows = ra @ rb" "rows_at (o_mem s) own (concat (map snd (left_leaves hs))) ra"
      "leaf_chain s own (bt_pages t @ owned own (bt_entries t)) ((p, es) # right_leaves hs) rb"
      using leaf_chain_suffix [OF chain [unfolded ls]] unfolding ls by blast
    have "\<forall>e \<in> set (concat (map snd (left_leaves hs))). canonical (le_key e)" using chain unfolding ls leaf_chain_def by auto
    with before have "\<forall>e \<in> set (concat (map snd (left_leaves hs))). pk (key_of (le_key e)) < qpk"
      using canonical_less by (fastforce simp: less_document_key_def)
    then have "\<forall>r \<in> set ra. pk (key_of (fst r)) < qpk" by (rule rows_at_all [OF r(2), THEN iffD2])
    then have "query_rows qpk after_sk limit rows [] b = query_rows qpk after_sk limit rb [] b"
      unfolding r(1) by (rule query_rows_skip)
    then show ?thesis
      using limit by (intro does_weaken [OF does_query_loop [OF ok r(3), of "{}" "[]" limit, simplified]]) auto
  qed
  have start: "?F e x" if "validate_encoded_key ?start = Inl e" for e x
    using that limit by (auto simp: validate_encoded_key_def ensure_def split: if_splits)
  have after: "?F e x" if "(case ?cursor of None \<Rightarrow> Inr () | Some c \<Rightarrow> validate_encoded_key c) = Inl e" for e x
    using that limit by (auto simp: validate_encoded_key_def ensure_def split: if_splits option.splits)
  show ?thesis
    unfolding query_with_budget_def [of env qpk after_sk limit b, unfolded Let_def if_not_P [OF limit]]
    by (rule does_res_bind, rule does_find_leaf [OF t ok], unfold prod.case, rule does_res_bind)
      (rule from_leaf, assumption, assumption, assumption, erule after, erule start)
qed

end

end
