(* ===== verification/Dodb_Batches.thy ===== *)
theory Dodb_Batches
  imports Dodb_Reads
begin

text \<open>
  Batches on the contents. \<open>exec_rows\<close> runs a request on the ordered map of rows with a given
  revision for its writes; executing a batch on the overlay gives exactly its responses and its
  rows, whatever the response budget, or an error: the one of the contents, or an invalid input when
  a request is over a limit of the database or a key is longer than a third of a page.
\<close>

section \<open>Requests on rows\<close>

type_synonym rows = "(bytes, revision_state) ordmap"

fun exec_rows :: "revision \<Rightarrow> batch_request \<Rightarrow> rows \<Rightarrow> response_budget \<Rightarrow> error + batch_response \<times> response_budget \<times> rows" where
  "exec_rows r (GetRequest key) rows b =
     rbind (reserve_state (state_length (lookup rows (encode key))) b) (\<lambda>b'. Inr (GetResponse (lookup rows (encode key)), b', rows))"
| "exec_rows r (PutRequest key v) rows b = Inr (PutResponse r, b, om_insert (encode key) (Present v r) rows)"
| "exec_rows r (DeleteRequest key) rows b = Inr (DeleteResponse r, b, om_insert (encode key) (Missing r) rows)"
| "exec_rows r (QueryRequest qpk after_sk limit) rows b =
     rbind (if limit = 0 then Inr ([], b) else query_rows qpk after_sk limit rows [] b) (\<lambda>(docs, b'). Inr (QueryResponse docs, b', rows))"
| "exec_rows r (ScanRequest cursor limit) rows b =
     rbind (if limit = 0 then Inr ([], b) else scan_rows (map_option encode cursor) limit rows [] b) (\<lambda>(docs, b').
     Inr (ScanResponse docs, b', rows))"

fun exec_all_rows :: "revision \<Rightarrow> batch_request list \<Rightarrow> rows \<Rightarrow> response_budget \<Rightarrow> error + batch_response list \<times> rows" where
  "exec_all_rows r [] rows b = Inr ([], rows)"
| "exec_all_rows r (request # requests) rows b =
     rbind (exec_rows r request rows b) (\<lambda>(response, b', rows').
     rbind (exec_all_rows r requests rows' b') (\<lambda>(responses, rows''). Inr (response # responses, rows'')))"

fun writes :: "batch_request \<Rightarrow> bool" where
  "writes (PutRequest key v) \<longleftrightarrow> True"
| "writes (DeleteRequest key) \<longleftrightarrow> True"
| "writes _ \<longleftrightarrow> False"

text \<open>Requests within the limits of the database: the encoded keys and cursors they name and the values they
  write are not too long. A read of at most zero documents is answered without looking at its cursor.\<close>

fun within_limits :: "database_config \<Rightarrow> batch_request \<Rightarrow> bool" where
  "within_limits config (GetRequest key) \<longleftrightarrow> length (encode key) \<le> MAX_ENCODED_KEY_SIZE"
| "within_limits config (PutRequest key v) \<longleftrightarrow> length (encode key) \<le> MAX_ENCODED_KEY_SIZE \<and> length v \<le> max_value_size (dc_limits config) \<and>
     length v \<le> MAX_VALUE_SIZE"
| "within_limits config (DeleteRequest key) \<longleftrightarrow> length (encode key) \<le> MAX_ENCODED_KEY_SIZE"
| "within_limits config (QueryRequest qpk after_sk limit) \<longleftrightarrow> limit = 0 \<or>
     (\<forall>c \<in> insert [] (set_option after_sk). length (encode (DocumentKey qpk c)) \<le> MAX_ENCODED_KEY_SIZE)"
| "within_limits config (ScanRequest cursor limit) \<longleftrightarrow> limit = 0 \<or> (\<forall>c \<in> set_option cursor. length (encode c) \<le> MAX_ENCODED_KEY_SIZE)"

text \<open>A split of a page can fail when a key is longer than a third of the page, so writes are only certain to
  succeed while all keys, stored and written, are light.\<close>

fun writes_light :: "batch_request \<Rightarrow> bool" where
  "writes_light (PutRequest key v) \<longleftrightarrow> length (encode key) \<le> LIGHT_KEY"
| "writes_light (DeleteRequest key) \<longleftrightarrow> length (encode key) \<le> LIGHT_KEY"
| "writes_light _ \<longleftrightarrow> True"

definition light :: "rows \<Rightarrow> bool" where
  "light rows \<longleftrightarrow> (\<forall>k \<in> fst ` set rows. length k \<le> LIGHT_KEY)"

lemma light_insert: "light rows \<Longrightarrow> length k \<le> LIGHT_KEY \<Longrightarrow> light (om_insert k v rows)"
  by (simp add: light_def set_om_insert_keys)

section \<open>Execution\<close>

text \<open>A step of a batch: one that writes gives the batch a revision and dirty pages, another
  changes nothing.\<close>

definition advanced :: "bool \<Rightarrow> nat \<Rightarrow> ostate \<Rightarrow> ostate \<Rightarrow> bool" where
  "advanced w n s s' \<longleftrightarrow> (if w then touched n (stamped s) s' else s' = s)"

lemma revision_from_lsn_id [simp]: "revision_from_lsn l = l"
  by (simp add: revision_from_lsn_def)

lemma stamp_of_stamped [simp]: "stamp_of (stamped s) = stamp_of s"
  by (simp add: stamp_of_def)

lemma touched_stamp: "touched n (stamped s) s' \<Longrightarrow> stamp_of s' = stamp_of s \<and> stamped s' = s'"
  by (auto simp: touched_def grows_def stamp_of_def)

lemma advanced_stamp: "advanced w n s s' \<Longrightarrow> stamp_of s' = stamp_of s"
  unfolding advanced_def using touched_stamp by (metis (full_types))

lemma advanced_high: "advanced w n s s' \<Longrightarrow> unat (o_high s') \<le> unat (o_high s) + n"
  by (auto simp: advanced_def touched_def grows_def split: if_splits)

lemma advanced_mono: "advanced w m s s' \<Longrightarrow> m \<le> n \<Longrightarrow> advanced w n s s'"
  using touched_mono [of m "stamped s" s' n] by (simp add: advanced_def split: if_splits)

lemma advanced_trans:
  assumes "advanced w m s s1" and "advanced w' n s1 s2"
  shows "advanced (w \<or> w') (m + n) s s2"
proof (cases "w \<and> w'")
  case True
  then have g: "touched m (stamped s) s1" using assms(1) by (simp add: advanced_def)
  have "touched n (stamped s1) s2" using assms(2) True by (simp add: advanced_def)
  then have "touched n s1 s2" using touched_stamp [OF g] by metis
  then have "touched (m + n) (stamped s) s2" by (intro touched_trans(2) [OF g]) (simp add: touched_def)
  then show ?thesis using True by (simp add: advanced_def)
next
  case False
  then show ?thesis using assms advanced_mono [of w m s s1 "m + n"] advanced_mono [of w' n s s2 "m + n"]
    by (auto simp: advanced_def split: if_splits)
qed

text \<open>Batches all of whose requests are within the limits, with light keys wherever they write.\<close>

definition requests_ok :: "database_config \<Rightarrow> rows \<Rightarrow> batch_request list \<Rightarrow> bool" where
  "requests_ok config rows requests \<longleftrightarrow> list_all (within_limits config) requests \<and> list_all writes_light requests \<and>
     (list_ex writes requests \<longrightarrow> light rows)"

definition exec_error :: "database_config \<Rightarrow> ostate \<Rightarrow> batch_request \<Rightarrow> rows \<Rightarrow> response_budget \<Rightarrow> error \<Rightarrow> bool" where
  "exec_error config s request rows b e \<longleftrightarrow> exec_rows (stamp_of s) request rows b = Inl e \<or>
     e = InvalidInput \<and> \<not> requests_ok config rows [request] \<or> 2 ^ 62 \<le> unat (o_high s)"

definition batch_error :: "database_config \<Rightarrow> ostate \<Rightarrow> batch_request list \<Rightarrow> rows \<Rightarrow> response_budget \<Rightarrow> error \<Rightarrow> bool" where
  "batch_error config s requests rows b e \<longleftrightarrow> exec_all_rows (stamp_of s) requests rows b = Inl e \<or>
     e = InvalidInput \<and> \<not> requests_ok config rows requests \<or> 2 ^ 62 \<le> unat (o_high s) + length requests * PUT_GROWTH"

lemma write_error_ok:
  "write_error s rows key e \<Longrightarrow> 2 ^ 62 \<le> unat (o_high s) \<or> e = InvalidInput \<and> \<not> (light rows \<and> length key \<le> LIGHT_KEY)"
  by (fastforce simp: write_error_def light_def)

lemma exec_rows_light:
  "exec_rows r request rows b = Inr (response, b', rows') \<Longrightarrow> writes_light request \<Longrightarrow> light rows \<Longrightarrow> light rows'"
  by (cases request) (auto simp: rbind_Inr_iff light_insert split: if_splits)

lemma exec_rows_keeps: "exec_rows r request rows b = Inr (response, b', rows') \<Longrightarrow> \<not> writes request \<Longrightarrow> rows' = rows"
  by (cases request) (auto simp: rbind_Inr_iff split: if_splits)

lemma requests_ok_Cons:
  assumes "requests_ok config rows (request # requests)" and "exec_rows r request rows b = Inr (response, b', rows')"
  shows "requests_ok config rows' requests"
  using assms exec_rows_light [OF assms(2)] exec_rows_keeps [OF assms(2)] by (auto simp: requests_ok_def)

lemma batch_error_first: "exec_error config s request rows b e \<Longrightarrow> batch_error config s (request # requests) rows b e"
  by (auto simp: exec_error_def batch_error_def requests_ok_def)

lemma batch_error_rest:
  assumes "batch_error config s' requests rows' b' e" and "exec_rows (stamp_of s) request rows b = Inr (response, b', rows')"
    and "advanced w PUT_GROWTH s s'"
  shows "batch_error config s (request # requests) rows b e"
  using assms requests_ok_Cons [OF _ assms(2), of config requests] advanced_high [OF assms(3)] advanced_stamp [OF assms(3)]
  by (auto simp: batch_error_def)

text \<open>A request that is executed is within the limits.\<close>

lemma execute_within:
  "execute_with_budget env request b ov = (Inr x, ov') \<Longrightarrow> within_limits (bs_config (ov_store ov)) request"
  by (cases request)
    (auto simp: get_state_with_budget_def overlay_put_def overlay_delete_def query_with_budget_def scan_with_budget_def sbind_def sget_def sres_def
      sret_def Let_def validate_encoded_key_def validate_value_def ensure_def split: prod.splits sum.splits if_splits option.splits)

context reliable_file
begin

lemma does_also:
  assumes "\<And>ov x ov'. holds env st0 s ov \<Longrightarrow> m ov = (Inr x, ov') \<Longrightarrow> P" and "does env st0 m s Q F"
  shows "does env st0 m s (\<lambda>x s'. Q x s' \<and> P) F"
proof (rule does_intro)
  fix ov r ov' assume run: "holds env st0 s ov" "m ov = (r, ov')"
  from does_run [OF assms(2) this] obtain s' where "holds env st0 s' ov'" "case r of Inr x \<Rightarrow> Q x s' | Inl e \<Rightarrow> F e s'" .
  with assms(1) [OF run(1)] run(2) show "\<exists>s'. holds env st0 s' ov' \<and> (case r of Inr x \<Rightarrow> Q x s' \<and> P | Inl e \<Rightarrow> F e s')"
    by (intro exI [of _ s']) (simp split: sum.splits)
qed

lemma does_execute:
  assumes inv: "holds_rows s rows"
  shows "does env st0 (execute_with_budget env request b) s
    (\<lambda>r s'. \<exists>rows'. exec_rows (stamp_of s) request rows b = Inr (fst r, snd r, rows') \<and> holds_rows s' rows' \<and>
       advanced (writes request) PUT_GROWTH s s' \<and> within_limits (bs_config st0) request)
    (\<lambda>e _. exec_error (bs_config st0) s request rows b e)"
proof (rule does_also [where P = "within_limits (bs_config st0) request", THEN does_weaken])
  show "within_limits (bs_config st0) request" if "holds env st0 s ov" "execute_with_budget env request b ov = (Inr x, ov')" for ov x ov'
    using execute_within [OF that(2)] holds_store(1) [OF that(1)] by simp
  show "does env st0 (execute_with_budget env request b) s
    (\<lambda>r s'. \<exists>rows'. exec_rows (stamp_of s) request rows b = Inr (fst r, snd r, rows') \<and> holds_rows s' rows' \<and>
       advanced (writes request) PUT_GROWTH s s') (\<lambda>e _. exec_error (bs_config st0) s request rows b e)"
  proof (cases request)
    case (GetRequest key)
    show ?thesis
      unfolding GetRequest execute_with_budget.simps
      by (rule does_bind [OF does_weaken [OF does_get_state [OF inv]]])
        (use inv in \<open>auto intro!: does_ret simp: exec_error_def requests_ok_def advanced_def\<close>)
  next
    case (PutRequest key v)
    show ?thesis
      unfolding PutRequest execute_with_budget.simps
      by (rule does_bind [OF does_weaken [OF does_overlay_put [OF inv]]])
        (auto intro!: does_ret simp: exec_error_def requests_ok_def advanced_def put_error_def dest: write_error_ok)
  next
    case (DeleteRequest key)
    show ?thesis
      unfolding DeleteRequest execute_with_budget.simps
      by (rule does_bind [OF does_weaken [OF does_overlay_delete [OF inv]]])
        (auto intro!: does_ret simp: exec_error_def requests_ok_def advanced_def dest: write_error_ok)
  next
    case (QueryRequest qpk after_sk limit)
    show ?thesis
      unfolding QueryRequest execute_with_budget.simps
      by (rule does_bind [OF does_weaken [OF does_query [OF inv]]])
        (use inv in \<open>auto intro!: does_ret simp: exec_error_def requests_ok_def advanced_def split: if_splits\<close>)
  next
    case (ScanRequest cursor limit)
    show ?thesis
      unfolding ScanRequest execute_with_budget.simps
      by (rule does_bind [OF does_weaken [OF does_scan [OF inv]]])
        (use inv in \<open>auto intro!: does_ret simp: exec_error_def requests_ok_def advanced_def split: if_splits\<close>)
  qed
qed auto

lemma does_execute_all:
  assumes inv: "holds_rows s rows"
  shows "does env st0 (execute_all env requests b) s
    (\<lambda>rs s'. \<exists>rows'. exec_all_rows (stamp_of s) requests rows b = Inr (rs, rows') \<and> holds_rows s' rows' \<and>
       advanced (list_ex writes requests) (length requests * PUT_GROWTH) s s' \<and> list_all (within_limits (bs_config st0)) requests)
    (\<lambda>e _. batch_error (bs_config st0) s requests rows b e)"
  using assms
proof (induction requests arbitrary: s rows b)
  case Nil
  then show ?case unfolding execute_all.simps by (intro does_ret) (simp add: advanced_def)
next
  case (Cons request requests)
  let ?F = "\<lambda>e _. batch_error (bs_config st0) s (request # requests) rows b e"
  show ?case
    unfolding execute_all.simps
  proof (rule does_bind, rule does_weaken [OF does_execute [OF Cons.prems]], assumption, goal_cases)
    case (1 e s')
    then show ?case by (rule batch_error_first)
  next
    case (2 r s1)
    then obtain rows1 where r: "exec_rows (stamp_of s) request rows b = Inr (fst r, snd r, rows1)" "holds_rows s1 rows1"
      "advanced (writes request) PUT_GROWTH s s1" "within_limits (bs_config st0) request" by blast
    have stamp: "stamp_of s1 = stamp_of s" by (rule advanced_stamp [OF r(3)])
    have unroll: "exec_all_rows (stamp_of s) (request # requests) rows b =
        rbind (exec_all_rows (stamp_of s1) requests rows1 (snd r)) (\<lambda>(responses, rows''). Inr (fst r # responses, rows''))"
      using r(1) stamp by simp
    have rest: "does env st0 (execute_all env requests (snd r)) s1
        (\<lambda>rs s'. \<exists>rows'. exec_all_rows (stamp_of s1) requests rows1 (snd r) = Inr (rs, rows') \<and> holds_rows s' rows' \<and>
           advanced (list_ex writes requests) (length requests * PUT_GROWTH) s1 s' \<and> list_all (within_limits (bs_config st0)) requests) ?F"
    proof (rule does_weaken [OF Cons.IH [OF r(2)]], goal_cases)
      case (2 e s')
      then show ?case by (rule batch_error_rest [OF _ r(1,3)])
    qed
    have "does env st0 (sbind (execute_all env requests (snd r)) (\<lambda>responses. sret (fst r # responses))) s1
      (\<lambda>rs s'. \<exists>rows'. exec_all_rows (stamp_of s) (request # requests) rows b = Inr (rs, rows') \<and> holds_rows s' rows' \<and>
         advanced (list_ex writes (request # requests)) (length (request # requests) * PUT_GROWTH) s s' \<and>
         list_all (within_limits (bs_config st0)) (request # requests)) ?F"
    proof (rule does_bind [OF rest], intro does_ret, goal_cases)
      case (1 rs s')
      then show ?case unfolding unroll using advanced_trans [OF r(3)] r(4) by auto
    qed
    then show ?case by (simp add: split_def)
  qed
qed

end

end
