(* ===== verification/Dodb_Restamp.thy ===== *)
theory Dodb_Restamp
  imports Dodb_Batches
begin

text \<open>
  Restamping. A batch runs with a provisional revision, which \<open>finish\<close> replaces by the LSN of its
  commit in the dirty pages and the responses. The result is the execution with the commit LSN,
  and the restamped pages hold the restamped rows.
\<close>

section \<open>Rows and responses\<close>

definition restamp_rows :: "revision \<Rightarrow> revision \<Rightarrow> rows \<Rightarrow> rows" where
  "restamp_rows p c rows = map (\<lambda>(k, st). (k, restamp_state st p c)) rows"

definition restamp_doc :: "revision \<Rightarrow> revision \<Rightarrow> btree_document \<Rightarrow> btree_document" where
  "restamp_doc p c row = (if doc_revision row = p then row\<lparr>doc_revision := c\<rparr> else row)"

lemma restamp_rows_simps [simp]:
  "restamp_rows p c [] = []" "restamp_rows p c ((k, st) # rows) = (k, restamp_state st p c) # restamp_rows p c rows"
  "restamp_rows p c (xs @ ys) = restamp_rows p c xs @ restamp_rows p c ys"
  by (simp_all add: restamp_rows_def)

lemma keys_restamp_rows [simp]: "map fst (restamp_rows p c rows) = map fst rows"
  by (simp add: restamp_rows_def split_def comp_def)

lemma restamp_rows_fresh: "\<forall>r \<in> set rows. rs_revision (snd r) \<noteq> p \<Longrightarrow> restamp_rows p c rows = rows"
proof -
  assume "\<forall>r \<in> set rows. rs_revision (snd r) \<noteq> p"
  moreover have "restamp_state st p c = st" if "rs_revision st \<noteq> p" for st using that by (cases st) auto
  ultimately show ?thesis unfolding restamp_rows_def by (intro map_idI) auto
qed

lemma om_get_restamp: "om_get (restamp_rows p c rows) k = map_option (\<lambda>st. restamp_state st p c) (om_get rows k)"
  by (induction rows) (auto simp: om_get_def)

lemma om_insert_restamp:
  "om_insert k (restamp_state st p c) (restamp_rows p c rows) = restamp_rows p c (om_insert k st rows)"
  by (induction k st rows rule: om_insert.induct) auto

lemma lookup_restamp: "p \<noteq> 0 \<Longrightarrow> lookup (restamp_rows p c rows) k = restamp_state (lookup rows k) p c"
  by (simp add: lookup_def om_get_restamp split: option.splits)

lemma state_length_restamp [simp]: "state_length (restamp_state st p c) = state_length st"
  by (cases st) auto

abbreviation restamp_docs :: "revision \<Rightarrow> revision \<Rightarrow> error + btree_document list \<times> response_budget \<Rightarrow>
    error + btree_document list \<times> response_budget" where
  "restamp_docs p c \<equiv> map_sum id (\<lambda>(docs, b). (map (restamp_doc p c) docs, b))"

lemma scan_rows_restamp:
  "scan_rows cursor limit (restamp_rows p c rows) (map (restamp_doc p c) acc) b = restamp_docs p c (scan_rows cursor limit rows acc b)"
proof (induction cursor limit rows acc b rule: scan_rows.induct)
  case (2 cursor limit k st rows acc b)
  show ?case
  proof (cases "up_to cursor k \<or> (\<exists>r. st = Missing r)")
    case False
    then obtain v r where st: "st = Present v r" "\<not> up_to cursor k" by (cases st) auto
    let ?d = "\<lparr>doc_key = key_of k, doc_value = v, doc_revision = r\<rparr>"
    have d: "map (restamp_doc p c) (acc @ [?d]) =
        map (restamp_doc p c) acc @ [\<lparr>doc_key = key_of k, doc_value = v, doc_revision = if r = p then c else r\<rparr>]"
      by (simp add: restamp_doc_def)
    from st show ?thesis
      using 2(2) [OF st(2) st(1) refl] by (cases "reserve_document (key_of k) (length v) b") (simp_all add: Let_def d [symmetric])
  qed (use 2(1,3) in auto)
qed simp

lemma query_rows_restamp:
  "query_rows qpk after_sk limit (restamp_rows p c rows) (map (restamp_doc p c) acc) b =
   restamp_docs p c (query_rows qpk after_sk limit rows acc b)"
proof (induction qpk after_sk limit rows acc b rule: query_rows.induct)
  case (2 qpk after_sk limit k st rows acc b)
  show ?case
  proof (cases "pk (key_of k) > qpk \<or> pk (key_of k) < qpk \<or> up_to after_sk (sk (key_of k)) \<or> (\<exists>r. st = Missing r)")
    case False
    then obtain v r where st: "st = Present v r" and go: "\<not> pk (key_of k) > qpk" "\<not> (pk (key_of k) < qpk \<or> up_to after_sk (sk (key_of k)))"
      by (cases st) auto
    let ?d = "\<lparr>doc_key = key_of k, doc_value = v, doc_revision = r\<rparr>"
    have d: "map (restamp_doc p c) (acc @ [?d]) =
        map (restamp_doc p c) acc @ [\<lparr>doc_key = key_of k, doc_value = v, doc_revision = if r = p then c else r\<rparr>]"
      by (simp add: restamp_doc_def)
    from st go show ?thesis
      using 2(2) [OF go st refl] by (cases "reserve_document (key_of k) (length v) b") (simp_all add: Let_def d [symmetric])
  qed (use 2(1,3) in auto)
qed simp

lemma restamp_response_docs:
  "restamp_response p c (QueryResponse docs) = QueryResponse (map (restamp_doc p c) docs)"
  "restamp_response p c (ScanResponse docs) = ScanResponse (map (restamp_doc p c) docs)"
  by (simp_all add: restamp_doc_def)

lemma exec_rows_restamp:
  assumes "p \<noteq> 0" and "exec_rows p request rows b = Inr (response, b', rows')"
  shows "exec_rows c request (restamp_rows p c rows) b = Inr (restamp_response p c response, b', restamp_rows p c rows')"
proof (cases request)
  case (QueryRequest qpk after_sk limit)
  then show ?thesis
    using assms(2) query_rows_restamp [of qpk after_sk limit p c rows "[]" b]
    by (auto simp: rbind_Inr_iff restamp_response_docs simp del: restamp_response.simps split: if_splits)
next
  case (ScanRequest cursor limit)
  then show ?thesis
    using assms(2) scan_rows_restamp [of "map_option encode cursor" limit p c rows "[]" b]
    by (auto simp: rbind_Inr_iff restamp_response_docs simp del: restamp_response.simps split: if_splits)
qed (use assms om_insert_restamp [of _ "Present _ p" p c rows] om_insert_restamp [of _ "Missing p" p c rows] in
  \<open>auto simp: rbind_Inr_iff lookup_restamp\<close>)

lemma exec_all_restamp:
  assumes "p \<noteq> 0" and "exec_all_rows p requests rows b = Inr (responses, rows')"
  shows "exec_all_rows c requests (restamp_rows p c rows) b = Inr (restamp_responses responses p c, restamp_rows p c rows')"
  using assms(2)
proof (induction requests arbitrary: rows b responses)
  case (Cons request requests)
  then obtain x b1 rows1 xs where 1: "exec_rows p request rows b = Inr (x, b1, rows1)"
    "exec_all_rows p requests rows1 b1 = Inr (xs, rows')" "responses = x # xs"
    by (auto simp: rbind_Inr_iff)
  from exec_rows_restamp [OF assms(1) 1(1)] Cons.IH [OF 1(2)] 1(3) show ?case by (simp add: restamp_responses_def)
qed (simp add: restamp_responses_def)

lemma exec_rows_restamp_error:
  assumes "p \<noteq> 0" and "exec_rows p request rows b = Inl e"
  shows "exec_rows c request (restamp_rows p c rows) b = Inl e"
proof (cases request)
  case (QueryRequest qpk after_sk limit)
  then show ?thesis
    using assms(2) query_rows_restamp [of qpk after_sk limit p c rows "[]" b] by (auto simp: rbind_Inl_iff split: if_splits)
next
  case (ScanRequest cursor limit)
  then show ?thesis
    using assms(2) scan_rows_restamp [of "map_option encode cursor" limit p c rows "[]" b] by (auto simp: rbind_Inl_iff split: if_splits)
qed (use assms in \<open>auto simp: rbind_Inl_iff lookup_restamp\<close>)

lemma exec_all_restamp_error:
  assumes "p \<noteq> 0" and "exec_all_rows p requests rows b = Inl e"
  shows "exec_all_rows c requests (restamp_rows p c rows) b = Inl e"
  using assms(2)
proof (induction requests arbitrary: rows b)
  case (Cons request requests)
  show ?case
  proof (cases "exec_rows p request rows b")
    case (Inl e')
    then show ?thesis using Cons.prems exec_rows_restamp_error [OF assms(1) Inl, of c] by simp
  next
    case (Inr r)
    obtain x b1 rows1 where r: "r = (x, b1, rows1)" by (metis surj_pair)
    have "exec_all_rows p requests rows1 b1 = Inl e" using Cons.prems Inr r by (auto simp: rbind_Inl_iff)
    from Cons.IH [OF this] exec_rows_restamp [OF assms(1) Inr [unfolded r], of c] show ?thesis by simp
  qed
qed simp

text \<open>The rows of a batch are old or carry its revision.\<close>

lemma set_om_insert_le: "set (om_insert k v m) \<subseteq> insert (k, v) (set m)"
  by (induction k v m rule: om_insert.induct) auto

lemma exec_rows_origin:
  "exec_rows p request rows b = Inr (response, b', rows') \<Longrightarrow> r \<in> set rows' \<Longrightarrow> rs_revision (snd r) = p \<or> r \<in> set rows"
  using set_om_insert_le by (cases request) (fastforce simp: rbind_Inr_iff split: if_splits)+

lemma exec_all_origin:
  "exec_all_rows p requests rows b = Inr (responses, rows') \<Longrightarrow> r \<in> set rows' \<Longrightarrow> rs_revision (snd r) = p \<or> r \<in> set rows"
proof (induction requests arbitrary: rows b responses)
  case (Cons request requests)
  then obtain x b1 rows1 xs where 1: "exec_rows p request rows b = Inr (x, b1, rows1)" "exec_all_rows p requests rows1 b1 = Inr (xs, rows')"
    by (auto simp: rbind_Inr_iff)
  from Cons.IH [OF 1(2) Cons.prems(2)] exec_rows_origin [OF 1(1), of r] show ?case by blast
qed simp

section \<open>Pages\<close>

fun at_lsn :: "lsn \<Rightarrow> page_data \<Rightarrow> page_data" where
  "at_lsn l (LeafData _ n es) = LeafData l n es"
| "at_lsn l (InternalData _ child es) = InternalData l child es"
| "at_lsn l (OverflowData _ n t chunk) = OverflowData l n t chunk"
| "at_lsn l (FreeData _ n) = FreeData l n"

definition restamp_entry :: "revision \<Rightarrow> revision \<Rightarrow> leaf_entry \<Rightarrow> leaf_entry" where
  "restamp_entry p c e = (if le_revision e = p then e\<lparr>le_revision := c\<rparr> else e)"

text \<open>Every page restamped, with any page LSN.\<close>

definition restamped :: "revision \<Rightarrow> revision \<Rightarrow> memory \<Rightarrow> memory \<Rightarrow> bool" where
  "restamped p c m m' \<longleftrightarrow> (\<forall>q d. m q = Some d \<longrightarrow> (\<exists>l. m' q = Some (at_lsn l (restamp d p c))))"

fun restamp_bt :: "revision \<Rightarrow> revision \<Rightarrow> btree \<Rightarrow> btree" where
  "restamp_bt p c (Leaf q es) = Leaf q (map (restamp_entry p c) es)"
| "restamp_bt p c (Node q ks ts) = Node q ks (map (restamp_bt p c) ts)"

lemma restamp_entry_simps [simp]:
  "le_key (restamp_entry p c e) = le_key e" "le_value (restamp_entry p c e) = le_value e"
  "le_revision (restamp_entry p c e) = (if le_revision e = p then c else le_revision e)"
  by (simp_all add: restamp_entry_def)

lemma restamp_leaf: "restamp (LeafData l n es) p c = LeafData c n (map (restamp_entry p c) es)"
  by (simp add: restamp_entry_def)

lemma restampedD:
  assumes "restamped p c m m'"
  shows "m q = Some (LeafData l n es) \<Longrightarrow> \<exists>l. m' q = Some (LeafData l n (map (restamp_entry p c) es))"
    "m q = Some (InternalData l child is) \<Longrightarrow> \<exists>l. m' q = Some (InternalData l child is)"
    "m q = Some (OverflowData l n t chunk) \<Longrightarrow> \<exists>l. m' q = Some (OverflowData l n t chunk)"
    "m q = Some (FreeData l n) \<Longrightarrow> \<exists>l. m' q = Some (FreeData l n)"
  using assms unfolding restamped_def by (metis at_lsn.simps restamp.simps(2-4) restamp_leaf)+

lemma restamp_bt_id [simp]: "bt_id (restamp_bt p c t) = bt_id t"
  by (cases t) auto

lemma restamp_bt_simps [simp]:
  "bt_pages (restamp_bt p c t) = bt_pages t" "bt_seps (restamp_bt p c t) = bt_seps t"
  "bt_leaves (restamp_bt p c t) = map (map_prod id (map (restamp_entry p c))) (bt_leaves t)"
  by (induction t) (auto simp: map_concat comp_def cong: map_cong)

lemma restamp_bt_entries [simp]: "bt_entries (restamp_bt p c t) = map (restamp_entry p c) (bt_entries t)"
  by (simp add: bt_entries_def map_concat comp_def)

lemma restamp_bt_level [simp]: "level d (restamp_bt p c t) \<longleftrightarrow> level d t"
  by (induction t arbitrary: d) (auto simp: list_all_iff)

lemma restamp_leaf_weight [simp]: "leaf_weight (restamp_entry p c e) = leaf_weight e"
  by (simp add: leaf_weight_def)

lemma restamp_leaf_fits [simp]: "leaf_fits (map (restamp_entry p c) es) \<longleftrightarrow> leaf_fits es"
  by (simp add: leaf_fits_iff comp_def)

lemma restamp_bt_fits [simp]: "bt_fits (restamp_bt p c t) \<longleftrightarrow> bt_fits t"
  by (induction t) (auto simp: list_all_iff comp_def)

lemma restamp_bt_ordered:
  "ordered lo hi t \<Longrightarrow> ordered lo hi (restamp_bt p c t)" "ordered_list lo hi ks ts \<Longrightarrow> ordered_list lo hi ks (map (restamp_bt p c) ts)"
  by (induction lo hi t and lo hi ks ts rule: ordered_ordered_list.induct) (auto simp: comp_def simp del: in_range.simps)

lemma restamp_rep: "restamped p c m m' \<Longrightarrow> rep m t \<Longrightarrow> rep m' (restamp_bt p c t)"
  by (induction t) (auto simp: is_node_def node_page_def list_all_iff comp_def dest: restampedD)

lemma chain_head_map: "chain_head (map (map_prod id f) ls) tail = chain_head ls tail"
  by (cases ls) auto

lemma restamp_linked:
  "restamped p c m m' \<Longrightarrow> linked m ls tail \<Longrightarrow> linked m' (map (map_prod id (map (restamp_entry p c))) ls) tail"
  by (induction m ls tail rule: linked.induct) (auto simp: chain_head_map dest: restampedD(1))

lemma restamp_free_list: "restamped p c m m' \<Longrightarrow> free_list m h fs \<Longrightarrow> free_list m' h fs"
  by (induction m h fs rule: free_list.induct) (auto dest!: restampedD(4))

lemma restamp_overflow: "restamped p c m m' \<Longrightarrow> overflow m len ids v \<Longrightarrow> overflow m' len ids v"
  by (induction m len ids v rule: overflow.induct) (auto dest!: restampedD(3))

lemma restamp_stores: "restamped p c m m' \<Longrightarrow> stores m ids vref v \<Longrightarrow> stores m' ids vref v"
  by (cases vref) (auto intro: restamp_overflow)

lemma restamp_row_at: "restamped p c m m' \<Longrightarrow> row_at m ids e st \<Longrightarrow> row_at m' ids (restamp_entry p c e) (restamp_state st p c)"
  by (auto simp: row_at_def split: option.splits intro: restamp_stores)

lemma restamp_rows_at:
  "restamped p c m m' \<Longrightarrow> rows_at m own es rows \<Longrightarrow> rows_at m' own (map (restamp_entry p c) es) (restamp_rows p c rows)"
  by (induction es arbitrary: rows) (auto intro: restamp_row_at)

lemma restamp_owned [simp]: "owned own (map (restamp_entry p c) es) = owned own es"
  by (induction es) auto

lemma restamp_tree_inv:
  assumes inv: "tree_inv s t own frees rows" and m: "restamped p c (o_mem s) (o_mem s')"
    and same: "o_root s' = o_root s" "o_free s' = o_free s" "o_high s' = o_high s" "set (o_dirty s') \<subseteq> set (o_dirty s)"
  shows "tree_inv s' (restamp_bt p c t) own frees (restamp_rows p c rows)"
proof -
  have t: "tree_at s t" and ok: "pages_ok s (bt_pages t @ owned own (bt_entries t)) frees"
    and rows: "rows_at (o_mem s) own (bt_entries t) rows" using inv by (simp_all add: tree_inv_def)
  have "tree_at s' (restamp_bt p c t)"
    using t same restamp_rep [OF m] restamp_linked [OF m] restamp_bt_ordered(1)
    by (auto simp: tree_at_def balanced_def image_image)
  moreover have "pages_ok s' (bt_pages t @ owned own (bt_entries t)) frees"
    using ok same restamp_free_list [OF m] by (auto simp only: pages_ok_def)
  ultimately show ?thesis using restamp_rows_at [OF m rows] by (simp add: tree_inv_def)
qed

end
