(* ===== verification/Dodb_Publish.thy ===== *)
theory Dodb_Publish
  imports Dodb_Restamp
begin

text \<open>
  From the overlay to the commit. Every page of a consistent state can be encoded, so \<open>finish\<close>
  always produces the images of the dirty pages and the next superblock; decoding the images
  gives the restamped pages.
\<close>

section \<open>Consistent pages are encodable\<close>

definition storable :: "page_data \<Rightarrow> bool" where
  "storable d \<longleftrightarrow> pd_wf d \<and> is_ok (encode_body d)"

lemma tree_page_kinds:
  "rep m t \<Longrightarrow> bt_fits t \<Longrightarrow> p \<in> set (bt_pages t) \<Longrightarrow>
   (\<exists>es. (p, es) \<in> set (bt_leaves t) \<and> leaf_fits es) \<or> (\<exists>l child es. m p = Some (InternalData l child es) \<and> internal_fits child es)"
proof (induction t)
  case (Node q ks ts)
  show ?case
  proof (cases "p = q")
    case True
    then show ?thesis using Node.prems by (auto simp: is_node_def node_page_def node_fits_def)
  next
    case False
    then obtain t where t: "t \<in> set ts" "p \<in> set (bt_pages t)" using Node.prems(3) by auto
    then show ?thesis using Node.IH [OF t(1)] Node.prems t by (fastforce simp: list_all_iff)
  qed
qed auto

lemma linked_page:
  "linked m ls tail \<Longrightarrow> (p, es) \<in> set ls \<Longrightarrow> \<exists>l nx. m p = Some (LeafData l nx es) \<and> (nx = tail \<or> (\<exists>q \<in> fst ` set ls. nx = Some q))"
proof (induction m ls tail rule: linked.induct)
  case (2 mem l ls tail)
  show ?case
  proof (cases "(p, es) = l")
    case True
    then show ?thesis using 2(2) by (cases ls) (auto simp: chain_head_def)
  next
    case False
    then show ?thesis using 2 by auto
  qed
qed simp

lemma free_list_page:
  "free_list m h fs \<Longrightarrow> p \<in> set fs \<Longrightarrow> \<exists>l n. m p = Some (FreeData l n) \<and> (n = None \<or> (\<exists>q \<in> set fs. n = Some q))"
proof (induction m h fs rule: free_list.induct)
  case (2 mem head q ps)
  then obtain l n where q: "mem q = Some (FreeData l n)" "free_list mem n ps" by auto
  show ?case
  proof (cases "p = q")
    case True
    then show ?thesis using q by (cases ps) auto
  next
    case False
    then show ?thesis using 2 q by (metis list.set_intros(2) set_ConsD)
  qed
qed simp

lemma overflow_page:
  "overflow m len ids v \<Longrightarrow> p \<in> set ids \<Longrightarrow> \<exists>l n chunk. m p = Some (OverflowData l n len chunk) \<and> chunk \<noteq> [] \<and>
     length chunk \<le> OVERFLOW_DATA_SIZE \<and> (n = None \<or> (\<exists>q \<in> set ids. n = Some q))"
proof (induction m len ids v rule: overflow.induct)
  case (2 mem len q ps v)
  then obtain l chunk v' where q: "mem q = Some (OverflowData l (chain_next ps) len chunk)" "overflow mem len ps v'"
    "chunk \<noteq> []" "length chunk \<le> OVERFLOW_DATA_SIZE" by auto
  show ?case
  proof (cases "p = q")
    case True
    then show ?thesis using q by (cases ps) auto
  next
    case False
    then show ?thesis using 2 q by (metis list.set_intros(2) set_ConsD)
  qed
qed simp

lemma overflow_page_nonempty: "overflow m len ids v \<Longrightarrow> ids \<noteq> [] \<Longrightarrow> v \<noteq> []"
  by (cases ids) auto

lemma row_at_entry_wf:
  assumes row: "row_at m ids e st" and ids: "NULL_PAGE_ID \<notin> set ids"
  shows "leaf_entry_wf e"
proof (cases "le_value e")
  case (Some vref)
  then show ?thesis
  proof (cases vref)
    case (Overflow head len)
    with Some row obtain v where v: "ids \<noteq> []" "head = hd ids" "overflow m len ids v" "unat len = length v" "length v \<le> MAX_VALUE_SIZE"
      by (auto simp: row_at_def)
    have "v \<noteq> []" by (rule overflow_page_nonempty [OF v(3,1)])
    then have "len \<noteq> 0" using v(4) by (metis length_0_conv unat_eq_zero)
    moreover have "head \<noteq> NULL_PAGE_ID" using v(1,2) ids by (metis list.set_sel(1))
    moreover have "len \<le> of_nat MAX_VALUE_SIZE" using v(4,5) by (simp add: word_le_nat_alt unat_of_nat_u64 usize_max_def MAX_VALUE_SIZE_def)
    ultimately show ?thesis using Some Overflow by (simp add: leaf_entry_wf_def)
  qed (simp add: Some leaf_entry_wf_def)
qed (simp add: leaf_entry_wf_def)

text \<open>What a page within the high-water mark holds.\<close>

lemma tree_inv_page:
  assumes inv: "tree_inv s t own frees rows" and p: "FIRST_DATA_PAGE \<le> p" "p \<le> o_high s"
  obtains (leaf) l nx es where "o_mem s p = Some (LeafData l nx es)" "set es \<subseteq> set (bt_entries t)" "leaf_fits es"
      "\<forall>q. nx = Some q \<longrightarrow> q \<le> o_high s"
    | (node) l child es where "o_mem s p = Some (InternalData l child es)" "internal_fits child es"
    | (chain) l n len chunk where "o_mem s p = Some (OverflowData l n len chunk)" "len \<noteq> 0" "len \<le> of_nat MAX_VALUE_SIZE"
      "chunk \<noteq> []" "length chunk \<le> OVERFLOW_DATA_SIZE" "\<forall>q. n = Some q \<longrightarrow> q \<le> o_high s"
    | (free) l n where "o_mem s p = Some (FreeData l n)" "\<forall>q. n = Some q \<longrightarrow> q \<le> o_high s"
proof -
  have t: "tree_at s t" and ok: "pages_ok s (bt_pages t @ owned own (bt_entries t)) frees"
    and rows: "rows_at (o_mem s) own (bt_entries t) rows" using inv by (simp_all add: tree_inv_def)
  have all: "set (bt_pages t) \<union> set (owned own (bt_entries t)) \<union> set frees = {FIRST_DATA_PAGE..o_high s}"
    using ok by (simp only: pages_ok_def set_append)
  have range: "q \<le> o_high s" if "q \<in> set (bt_pages t) \<union> set (owned own (bt_entries t)) \<union> set frees" for q
    using that unfolding all by simp
  have "p \<in> set (bt_pages t) \<union> set (owned own (bt_entries t)) \<union> set frees" unfolding all using p by simp
  then consider (a) "p \<in> set (bt_pages t)" | (b) "p \<in> set (owned own (bt_entries t))" | (c) "p \<in> set frees" by blast
  then show ?thesis
  proof cases
    case a
    then consider (x) es where "(p, es) \<in> set (bt_leaves t)" "leaf_fits es"
      | (y) l child es where "o_mem s p = Some (InternalData l child es)" "internal_fits child es"
      using tree_page_kinds [of "o_mem s" t p] t unfolding tree_at_def by blast
    then show ?thesis
    proof cases
      case x
      have "linked (o_mem s) (bt_leaves t) None" using t by (simp add: tree_at_def)
      from linked_page [OF this x(1)] obtain l nx where nx: "o_mem s p = Some (LeafData l nx es)"
        "nx = None \<or> (\<exists>q \<in> fst ` set (bt_leaves t). nx = Some q)" by blast
      have "set es \<subseteq> set (bt_entries t)" using x(1) by (force simp: bt_entries_def)
      moreover have "\<forall>q. nx = Some q \<longrightarrow> q \<le> o_high s" using nx(2) leaves_pages [of t] range by blast
      ultimately show ?thesis using nx(1) x(2) by (intro leaf)
    qed (rule node)
  next
    case b
    then obtain e where e: "e \<in> set (bt_entries t)" "p \<in> set (own (le_key e))" by (auto simp: owned_def)
    obtain st where "row_at (o_mem s) (own (le_key e)) e st" using rows_at_entry [OF rows e(1)] by blast
    then obtain vref v where "stores (o_mem s) (own (le_key e)) vref v" using e(2) by (auto simp: row_at_def split: option.splits)
    then obtain len where v: "overflow (o_mem s) len (own (le_key e)) v" "unat len = length v" "length v \<le> MAX_VALUE_SIZE"
      using e(2) by (cases vref) auto
    from overflow_page [OF v(1) e(2)] obtain l n chunk where c: "o_mem s p = Some (OverflowData l n len chunk)"
      "chunk \<noteq> []" "length chunk \<le> OVERFLOW_DATA_SIZE" "n = None \<or> (\<exists>q \<in> set (own (le_key e)). n = Some q)" by blast
    have "v \<noteq> []" by (rule overflow_page_nonempty [OF v(1)]) (use e(2) in auto)
    then have "len \<noteq> 0" using v(2) by (metis length_0_conv unat_eq_zero)
    moreover have "len \<le> of_nat MAX_VALUE_SIZE" using v(2,3) by (simp add: word_le_nat_alt unat_of_nat_u64 usize_max_def MAX_VALUE_SIZE_def)
    moreover have "\<forall>q. n = Some q \<longrightarrow> q \<le> o_high s" using c(4) owned_part [OF e(1), of own] range by blast
    ultimately show ?thesis using c(1-3) by (intro chain)
  next
    case c
    have "free_list (o_mem s) (o_free s) frees" using ok by (simp only: pages_ok_def)
    from free_list_page [OF this c] range show ?thesis by (metis UnI2 free option.inject option.distinct(1))
  qed
qed

lemma below_null: "q \<le> h \<Longrightarrow> h \<noteq> NULL_PAGE_ID \<Longrightarrow> q \<noteq> NULL_PAGE_ID"
  by (auto simp: NULL_PAGE_ID_def word_order.extremum_unique)

lemma tree_inv_entry_wf:
  assumes inv: "tree_inv s t own frees rows" and high: "o_high s \<noteq> NULL_PAGE_ID" and e: "e \<in> set (bt_entries t)"
  shows "leaf_entry_wf e"
proof -
  have ok: "pages_ok s (bt_pages t @ owned own (bt_entries t)) frees" and rows: "rows_at (o_mem s) own (bt_entries t) rows"
    using inv by (simp_all add: tree_inv_def)
  obtain st where "row_at (o_mem s) (own (le_key e)) e st" using rows_at_entry [OF rows e] by blast
  moreover have "NULL_PAGE_ID \<notin> set (own (le_key e))"
    using pages_ok_range [OF ok, of NULL_PAGE_ID] owned_part [OF e, of own] below_null [OF _ high] by auto
  ultimately show ?thesis by (rule row_at_entry_wf)
qed

lemma tree_inv_storable:
  assumes inv: "tree_inv s t own frees rows" and high: "o_high s \<noteq> NULL_PAGE_ID" and p: "FIRST_DATA_PAGE \<le> p" "p \<le> o_high s"
  shows "\<exists>d. o_mem s p = Some d \<and> storable d"
  using inv p
proof (cases rule: tree_inv_page)
  case (leaf l nx es)
  have "list_all leaf_entry_wf es" using tree_inv_entry_wf [OF inv high] leaf(2) by (auto simp: list_all_iff)
  moreover have "is_ok (encode_leaf nx es)" using leaf(3) by (auto simp: leaf_fits_def encode_leaf_ok_iff)
  moreover have "nx \<noteq> Some NULL_PAGE_ID" using leaf(4) below_null [OF _ high] by blast
  ultimately show ?thesis using leaf(1) by (simp add: storable_def)
next
  case (chain l n len chunk)
  then have "n \<noteq> Some NULL_PAGE_ID" using below_null [OF _ high] by blast
  with chain show ?thesis
    by (auto simp: storable_def encode_overflow_def is_ok_iff result_iff U16_MAX_def OVERFLOW_DATA_SIZE_value)
next
  case (free l n)
  then have "n \<noteq> Some NULL_PAGE_ID" using below_null [OF _ high] by blast
  with free show ?thesis by (auto simp: storable_def encode_free_def is_ok_iff)
qed (auto simp: storable_def internal_fits_def)

lemma storable_restamp: "storable d \<Longrightarrow> storable (restamp d p c)"
  unfolding storable_def restamp_encodes by (cases d) (auto simp: list_all_iff leaf_entry_wf_def)

section \<open>The memory within the high-water mark\<close>

abbreviation masked :: "ostate \<Rightarrow> ostate" where
  "masked s \<equiv> s\<lparr>o_mem := o_mem s |` {FIRST_DATA_PAGE..o_high s}\<rparr>"

lemma tree_inv_masked:
  assumes inv: "tree_inv s t own frees rows"
  shows "tree_inv (masked s) t own frees rows"
proof -
  let ?used = "bt_pages t @ owned own (bt_entries t)"
  have t: "tree_at s t" and ok: "pages_ok s ?used frees" and rows: "rows_at (o_mem s) own (bt_entries t) rows"
    using inv by (simp_all add: tree_inv_def)
  have all: "set ?used \<union> set frees = {FIRST_DATA_PAGE..o_high s}" using ok by (simp only: pages_ok_def set_append)
  have same: "o_mem (masked s) p = o_mem s p" if "p \<in> set ?used \<union> set frees" for p
    using that unfolding all by simp
  have "keeps (set (bt_pages t)) s (masked s)" unfolding keeps_def by (intro ballI same) simp
  then have "tree_at (masked s) t" by (rule tree_at_keeps [OF t]) simp
  moreover have "keeps (set (owned own (bt_entries t))) s (masked s)" unfolding keeps_def by (intro ballI same) simp
  then have "rows_at (o_mem (masked s)) own (bt_entries t) rows" by (rule rows_at_keeps [OF rows])
  moreover have "free_list (o_mem (masked s)) (o_free s) frees \<longleftrightarrow> free_list (o_mem s) (o_free s) frees"
    by (rule free_list_cong) (rule same, simp)
  then have "pages_ok (masked s) ?used frees" using ok by (simp add: pages_ok_def)
  ultimately show ?thesis by (simp add: tree_inv_def)
qed

text \<open>A page of a consistent state carries no revision outside the rows.\<close>

lemma tree_inv_fresh:
  assumes inv: "tree_inv s t own frees rows" and fresh: "\<forall>r \<in> set rows. rs_revision (snd r) \<noteq> p"
    and q: "FIRST_DATA_PAGE \<le> q" "q \<le> o_high s" and d: "o_mem s q = Some d"
  shows "\<exists>l. at_lsn l (restamp d p c) = d"
  using inv q
proof (cases rule: tree_inv_page)
  case (leaf l nx es)
  have rows: "rows_at (o_mem s) own (bt_entries t) rows" using inv by (simp add: tree_inv_def)
  have "restamp_entry p c e = e" if e: "e \<in> set es" for e
  proof -
    have "e \<in> set (bt_entries t)" using leaf(2) e by auto
    from rows_at_entry [OF rows this] obtain st
      where st: "(le_key e, st) \<in> set rows" "row_at (o_mem s) (own (le_key e)) e st" by blast
    then have "rs_revision st \<noteq> p" using fresh by auto
    with st(2) have "le_revision e \<noteq> p" by (auto simp: row_at_def split: option.splits)
    then show ?thesis by (simp add: restamp_entry_def)
  qed
  then have "map (restamp_entry p c) es = es" by (intro map_idI)
  moreover have "d = LeafData l nx es" using d leaf(1) by simp
  ultimately show ?thesis by (intro exI [of _ l]) (simp add: restamp_leaf del: restamp.simps)
qed (use d in auto)

section \<open>The images of a commit\<close>

lemma restamp_dirty_run:
  assumes "om_wf pages" and "distinct ds" and "\<forall>q \<in> set ds. om_get pages q \<noteq> None"
  shows "\<exists>pages'. restamp_dirty ds p c pages = Inr pages' \<and> om_wf pages' \<and>
    (\<forall>q. om_get pages' q = (if q \<in> set ds then map_option (\<lambda>d. restamp d p c) (om_get pages q) else om_get pages q))"
  using assms
proof (induction ds arbitrary: pages)
  case (Cons d ds)
  then obtain page where page: "om_get pages d = Some page" by auto
  let ?pages = "om_insert d (restamp page p c) pages"
  have wf: "om_wf ?pages" using Cons.prems(1) by (rule om_wf_insert)
  have "\<forall>q \<in> set ds. om_get ?pages q \<noteq> None" using Cons.prems by (auto simp: om_get_insert)
  with Cons.IH [OF wf] Cons.prems(2) obtain pages' where "restamp_dirty ds p c ?pages = Inr pages'" "om_wf pages'"
    "\<forall>q. om_get pages' q = (if q \<in> set ds then map_option (\<lambda>d. restamp d p c) (om_get ?pages q) else om_get ?pages q)" by auto
  then show ?case using page Cons.prems by (intro exI [of _ pages']) (auto simp: om_get_insert)
qed simp

lemma encode_dirty_run:
  assumes "sorted_wrt (<) ds" and "\<forall>q \<in> set ds. \<exists>d. om_get pages q = Some d \<and> storable d"
  shows "\<exists>cp cd. encode_dirty crc ds pages = Inr (cp, cd) \<and> om_wf cp \<and> om_wf cd \<and> map fst cp = ds \<and>
    (\<forall>q. om_get cd q = (if q \<in> set ds then om_get pages q else None)) \<and>
    (\<forall>(q, bs) \<in> set cp. \<exists>d. om_get pages q = Some d \<and> pd_encode crc d q = Inr bs \<and> pd_wf d)"
  using assms
proof (induction ds)
  case (Cons p ds)
  then obtain d where d: "om_get pages p = Some d" "storable d" by auto
  then obtain bs where bs: "pd_encode crc d p = Inr bs" using pd_encode_ok [of d crc p] unfolding storable_def by blast
  obtain cp cd where e: "encode_dirty crc ds pages = Inr (cp, cd)" "om_wf cp" "om_wf cd" "map fst cp = ds"
    "\<forall>q. om_get cd q = (if q \<in> set ds then om_get pages q else None)"
    "\<forall>(q, bs) \<in> set cp. \<exists>d. om_get pages q = Some d \<and> pd_encode crc d q = Inr bs \<and> pd_wf d"
    using Cons.IH Cons.prems by auto
  have "\<forall>q \<in> set (map fst cp). p < q" using Cons.prems(1) e(4) by simp
  then have ins: "om_insert p bs cp = (p, bs) # cp" by (cases cp) (auto simp: less_imp_neq)
  moreover have "p < q" if "(q, b) \<in> set cp" for q b using \<open>\<forall>q \<in> set (map fst cp). p < q\<close> that by force
  ultimately show ?case
    using d bs e
    by (intro exI [of _ "(p, bs) # cp"] exI [of _ "om_insert p d cd"])
      (auto simp: ins om_wf_insert om_get_insert om_wf_Cons storable_def)
qed (simp add: om_wf_def om_get_def)

lemma om_get_Some_in: "om_get m k = Some v \<Longrightarrow> (k, v) \<in> set m"
  by (simp add: om_get_def map_of_SomeD)

section \<open>Superblocks\<close>

definition superblock_ok :: "superblock \<Rightarrow> bool" where
  "superblock_ok sb \<longleftrightarrow> superblock_wf sb \<and> sb_format_version sb = SUPERBLOCK_FORMAT_VERSION \<and> sb_page_size sb = 4096"

lemma superblock_fields_checksum: "superblock_fields (sb\<lparr>sb_checksum := x\<rparr>) = superblock_fields sb"
  by (simp add: superblock_fields_def)

lemma next_superblock_run:
  assumes ok: "superblock_ok sb" and gen: "unat (sb_generation sb) + 1 < 2 ^ 64"
    and ids: "root \<noteq> NULL_PAGE_ID" "free \<noteq> Some NULL_PAGE_ID" "hw \<noteq> NULL_PAGE_ID"
  shows "\<exists>r image. next_superblock crc sb root free hw = Inr r \<and> superblock_ok r \<and>
    encode_superblock crc r = Inr image \<and> decode_superblock crc image = Inr r \<and> length image = PAGE_SIZE \<and>
    sb_generation r = sb_generation sb + 1 \<and> sb_root_page_id r = Some root \<and> sb_free_list_head r = free \<and>
    sb_high_water_page_id r = Some hw \<and> sb_checkpoint_lsn r = sb_checkpoint_lsn sb \<and>
    sb_database_uuid r = sb_database_uuid sb \<and> sb_tenant_id r = sb_tenant_id sb \<and> sb_shard_id r = sb_shard_id sb \<and>
    sb_shard_epoch r = sb_shard_epoch sb"
proof -
  let ?s = "sb\<lparr>sb_generation := sb_generation sb + 1, sb_root_page_id := Some root, sb_free_list_head := free,
    sb_high_water_page_id := Some hw\<rparr>"
  have wf: "superblock_wf ?s" using ok ids by (simp add: superblock_ok_def superblock_wf_def)
  obtain image where image: "encode_superblock crc ?s = Inr image" using ok by (simp add: encode_superblock_iff superblock_ok_def)
  have dec: "length image = PAGE_SIZE" "decode_superblock crc image = Inr (?s\<lparr>sb_checksum := superblock_checksum crc image\<rparr>)"
    using superblock_sealed(1) [OF _ image] decode_encoded_superblock [OF wf image] wf by (auto simp: superblock_wf_def)
  let ?r = "?s\<lparr>sb_checksum := superblock_checksum crc image\<rparr>"
  have "encode_superblock crc ?r = Inr image"
    using image superblock_fields_checksum [where sb = ?s] by (simp add: encode_superblock_iff)
  moreover have "next_superblock crc sb root free hw = Inr ?r"
    using gen image dec by (simp add: next_superblock_def checked_add_u64_def)
  moreover have "superblock_ok ?r" using ok ids by (simp add: superblock_ok_def superblock_wf_def)
  ultimately show ?thesis using dec by (intro exI [of _ ?r] exI [of _ image]) simp
qed


section \<open>Prepared batches\<close>

text \<open>The images of a prepared batch are those of the dirty pages, stamped with the commit LSN.\<close>

definition commits_pages :: "crc_fun \<Rightarrow> ostate \<Rightarrow> revision \<Rightarrow> lsn \<Rightarrow> prepared_batch \<Rightarrow> bool" where
  "commits_pages crc s p c pr \<longleftrightarrow>
     map fst (pr_changed_pages pr) = o_dirty s \<and> om_wf (pr_changed_pages pr) \<and> om_wf (pr_changed_decoded pr) \<and>
     (\<forall>(q, bs) \<in> set (pr_changed_pages pr). \<exists>d. o_mem s q = Some d \<and> pd_encode crc (restamp d p c) q = Inr bs \<and> pd_wf (restamp d p c)) \<and>
     (\<forall>q. om_get (pr_changed_decoded pr) q = (if q \<in> set (o_dirty s) then map_option (\<lambda>d. restamp d p c) (o_mem s q) else None))"

definition commits_meta :: "crc_fun \<Rightarrow> ostate \<Rightarrow> lsn \<Rightarrow> bytes \<Rightarrow> prepared_batch \<Rightarrow> bool" where
  "commits_meta crc s c img pr \<longleftrightarrow>
     pr_commit_lsn pr = Some c \<and> pr_next_revision pr = c + 1 \<and> pr_batch_id pr = o_next_batch s \<and>
     pr_root_page_id pr = o_root s \<and> pr_free_list_head pr = o_free s \<and> pr_high_water_page_id pr = o_high s \<and>
     pr_base_generation pr = sb_generation (o_superblock s) \<and> pr_new_slot pr = other_slot (o_slot s) \<and>
     (\<exists>sb. pr_new_superblock pr = sb \<and> superblock_ok sb \<and> encode_superblock crc sb = Inr img \<and>
        decode_superblock crc img = Inr sb \<and> length img = PAGE_SIZE \<and>
        sb_generation sb = sb_generation (o_superblock s) + 1 \<and> sb_root_page_id sb = Some (o_root s) \<and>
        sb_free_list_head sb = o_free s \<and> sb_high_water_page_id sb = Some (o_high s) \<and>
        sb_checkpoint_lsn sb = sb_checkpoint_lsn (o_superblock s) \<and>
        sb_database_uuid sb = sb_database_uuid (o_superblock s) \<and> sb_tenant_id sb = sb_tenant_id (o_superblock s) \<and>
        sb_shard_id sb = sb_shard_id (o_superblock s) \<and> sb_shard_epoch sb = sb_shard_epoch (o_superblock s))"

text \<open>The counters leave room for the commit.\<close>

definition commit_room :: "ostate \<Rightarrow> bool" where
  "commit_room s \<longleftrightarrow> unat (o_next_lsn s) + length (o_dirty s) + 2 < 2 ^ 64 \<and> unat (sb_generation (o_superblock s)) + 1 < 2 ^ 64 \<and>
     unat (o_next_batch s) + 1 < 2 ^ 64"

definition commit_of :: "ostate \<Rightarrow> lsn" where
  "commit_of s = o_next_lsn s + of_nat (length (o_dirty s) + 1)"

lemma unat_commit_of: "commit_room s \<Longrightarrow> unat (commit_of s) = unat (o_next_lsn s) + length (o_dirty s) + 1"
  by (simp add: commit_room_def commit_of_def unat_word_ariths unat_of_nat_u64 usize_max_def del: of_nat_Suc of_nat_add)

lemma commit_of_sum:
  assumes "commit_room s"
  shows "checked_add_usize (length (o_dirty s)) 1 = Some (length (o_dirty s) + 1)"
    "checked_add_u64 (o_next_lsn s) (of_nat (length (o_dirty s) + 1)) = Some (commit_of s)"
    "checked_add_u64 (commit_of s) 1 = Some (commit_of s + 1)"
  using assms unat_commit_of [OF assms]
  by (auto simp: commit_room_def commit_of_def checked_add_usize_def checked_add_u64_def usize_max_def unat_of_nat_u64
      simp del: of_nat_Suc of_nat_add)

lemma tree_inv_meta:
  assumes inv: "tree_inv s t own frees rows" and hw: "o_high s \<noteq> NULL_PAGE_ID"
  shows "o_root s \<noteq> NULL_PAGE_ID" "o_free s \<noteq> Some NULL_PAGE_ID" "FIRST_DATA_PAGE \<le> o_root s" "o_root s \<le> o_high s"
    "\<forall>q. o_free s = Some q \<longrightarrow> FIRST_DATA_PAGE \<le> q \<and> q \<le> o_high s"
proof -
  let ?used = "bt_pages t @ owned own (bt_entries t)"
  have ok: "pages_ok s ?used frees" and root: "o_root s = bt_id t" using inv by (simp_all add: tree_inv_def tree_at_def)
  show r: "FIRST_DATA_PAGE \<le> o_root s" "o_root s \<le> o_high s"
    using pages_ok_range [OF ok, of "o_root s"] bt_id_pages [of t] root by simp_all
  have "free_list (o_mem s) (o_free s) frees" "set frees \<subseteq> {FIRST_DATA_PAGE..o_high s}"
    using ok by (simp_all only: pages_ok_def set_append) blast
  then show f: "\<forall>q. o_free s = Some q \<longrightarrow> FIRST_DATA_PAGE \<le> q \<and> q \<le> o_high s" by (cases frees) auto
  show "o_root s \<noteq> NULL_PAGE_ID" "o_free s \<noteq> Some NULL_PAGE_ID" using below_null [OF _ hw] r f by blast+
qed

text \<open>The dirty pages of a consistent overlay, restamped and encoded.\<close>

lemma dirty_images:
  assumes inv: "tree_inv s t own frees rows" and hw: "o_high s \<noteq> NULL_PAGE_ID"
    and pages: "om_wf pages" "sorted_wrt (<) (o_dirty s)" "\<forall>q \<in> set (o_dirty s). om_get pages q \<noteq> None"
    and mem: "\<forall>q d. om_get pages q = Some d \<longrightarrow> o_mem s q = Some d"
  shows "\<exists>pages' cp cd. restamp_dirty (o_dirty s) p c pages = Inr pages' \<and> encode_dirty crc (o_dirty s) pages' = Inr (cp, cd) \<and>
    om_wf pages' \<and>
    (\<forall>q. om_get pages' q = (if q \<in> set (o_dirty s) then map_option (\<lambda>d. restamp d p c) (o_mem s q) else om_get pages q)) \<and>
    (\<forall>pr. pr_changed_pages pr = cp \<longrightarrow> pr_changed_decoded pr = cd \<longrightarrow> commits_pages crc s p c pr)"
proof -
  have dirty: "set (o_dirty s) \<subseteq> {FIRST_DATA_PAGE..o_high s}" using inv by (simp add: tree_inv_def pages_ok_def)
  have get: "om_get pages q = o_mem s q" if "q \<in> set (o_dirty s)" for q using pages(3) mem that by fastforce
  have "distinct (o_dirty s)" using pages(2) by (simp add: strict_sorted_iff)
  from restamp_dirty_run [OF pages(1) this pages(3)] obtain pages' where p': "restamp_dirty (o_dirty s) p c pages = Inr pages'"
    "om_wf pages'" "\<And>q. om_get pages' q = (if q \<in> set (o_dirty s) then map_option (\<lambda>d. restamp d p c) (om_get pages q) else om_get pages q)"
    by blast
  have "\<forall>q \<in> set (o_dirty s). \<exists>d. om_get pages' q = Some d \<and> storable d"
  proof
    fix q assume q: "q \<in> set (o_dirty s)"
    then obtain d where "o_mem s q = Some d" "storable d" using tree_inv_storable [OF inv hw, of q] dirty by fastforce
    then show "\<exists>d. om_get pages' q = Some d \<and> storable d" using p'(3) q get storable_restamp by auto
  qed
  from encode_dirty_run [OF pages(2) this, of crc] obtain cp cd where e: "encode_dirty crc (o_dirty s) pages' = Inr (cp, cd)"
    "om_wf cp" "om_wf cd" "map fst cp = o_dirty s" "\<And>q. om_get cd q = (if q \<in> set (o_dirty s) then om_get pages' q else None)"
    "\<forall>(q, bs) \<in> set cp. \<exists>d. om_get pages' q = Some d \<and> pd_encode crc d q = Inr bs \<and> pd_wf d" by blast
  have "\<exists>d. o_mem s q = Some d \<and> pd_encode crc (restamp d p c) q = Inr bs \<and> pd_wf (restamp d p c)" if m: "(q, bs) \<in> set cp" for q bs
  proof -
    have "q \<in> set (o_dirty s)" using m e(4) by (metis fst_conv image_eqI list.set_map)
    moreover obtain d where "om_get pages' q = Some d" "pd_encode crc d q = Inr bs" "pd_wf d" using m e(6) by blast
    ultimately show ?thesis using p'(3) [of q] get by auto
  qed
  then have "\<forall>pr. pr_changed_pages pr = cp \<longrightarrow> pr_changed_decoded pr = cd \<longrightarrow> commits_pages crc s p c pr"
    using e(2-5) p'(3) get by (auto simp: commits_pages_def)
  then show ?thesis using p' e(1) get by (intro exI [of _ pages'] exI [of _ cp] exI [of _ cd]) auto
qed

context reliable_file
begin

lemma holds_same_store:
  assumes "holds env st0 s ov"
  obtains f c m where "ov_store ov = st0\<lparr>bs_file := f, bs_cache := c, bs_storage_metrics := m\<rparr>" "healthy f"
    "view f = view (bs_file st0)" "stable f = stable (bs_file st0)" "cache_coherent (store_base env st0) c"
  using assms unfolding holds_def same_store_def by blast

lemma holds_pages:
  assumes h: "holds env st0 s ov"
  shows "om_wf (ov_pages ov)" "sorted_wrt (<) (o_dirty s)" "\<forall>q \<in> set (o_dirty s). om_get (ov_pages ov) q \<noteq> None"
    "\<forall>q d. om_get (ov_pages ov) q = Some d \<longrightarrow> o_mem s q = Some d"
    "\<forall>q d. om_get (ov_read_pages ov) q = Some d \<longrightarrow> o_clean s q = Some d" "om_wf (ov_read_pages ov)"
    "\<forall>q. q \<notin> set (o_dirty s) \<longrightarrow> o_mem s q = o_clean s q"
proof -
  have "pages_coherent (store_base env st0) s ov" using h by (simp add: holds_def)
  then show "om_wf (ov_pages ov)" "sorted_wrt (<) (o_dirty s)" "\<forall>q \<in> set (o_dirty s). om_get (ov_pages ov) q \<noteq> None"
    "\<forall>q d. om_get (ov_read_pages ov) q = Some d \<longrightarrow> o_clean s q = Some d" "om_wf (ov_read_pages ov)"
    "\<forall>q. q \<notin> set (o_dirty s) \<longrightarrow> o_mem s q = o_clean s q"
    using holds_fields(4) [OF h] by (simp_all add: pages_coherent_def)
  show "\<forall>q d. om_get (ov_pages ov) q = Some d \<longrightarrow> o_mem s q = Some d"
    unfolding holds_fields(11) [OF h, symmetric] by (simp add: ov_mem_def)
qed

lemma finish_run:
  assumes h: "holds env st0 s ov" and last: "o_last s = Some p" and inv: "tree_inv s t own frees rows"
    and hw: "o_high s \<noteq> NULL_PAGE_ID" and wal: "bs_wal st0 \<noteq> None" and sb: "superblock_ok (o_superblock s)" and room: "commit_room s"
    and same: "o_superblock s = bs_current_superblock st0" "o_slot s = bs_active_slot st0" "o_next_lsn s = bs_next_lsn st0"
      "o_next_batch s = bs_next_batch_id st0"
  shows "\<exists>pr img. finish env ov rs = Inr pr \<and> pr_responses pr = restamp_responses rs p (commit_of s) \<and>
    commits_pages (crc32c env) s p (commit_of s) pr \<and> commits_meta (crc32c env) s (commit_of s) img pr \<and>
    pr_read_pages pr = ov_read_pages ov"
proof -
  note f = holds_fields [OF h]
  obtain fl c m where st: "ov_store ov = st0\<lparr>bs_file := fl, bs_cache := c, bs_storage_metrics := m\<rparr>" using holds_same_store [OF h] by metis
  obtain pages' cp cd where d: "restamp_dirty (o_dirty s) p (commit_of s) (ov_pages ov) = Inr pages'"
    "encode_dirty (crc32c env) (o_dirty s) pages' = Inr (cp, cd)"
    "\<And>pr. pr_changed_pages pr = cp \<Longrightarrow> pr_changed_decoded pr = cd \<Longrightarrow> commits_pages (crc32c env) s p (commit_of s) pr"
    using dirty_images [OF inv hw holds_pages(1-4) [OF h], of p "commit_of s" "crc32c env"] by metis
  note meta = tree_inv_meta [OF inv hw]
  have gen: "unat (sb_generation (o_superblock s)) + 1 < 2 ^ 64" using room by (simp add: commit_room_def)
  obtain r img where r: "next_superblock (crc32c env) (o_superblock s) (o_root s) (o_free s) (o_high s) = Inr r"
    "superblock_ok r \<and> encode_superblock (crc32c env) r = Inr img \<and> decode_superblock (crc32c env) img = Inr r \<and> length img = PAGE_SIZE \<and>
     sb_generation r = sb_generation (o_superblock s) + 1 \<and> sb_root_page_id r = Some (o_root s) \<and> sb_free_list_head r = o_free s \<and>
     sb_high_water_page_id r = Some (o_high s) \<and> sb_checkpoint_lsn r = sb_checkpoint_lsn (o_superblock s) \<and>
     sb_database_uuid r = sb_database_uuid (o_superblock s) \<and> sb_tenant_id r = sb_tenant_id (o_superblock s) \<and>
     sb_shard_id r = sb_shard_id (o_superblock s) \<and> sb_shard_epoch r = sb_shard_epoch (o_superblock s)"
    using next_superblock_run [OF sb gen meta(1,2) hw, of "crc32c env"] by metis
  note sum = commit_of_sum [OF room]
  let ?pr = "\<lparr>pr_responses = restamp_responses rs p (commit_of s), pr_changed_pages = cp, pr_changed_decoded = cd,
     pr_read_pages = ov_read_pages ov, pr_new_superblock = r, pr_new_slot = other_slot (o_slot s),
     pr_base_generation = sb_generation (o_superblock s), pr_next_revision = commit_of s + 1, pr_root_page_id = o_root s,
     pr_free_list_head = o_free s, pr_high_water_page_id = o_high s, pr_commit_lsn = Some (commit_of s), pr_batch_id = o_next_batch s\<rparr>"
  have "finish env ov rs = Inr ?pr"
    using wal sum same d(1,2) r(1) last by (simp add: finish_def st f Let_def)
  moreover have "commits_meta (crc32c env) s (commit_of s) img ?pr" using r(2) by (simp add: commits_meta_def)
  ultimately show ?thesis using d(3) [of ?pr] by (intro exI [of _ ?pr] exI [of _ img]) simp
qed

end

end
