(* ===== verification/Dodb_Checker.thy ===== *)
theory Dodb_Checker
  imports Dodb_Btree
begin

text \<open>
  The invariant checker of \<open>dodb-storage/src/btree/checker.rs\<close>, which runs when a database is
  opened and at every checkpoint: it walks the tree from the root, the leaf chain and the
  free list in the data file. The recursion over the tree terminates because every page is
  visited at most once.
\<close>

section \<open>State\<close>

record invariant_report =
  ir_reachable_pages :: nat
  ir_free_pages :: nat
  ir_leaked_pages :: "page_id list"
  ir_max_revision :: revision

type_synonym key_bounds = "bytes option \<times> bytes option"

record tree_check_state =
  tc_reachable :: "page_id set"
  tc_keys :: "bytes set"
  tc_leaves :: "page_id list"
  tc_max_revision :: revision

definition tree_check_state_default :: tree_check_state where
  "tree_check_state_default = \<lparr>tc_reachable = {}, tc_keys = {}, tc_leaves = [], tc_max_revision = 0\<rparr>"

section \<open>Pages and overflow chains\<close>

definition checker_read_page :: "'f file_ops \<Rightarrow> crc_fun \<Rightarrow> page_id \<Rightarrow> page_id \<Rightarrow> ('f, error, page_data) sop" where
  "checker_read_page ops crc high_water pid =
     sbind (sres (check_page_id high_water pid)) (\<lambda>_.
     sbind (read_exact_at ops (page_offset pid) PAGE_SIZE) (\<lambda>bs.
     sres (rbind (decode_page_at crc bs (Some pid)) pd_decode)))"

function check_chain :: "'f file_ops \<Rightarrow> crc_fun \<Rightarrow> page_id \<Rightarrow> u64 \<Rightarrow> page_id option \<Rightarrow> page_id set \<Rightarrow> u64 \<Rightarrow> nat \<Rightarrow>
    page_id set \<Rightarrow> 'f \<Rightarrow> (error + u64) \<times> page_id set \<times> 'f" where
  "check_chain ops crc high_water len None visited total_len count reachable f = (Inr total_len, reachable, f)"
| "check_chain ops crc high_water len (Some current) visited total_len count reachable f =
     (if count \<ge> MAX_OVERFLOW_PAGES \<or> current \<in> visited then (Inl Corruption, reachable, f)
      else if current \<in> reachable then (Inl Corruption, reachable, f)
      else
        (case checker_read_page ops crc high_water current f of
           (Inl e, f') \<Rightarrow> (Inl e, insert current reachable, f')
         | (Inr (OverflowData l next total_length chunk), f') \<Rightarrow>
             if total_length \<noteq> len then (Inl Corruption, insert current reachable, f')
             else
               (case checked_add_u64 total_len (of_nat (length chunk)) of
                  None \<Rightarrow> (Inl Corruption, insert current reachable, f')
                | Some total' \<Rightarrow>
                    check_chain ops crc high_water len next (insert current visited) total' (count + 1)
                      (insert current reachable) f')
         | (Inr _, f') \<Rightarrow> (Inl Corruption, insert current reachable, f')))"
  by pat_completeness auto
termination
  by (relation "measure (\<lambda>(ops, crc, hw, len, p, visited, t, c, r, f). card (- visited))")
    (auto simp: visited_grows simp del: Compl_insert)

declare check_chain.simps [simp del]

definition check_overflow :: "'f file_ops \<Rightarrow> crc_fun \<Rightarrow> page_id \<Rightarrow> page_id \<Rightarrow> u64 \<Rightarrow>
    ('f \<times> tree_check_state, error, unit) sop" where
  "check_overflow ops crc high_water head len = (\<lambda>(f, st).
     if len = 0 \<or> len > of_nat MAX_VALUE_SIZE then (Inl Corruption, (f, st))
     else
       (case check_chain ops crc high_water len (Some head) {} 0 0 (tc_reachable st) f of
          (r, reachable, f') \<Rightarrow>
            (rbind r (\<lambda>total_len. ensure (total_len = len) Corruption), (f', st\<lparr>tc_reachable := reachable\<rparr>))))"

section \<open>The tree\<close>

definition check_entry :: "'f file_ops \<Rightarrow> crc_fun \<Rightarrow> page_id \<Rightarrow> bytes option \<Rightarrow> bytes option \<Rightarrow> leaf_entry \<Rightarrow>
    ('f \<times> tree_check_state, error, unit) sop" where
  "check_entry ops crc high_water lower upper entry =
     sbind (sres (ensure (\<not> ((case lower of None \<Rightarrow> False | Some bound \<Rightarrow> le_key entry < bound)
              \<or> (case upper of None \<Rightarrow> False | Some bound \<Rightarrow> le_key entry \<ge> bound))) Corruption)) (\<lambda>_.
     sbind (sres (ensure (\<not> le_revision entry = 0) Corruption)) (\<lambda>_.
     sbind (sget (\<lambda>(f, st). ensure (\<not> le_key entry \<in> tc_keys st) Corruption)) (\<lambda>_.
     sbind (smod (\<lambda>(f, st). (f, st\<lparr>tc_keys := insert (le_key entry) (tc_keys st),
                                  tc_max_revision := max (tc_max_revision st) (le_revision entry)\<rparr>))) (\<lambda>_.
     case le_value entry of
       None \<Rightarrow> sret ()
     | Some (Inline v) \<Rightarrow> sres (ensure (\<not> length v > INLINE_VALUE_LIMIT) Corruption)
     | Some (Overflow head len) \<Rightarrow> check_overflow ops crc high_water head len))))"

fun check_entries :: "'f file_ops \<Rightarrow> crc_fun \<Rightarrow> page_id \<Rightarrow> bytes option \<Rightarrow> bytes option \<Rightarrow> leaf_entry list \<Rightarrow>
    key_bounds \<Rightarrow> ('f \<times> tree_check_state, error, key_bounds) sop" where
  "check_entries ops crc high_water lower upper [] bounds = sret bounds"
| "check_entries ops crc high_water lower upper (entry # entries) (low, high) =
     sbind (check_entry ops crc high_water lower upper entry) (\<lambda>_.
     check_entries ops crc high_water lower upper entries
       ((case low of None \<Rightarrow> Some (le_key entry) | Some k \<Rightarrow> Some k), Some (le_key entry)))"

fun inner_bounds :: "internal_entry list \<Rightarrow> key_bounds list" where
  "inner_bounds (a # b # es) = (Some (ie_key a), Some (ie_key b)) # inner_bounds (b # es)"
| "inner_bounds _ = []"

definition child_bounds :: "bytes option \<Rightarrow> bytes option \<Rightarrow> internal_entry list \<Rightarrow> key_bounds list" where
  "child_bounds lower upper entries =
     (lower, Some (ie_key (hd entries))) # inner_bounds entries @ [(Some (ie_key (last entries)), upper)]"

definition children :: "page_id \<Rightarrow> internal_entry list \<Rightarrow> page_id list" where
  "children leftmost entries = leftmost # map ie_right_child entries"

fun separators_ok :: "internal_entry list \<Rightarrow> key_bounds list \<Rightarrow> bool" where
  "separators_ok (e # es) (b # b' # bs) =
     (\<not> (case snd b of None \<Rightarrow> False | Some left_max \<Rightarrow> left_max \<ge> ie_key e) \<and>
      \<not> (case fst b' of None \<Rightarrow> False | Some right_min \<Rightarrow> right_min < ie_key e) \<and>
      separators_ok es (b' # bs))"
| "separators_ok _ _ = True"

definition find_map :: "('a \<Rightarrow> 'b option) \<Rightarrow> 'a list \<Rightarrow> 'b option" where
  "find_map g xs = (case dropWhile (\<lambda>x. g x = None) xs of [] \<Rightarrow> None | x # _ \<Rightarrow> g x)"

definition visit_leaf :: "'f file_ops \<Rightarrow> crc_fun \<Rightarrow> page_id \<Rightarrow> page_id \<Rightarrow> bytes option \<Rightarrow> bytes option \<Rightarrow>
    leaf_entry list \<Rightarrow> ('f \<times> tree_check_state, error, key_bounds) sop" where
  "visit_leaf ops crc high_water pid lower upper entries =
     sbind (check_entries ops crc high_water lower upper entries (None, None)) (\<lambda>bounds.
     sbind (smod (\<lambda>(f, st). (f, st\<lparr>tc_leaves := tc_leaves st @ [pid]\<rparr>))) (\<lambda>_.
     sret bounds))"

definition join_bounds :: "internal_entry list \<Rightarrow> key_bounds list \<Rightarrow> error + key_bounds" where
  "join_bounds entries bounds =
     rbind (ensure (separators_ok entries bounds) Corruption) (\<lambda>_.
     Inr (find_map fst bounds, find_map snd (rev bounds)))"

text \<open>Checking a leaf never forgets a visited page; so neither does the recursion over the tree,
  which therefore terminates.\<close>

definition seen :: "'f \<times> tree_check_state \<Rightarrow> page_id set" where
  "seen s = tc_reachable (snd s)"

lemma seen_pair [simp]: "seen (f, st) = tc_reachable st"
  by (simp add: seen_def)

lemma check_chain_grows:
  "check_chain ops crc hw len p visited t c reachable f = (r, reachable', f') \<Longrightarrow> reachable \<subseteq> reachable'"
proof (induction ops crc hw len p visited t c reachable f rule: check_chain.induct)
  case (2 ops crc hw len current visited t c reachable f)
  then show ?case
    by (auto simp: check_chain.simps(2) split: if_splits prod.splits sum.splits page_data.splits option.splits)
qed (simp add: check_chain.simps)

lemma check_overflow_grows: "check_overflow ops crc hw head len s = (r, s') \<Longrightarrow> seen s \<subseteq> seen s'"
  by (fastforce simp: check_overflow_def seen_def split: prod.splits if_splits dest: check_chain_grows)

definition grows :: "('f \<times> tree_check_state, error, 'a) sop \<Rightarrow> bool" where
  "grows m \<longleftrightarrow> (\<forall>s r s'. m s = (r, s') \<longrightarrow> seen s \<subseteq> seen s')"

lemma grows_basic [simp]: "grows (sret x)" "grows (sfail e)" "grows (sres v)" "grows (sget g)"
  by (simp_all add: grows_def)

lemma grows_bind: "grows m \<Longrightarrow> (\<And>x. grows (k x)) \<Longrightarrow> grows (sbind m k)"
  by (fastforce simp: grows_def sbind_def split: prod.splits sum.splits)

lemma grows_mod: "(\<And>s. seen s \<subseteq> seen (g s)) \<Longrightarrow> grows (smod g)"
  unfolding grows_def smod_def by (metis prod.inject)

lemma grows_overflow: "grows (check_overflow ops crc hw head len)"
  by (simp add: grows_def check_overflow_grows)

lemma check_entry_grows: "grows (check_entry ops crc hw lower upper entry)"
  unfolding check_entry_def
  by (intro grows_bind) (auto simp: grows_overflow intro!: grows_mod split: option.splits value_ref.splits)

lemma check_entries_grows: "grows (check_entries ops crc hw lower upper entries bounds)"
proof (induction ops crc hw lower upper entries bounds rule: check_entries.induct)
  case (1 ops crc hw lower upper bounds)
  then show ?case unfolding check_entries.simps by (rule grows_basic)
next
  case (2 ops crc hw lower upper entry entries low high)
  then show ?case unfolding check_entries.simps by (intro grows_bind check_entry_grows)
qed

lemma visit_leaf_grows: "seen s \<subseteq> seen (snd (visit_leaf ops crc hw pid lower upper entries s))"
proof -
  have "grows (visit_leaf ops crc hw pid lower upper entries)"
    unfolding visit_leaf_def by (intro grows_bind check_entries_grows grows_basic) (auto intro!: grows_mod)
  then show ?thesis unfolding grows_def by (metis prod.collapse)
qed

function (sequential) visit_tree :: "'f file_ops \<Rightarrow> crc_fun \<Rightarrow> page_id \<Rightarrow> page_id \<Rightarrow> bytes option \<Rightarrow> bytes option \<Rightarrow>
      ('f \<times> tree_check_state, error, key_bounds) sop"
  and visit_children :: "'f file_ops \<Rightarrow> crc_fun \<Rightarrow> page_id \<Rightarrow> (page_id \<times> key_bounds) list \<Rightarrow>
      ('f \<times> tree_check_state, error, key_bounds list) sop" where
  "visit_tree ops crc high_water pid lower upper (f, st) =
     (if pid \<in> tc_reachable st then (Inl Corruption, (f, st))
      else
        (let st1 = st\<lparr>tc_reachable := insert pid (tc_reachable st)\<rparr> in
         case checker_read_page ops crc high_water pid f of
           (Inl e, f') \<Rightarrow> (Inl e, (f', st1))
         | (Inr (LeafData l next entries), f') \<Rightarrow> visit_leaf ops crc high_water pid lower upper entries (f', st1)
         | (Inr (InternalData l leftmost entries), f') \<Rightarrow>
             if entries = [] then (Inl Corruption, (f', st1))
             else
               (case visit_children ops crc high_water
                       (zip (children leftmost entries) (child_bounds lower upper entries)) (f', st1) of
                  (Inl e, s) \<Rightarrow> (Inl e, s)
                | (Inr bounds, s) \<Rightarrow> (join_bounds entries bounds, s))
         | (Inr _, f') \<Rightarrow> (Inl Corruption, (f', st1))))"
| "visit_children ops crc high_water [] s = (Inr [], s)"
| "visit_children ops crc high_water ((child, lower, upper) # rest) s =
     (case visit_tree ops crc high_water child lower upper s of
        (Inl e, s') \<Rightarrow> (Inl e, s')
      | (Inr b, s') \<Rightarrow>
          (case visit_children ops crc high_water rest s' of
             (Inl e, s'') \<Rightarrow> (Inl e, s'')
           | (Inr bs, s'') \<Rightarrow> (Inr (b # bs), s'')))"
  by pat_completeness auto
termination
proof (relation "measures [\<lambda>x. case x of Inl (ops, crc, hw, pid, lower, upper, s) \<Rightarrow> card (- seen s)
      | Inr (ops, crc, hw, cs, s) \<Rightarrow> card (- seen s),
    \<lambda>x. case x of Inl _ \<Rightarrow> 0 | Inr (ops, crc, hw, cs, s) \<Rightarrow> Suc (length cs)]", goal_cases)
  case (2 ops crc hw pid lower upper f st)
  then show ?case using visited_grows by simp
next
  case (4 ops crc hw child lower upper rest s r s' b)
  have tree: "visit_tree_visit_children_dom (Inl (ops, crc, hw, pid, lower, upper, s)) \<Longrightarrow>
      seen s \<subseteq> seen (snd (visit_tree ops crc hw pid lower upper s))"
    and "visit_tree_visit_children_dom (Inr (ops, crc, hw, cs, s)) \<Longrightarrow>
      seen s \<subseteq> seen (snd (visit_children ops crc hw cs s))" for ops :: "'a file_ops" and crc hw pid lower upper s cs
  proof (induction ops crc hw pid lower upper s and ops crc hw cs s rule: visit_tree_visit_children.pinduct)
    case (1 ops crc hw pid lower upper f st)
    let ?st = "st\<lparr>tc_reachable := insert pid (tc_reachable st)\<rparr>"
    note step = visit_tree.psimps [OF 1(1)]
    show ?case
    proof (cases "pid \<in> tc_reachable st")
      case True
      then show ?thesis unfolding step by simp
    next
      case False
      obtain r f' where r: "checker_read_page ops crc hw pid f = (r, f')" by force
      have sub: "tc_reachable st \<subseteq> seen (f', ?st)" by auto
      consider (leaf) l n es where "r = Inr (LeafData l n es)"
        | (node) l c es where "r = Inr (InternalData l c es)" "es \<noteq> []"
        | (bad) "\<nexists>l n es. r = Inr (LeafData l n es)" "\<nexists>l c es. r = Inr (InternalData l c es) \<and> es \<noteq> []"
        by blast
      then show ?thesis
      proof cases
        case leaf
        with False r sub visit_leaf_grows [of "(f', ?st)"] show ?thesis unfolding step by (fastforce simp: Let_def)
      next
        case node
        have "seen (f', ?st) \<subseteq> seen (snd (visit_children ops crc hw (zip (children c es) (child_bounds lower upper es)) (f', ?st)))"
          by (rule 1(2) [OF False refl r [symmetric] node(1) refl node(2)])
        with False r sub node show ?thesis unfolding step by (auto simp: Let_def split: prod.splits sum.splits)
      next
        case bad
        with False r sub show ?thesis unfolding step
          by (auto simp: Let_def split: sum.splits page_data.splits)
      qed
    qed
  next
    case (2 ops crc hw s)
    then show ?case by (simp add: visit_children.psimps)
  next
    case (3 ops crc hw child lower upper rest s)
    note step = visit_children.psimps(2) [OF 3(1)]
    obtain r s' where r: "visit_tree ops crc hw child lower upper s = (r, s')" by (metis surj_pair)
    show ?case
    proof (cases r)
      case (Inl e)
      then show ?thesis using 3(2) r unfolding step by simp
    next
      case (Inr b)
      have "seen s \<subseteq> seen s'" using 3(2) r by simp
      also have "\<dots> \<subseteq> seen (snd (visit_children ops crc hw rest s'))" by (rule 3(3) [OF r [symmetric] Inr])
      finally show ?thesis using r Inr unfolding step by (auto split: prod.splits sum.splits)
    qed
  qed
  have "seen s \<subseteq> seen s'" using tree [OF 4(3)] 4 by (metis snd_conv)
  then have "card (- seen s') \<le> card (- seen s)" by (intro card_mono) auto
  then show ?case by auto
qed auto

declare visit_tree.simps [simp del]

section \<open>The leaf chain and the free list\<close>

function checker_leftmost_leaf :: "'f file_ops \<Rightarrow> crc_fun \<Rightarrow> page_id \<Rightarrow> page_id \<Rightarrow> page_id set \<Rightarrow> ('f, error, page_id) sop" where
  "checker_leftmost_leaf ops crc high_water root visited f =
     (if root \<in> visited then (Inl Corruption, f)
      else
        (case checker_read_page ops crc high_water root f of
           (Inl e, f') \<Rightarrow> (Inl e, f')
         | (Inr (LeafData l next entries), f') \<Rightarrow> (Inr root, f')
         | (Inr (InternalData l leftmost entries), f') \<Rightarrow>
             checker_leftmost_leaf ops crc high_water leftmost (insert root visited) f'
         | (Inr _, f') \<Rightarrow> (Inl Corruption, f')))"
  by pat_completeness auto
termination
  by (relation "measure (\<lambda>(ops, crc, hw, root, visited, f). card (- visited))")
    (auto simp: visited_grows simp del: Compl_insert)

fun chain_keys :: "bytes option \<Rightarrow> leaf_entry list \<Rightarrow> error + bytes option" where
  "chain_keys previous [] = Inr previous"
| "chain_keys previous (entry # entries) =
     (if (case previous of None \<Rightarrow> False | Some p \<Rightarrow> p \<ge> le_key entry) then Inl Corruption
      else chain_keys (Some (le_key entry)) entries)"

function leaf_chain_loop :: "'f file_ops \<Rightarrow> crc_fun \<Rightarrow> page_id \<Rightarrow> page_id set \<Rightarrow> page_id option \<Rightarrow> page_id set \<Rightarrow>
    bytes option \<Rightarrow> page_id list \<Rightarrow> ('f, error, page_id list) sop" where
  "leaf_chain_loop ops crc high_water reachable None visited previous chain f = (Inr chain, f)"
| "leaf_chain_loop ops crc high_water reachable (Some pid) visited previous chain f =
     (if pid \<in> visited then (Inl Corruption, f)
      else if pid \<notin> reachable then (Inl Corruption, f)
      else
        (case checker_read_page ops crc high_water pid f of
           (Inl e, f') \<Rightarrow> (Inl e, f')
         | (Inr (LeafData l next_leaf entries), f') \<Rightarrow>
             (case chain_keys previous entries of
                Inl e \<Rightarrow> (Inl e, f')
              | Inr previous' \<Rightarrow>
                  leaf_chain_loop ops crc high_water reachable next_leaf (insert pid visited) previous' (chain @ [pid]) f')
         | (Inr _, f') \<Rightarrow> (Inl Corruption, f')))"
  by pat_completeness auto
termination
  by (relation "measure (\<lambda>(ops, crc, hw, reachable, p, visited, previous, chain, f). card (- visited))")
    (auto simp: visited_grows simp del: Compl_insert)

definition check_leaf_chain :: "'f file_ops \<Rightarrow> crc_fun \<Rightarrow> page_id \<Rightarrow> page_id list \<Rightarrow> page_id \<Rightarrow> page_id set \<Rightarrow>
    ('f, error, unit) sop" where
  "check_leaf_chain ops crc high_water tree_leaves leftmost reachable =
     sbind (leaf_chain_loop ops crc high_water reachable (Some leftmost) {} None []) (\<lambda>chain.
     sres (ensure (chain = tree_leaves) Corruption))"

function free_list_loop :: "'f file_ops \<Rightarrow> crc_fun \<Rightarrow> page_id \<Rightarrow> page_id set \<Rightarrow> page_id option \<Rightarrow> page_id set \<Rightarrow>
    ('f, error, page_id set) sop" where
  "free_list_loop ops crc high_water reachable None free_pages f = (Inr free_pages, f)"
| "free_list_loop ops crc high_water reachable (Some pid) free_pages f =
     (case check_page_id high_water pid of
        Inl e \<Rightarrow> (Inl e, f)
      | Inr _ \<Rightarrow>
          if pid \<in> free_pages then (Inl Corruption, f)
          else if pid \<in> reachable then (Inl Corruption, f)
          else
            (case checker_read_page ops crc high_water pid f of
               (Inl e, f') \<Rightarrow> (Inl e, f')
             | (Inr (FreeData l next), f') \<Rightarrow>
                 free_list_loop ops crc high_water reachable next (insert pid free_pages) f'
             | (Inr _, f') \<Rightarrow> (Inl Corruption, f')))"
  by pat_completeness auto
termination
  by (relation "measure (\<lambda>(ops, crc, hw, reachable, p, free_pages, f). card (- free_pages))")
    (auto simp: visited_grows simp del: Compl_insert)

declare checker_leftmost_leaf.simps [simp del] leaf_chain_loop.simps [simp del] free_list_loop.simps [simp del]

section \<open>The whole check\<close>

definition page_range :: "page_id \<Rightarrow> page_id list" where
  "page_range high_water = map of_nat [unat FIRST_DATA_PAGE..<unat high_water + 1]"

definition check :: "'f file_ops \<Rightarrow> crc_fun \<Rightarrow> page_id \<Rightarrow> page_id option \<Rightarrow> page_id \<Rightarrow> ('f, error, invariant_report) sop" where
  "check ops crc root free_head high_water f =
     (case visit_tree ops crc high_water root None None (f, tree_check_state_default) of
        (Inl e, (f', _)) \<Rightarrow> (Inl e, f')
      | (Inr _, (f', st)) \<Rightarrow>
          sbind (checker_leftmost_leaf ops crc high_water root {}) (\<lambda>leftmost.
          sbind (check_leaf_chain ops crc high_water (tc_leaves st) leftmost (tc_reachable st)) (\<lambda>_.
          sbind (free_list_loop ops crc high_water (tc_reachable st) free_head {}) (\<lambda>free_pages.
          sret \<lparr>ir_reachable_pages = card (tc_reachable st), ir_free_pages = card free_pages,
                ir_leaked_pages = filter (\<lambda>pid. pid \<notin> tc_reachable st \<and> pid \<notin> free_pages) (page_range high_water),
                ir_max_revision = tc_max_revision st\<rparr>))) f')"

end
