(* ===== verification/Dodb_Store.thy ===== *)
theory Dodb_Store
  imports Dodb_Checker
begin

text \<open>
  The store operations of \<open>dodb-storage/src/btree/mod.rs\<close> around the overlay: batches and
  transaction groups, publication through the log, flushing, checkpoints, the invariant
  check, initialization, recovery and opening. \<open>or_broken\<close> is the pattern that records the
  error of an uncertain persistence step in \<open>broken\<close> before it is returned.
\<close>

section \<open>Lifting\<close>

definition or_broken :: "(error \<Rightarrow> error) \<Rightarrow> (('f, 'w, 'i) btree_store, error, 'a) sop \<Rightarrow>
    (('f, 'w, 'i) btree_store, error, 'a) sop" where
  "or_broken g m st =
     (case m st of
        (Inl e, st') \<Rightarrow> (Inl (g e), st'\<lparr>bs_broken := Some e\<rparr>)
      | (Inr x, st') \<Rightarrow> (Inr x, st'))"

definition store_hit :: "('f, 'w, 'i) env \<Rightarrow> string \<Rightarrow> (('f, 'w, 'i) btree_store, error, unit) sop" where
  "store_hit env point st =
     (case hit_fault (fault_hit env) point (bs_fault_injector st) of (r, i) \<Rightarrow> (r, st\<lparr>bs_fault_injector := i\<rparr>))"

definition on_wal :: "('w wal_log \<times> 'i option, error, 'a) sop \<Rightarrow> 'w wal_log \<Rightarrow> (('f, 'w, 'i) btree_store, error, 'a) sop" where
  "on_wal m w st =
     (case m (w, bs_fault_injector st) of (r, (w', i)) \<Rightarrow> (r, st\<lparr>bs_wal := Some w', bs_fault_injector := i\<rparr>))"

definition data_len :: "('f, 'w, 'i) env \<Rightarrow> (('f, 'w, 'i) btree_store, error, nat) sop" where
  "data_len env = sget (\<lambda>st. file_len (data_ops env) (bs_file st))"

definition with_overlay :: "(('f, 'w, 'i) overlay, error, 'a) sop \<Rightarrow> (('f, 'w, 'i) btree_store, error, 'a) sop" where
  "with_overlay m st = (case m (overlay_new st) of (r, ov) \<Rightarrow> (r, ov_store ov))"

definition not_broken :: "error \<Rightarrow> (('f, 'w, 'i) btree_store, error, unit) sop" where
  "not_broken e = sget (\<lambda>st. ensure (bs_broken st = None) e)"

definition degraded_reason :: "('f, 'w, 'i) btree_store \<Rightarrow> error option" where
  "degraded_reason st = bs_broken st"

definition enable_published_page_tracking :: "('f, 'w, 'i) btree_store \<Rightarrow> ('f, 'w, 'i) btree_store" where
  "enable_published_page_tracking st = st\<lparr>bs_track_published_pages := True\<rparr>"

definition take_published_page_updates :: "('f, 'w, 'i) btree_store \<Rightarrow>
    (page_id, page_data) ordmap \<times> ('f, 'w, 'i) btree_store" where
  "take_published_page_updates st = (bs_published_page_updates st, st\<lparr>bs_published_page_updates := []\<rparr>)"

definition set_fault_injector :: "'i \<Rightarrow> ('f, 'w, 'i) btree_store \<Rightarrow> ('f, 'w, 'i) btree_store" where
  "set_fault_injector injector st = st\<lparr>bs_fault_injector := Some injector\<rparr>"

definition into_files :: "('f, 'w, 'i) btree_store \<Rightarrow> error + 'f \<times> 'w" where
  "into_files st = rbind (ok_or (bs_wal st) InvalidInput) (\<lambda>w. Inr (bs_file st, wl_file w))"

text \<open>\<open>(page_id + 1) * PAGE_SIZE\<close>, checked.\<close>

definition target_length :: "error \<Rightarrow> u64 \<Rightarrow> error + nat" where
  "target_length e pid =
     rbind (ok_or (checked_add_u64 pid 1) e) (\<lambda>count.
     rbind (ok_or (checked_mul_u64 count (of_nat PAGE_SIZE)) e) (\<lambda>len.
     Inr (unat len)))"

definition page_aligned :: "nat \<Rightarrow> bool" where
  "page_aligned len \<longleftrightarrow> \<not> (len < unat FIRST_DATA_PAGE * PAGE_SIZE \<or> len mod PAGE_SIZE \<noteq> 0)"

section \<open>Publication\<close>

fun contiguous :: "u64 \<Rightarrow> prepared_batch list \<Rightarrow> bool" where
  "contiguous expected [] = True"
| "contiguous expected (c # cs) =
     (if pr_base_generation c \<noteq> expected then False else contiguous (sb_generation (pr_new_superblock c)) cs)"

definition slot_page :: "superblock_slot \<Rightarrow> page_id" where
  "slot_page slot = (case slot of SlotA \<Rightarrow> 0 | SlotB \<Rightarrow> 1)"

text \<open>The encoded superblock of a candidate and, with a log, its commit.\<close>

definition prepare_commit :: "crc_fun \<Rightarrow> bool \<Rightarrow> prepared_batch \<Rightarrow> error + bytes \<times> wal_commit option" where
  "prepare_commit crc has_wal c =
     rbind (encode_superblock crc (pr_new_superblock c)) (\<lambda>superblock_bytes.
     if has_wal then
       rbind (ok_or (pr_commit_lsn c) InternalInvariantViolation) (\<lambda>commit.
       Inr (superblock_bytes,
            Some \<lparr>wc_batch_id = pr_batch_id c, wc_commit_lsn = commit,
                  wc_pages = map (\<lambda>(pid, image). \<lparr>wpi_page_id = pid, wpi_image = image\<rparr>) (pr_changed_pages c) @
                             [\<lparr>wpi_page_id = slot_page (pr_new_slot c), wpi_image = superblock_bytes\<rparr>]\<rparr>))
     else Inr (superblock_bytes, None))"

fun write_pages :: "'f file_ops \<Rightarrow> (page_id \<times> bytes) list \<Rightarrow> ('f, error, unit) sop" where
  "write_pages ops [] = sret ()"
| "write_pages ops ((pid, bs) # pages) = sbind (write_all_at ops (page_offset pid) bs) (\<lambda>_. write_pages ops pages)"

definition write_candidate :: "('f, 'w, 'i) env \<Rightarrow> prepared_batch \<Rightarrow> bytes \<Rightarrow> (('f, 'w, 'i) btree_store, error, unit) sop" where
  "write_candidate env c superblock_bytes =
     sbind (sres (target_length InvalidInput (pr_high_water_page_id c))) (\<lambda>target.
     sbind (data_len env) (\<lambda>len.
     sbind (if len < target then on_data (set_len (data_ops env) target) else sret ()) (\<lambda>_.
     sbind (on_data (write_pages (data_ops env) (pr_changed_pages c))) (\<lambda>_.
     sbind (on_data (write_all_at (data_ops env) (slot_offset (pr_new_slot c)) superblock_bytes)) (\<lambda>_.
     on_data (sync_data (data_ops env)))))))"

fun write_candidates :: "('f, 'w, 'i) env \<Rightarrow> (prepared_batch \<times> bytes) list \<Rightarrow> (('f, 'w, 'i) btree_store, error, unit) sop" where
  "write_candidates env [] = sret ()"
| "write_candidates env ((c, superblock_bytes) # cs) =
     sbind (write_candidate env c superblock_bytes) (\<lambda>_. write_candidates env cs)"

definition publish_candidate :: "('f, 'w, 'i) env \<Rightarrow> prepared_batch \<Rightarrow> bytes \<Rightarrow> (('f, 'w, 'i) btree_store, error, unit) sop" where
  "publish_candidate env c superblock_bytes =
     sbind (sres (decode_superblock (crc32c env) superblock_bytes)) (\<lambda>superblock.
     sbind (smod (\<lambda>st. st\<lparr>bs_current_superblock := superblock, bs_active_slot := pr_new_slot c,
              bs_root_page_id := pr_root_page_id c, bs_free_list_head := pr_free_list_head c,
              bs_high_water_page_id := pr_high_water_page_id c, bs_next_revision := pr_next_revision c\<rparr>)) (\<lambda>_.
     sbind (case pr_commit_lsn c of
              None \<Rightarrow> sret ()
            | Some commit \<Rightarrow>
                sbind (sres (ok_or (checked_add_u64 commit 1) InternalInvariantViolation)) (\<lambda>next_lsn.
                sbind (smod (\<lambda>st. st\<lparr>bs_next_lsn := next_lsn\<rparr>)) (\<lambda>_.
                sbind (sres (ok_or (checked_add_u64 (pr_batch_id c) 1) InternalInvariantViolation)) (\<lambda>next_batch_id.
                smod (\<lambda>st. st\<lparr>bs_next_batch_id := next_batch_id,
                  bs_dirty_pages := om_extend (bs_dirty_pages st) (pr_changed_pages c),
                  bs_dirty_superblock := Some superblock_bytes\<rparr>))))) (\<lambda>_.
     smod (\<lambda>st. st\<lparr>bs_cache := cache_insert_many (pr_changed_decoded c) (cache_insert_many (pr_read_pages c) (bs_cache st)),
        bs_published_page_updates :=
          (if bs_track_published_pages st then om_extend (bs_published_page_updates st) (pr_changed_decoded c)
           else bs_published_page_updates st)\<rparr>))))"

fun publish_candidates :: "('f, 'w, 'i) env \<Rightarrow> (prepared_batch \<times> bytes) list \<Rightarrow> (('f, 'w, 'i) btree_store, error, unit) sop" where
  "publish_candidates env [] = sret ()"
| "publish_candidates env ((c, superblock_bytes) # cs) =
     sbind (publish_candidate env c superblock_bytes) (\<lambda>_. publish_candidates env cs)"

definition persist_group :: "('f, 'w, 'i) env \<Rightarrow> prepared_batch list \<Rightarrow> (bytes \<times> wal_commit option) list \<Rightarrow>
    (('f, 'w, 'i) btree_store, error, unit) sop" where
  "persist_group env prepared encoded =
     sbind (sget (\<lambda>st. Inr (bs_wal st))) (\<lambda>wal.
     case wal of
       Some w \<Rightarrow>
         or_broken id (sbind (on_wal (append_group (wal_ops env) (crc32c env) (fault_hit env) (append_time env) (sync_time env)
                                        (List.map_filter snd encoded)) w) (\<lambda>_. sret ()))
     | None \<Rightarrow> write_candidates env (zip prepared (map fst encoded)))"

definition publish_prepared_group :: "('f, 'w, 'i) env \<Rightarrow> prepared_batch list \<Rightarrow> (('f, 'w, 'i) btree_store, error, unit) sop" where
  "publish_prepared_group env prepared =
     sbind (not_broken DurabilityFailure) (\<lambda>_.
     sbind (sget (\<lambda>st. ensure (contiguous (sb_generation (bs_current_superblock st)) prepared) InternalInvariantViolation)) (\<lambda>_.
     if list_all (\<lambda>c. pr_changed_pages c = []) prepared then sret ()
     else
       sbind (sget (\<lambda>st. rmap (prepare_commit (crc32c env) (bs_wal st \<noteq> None)) prepared)) (\<lambda>encoded.
       sbind (persist_group env prepared encoded) (\<lambda>_.
       sbind (or_broken id (store_hit env ''before_publish'')) (\<lambda>_.
       sbind (publish_candidates env (zip prepared (map fst encoded))) (\<lambda>_.
       sbind (smod (\<lambda>st. st\<lparr>bs_storage_metrics := (bs_storage_metrics st)\<lparr>publication_nanos :=
                saturating_add_u64 (publication_nanos (bs_storage_metrics st)) (saturating_nanos (publication_time env))\<rparr>\<rparr>)) (\<lambda>_.
       store_hit env ''after_publish'')))))))"

definition publish_prepared :: "('f, 'w, 'i) env \<Rightarrow> prepared_batch \<Rightarrow> (('f, 'w, 'i) btree_store, error, batch_response list) sop" where
  "publish_prepared env prepared =
     sbind (publish_prepared_group env [prepared]) (\<lambda>_. sret (pr_responses prepared))"

section \<open>Batches and transactions\<close>

definition prepare_batch_with_response_budget :: "('f, 'w, 'i) env \<Rightarrow> batch_request list \<Rightarrow> nat \<Rightarrow>
    (('f, 'w, 'i) btree_store, error, prepared_batch) sop" where
  "prepare_batch_with_response_budget env requests max_response_bytes =
     with_overlay
       (sbind (sres (budget_new max_response_bytes)) (\<lambda>budget.
        sbind (execute_all env requests budget) (\<lambda>responses.
        sget (\<lambda>ov. finish env ov responses))))"

definition prepare_batch :: "('f, 'w, 'i) env \<Rightarrow> batch_request list \<Rightarrow> (('f, 'w, 'i) btree_store, error, prepared_batch) sop" where
  "prepare_batch env requests = prepare_batch_with_response_budget env requests usize_max"

definition apply_batch_with_response_budget :: "('f, 'w, 'i) env \<Rightarrow> batch_request list \<Rightarrow> nat \<Rightarrow>
    (('f, 'w, 'i) btree_store, error, batch_response list) sop" where
  "apply_batch_with_response_budget env requests max_response_bytes =
     sbind (prepare_batch_with_response_budget env requests max_response_bytes) (publish_prepared env)"

definition apply_batch :: "('f, 'w, 'i) env \<Rightarrow> batch_request list \<Rightarrow> (('f, 'w, 'i) btree_store, error, batch_response list) sop" where
  "apply_batch env requests = sbind (prepare_batch env requests) (publish_prepared env)"

definition store_get :: "('f, 'w, 'i) env \<Rightarrow> document_key \<Rightarrow> (('f, 'w, 'i) btree_store, error, revision_state) sop" where
  "store_get env key =
     sbind (apply_batch env [GetRequest key]) (\<lambda>responses.
     case responses of GetResponse state # _ \<Rightarrow> sret state | _ \<Rightarrow> sfail InternalInvariantViolation)"

definition store_put :: "('f, 'w, 'i) env \<Rightarrow> document_key \<Rightarrow> bytes \<Rightarrow> (('f, 'w, 'i) btree_store, error, revision) sop" where
  "store_put env key v =
     sbind (apply_batch env [PutRequest key v]) (\<lambda>responses.
     case responses of PutResponse r # _ \<Rightarrow> sret r | _ \<Rightarrow> sfail InternalInvariantViolation)"

definition store_delete :: "('f, 'w, 'i) env \<Rightarrow> document_key \<Rightarrow> (('f, 'w, 'i) btree_store, error, revision) sop" where
  "store_delete env key =
     sbind (apply_batch env [DeleteRequest key]) (\<lambda>responses.
     case responses of DeleteResponse r # _ \<Rightarrow> sret r | _ \<Rightarrow> sfail InternalInvariantViolation)"

definition store_query :: "('f, 'w, 'i) env \<Rightarrow> bytes \<Rightarrow> bytes option \<Rightarrow> nat \<Rightarrow> (('f, 'w, 'i) btree_store, error, btree_document list) sop" where
  "store_query env qpk after_sk limit =
     sbind (apply_batch env [QueryRequest qpk after_sk limit]) (\<lambda>responses.
     case responses of QueryResponse rows # _ \<Rightarrow> sret rows | _ \<Rightarrow> sfail InternalInvariantViolation)"

definition store_scan :: "('f, 'w, 'i) env \<Rightarrow> document_key option \<Rightarrow> nat \<Rightarrow> (('f, 'w, 'i) btree_store, error, btree_document list) sop" where
  "store_scan env cursor limit =
     sbind (apply_batch env [ScanRequest cursor limit]) (\<lambda>responses.
     case responses of ScanResponse rows # _ \<Rightarrow> sret rows | _ \<Rightarrow> sfail InternalInvariantViolation)"

text \<open>The loop of \<open>apply_transaction_group\<close>: conflicts and rejected requests become results,
  every other error ends the group.\<close>

definition recoverable :: "error \<Rightarrow> bool" where
  "recoverable e = (case e of Conflict _ \<Rightarrow> True | InvalidRequest \<Rightarrow> True | InvalidInput \<Rightarrow> True | _ \<Rightarrow> False)"

definition add_preparation_time :: "('f, 'w, 'i) env \<Rightarrow> (('f, 'w, 'i) overlay, error, unit) sop" where
  "add_preparation_time env =
     on_store (smod (\<lambda>st. st\<lparr>bs_storage_metrics := (bs_storage_metrics st)\<lparr>btree_preparation_nanos :=
       saturating_add_u64 (btree_preparation_nanos (bs_storage_metrics st)) (saturating_nanos (preparation_time env))\<rparr>\<rparr>))"

definition stage_transaction :: "('f, 'w, 'i) env \<Rightarrow> transaction_request \<Rightarrow>
    (('f, 'w, 'i) overlay, error, prepared_batch option \<times> (error + transaction_result)) sop" where
  "stage_transaction env request ov =
     (case prepare_transaction env request ov of
        (Inr (Some candidate), ov') \<Rightarrow>
          (rbind (ok_or (pr_commit_lsn candidate) InternalInvariantViolation) (\<lambda>commit.
           Inr (Some candidate, Inr \<lparr>commit_lsn = Some commit\<rparr>)), ov')
      | (Inr None, ov') \<Rightarrow> (Inr (None, Inr \<lparr>commit_lsn = None\<rparr>), ov')
      | (Inl e, ov') \<Rightarrow> (if recoverable e then Inr (None, Inl e) else Inl e, ov'))"

fun stage_group :: "('f, 'w, 'i) env \<Rightarrow> transaction_request list \<Rightarrow>
    (('f, 'w, 'i) overlay, error, prepared_batch list \<times> (error + transaction_result) list) sop" where
  "stage_group env [] = sret ([], [])"
| "stage_group env (request # requests) =
     sbind (stage_transaction env request) (\<lambda>(candidate, result).
     sbind (add_preparation_time env) (\<lambda>_.
     sbind (stage_group env requests) (\<lambda>(prepared, results).
     sret (case candidate of None \<Rightarrow> prepared | Some c \<Rightarrow> c # prepared, result # results))))"

definition apply_transaction_group :: "('f, 'w, 'i) env \<Rightarrow> transaction_request list \<Rightarrow>
    (('f, 'w, 'i) btree_store, error, (error + transaction_result) list) sop" where
  "apply_transaction_group env requests =
     (if requests = [] then sret []
      else
        sbind (with_overlay (stage_group env requests)) (\<lambda>(prepared, results).
        if prepared = [] then sret results
        else sbind (publish_prepared_group env prepared) (\<lambda>_. sret results)))"

definition store_transact :: "('f, 'w, 'i) env \<Rightarrow> transaction_request \<Rightarrow> (('f, 'w, 'i) btree_store, error, transaction_result) sop" where
  "store_transact env request =
     sbind (apply_transaction_group env [request]) (\<lambda>results.
     case rev results of [] \<Rightarrow> sfail InternalInvariantViolation | r # _ \<Rightarrow> sres r)"

fun get_states :: "('f, 'w, 'i) env \<Rightarrow> document_key list \<Rightarrow> response_budget \<Rightarrow> (('f, 'w, 'i) overlay, error, revision_state list) sop" where
  "get_states env [] budget = sret []"
| "get_states env (key # keys) budget =
     sbind (get_state_with_budget env key budget) (\<lambda>(state, b).
     sbind (get_states env keys b) (\<lambda>states. sret (state # states)))"

definition transact_get_with_response_budget :: "('f, 'w, 'i) env \<Rightarrow> document_key list \<Rightarrow> nat \<Rightarrow>
    (('f, 'w, 'i) btree_store, error, revision_state list) sop" where
  "transact_get_with_response_budget env keys max_response_bytes =
     sbind (not_broken DurabilityFailure) (\<lambda>_.
     with_overlay (sbind (sres (budget_new max_response_bytes)) (get_states env keys)))"

definition store_transact_get :: "('f, 'w, 'i) env \<Rightarrow> document_key list \<Rightarrow> (('f, 'w, 'i) btree_store, error, revision_state list) sop" where
  "store_transact_get env keys = transact_get_with_response_budget env keys usize_max"

fun observe_all :: "('f, 'w, 'i) env \<Rightarrow> document_key list \<Rightarrow> (('f, 'w, 'i) overlay, error, observed_state list) sop" where
  "observe_all env [] = sret []"
| "observe_all env (key # keys) =
     sbind (get_observed_state env key) (\<lambda>state.
     sbind (observe_all env keys) (\<lambda>states. sret (state # states)))"

definition observe :: "('f, 'w, 'i) env \<Rightarrow> document_key list \<Rightarrow> (('f, 'w, 'i) btree_store, error, observed_state list) sop" where
  "observe env keys = sbind (not_broken DurabilityFailure) (\<lambda>_. with_overlay (observe_all env keys))"

section \<open>Flushing\<close>

text \<open>The loop writes the dirty pages in order, with a fault point before each.\<close>

fun flush_pages :: "('f, 'w, 'i) env \<Rightarrow> (page_id \<times> bytes) list \<Rightarrow> (('f, 'w, 'i) btree_store, error, unit) sop" where
  "flush_pages env [] = sret ()"
| "flush_pages env ((pid, bs) # pages) =
     sbind (store_hit env ''during_data_page_write'') (\<lambda>_.
     sbind (on_data (write_all_at (data_ops env) (page_offset pid) bs)) (\<lambda>_.
     flush_pages env pages))"

definition flush_body :: "('f, 'w, 'i) env \<Rightarrow> (('f, 'w, 'i) btree_store, error, unit) sop" where
  "flush_body env =
     sbind (sget (\<lambda>st. target_length InvalidInput (bs_high_water_page_id st))) (\<lambda>target.
     sbind (data_len env) (\<lambda>len.
     sbind (if len < target then on_data (set_len (data_ops env) target) else sret ()) (\<lambda>_.
     sbind (store_hit env ''before_data_page_write'') (\<lambda>_.
     sbind (sget (\<lambda>st. Inr (bs_dirty_pages st))) (\<lambda>pages.
     sbind (flush_pages env pages) (\<lambda>_.
     sbind (store_hit env ''after_data_page_write'') (\<lambda>_.
     sbind (sget (\<lambda>st. Inr (bs_dirty_superblock st, bs_active_slot st))) (\<lambda>(superblock, slot).
     case superblock of
       None \<Rightarrow> sret ()
     | Some superblock_bytes \<Rightarrow>
         on_data (write_all_at (data_ops env) (slot_offset slot) superblock_bytes)))))))))"

definition flush_dirty_pages :: "('f, 'w, 'i) env \<Rightarrow> (('f, 'w, 'i) btree_store, error, unit) sop" where
  "flush_dirty_pages env =
     sbind (sget Inr) (\<lambda>st.
     if bs_wal st = None then on_data (sync_data (data_ops env))
     else if bs_dirty_pages st = [] \<and> bs_dirty_superblock st = None then sret ()
     else
       sbind (or_broken (\<lambda>_. DurabilityFailure) (flush_body env)) (\<lambda>_.
       sbind (or_broken id (store_hit env ''before_data_file_sync'')) (\<lambda>_.
       sbind (or_broken id (store_hit env ''during_data_file_sync'')) (\<lambda>_.
       sbind (or_broken (\<lambda>_. DurabilityFailure) (on_data (sync_data (data_ops env)))) (\<lambda>_.
       sbind (smod (\<lambda>st. st\<lparr>bs_dirty_pages := [], bs_dirty_superblock := None\<rparr>)) (\<lambda>_.
       store_hit env ''after_data_file_sync''))))))"

definition flush :: "('f, 'w, 'i) env \<Rightarrow> (('f, 'w, 'i) btree_store, error, unit) sop" where
  "flush env =
     sbind (sget (\<lambda>st. Inr (bs_wal st))) (\<lambda>wal.
     if wal = None then on_data (sync_data (data_ops env)) else flush_dirty_pages env)"

section \<open>Checking and checkpoints\<close>

definition metadata_from_superblock :: "superblock \<Rightarrow> nat \<Rightarrow> error + page_id \<times> page_id option \<times> page_id" where
  "metadata_from_superblock superblock file_length =
     rbind (ensure (\<not> unat (sb_page_size superblock) \<noteq> PAGE_SIZE) UnsupportedFormat) (\<lambda>_.
     let page_count = file_length div PAGE_SIZE in
     rbind (ok_or (sb_root_page_id superblock) Corruption) (\<lambda>root.
     rbind (ok_or (sb_high_water_page_id superblock) Corruption) (\<lambda>high_water.
     rbind (ok_or (checked_add_u64 high_water 1) Corruption) (\<lambda>expected_page_count.
     rbind (ensure (\<not> (high_water < FIRST_DATA_PAGE \<or> unat expected_page_count \<noteq> page_count)) Corruption) (\<lambda>_.
     rbind (ensure (\<not> (root < FIRST_DATA_PAGE \<or> root > high_water)) Corruption) (\<lambda>_.
     rbind (ensure (\<not> (case sb_free_list_head superblock of
                         None \<Rightarrow> False
                       | Some free \<Rightarrow> free < FIRST_DATA_PAGE \<or> free > high_water)) Corruption) (\<lambda>_.
     Inr (root, sb_free_list_head superblock, high_water))))))))"

text \<open>Both superblock slots of the file and the choice between them.\<close>

definition read_superblock :: "'f file_ops \<Rightarrow> crc_fun \<Rightarrow> ('f, error, selected_superblock) sop" where
  "read_superblock ops crc =
     sbind (read_exact_at ops SUPERBLOCK_A_OFFSET PAGE_SIZE) (\<lambda>slot_a.
     sbind (read_exact_at ops SUPERBLOCK_B_OFFSET PAGE_SIZE) (\<lambda>slot_b.
     sres (choose_superblock crc slot_a slot_b)))"

definition last_commit :: "'w wal_log \<Rightarrow> lsn \<Rightarrow> lsn" where
  "last_commit w unknown = (case rev (wl_committed w) of [] \<Rightarrow> unknown | batch # _ \<Rightarrow> wc_commit_lsn batch)"

definition check_invariants :: "('f, 'w, 'i) env \<Rightarrow> (('f, 'w, 'i) btree_store, error, invariant_report) sop" where
  "check_invariants env =
     sbind (sget (\<lambda>st. Inr (bs_wal st))) (\<lambda>wal.
     sbind (if wal \<noteq> None then flush_dirty_pages env else sret ()) (\<lambda>_.
     sbind (data_len env) (\<lambda>len.
     sbind (sres (ensure (page_aligned len) Corruption)) (\<lambda>_.
     sbind (on_data (read_superblock (data_ops env) (crc32c env))) (\<lambda>selected.
     sbind (sget (\<lambda>st. ensure (\<not> (sel_slot selected \<noteq> bs_active_slot st
              \<or> sel_superblock selected \<noteq> bs_current_superblock st)) Corruption)) (\<lambda>_.
     sbind (sres (metadata_from_superblock (sel_superblock selected) len)) (\<lambda>(root, free_head, high_water).
     sbind (sget (\<lambda>st. ensure (\<not> (root \<noteq> bs_root_page_id st \<or> free_head \<noteq> bs_free_list_head st
              \<or> high_water \<noteq> bs_high_water_page_id st)) Corruption)) (\<lambda>_.
     sbind (sget (\<lambda>st. case bs_wal st of
              None \<Rightarrow> Inr ()
            | Some w \<Rightarrow>
                (let checkpoint = sb_checkpoint_lsn (bs_current_superblock st) in
                 ensure (\<not> checkpoint > last_commit w checkpoint) Corruption))) (\<lambda>_.
     on_data (check (data_ops env) (crc32c env) root free_head high_water))))))))))"

record checkpoint_report =
  cr_checkpoint_lsn :: lsn
  cr_pages_flushed :: nat
  cr_bytes_written :: u64
  cr_wal_bytes_reclaimed :: nat
  cr_duration_nanos :: u64

definition checkpoint_bytes :: "nat \<Rightarrow> bool \<Rightarrow> bool \<Rightarrow> u64 option" where
  "checkpoint_bytes dirty_page_count has_superblock metadata_changed =
     Option.bind (checked_mul_u64 (of_nat dirty_page_count) (of_nat PAGE_SIZE)) (\<lambda>bs.
     Option.bind (checked_add_u64 bs (if has_superblock then of_nat PAGE_SIZE else 0)) (\<lambda>bs.
     checked_add_u64 bs (if metadata_changed then of_nat PAGE_SIZE else 0)))"

text \<open>The metadata part of a checkpoint: the superblock with the new checkpoint LSN goes to the
  other slot and becomes current once it is synced.\<close>

definition checkpoint_metadata :: "('f, 'w, 'i) env \<Rightarrow> lsn \<Rightarrow> (('f, 'w, 'i) btree_store, error, unit) sop" where
  "checkpoint_metadata env checkpoint_lsn =
     sbind (sget (\<lambda>st.
        rbind (ok_or (checked_add_u64 (sb_generation (bs_current_superblock st)) 1) InternalInvariantViolation) (\<lambda>generation.
        rbind (encode_superblock (crc32c env)
                 ((bs_current_superblock st)\<lparr>sb_generation := generation, sb_checkpoint_lsn := checkpoint_lsn\<rparr>)) (\<lambda>image.
        decode_superblock (crc32c env) image)))) (\<lambda>checkpoint_superblock.
     sbind (sres (encode_superblock (crc32c env) checkpoint_superblock)) (\<lambda>checkpoint_image.
     sbind (sget (\<lambda>st. Inr (other_slot (bs_active_slot st)))) (\<lambda>checkpoint_slot.
     sbind (store_hit env ''before_checkpoint_superblock_write'') (\<lambda>_.
     sbind (or_broken (\<lambda>_. CheckpointFailure)
              (on_data (write_all_at (data_ops env) (slot_offset checkpoint_slot) checkpoint_image))) (\<lambda>_.
     sbind (store_hit env ''after_checkpoint_superblock_write'') (\<lambda>_.
     sbind (store_hit env ''before_checkpoint_metadata_sync'') (\<lambda>_.
     sbind (store_hit env ''during_checkpoint_metadata_sync'') (\<lambda>_.
     sbind (or_broken (\<lambda>_. CheckpointFailure) (on_data (sync_data (data_ops env)))) (\<lambda>_.
     sbind (or_broken (\<lambda>_. CheckpointFailure) (store_hit env ''after_checkpoint_metadata_sync'')) (\<lambda>_.
     smod (\<lambda>st. st\<lparr>bs_current_superblock := checkpoint_superblock, bs_active_slot := checkpoint_slot\<rparr>)))))))))))"

definition checkpoint_reset :: "('f, 'w, 'i) env \<Rightarrow> lsn \<Rightarrow> (('f, 'w, 'i) btree_store, error, unit) sop" where
  "checkpoint_reset env checkpoint_lsn =
     sbind (sget (\<lambda>st. Inr (bs_wal st))) (\<lambda>wal.
     case wal of
       None \<Rightarrow> sret ()
     | Some w \<Rightarrow>
         if wl_committed w \<noteq> [] \<or> wl_history_start_lsn w < checkpoint_lsn
         then
           sbind (or_broken (\<lambda>_. CheckpointFailure)
                    (on_wal (wal_reset (wal_ops env) (crc32c env) (fault_hit env) checkpoint_lsn) w)) (\<lambda>_.
           smod (\<lambda>st. case bs_wal st of
                        None \<Rightarrow> st
                      | Some w \<Rightarrow> st\<lparr>bs_next_lsn := wl_next_lsn w, bs_next_batch_id := wl_next_batch_id w\<rparr>))
         else sret ())"

definition wal_bytes :: "('f, 'w, 'i) env \<Rightarrow> (('f, 'w, 'i) btree_store, error, nat) sop" where
  "wal_bytes env =
     sget (\<lambda>st. case bs_wal st of
                  None \<Rightarrow> Inr 0
                | Some w \<Rightarrow> rbind (wal_metrics_of (wal_ops env) w) (\<lambda>m. Inr (wm_wal_bytes m)))"

definition checkpoint :: "('f, 'w, 'i) env \<Rightarrow> (('f, 'w, 'i) btree_store, error, checkpoint_report) sop" where
  "checkpoint env =
     sbind (not_broken CheckpointFailure) (\<lambda>_.
     sbind (store_hit env ''before_checkpoint_gate'') (\<lambda>_.
     sbind (sget (\<lambda>st. ok_or (bs_wal st) CheckpointFailure)) (\<lambda>w.
     sbind (sget Inr) (\<lambda>st.
     let current = sb_checkpoint_lsn (bs_current_superblock st); checkpoint_lsn = last_commit w current in
     sbind (sres (ensure (\<not> checkpoint_lsn < current) InternalInvariantViolation)) (\<lambda>_.
     let metadata_changed = checkpoint_lsn > current; dirty_page_count = length (bs_dirty_pages st) in
     sbind (sres (ok_or (checkpoint_bytes dirty_page_count (bs_dirty_superblock st \<noteq> None) metadata_changed)
                   CheckpointFailure)) (\<lambda>bytes_written.
     sbind (wal_bytes env) (\<lambda>wal_bytes_before.
     sbind (store_hit env ''before_checkpoint_data_flush'') (\<lambda>_.
     sbind (smap_err (\<lambda>_. CheckpointFailure) (flush_dirty_pages env)) (\<lambda>_.
     sbind (store_hit env ''after_checkpoint_data_sync'') (\<lambda>_.
     sbind (if metadata_changed then checkpoint_metadata env checkpoint_lsn else sret ()) (\<lambda>_.
     sbind (or_broken (\<lambda>_. CheckpointFailure) (check_invariants env)) (\<lambda>_.
     sbind (checkpoint_reset env checkpoint_lsn) (\<lambda>_.
     sbind (or_broken (\<lambda>_. CheckpointFailure) (store_hit env ''before_checkpoint_complete'')) (\<lambda>_.
     sbind (wal_bytes env) (\<lambda>wal_bytes_after.
     sret \<lparr>cr_checkpoint_lsn = checkpoint_lsn, cr_pages_flushed = dirty_page_count,
           cr_bytes_written = bytes_written, cr_wal_bytes_reclaimed = wal_bytes_before - wal_bytes_after,
           cr_duration_nanos = saturating_nanos (checkpoint_time env)\<rparr>)))))))))))))))"

section \<open>Creating a database\<close>

text \<open>The operations that consume a file leave it in the state on success and on failure.\<close>

definition new_store :: "'f \<Rightarrow> 'w wal_log option \<Rightarrow> superblock \<Rightarrow> superblock_slot \<Rightarrow> page_id \<Rightarrow> page_id option \<Rightarrow> page_id \<Rightarrow>
    lsn \<Rightarrow> database_config \<Rightarrow> 'i option \<Rightarrow> ('f, 'w, 'i) btree_store" where
  "new_store file wal superblock slot root free_head high_water next_lsn config injector =
     \<lparr>bs_file = file, bs_wal = wal, bs_current_superblock = superblock, bs_active_slot = slot,
      bs_root_page_id = root, bs_free_list_head = free_head, bs_high_water_page_id = high_water,
      bs_next_revision = 1, bs_next_lsn = next_lsn, bs_next_batch_id = 1,
      bs_cache = cache_new (dc_cache_capacity config), bs_config = config, bs_dirty_pages = [],
      bs_dirty_superblock = None, bs_track_published_pages = False, bs_published_page_updates = [],
      bs_storage_metrics = storage_metrics_default, bs_broken = None, bs_fault_injector = injector\<rparr>"

definition initial_superblock :: "database_config \<Rightarrow> superblock" where
  "initial_superblock config =
     (superblock_new 1 (dc_database_uuid config) (dc_tenant_id config) (dc_shard_id config) (dc_shard_epoch config))
       \<lparr>sb_root_page_id := Some FIRST_DATA_PAGE, sb_high_water_page_id := Some FIRST_DATA_PAGE\<rparr>"

definition initialize :: "('f, 'w, 'i) env \<Rightarrow> database_config \<Rightarrow> ('f, error, ('f, 'w, 'i) btree_store) sop" where
  "initialize env config =
     (let root_page_id = FIRST_DATA_PAGE; superblock = initial_superblock config; ops = data_ops env in
     sbind (sres (pd_encode (crc32c env) (LeafData 0 None []) root_page_id)) (\<lambda>root_bytes.
     sbind (sres (encode_superblock (crc32c env) superblock)) (\<lambda>superblock_bytes.
     sbind (set_len ops (3 * PAGE_SIZE)) (\<lambda>_.
     sbind (write_all_at ops SUPERBLOCK_A_OFFSET superblock_bytes) (\<lambda>_.
     sbind (write_all_at ops SUPERBLOCK_B_OFFSET superblock_bytes) (\<lambda>_.
     sbind (write_all_at ops (page_offset root_page_id) root_bytes) (\<lambda>_.
     sbind (sync_all ops) (\<lambda>_.
     sget (\<lambda>file. Inr (new_store file None superblock SlotA root_page_id None root_page_id 1 config None))))))))))"

section \<open>Recovery\<close>

definition validate_superblock_identity :: "superblock \<Rightarrow> wal_identity \<Rightarrow> error + unit" where
  "validate_superblock_identity superblock identity =
     ensure (\<not> (sb_database_uuid superblock \<noteq> wi_database_uuid identity
             \<or> sb_tenant_id superblock \<noteq> wi_tenant_id identity
             \<or> sb_shard_id superblock \<noteq> wi_shard_id identity
             \<or> sb_shard_epoch superblock \<noteq> wi_shard_epoch identity)) Corruption"

definition validate_existing_identity_before_wal :: "'f file_ops \<Rightarrow> crc_fun \<Rightarrow> wal_identity \<Rightarrow> nat \<Rightarrow>
    ('f, error, lsn option) sop" where
  "validate_existing_identity_before_wal ops crc identity wal_length =
     sbind (sget (file_len ops)) (\<lambda>len.
     if len = 0 then sret None
     else if \<not> page_aligned len then (if wal_length = 0 then sfail Corruption else sret None)
     else
       sbind (read_exact_at ops SUPERBLOCK_A_OFFSET PAGE_SIZE) (\<lambda>slot_a.
       sbind (read_exact_at ops SUPERBLOCK_B_OFFSET PAGE_SIZE) (\<lambda>slot_b.
       case choose_superblock crc slot_a slot_b of
         Inr selected \<Rightarrow>
           sbind (sres (validate_superblock_identity (sel_superblock selected) identity)) (\<lambda>_.
           sret (Some (sb_checkpoint_lsn (sel_superblock selected))))
       | Inl e \<Rightarrow> if wal_length > 0 then sret None else sfail e)))"

definition highest_data_page :: "wal_commit list \<Rightarrow> u64" where
  "highest_data_page batches =
     fold (\<lambda>page high. if wpi_page_id page \<ge> FIRST_DATA_PAGE then max high (wpi_page_id page) else high)
       (concat (map wc_pages batches)) FIRST_DATA_PAGE"

text \<open>The state of recovery is the data file and the injector.\<close>

definition rec_file :: "('f, error, 'a) sop \<Rightarrow> ('f \<times> 'i option, error, 'a) sop" where
  "rec_file m = (\<lambda>(f, i). case m f of (r, f') \<Rightarrow> (r, (f', i)))"

definition rec_hit :: "(string \<Rightarrow> ('i, error, unit) sop) \<Rightarrow> string \<Rightarrow> ('f \<times> 'i option, error, unit) sop" where
  "rec_hit hit point = (\<lambda>(f, i). case hit_fault hit point i of (r, i') \<Rightarrow> (r, (f, i')))"

definition should_write :: "'f file_ops \<Rightarrow> crc_fun \<Rightarrow> nat \<Rightarrow> lsn \<Rightarrow> page_id \<Rightarrow> nat \<Rightarrow> ('f, error, bool) sop" where
  "should_write ops crc readable_length commit pid offset =
     (if pid = 0 \<or> pid = 1 then sret True
      else if offset + PAGE_SIZE < u64_limit \<and> offset + PAGE_SIZE \<le> readable_length then
        sbind (read_exact_at ops offset PAGE_SIZE) (\<lambda>bs.
        sret (case decode_page_at crc bs (Some pid) of
                Inr current \<Rightarrow> ph_page_lsn (dp_header current) < commit
              | Inl _ \<Rightarrow> True))
      else sret True)"

fun recover_pages :: "'f file_ops \<Rightarrow> crc_fun \<Rightarrow> (string \<Rightarrow> ('i, error, unit) sop) \<Rightarrow> nat \<Rightarrow> (lsn \<times> wal_page_image) list \<Rightarrow>
    bool \<Rightarrow> ('f \<times> 'i option, error, bool) sop" where
  "recover_pages ops crc hit readable_length [] changed = sret changed"
| "recover_pages ops crc hit readable_length ((commit, page) # pages) changed =
     sbind (sres (ok_or (checked_mul_u64 (wpi_page_id page) (of_nat PAGE_SIZE)) RecoveryFailure)) (\<lambda>offset.
     sbind (rec_file (should_write ops crc readable_length commit (wpi_page_id page) (unat offset))) (\<lambda>writing.
     if writing then
       sbind (rec_hit hit ''during_recovery_page_write'') (\<lambda>_.
       sbind (rec_file (write_all_at ops (unat offset) (wpi_image page))) (\<lambda>_.
       recover_pages ops crc hit readable_length pages True))
     else recover_pages ops crc hit readable_length pages changed))"

definition recover_data_file :: "'f file_ops \<Rightarrow> crc_fun \<Rightarrow> (string \<Rightarrow> ('i, error, unit) sop) \<Rightarrow> wal_commit list \<Rightarrow> lsn \<Rightarrow>
    ('f \<times> 'i option, error, unit) sop" where
  "recover_data_file ops crc hit all_batches checkpoint_lsn =
     (let batches = filter (\<lambda>batch. wc_commit_lsn batch > checkpoint_lsn) all_batches in
      if batches = [] then sret ()
      else
        sbind (sres (target_length RecoveryFailure (highest_data_page batches))) (\<lambda>target.
        sbind (rec_file (sget (file_len ops))) (\<lambda>current_length.
        sbind (if current_length = 0 \<or> current_length < target then rec_file (set_len ops target)
               else sres (ensure (current_length mod PAGE_SIZE = 0) RecoveryFailure)) (\<lambda>_.
        sbind (rec_file (sget (file_len ops))) (\<lambda>readable_length.
        sbind (recover_pages ops crc hit readable_length
                 (concat (map (\<lambda>batch. map (Pair (wc_commit_lsn batch)) (wc_pages batch)) batches))
                 (current_length < target)) (\<lambda>changed.
        if changed then
          sbind (rec_hit hit ''before_recovery_sync'') (\<lambda>_.
          sbind (rec_hit hit ''during_recovery_sync'') (\<lambda>_.
          sbind (rec_file (smap_err (\<lambda>_. DurabilityFailure) (sync_data ops))) (\<lambda>_.
          rec_hit hit ''after_recovery_sync'')))
        else sret ()))))))"

section \<open>Opening\<close>

text \<open>Running a store operation on a store under construction; its file stays with the state.\<close>

definition building :: "(('f, 'w, 'i) btree_store, error, 'a) sop \<Rightarrow> ('a \<Rightarrow> ('f, 'w, 'i) btree_store \<Rightarrow> error + 'b) \<Rightarrow>
    ('f, 'w, 'i) btree_store \<Rightarrow> ('f, error, 'b) sop" where
  "building m k st = (\<lambda>_. case m st of (r, st') \<Rightarrow> (rbind r (\<lambda>x. k x st'), bs_file st'))"

definition no_wal_ops :: "unit file_ops" where
  "no_wal_ops = \<lparr>read_at = (\<lambda>offset len. sret []), write_at = (\<lambda>offset bs. sfail InternalInvariantViolation),
     file_len = (\<lambda>_. Inr 0), set_len = (\<lambda>len. sret ()), sync_data = sret (), sync_all = sret ()\<rparr>"

definition open_no_wal :: "('f, unit, 'i) env \<Rightarrow> database_config \<Rightarrow> ('f, error, ('f, unit, 'i) btree_store) sop" where
  "open_no_wal env config =
     sbind (sget (file_len (data_ops env))) (\<lambda>len.
     if len = 0 then initialize env config
     else
       sbind (sres (ensure (page_aligned len) Corruption)) (\<lambda>_.
       sbind (read_superblock (data_ops env) (crc32c env)) (\<lambda>selected.
       sbind (sres (metadata_from_superblock (sel_superblock selected) len)) (\<lambda>(root, free_head, high_water).
       sbind (sget Inr) (\<lambda>file.
       building (check_invariants env)
         (\<lambda>report st. rbind (ok_or (checked_add_u64 (ir_max_revision report) 1) InternalInvariantViolation) (\<lambda>r.
            Inr (st\<lparr>bs_next_revision := r\<rparr>)))
         (new_store file None (sel_superblock selected) (sel_slot selected) root free_head high_water 1 config None))))))"

text \<open>The state of \<open>open_with_wal_internal\<close>: the two files and the injector.\<close>

type_synonym ('f, 'w, 'i) open_files = "'f \<times> 'w \<times> 'i option"

definition open_data :: "('f, error, 'a) sop \<Rightarrow> (('f, 'w, 'i) open_files, error, 'a) sop" where
  "open_data m = (\<lambda>(f, w, i). case m f of (r, f') \<Rightarrow> (r, (f', w, i)))"

definition open_log :: "('w \<times> 'i option, error, 'a) sop \<Rightarrow> (('f, 'w, 'i) open_files, error, 'a) sop" where
  "open_log m = (\<lambda>(f, w, i). case m (w, i) of (r, (w', i')) \<Rightarrow> (r, (f, w', i')))"

definition open_recovery :: "('f \<times> 'i option, error, 'a) sop \<Rightarrow> (('f, 'w, 'i) open_files, error, 'a) sop" where
  "open_recovery m = (\<lambda>(f, w, i). case m (f, i) of (r, (f', i')) \<Rightarrow> (r, (f', w, i')))"

definition open_store :: "(('f, 'w, 'i) btree_store, error, 'a) sop \<Rightarrow>
    ('a \<Rightarrow> ('f, 'w, 'i) btree_store \<Rightarrow> error + 'b) \<Rightarrow> ('f, 'w, 'i) btree_store \<Rightarrow> (('f, 'w, 'i) open_files, error, 'b) sop" where
  "open_store m k st = (\<lambda>(_, w, _). case m st of (r, st') \<Rightarrow>
     (rbind r (\<lambda>x. k x st'), (bs_file st', case bs_wal st' of None \<Rightarrow> w | Some l \<Rightarrow> wl_file l, bs_fault_injector st')))"

definition config_identity :: "database_config \<Rightarrow> wal_identity" where
  "config_identity config = \<lparr>wi_database_uuid = dc_database_uuid config, wi_tenant_id = dc_tenant_id config,
     wi_shard_id = dc_shard_id config, wi_shard_epoch = dc_shard_epoch config\<rparr>"

definition store_counters :: "'w wal_log \<Rightarrow> ('f, 'w, 'i) btree_store \<Rightarrow> ('f, 'w, 'i) btree_store" where
  "store_counters w st = st\<lparr>bs_next_lsn := wl_next_lsn w, bs_next_batch_id := wl_next_batch_id w\<rparr>"

definition finish_open :: "invariant_report \<Rightarrow> ('f, 'w, 'i) btree_store \<Rightarrow> error + ('f, 'w, 'i) btree_store" where
  "finish_open report st =
     rbind (ok_or (bs_wal st) InternalInvariantViolation) (\<lambda>w.
     rbind (ok_or (checked_add_u64 (max (ir_max_revision report) (last_commit w 0)) 1) InternalInvariantViolation) (\<lambda>r.
     Inr (store_counters w (st\<lparr>bs_next_revision := r\<rparr>))))"

definition open_with_wal_internal :: "('f, 'w, 'i) env \<Rightarrow> database_config \<Rightarrow>
    (('f, 'w, 'i) open_files, error, ('f, 'w, 'i) btree_store) sop" where
  "open_with_wal_internal env config =
     (let identity = config_identity config; ops = data_ops env; crc = crc32c env in
     sbind (sget (\<lambda>(f, w, i). file_len (wal_ops env) w)) (\<lambda>wal_length.
     sbind (open_data (validate_existing_identity_before_wal ops crc identity wal_length)) (\<lambda>existing.
     let checkpoint_hint = (case existing of None \<Rightarrow> 0 | Some l \<Rightarrow> l) in
     sbind (open_log (wal_open (wal_ops env) crc (fault_hit env) identity checkpoint_hint)) (\<lambda>wal.
     sbind (sget (\<lambda>(f, w, i). file_len ops f)) (\<lambda>len.
     if len = 0 \<and> wl_committed wal = [] then
       sbind (open_data (initialize env config)) (\<lambda>store.
       sget (\<lambda>(f, w, i). Inr (store_counters wal (store\<lparr>bs_wal := Some wal, bs_fault_injector := i\<rparr>))))
     else
       sbind (open_recovery (recover_data_file ops crc (fault_hit env) (wl_committed wal) checkpoint_hint)) (\<lambda>_.
       sbind (sget (\<lambda>(f, w, i). file_len ops f)) (\<lambda>len.
       sbind (sres (ensure (page_aligned len) RecoveryFailure)) (\<lambda>_.
       sbind (open_data (read_superblock ops crc)) (\<lambda>selected.
       sbind (sres (validate_superblock_identity (sel_superblock selected) identity)) (\<lambda>_.
       sbind (sres (metadata_from_superblock (sel_superblock selected) len)) (\<lambda>(root, free_head, high_water).
       sbind (sres (fst (resume_after (sb_checkpoint_lsn (sel_superblock selected)) wal))) (\<lambda>_.
       sbind (sget Inr) (\<lambda>(f, w, i).
       open_store (check_invariants env) finish_open
         (new_store f (Some (snd (resume_after (sb_checkpoint_lsn (sel_superblock selected)) wal)))
            (sel_superblock selected) (sel_slot selected) root free_head high_water 0 config i))))))))))))))"

end
