(* ===== verification/Dodb_Wal_Stream.thy ===== *)
theory Dodb_Wal_Stream
  imports Dodb_Wal
begin

text \<open>
  What a scan makes of the frames that the log writes: the frames of one commit, streams of
  frames with increasing LSNs, and the state of the scan along them.
\<close>

section \<open>The frames of a commit\<close>

definition page_payload :: "wal_page_image \<Rightarrow> bytes" where
  "page_payload p = to_le_u64 (wpi_page_id p) @ wpi_image p"

definition page_frame :: "u16 \<Rightarrow> wal_commit \<Rightarrow> lsn \<Rightarrow> nat \<Rightarrow> frame" where
  "page_frame v c first i =
     \<lparr>fr_format_version = v, fr_record_type = PageImageRecord, fr_record_lsn = first + of_nat i,
      fr_batch_id = wc_batch_id c, fr_record_index = of_nat i, fr_payload = page_payload (wc_pages c ! i)\<rparr>"

definition commit_frame :: "crc_fun \<Rightarrow> u16 \<Rightarrow> wal_commit \<Rightarrow> lsn \<Rightarrow> frame" where
  "commit_frame crc v c first =
     \<lparr>fr_format_version = v, fr_record_type = CommitRecord, fr_record_lsn = wc_commit_lsn c,
      fr_batch_id = wc_batch_id c, fr_record_index = of_nat (length (wc_pages c)),
      fr_payload = commit_payload first (length (wc_pages c)) (crc (concat (map page_payload (wc_pages c))))\<rparr>"

definition valid_page :: "crc_fun \<Rightarrow> lsn \<Rightarrow> wal_page_image \<Rightarrow> bool" where
  "valid_page crc l p \<longleftrightarrow> validate_page_image crc p = Inr () \<and> validate_page_image_lsn p l = Inr ()"

text \<open>The pending batch after the first \<open>i\<close> pages of a commit.\<close>

definition opened :: "wal_commit \<Rightarrow> lsn \<Rightarrow> nat \<Rightarrow> pending_batch" where
  "opened c first i = \<lparr>pb_batch_id = wc_batch_id c, pb_first_record_lsn = first,
     pb_pages = take i (wc_pages c), pb_digest_input = concat (map page_payload (take i (wc_pages c)))\<rparr>"

definition scan_ok :: "scan_state \<Rightarrow> bool" where
  "scan_ok st \<longleftrightarrow> sc_max_batch_id st = sc_highest st \<and>
     (case sc_pending st of None \<Rightarrow> True | Some p \<Rightarrow> pb_batch_id p \<le> sc_highest st)"

definition scan_start :: scan_state where
  "scan_start = \<lparr>sc_committed = [], sc_pending = None, sc_highest = 0, sc_max_batch_id = 0\<rparr>"

lemma scan_start_ok [simp]: "scan_ok scan_start"
  by (simp add: scan_ok_def scan_start_def)

lemma scan_frame_ok:
  "scan_frame crc history fr st = Inr st' \<Longrightarrow> scan_ok st \<Longrightarrow> scan_ok st'"
  by (auto simp: scan_frame_def scan_page_image_def scan_commit_def scan_ok_def result_iff Let_def max_def
      split: wal_record_type.splits option.splits if_splits)

lemma scan_frame_committed:
  "scan_frame crc history fr st = Inr st' \<Longrightarrow>
     sc_committed st' = sc_committed st @ drop (length (sc_committed st)) (sc_committed st')"
  by (auto simp: scan_frame_def scan_page_image_def scan_commit_def result_iff Let_def
      split: wal_record_type.splits option.splits if_splits)

lemma scan_frames_append:
  "scan_frames crc history (fs @ gs) st = rbind (scan_frames crc history fs st) (scan_frames crc history gs)"
  by (induction fs arbitrary: st) (auto simp: rbind_def split: sum.splits)

lemma scan_frames_ok:
  "scan_frames crc history fs st = Inr st' \<Longrightarrow> scan_ok st \<Longrightarrow> scan_ok st'"
  by (induction fs arbitrary: st) (auto simp: result_iff dest: scan_frame_ok)

lemma scan_frames_committed:
  "scan_frames crc history fs st = Inr st' \<Longrightarrow> \<exists>more. sc_committed st' = sc_committed st @ more"
proof (induction fs arbitrary: st)
  case (Cons f fs)
  then obtain st1 where "scan_frame crc history f st = Inr st1" "scan_frames crc history fs st1 = Inr st'"
    by (auto simp: result_iff)
  with scan_frame_committed [OF this(1)] Cons.IH [OF this(2)] show ?case by (metis append.assoc)
qed simp

lemma valid_page_length: "validate_page_image crc p = Inr () \<Longrightarrow> length (wpi_image p) = 4096"
  by (auto simp: validate_page_image_def result_iff decode_superblock_def decode_page_at_def PAGE_SIZE_def
      split: if_splits)

lemma decode_page_payload:
  "validate_page_image crc p = Inr () \<Longrightarrow> decode_page_image (page_payload p) = Inr p"
  by (simp add: decode_page_image_def page_payload_def valid_page_length length_to_le PAGE_SIZE_def seg_append_left)

lemma decode_commit_payload_of:
  "n < 2 ^ 32 \<Longrightarrow> decode_commit_payload (commit_payload first n digest) = Inr (first, n, digest)"
  by (simp add: decode_commit_payload_def commit_payload_def bytes_simps unat_of_nat_u32)

lemma scan_page_frame:
  assumes st: "scan_ok st" and i: "i < length (wc_pages c)" and page: "valid_page crc l (wc_pages c ! i)"
    and lsn: "history < first + of_nat i"
    and batch: "if i = 0 then sc_highest st < wc_batch_id c else sc_pending st = Some (opened c first i) \<and> sc_highest st = wc_batch_id c"
  shows "scan_frame crc history (page_frame v c first i) st =
    Inr (st\<lparr>sc_pending := Some (opened c first (Suc i)), sc_highest := wc_batch_id c, sc_max_batch_id := wc_batch_id c\<rparr>)"
proof -
  have p: "validate_page_image crc (wc_pages c ! i) = Inr ()" using page by (simp add: valid_page_def)
  have o: "opened c first (Suc i) = (opened c first i)\<lparr>pb_digest_input := pb_digest_input (opened c first i) @ page_payload (wc_pages c ! i),
      pb_pages := pb_pages (opened c first i) @ [wc_pages c ! i]\<rparr>"
    using i by (simp add: opened_def take_Suc_conv_app_nth)
  have len: "length (pb_pages (opened c first i)) = i" "pb_batch_id (opened c first i) = wc_batch_id c"
    using i by (simp_all add: opened_def)
  show ?thesis
  proof (cases "i = 0")
    case True
    have new: "\<lparr>pb_batch_id = wc_batch_id c, pb_first_record_lsn = first, pb_pages = [], pb_digest_input = []\<rparr> = opened c first 0"
      by (simp add: opened_def)
    have ne: "pb_batch_id q \<noteq> wc_batch_id c" if "sc_pending st = Some q" for q
      using that True st batch by (auto simp: scan_ok_def)
    show ?thesis
      using True st batch lsn len
      by (cases "sc_pending st")
        (auto simp: scan_frame_def scan_page_image_def page_frame_def decode_page_payload [OF p, unfolded True]
          p [unfolded True] o [unfolded True] new ne Let_def
          scan_ok_def not_le max_def)
  next
    case False
    then show ?thesis
      using st batch lsn len
      by (auto simp: scan_frame_def scan_page_image_def page_frame_def decode_page_payload [OF p] p o Let_def
          scan_ok_def not_le max_def)
  qed
qed

lemma scan_commit_frame:
  assumes st: "scan_ok st" and n: "length (wc_pages c) < 2 ^ 32"
    and pages: "list_all (valid_page crc (wc_commit_lsn c)) (wc_pages c)"
    and lsn: "history < wc_commit_lsn c"
    and batch: "sc_pending st = Some (opened c first (length (wc_pages c)))" "sc_highest st = wc_batch_id c"
  shows "scan_frame crc history (commit_frame crc v c first) st =
    Inr (st\<lparr>sc_pending := None, sc_committed := sc_committed st @ [c]\<rparr>)"
proof -
  have "rmap (\<lambda>page. validate_page_image_lsn page (wc_commit_lsn c)) (wc_pages c) = Inr (map (\<lambda>_. ()) (wc_pages c))"
    using pages by (intro rmap_Inr) (auto simp: valid_page_def list_all_iff)
  then show ?thesis
    using st n lsn batch
    by (simp add: scan_frame_def scan_commit_def commit_frame_def opened_def decode_commit_payload_of scan_ok_def
        not_le)
qed

section \<open>Streams of frames\<close>

text \<open>Frames of version \<open>v\<close> that a scan in state \<open>st\<close> accepts, ending in \<open>st'\<close>, with increasing
  LSNs from \<open>lo\<close> up to below \<open>hi\<close>.\<close>

definition stream :: "crc_fun \<Rightarrow> u16 \<Rightarrow> lsn \<Rightarrow> nat \<Rightarrow> scan_state \<Rightarrow> frame list \<Rightarrow> scan_state \<Rightarrow> nat \<Rightarrow> bool" where
  "stream crc v history lo st fs st' hi \<longleftrightarrow> scan_frames crc history fs st = Inr st' \<and> lo \<le> hi \<and>
     list_all (\<lambda>fr. frame_ok fr \<and> fr_format_version fr = v \<and> lo \<le> unat (fr_record_lsn fr) \<and> unat (fr_record_lsn fr) < hi) fs \<and>
     sorted_wrt (<) (map fr_record_lsn fs)"

lemma stream_Nil [simp]: "stream crc v history lo st [] st' hi \<longleftrightarrow> st' = st \<and> lo \<le> hi"
  by (auto simp: stream_def)

lemma stream_snoc:
  assumes "stream crc v history lo st fs st1 hi" and "scan_frame crc history fr st1 = Inr st2"
    and "frame_ok fr" and "fr_format_version fr = v" and "hi \<le> unat (fr_record_lsn fr)"
  shows "stream crc v history lo st (fs @ [fr]) st2 (Suc (unat (fr_record_lsn fr)))"
  using assms by (auto simp: stream_def scan_frames_append list_all_iff sorted_wrt_append word_less_nat_alt)

lemma stream_append:
  assumes "stream crc v history lo st fs st1 mid" and "stream crc v history mid st1 gs st2 hi"
  shows "stream crc v history lo st (fs @ gs) st2 hi"
  using assms by (force simp: stream_def scan_frames_append list_all_iff sorted_wrt_append word_less_nat_alt)

lemma stream_le: "stream crc v history lo st fs st' hi \<Longrightarrow> lo \<le> hi"
  by (simp add: stream_def)

lemma stream_ok: "stream crc v history lo st fs st' hi \<Longrightarrow> scan_ok st \<Longrightarrow> scan_ok st'"
  using scan_frames_ok by (auto simp: stream_def)

text \<open>The first pages of a commit, then all of it.\<close>

definition page_frames :: "u16 \<Rightarrow> wal_commit \<Rightarrow> lsn \<Rightarrow> nat \<Rightarrow> frame list" where
  "page_frames v c first k = map (page_frame v c first) [0..<k]"

definition batch_state :: "wal_commit \<Rightarrow> lsn \<Rightarrow> nat \<Rightarrow> scan_state \<Rightarrow> scan_state" where
  "batch_state c first k st = (if k = 0 then st else
     st\<lparr>sc_pending := Some (opened c first k), sc_highest := wc_batch_id c, sc_max_batch_id := wc_batch_id c\<rparr>)"

definition version_ok :: "u16 \<Rightarrow> bool" where
  "version_ok v \<longleftrightarrow> v = WAL_FORMAT_VERSION \<or> v = LEGACY_WAL_FORMAT_VERSION"

lemma unat_lsn_plus: "unat (first :: lsn) + i < 2 ^ 64 \<Longrightarrow> unat (first + of_nat i) = unat first + i"
  by (simp add: unat_word_ariths unat_of_nat_u64 usize_max_def unat_of_nat take_bit_eq_mod)

lemma page_frames_stream:
  assumes "scan_ok st" and "version_ok v" and "sc_highest st < wc_batch_id c" and "history < first"
    and "unat first + length (wc_pages c) < 2 ^ 64"
    and "k \<le> length (wc_pages c)" and "list_all (valid_page crc l) (take k (wc_pages c))"
  shows "stream crc v history (unat first) st (page_frames v c first k) (batch_state c first k st) (unat first + k)"
  using assms(6,7)
proof (induction k)
  case 0
  then show ?case by (simp add: page_frames_def batch_state_def)
next
  case (Suc k)
  have k: "k < length (wc_pages c)" using Suc.prems(1) by simp
  have valid: "valid_page crc l (wc_pages c ! k)" "list_all (valid_page crc l) (take k (wc_pages c))"
    using Suc.prems(2) k by (simp_all add: take_Suc_conv_app_nth)
  have u: "unat (first + of_nat k) = unat first + k" using assms(5) k by (intro unat_lsn_plus) simp
  have "scan_ok (batch_state c first k st)"
    using assms(1) by (auto simp: batch_state_def scan_ok_def opened_def)
  then have "scan_frame crc history (page_frame v c first k) (batch_state c first k st) =
      Inr (batch_state c first (Suc k) st)"
    using scan_page_frame [OF _ k valid(1), of "batch_state c first k st" history first v] assms(3,4) u
    by (auto simp: batch_state_def word_less_nat_alt)
  moreover have "frame_ok (page_frame v c first k)"
    using valid(1) assms(2) valid_page_length [of crc "wc_pages c ! k"]
    by (simp add: frame_ok_def page_frame_def page_payload_def valid_page_def version_ok_def length_to_le
        WAL_MAX_PAYLOAD_SIZE_def)
  ultimately show ?case
    using stream_snoc [OF Suc.IH [OF _ valid(2)], of "page_frame v c first k"] k u
    by (simp add: page_frames_def page_frame_def)
qed

definition commit_frames :: "crc_fun \<Rightarrow> u16 \<Rightarrow> wal_commit \<Rightarrow> lsn \<Rightarrow> frame list" where
  "commit_frames crc v c first = page_frames v c first (length (wc_pages c)) @ [commit_frame crc v c first]"

definition committed_state :: "wal_commit \<Rightarrow> scan_state \<Rightarrow> scan_state" where
  "committed_state c st = st\<lparr>sc_committed := sc_committed st @ [c], sc_pending := None,
     sc_highest := wc_batch_id c, sc_max_batch_id := wc_batch_id c\<rparr>"

definition commit_ok :: "crc_fun \<Rightarrow> wal_commit \<Rightarrow> lsn \<Rightarrow> bool" where
  "commit_ok crc c first \<longleftrightarrow> wc_pages c \<noteq> [] \<and> length (wc_pages c) < 2 ^ 32 \<and>
     list_all (valid_page crc (wc_commit_lsn c)) (wc_pages c) \<and>
     unat (wc_commit_lsn c) = unat first + length (wc_pages c)"

lemma commit_frames_stream:
  assumes "scan_ok st" and "version_ok v" and "sc_highest st < wc_batch_id c" and "history < first"
    and c: "commit_ok crc c first"
  shows "stream crc v history (unat first) st (commit_frames crc v c first) (committed_state c st)
    (Suc (unat (wc_commit_lsn c)))"
proof -
  let ?n = "length (wc_pages c)"
  have lim: "unat first + ?n < 2 ^ 64"
    using c unat_bound [of "wc_commit_lsn c"] by (simp add: commit_ok_def)
  have pages: "stream crc v history (unat first) st (page_frames v c first ?n) (batch_state c first ?n st) (unat first + ?n)"
    using page_frames_stream [OF assms(1-4) lim order_refl, of crc "wc_commit_lsn c"] c by (simp add: commit_ok_def)
  have "scan_frame crc history (commit_frame crc v c first) (batch_state c first ?n st) = Inr (committed_state c st)"
    using scan_commit_frame [of "batch_state c first ?n st" c crc history first v]
      stream_ok [OF pages assms(1)] c assms(4)
    by (simp add: commit_ok_def batch_state_def committed_state_def word_less_nat_alt)
  moreover have "frame_ok (commit_frame crc v c first)"
    using assms(2) by (simp add: frame_ok_def commit_frame_def commit_payload_def version_ok_def bytes_simps
        WAL_MAX_PAYLOAD_SIZE_def)
  ultimately show ?thesis
    using stream_snoc [OF pages, of "commit_frame crc v c first"] c
    by (simp add: commit_frames_def commit_frame_def commit_ok_def)
qed

end
