(* ===== verification/Dodb_Wal_Append.thy ===== *)
theory Dodb_Wal_Append
  imports Dodb_Wal_Stream
begin

text \<open>
  The append path of the log under every failure of the file and of the fault injector: what
  has reached the file is always a prefix of the bytes of the group, cut anywhere, and the
  invariant of the log holds again after a successful group. On a healthy file and without an
  injector no step fails.
\<close>

section \<open>Appending, whatever fails\<close>

definition wrote :: "('f \<Rightarrow> bytes) \<Rightarrow> ('f \<Rightarrow> bytes) \<Rightarrow> 'f wal_log \<Rightarrow> bytes \<Rightarrow> 'f wal_log \<times> 'i option \<Rightarrow> bool" where
  "wrote content kept w0 bs = (\<lambda>(w, i). \<exists>f. w = w0\<lparr>wl_file := f\<rparr> \<and> kept f = kept (wl_file w0) \<and>
     content f = content (wl_file w0) @ bs)"

lemma triple_hit:
  assumes "\<And>w i j. P (w, i) \<Longrightarrow> P (w, j)" and "\<And>s. P s \<Longrightarrow> E s"
  shows "triple P (wal_hit hit point) (\<lambda>_. P) E"
  using assms by (fastforce simp: triple_def wal_hit_def split: prod.splits sum.splits)

lemma triple_hit_bind:
  assumes "triple P (f ()) Q E" and "\<And>w i j. P (w, i) \<Longrightarrow> P (w, j)" and "\<And>s. P s \<Longrightarrow> E s"
  shows "triple P (sbind (wal_hit hit point) f) Q E"
  using triple_bind [OF triple_hit [of P E hit point], of f Q] assms by simp

lemma wrote_iff [simp]:
  "wrote content kept w0 bs (w0\<lparr>wl_file := f\<rparr>, i) \<longleftrightarrow>
     kept f = kept (wl_file w0) \<and> content f = content (wl_file w0) @ bs"
  unfolding wrote_def by (auto dest: arg_cong [of _ _ wl_file])

lemma wroteE:
  assumes "wrote content kept w0 bs s"
  obtains f i where "s = (w0\<lparr>wl_file := f\<rparr>, i)" "kept f = kept (wl_file w0)" "content f = content (wl_file w0) @ bs"
  using assms by (cases s) (auto simp: wrote_def)

lemma wrote_hit_bind:
  "triple (wrote content kept w0 bs) (f ()) Q E \<Longrightarrow> (\<And>s. wrote content kept w0 bs s \<Longrightarrow> E s) \<Longrightarrow>
   triple (wrote content kept w0 bs) (sbind (wal_hit hit point) f) Q E"
  by (rule triple_hit_bind) (auto simp: wrote_def)

context torn_file
begin

lemma write_piece:
  assumes "a \<le> b" and "b \<le> length F" and "off = length (view (wl_file w0)) + length bs + a"
  shows "triple (wrote view stable w0 (bs @ take a F)) (on_file (wal_write_all_at ops off (seg a b F)))
    (\<lambda>_. wrote view stable w0 (bs @ take b F)) (\<lambda>s. \<exists>k. wrote view stable w0 (bs @ take k F) s)"
proof -
  have step: "(\<forall>u. r = Inr u \<longrightarrow> wrote view stable w0 (bs @ take b F) s') \<and> (\<exists>k. wrote view stable w0 (bs @ take k F) s')"
    if s: "wrote view stable w0 (bs @ take a F) s" and run: "on_file (wal_write_all_at ops off (seg a b F)) s = (r, s')"
    for s r s'
  proof -
    obtain f0 i where f0: "s = (w0\<lparr>wl_file := f0\<rparr>, i)" "stable f0 = stable (wl_file w0)"
      "view f0 = view (wl_file w0) @ bs @ take a F"
      using s by (rule wroteE)
    obtain f where f: "s' = (w0\<lparr>wl_file := f\<rparr>, i)" "wal_write_all_at ops off (seg a b F) f0 = (r, f)"
      using run f0(1) by (auto simp: on_file_def split: prod.splits)
    have "off = length (view f0)" using f0 assms by simp
    from wal_write_all_torn [OF f(2) this] obtain k where "stable f = stable f0" "view f = view f0 @ take k (seg a b F)"
      "r = Inr () \<longrightarrow> view f = view f0 @ seg a b F"
      by blast
    then have "wrote view stable w0 (bs @ take (a + min k (b - a)) F) s'"
      and "r = Inr () \<longrightarrow> wrote view stable w0 (bs @ take b F) s'"
      using f(1) f0 assms(1) by (simp_all add: take_take_seg take_seg_next)
    then show ?thesis by auto
  qed
  then show ?thesis by (intro tripleI) blast+
qed

lemma append_frame_torn:
  assumes v: "fr_format_version fr = wl_format_version w0"
  shows "triple (wrote view stable w0 bs)
    (append_frame ops crc hit (fr_record_type fr) (fr_record_lsn fr) (fr_batch_id fr) (fr_record_index fr) (fr_payload fr))
    (\<lambda>n s. wrote view stable w0 (bs @ frame_bytes crc fr) s \<and> n = length (frame_bytes crc fr))
    (\<lambda>s. \<exists>k. wrote view stable w0 (bs @ take k (frame_bytes crc fr)) s)"
proof -
  define F where "F = frame_bytes crc fr"
  let ?W = "\<lambda>k. wrote view stable w0 (bs @ take k F)" and ?n = "length (fr_payload fr)"
  let ?E = "\<lambda>s. \<exists>k. ?W k s"
  have len: "length F = 52 + ?n" by (simp add: F_def)
  have E: "?E s" if "?W k s" for k s using that by blast
  have W0: "wrote view stable w0 bs = ?W 0" by simp
  have pieces: "seg 0 48 F = take 48 F" "seg (48 + ?n) (length F) F = drop (48 + ?n) F" "take (length F) F = F"
    by (simp_all add: seg_def)
  have fin: "triple (?W (length F)) (sret (length F)) (\<lambda>n s. wrote view stable w0 (bs @ F) s \<and> n = length F) ?E"
    by (rule triple_sret) simp
  have L: "length (view (wl_file w0)) + length bs = off" if "?W 0 s" "file_len ops (wl_file (fst s)) = Inr off" for s off
    using that file_len_ok by (fastforce simp: wrote_def split: prod.splits)
  show ?thesis
    unfolding append_frame_def Let_def get_wal_def W0 F_def [symmetric] WAL_HEADER_SIZE_def
  proof (intro triple_get_bind)
    fix frame off
    let ?P = "\<lambda>s. (?W 0 s \<and> (case s of (w, i) \<Rightarrow> encode_frame crc (wl_format_version w) (fr_record_type fr) (fr_record_lsn fr) (fr_batch_id fr)
        (fr_record_index fr) (fr_payload fr)) = Inr frame) \<and>
      (case s of (w, i) \<Rightarrow> file_len ops (wl_file w)) = Inr off"
    show "triple ?P (sbind (wal_hit hit ''during_wal_header_write'') (\<lambda>_.
       sbind (on_file (wal_write_all_at ops off (take 48 frame))) (\<lambda>_.
       sbind (wal_hit hit ''during_wal_payload_write'') (\<lambda>_.
       sbind (sres (checked_offset InvalidInput off 48)) (\<lambda>payload_offset.
       sbind (on_file (wal_write_all_at ops payload_offset (seg 48 (48 + ?n) frame))) (\<lambda>_.
       sbind (wal_hit hit ''during_wal_trailer_write'') (\<lambda>_.
       sbind (sres (checked_offset InvalidInput off (48 + ?n))) (\<lambda>trailer_offset.
       sbind (on_file (wal_write_all_at ops trailer_offset (drop (48 + ?n) frame))) (\<lambda>_.
       sret (length frame))))))))))
       (\<lambda>n s. wrote view stable w0 (bs @ F) s \<and> n = length F) ?E"
    proof (rule triple_pre [where A = "frame = F \<and> length (view (wl_file w0)) + length bs = off"], goal_cases)
      case (1 s)
      then have "encode_frame crc (wl_format_version w0) (fr_record_type fr) (fr_record_lsn fr) (fr_batch_id fr)
        (fr_record_index fr) (fr_payload fr) = Inr frame"
        by (auto simp: wrote_def)
      then have "frame = F" using v by (cases fr) (auto simp: encode_frame_iff F_def)
      with 1 L [of s off] show ?case by (auto split: prod.splits)
    next
      case 2
      then have frame: "frame = F" and off: "off = length (view (wl_file w0)) + length bs" by simp_all
      have "triple (?W 0) (sbind (wal_hit hit ''during_wal_header_write'') (\<lambda>_.
       sbind (on_file (wal_write_all_at ops off (seg 0 48 F))) (\<lambda>_.
       sbind (wal_hit hit ''during_wal_payload_write'') (\<lambda>_.
       sbind (sres (checked_offset InvalidInput off 48)) (\<lambda>payload_offset.
       sbind (on_file (wal_write_all_at ops payload_offset (seg 48 (48 + ?n) F))) (\<lambda>_.
       sbind (wal_hit hit ''during_wal_trailer_write'') (\<lambda>_.
       sbind (sres (checked_offset InvalidInput off (48 + ?n))) (\<lambda>trailer_offset.
       sbind (on_file (wal_write_all_at ops trailer_offset (seg (48 + ?n) (length F) F))) (\<lambda>_.
       sret (length F))))))))))
       (\<lambda>n s. wrote view stable w0 (bs @ F) s \<and> n = length F) ?E"
        by (intro wrote_hit_bind triple_sres_bind triple_bind [OF write_piece] fin)
          (blast | simp add: len off checked_offset_def split: if_splits)+
      then show ?case unfolding frame pieces by (rule triple_weaken) auto
    qed
  qed blast+
qed

end

text \<open>Where a failure may leave the log: some prefix of the bytes of frames that a scan accepts and
  in which the first \<open>j\<close> of the commits are complete.\<close>

definition log_bytes :: "crc_fun \<Rightarrow> frame list \<Rightarrow> bytes" where
  "log_bytes crc fs = concat (map (frame_bytes crc) fs)"

lemma log_bytes_append [simp]:
  "log_bytes crc [] = []" "log_bytes crc (fs @ gs) = log_bytes crc fs @ log_bytes crc gs"
  "log_bytes crc (fr # fs) = frame_bytes crc fr @ log_bytes crc fs"
  by (simp_all add: log_bytes_def)

definition group_records :: "wal_commit list \<Rightarrow> nat" where
  "group_records commits = sum_list (map (\<lambda>c. length (wc_pages c) + 1) commits)"

definition group_stream :: "crc_fun \<Rightarrow> 'f wal_log \<Rightarrow> scan_state \<Rightarrow> wal_commit list \<Rightarrow> frame list \<Rightarrow> scan_state \<Rightarrow> nat \<Rightarrow> bool" where
  "group_stream crc w0 st commits fs st' j \<longleftrightarrow>
     (\<exists>hi \<le> unat (wl_next_lsn w0) + group_records commits.
        stream crc (wl_format_version w0) (wl_history_start_lsn w0) (unat (wl_next_lsn w0)) st fs st' hi) \<and>
     sc_committed st' = sc_committed st @ take j commits \<and>
     unat (sc_highest st') < unat (wl_next_batch_id w0) + length commits"

definition torn_group :: "('f \<Rightarrow> bytes) \<Rightarrow> ('f \<Rightarrow> bytes) \<Rightarrow> crc_fun \<Rightarrow> 'f wal_log \<Rightarrow> scan_state \<Rightarrow> wal_commit list \<Rightarrow>
    'f wal_log \<times> 'i option \<Rightarrow> bool" where
  "torn_group content kept crc w0 st commits s \<longleftrightarrow> (\<exists>fs st' j k.
     group_stream crc w0 st commits fs st' j \<and> wrote content kept w0 (take k (log_bytes crc fs)) s)"

lemma torn_groupI:
  assumes "group_stream crc w0 st commits (fs @ [fr]) st' j"
    and "\<exists>k. wrote content kept w0 (log_bytes crc fs @ take k (frame_bytes crc fr)) s"
  shows "torn_group content kept crc w0 st commits s"
proof -
  obtain k where "wrote content kept w0 (log_bytes crc fs @ take k (frame_bytes crc fr)) s" using assms(2) by blast
  then have "wrote content kept w0 (take (length (log_bytes crc fs) + k) (log_bytes crc (fs @ [fr]))) s" by simp
  with assms(1) show ?thesis unfolding torn_group_def by blast
qed

lemma torn_group_full:
  assumes "group_stream crc w0 st commits fs st' j" and "wrote content kept w0 (log_bytes crc fs) s"
  shows "torn_group content kept crc w0 st commits s"
  unfolding torn_group_def using assms by (metis order_refl take_all)

lemma page_frames_Suc: "page_frames v c first (Suc k) = page_frames v c first k @ [page_frame v c first k]"
  by (simp add: page_frames_def)

text \<open>The situation before a commit is appended.\<close>

definition group_at :: "crc_fun \<Rightarrow> 'f wal_log \<Rightarrow> scan_state \<Rightarrow> wal_commit list \<Rightarrow> frame list \<Rightarrow> scan_state \<Rightarrow> nat \<Rightarrow> lsn \<Rightarrow> u64 \<Rightarrow> bool" where
  "group_at crc w0 st commits pre stp j first batch \<longleftrightarrow> j \<le> length commits \<and>
     stream crc (wl_format_version w0) (wl_history_start_lsn w0) (unat (wl_next_lsn w0)) st pre stp (unat first) \<and>
     unat first = unat (wl_next_lsn w0) + group_records (take j commits) \<and>
     unat batch = unat (wl_next_batch_id w0) + j \<and>
     sc_committed stp = sc_committed st @ take j commits \<and> scan_ok stp \<and> version_ok (wl_format_version w0) \<and>
     wl_history_start_lsn w0 < first \<and> sc_highest stp < batch"

lemma group_records_take:
  "group_records (take j commits) \<le> group_records commits"
  "j < length commits \<Longrightarrow> group_records (take (Suc j) commits) = group_records (take j commits) + length (wc_pages (commits ! j)) + 1"
proof -
  have "group_records commits = group_records (take j commits) + group_records (drop j commits)"
    by (metis append_take_drop_id group_records_def map_append sum_list_append)
  then show "group_records (take j commits) \<le> group_records commits" by simp
qed (simp add: group_records_def take_Suc_conv_app_nth)

lemma group_records_next:
  "j < length commits \<Longrightarrow> group_records (take j commits) + length (wc_pages (commits ! j)) + 1 \<le> group_records commits"
  using group_records_take [of "Suc j" commits] group_records_take(2) [of j commits] by simp

lemma group_at_stream: "group_at crc w0 st commits pre stp j first batch \<Longrightarrow> group_stream crc w0 st commits pre stp j"
  using group_records_take(1) [of j commits]
  by (auto simp: group_at_def group_stream_def word_less_nat_alt intro!: exI [of _ "unat first"])

lemma group_at_pages:
  assumes at: "group_at crc w0 st commits pre stp j first (wc_batch_id c)" and j: "j < length commits" "commits ! j = c"
    and "unat first + length (wc_pages c) < 2 ^ 64" and "k \<le> length (wc_pages c)"
    and "list_all (valid_page crc l) (take k (wc_pages c))"
  shows "\<exists>st'. group_stream crc w0 st commits (pre @ page_frames (wl_format_version w0) c first k) st' j"
proof -
  have "stream crc (wl_format_version w0) (wl_history_start_lsn w0) (unat first) stp
      (page_frames (wl_format_version w0) c first k) (batch_state c first k stp) (unat first + k)"
    using at assms(4-) by (intro page_frames_stream) (auto simp: group_at_def)
  then have "stream crc (wl_format_version w0) (wl_history_start_lsn w0) (unat (wl_next_lsn w0)) st
      (pre @ page_frames (wl_format_version w0) c first k) (batch_state c first k stp) (unat first + k)"
    using at stream_append by (auto simp: group_at_def)
  moreover have "unat first + k \<le> unat (wl_next_lsn w0) + group_records commits"
    using at assms(5) j group_records_next [of j commits] by (auto simp: group_at_def)
  moreover have "unat (sc_highest (batch_state c first k stp)) < unat (wl_next_batch_id w0) + length commits"
    using at j by (auto simp: group_at_def batch_state_def word_less_nat_alt)
  moreover have "sc_committed (batch_state c first k stp) = sc_committed st @ take j commits"
    using at by (simp add: group_at_def batch_state_def)
  ultimately show ?thesis by (auto simp: group_stream_def)
qed

lemma group_at_commit:
  assumes at: "group_at crc w0 st commits pre stp j first (wc_batch_id c)" and ok: "commit_ok crc c first"
    and j: "j < length commits" "commits ! j = c"
  shows "group_stream crc w0 st commits (pre @ commit_frames crc (wl_format_version w0) c first) (committed_state c stp) (Suc j)"
    and "unat l = Suc (unat (wc_commit_lsn c)) \<Longrightarrow> unat b = Suc (unat (wc_batch_id c)) \<Longrightarrow>
      group_at crc w0 st commits (pre @ commit_frames crc (wl_format_version w0) c first) (committed_state c stp) (Suc j) l b"
proof -
  have "stream crc (wl_format_version w0) (wl_history_start_lsn w0) (unat first) stp
      (commit_frames crc (wl_format_version w0) c first) (committed_state c stp) (Suc (unat (wc_commit_lsn c)))"
    using at ok by (intro commit_frames_stream) (auto simp: group_at_def)
  then have s: "stream crc (wl_format_version w0) (wl_history_start_lsn w0) (unat (wl_next_lsn w0)) st
      (pre @ commit_frames crc (wl_format_version w0) c first) (committed_state c stp) (Suc (unat (wc_commit_lsn c)))"
    using at stream_append by (auto simp: group_at_def)
  have lsn: "Suc (unat (wc_commit_lsn c)) = unat (wl_next_lsn w0) + group_records (take (Suc j) commits)"
    using at ok j by (simp add: group_at_def commit_ok_def group_records_take(2))
  have c: "sc_committed (committed_state c stp) = sc_committed st @ take (Suc j) commits" "scan_ok (committed_state c stp)"
    using at j by (simp_all add: group_at_def committed_state_def scan_ok_def take_Suc_conv_app_nth)
  show "group_stream crc w0 st commits (pre @ commit_frames crc (wl_format_version w0) c first) (committed_state c stp) (Suc j)"
    using s lsn c at j group_records_take(1) [of "Suc j" commits]
    by (auto simp: group_stream_def group_at_def committed_state_def intro!: exI [of _ "Suc (unat (wc_commit_lsn c))"])
  show "group_at crc w0 st commits (pre @ commit_frames crc (wl_format_version w0) c first) (committed_state c stp) (Suc j) l b"
    if nxt: "unat l = Suc (unat (wc_commit_lsn c))" "unat b = Suc (unat (wc_batch_id c))"
    using s lsn c at j nxt ok
    by (auto simp: group_at_def committed_state_def word_less_nat_alt commit_ok_def)
qed

context torn_file
begin

lemma append_frame_grows:
  fixes w0 :: "'f wal_log"
  assumes "group_stream crc w0 st commits (fs @ [fr]) st' j" and "fr_format_version fr = wl_format_version w0"
  shows "triple (wrote view stable w0 (log_bytes crc fs))
    (append_frame ops crc hit (fr_record_type fr) (fr_record_lsn fr) (fr_batch_id fr) (fr_record_index fr) (fr_payload fr))
    (\<lambda>n. wrote view stable w0 (log_bytes crc (fs @ [fr]))) (torn_group view stable crc w0 st commits)"
  using append_frame_torn [OF assms(2), of "log_bytes crc fs" crc hit]
  by (rule triple_weaken) (auto intro: torn_groupI [OF assms(1)])

lemma append_pages_torn:
  fixes w0 :: "'f wal_log"
  assumes at: "group_at crc w0 st commits pre stp j first (wc_batch_id c)" and j: "j < length commits" "commits ! j = c"
    and lim: "unat first + length (wc_pages c) < 2 ^ 64"
    and "drop index (wc_pages c) = pages" and "index \<le> length (wc_pages c)"
    and "list_all (valid_page crc (wc_commit_lsn c)) (take index (wc_pages c))"
    and "digest = concat (map page_payload (take index (wc_pages c)))"
  shows "triple (wrote view stable w0 (log_bytes crc (pre @ page_frames (wl_format_version w0) c first index)))
    (append_pages ops crc hit c first index pages digest written)
    (\<lambda>(d, n) s. wrote view stable w0 (log_bytes crc (pre @ page_frames (wl_format_version w0) c first (length (wc_pages c)))) s \<and>
       d = concat (map page_payload (wc_pages c)) \<and> list_all (valid_page crc (wc_commit_lsn c)) (wc_pages c))
    (torn_group view stable crc w0 st commits)"
  using assms(5-)
proof (induction pages arbitrary: index digest written)
  case Nil
  then have "index = length (wc_pages c)" by simp
  with Nil show ?case unfolding append_pages.simps by (intro triple_sret) simp
next
  case (Cons page pages)
  let ?v = "wl_format_version w0"
  have i: "index < length (wc_pages c)" "page = wc_pages c ! index" "pages = drop (Suc index) (wc_pages c)"
    using drop_eq_Cons [OF Cons.prems(1)] by simp_all
  let ?P = "wrote view stable w0 (log_bytes crc (pre @ page_frames ?v c first index))"
  have E: "torn_group view stable crc w0 st commits s" if "?P s" for s
    using group_at_pages [OF at j lim Cons.prems(2,3)] torn_group_full that by blast
  show ?case
    unfolding append_pages.simps
  proof ((rule triple_sres_bind, erule E)+, goal_cases)
    case (1 u payload record_lsn u')
    have valid: "valid_page crc (wc_commit_lsn c) page" and payload: "payload = page_payload page"
      using 1 by (auto simp: valid_page_def encode_page_image_def page_payload_def result_iff)
    have lsn: "record_lsn = first + of_nat index" using 1 by (auto simp: result_iff checked_add_u64_def split: if_splits)
    let ?fr = "page_frame ?v c first index"
    have valid': "list_all (valid_page crc (wc_commit_lsn c)) (take (Suc index) (wc_pages c))"
      using valid Cons.prems(3) i by (simp add: take_Suc_conv_app_nth)
    obtain st' where st': "group_stream crc w0 st commits (pre @ page_frames ?v c first index @ [?fr]) st' j"
      using group_at_pages [OF at j lim _ valid'] i by (auto simp: page_frames_Suc)
    have "triple ?P (append_frame ops crc hit PageImageRecord record_lsn (wc_batch_id c) (of_nat index) payload)
        (\<lambda>n. wrote view stable w0 (log_bytes crc (pre @ page_frames ?v c first (Suc index)))) (torn_group view stable crc w0 st commits)"
      using append_frame_grows [of crc w0 st commits "pre @ page_frames ?v c first index" ?fr st' j hit] st'
      by (simp add: page_frame_def page_frames_Suc lsn payload i)
    then show ?case
    proof (rule triple_bind, intro triple_sres_bind)
      fix n n' s
      show "torn_group view stable crc w0 st commits s"
        if "wrote view stable w0 (log_bytes crc (pre @ page_frames ?v c first (Suc index))) s"
        using st' that by (intro torn_group_full) (auto simp: page_frames_Suc)
      show "triple (wrote view stable w0 (log_bytes crc (pre @ page_frames ?v c first (Suc index))))
         (append_pages ops crc hit c first (index + 1) pages (digest @ payload) n')
         (\<lambda>(d, n) s. wrote view stable w0 (log_bytes crc (pre @ page_frames ?v c first (length (wc_pages c)))) s \<and>
           d = concat (map page_payload (wc_pages c)) \<and> list_all (valid_page crc (wc_commit_lsn c)) (wc_pages c))
         (torn_group view stable crc w0 st commits)"
        using Cons.IH [of "Suc index" "digest @ payload" n'] valid' i Cons.prems(4) payload
        by (simp add: take_Suc_conv_app_nth)
    qed
  qed
qed

lemma append_group_commit_torn:
  fixes w0 :: "'f wal_log"
  assumes at: "group_at crc w0 st commits pre stp j first batch" and j: "j < length commits" "commits ! j = c"
  shows "triple (wrote view stable w0 (log_bytes crc pre)) (append_group_commit ops crc hit c first batch)
    (\<lambda>report s. wrote view stable w0 (log_bytes crc (pre @ commit_frames crc (wl_format_version w0) c first)) s \<and>
       commit_ok crc c first \<and> wc_batch_id c = batch \<and>
       report = \<lparr>ar_first_record_lsn = first, ar_commit_lsn = wc_commit_lsn c, ar_page_count = length (wc_pages c),
         ar_bytes_written = ar_bytes_written report\<rparr>)
    (torn_group view stable crc w0 st commits)"
proof -
  let ?v = "wl_format_version w0" and ?n = "length (wc_pages c)"
  let ?P = "wrote view stable w0 (log_bytes crc pre)" and ?E = "torn_group view stable crc w0 st commits"
  let ?pages = "pre @ page_frames ?v c first ?n"
  have E: "?E s" if "?P s" for s
    using torn_group_full [OF group_at_stream [OF at] that] .
  show ?thesis
    unfolding append_group_commit_def Let_def
  proof ((rule triple_sres_bind, erule E)+, goal_cases)
    case (1 u u1 expected u2 u3)
    then have ne: "wc_pages c \<noteq> []" and batch: "wc_batch_id c = batch" by (auto simp: result_iff)
    have len: "?n \<le> usize_max" using 1(5) by (auto simp: result_iff checked_mul_usize_def split: if_splits)
    have lsn: "unat (wc_commit_lsn c) = unat first + ?n" "unat first + ?n < 2 ^ 64"
      using 1 len by (auto simp: result_iff checked_add_u64_Some unat_of_nat_u64)
    have at': "group_at crc w0 st commits pre stp j first (wc_batch_id c)" using at batch by simp
    have pages: "triple ?P (append_pages ops crc hit c first 0 (wc_pages c) [] 0)
      (\<lambda>(d, n) s. wrote view stable w0 (log_bytes crc ?pages) s \<and> d = concat (map page_payload (wc_pages c)) \<and>
         list_all (valid_page crc (wc_commit_lsn c)) (wc_pages c)) ?E"
      using append_pages_torn [OF at' j lsn(2), of 0 "wc_pages c" "[]" hit 0] by (simp add: page_frames_def)
    show ?case
    proof (rule triple_bind [OF pages], clarsimp simp del: log_bytes_append)
      fix written
      let ?W = "wrote view stable w0 (log_bytes crc ?pages)"
      let ?fr = "commit_frame crc ?v c first"
      show "triple (\<lambda>s. ?W s \<and> d = concat (map page_payload (wc_pages c)) \<and> list_all (valid_page crc (wc_commit_lsn c)) (wc_pages c))
        (sbind (wal_hit hit ''after_page_images_written'') (\<lambda>_.
         sbind (sres (ensure (?n < 4294967296) InvalidInput)) (\<lambda>_.
         sbind (wal_hit hit ''before_commit_record'') (\<lambda>_.
         sbind (append_frame ops crc hit CommitRecord (wc_commit_lsn c) (wc_batch_id c) (of_nat ?n) (commit_payload first ?n (crc d))) (\<lambda>n.
         sbind (sres (ok_or (checked_add_usize written n) InternalInvariantViolation)) (\<lambda>bytes_written.
         sbind (wal_hit hit ''after_commit_record_write'') (\<lambda>_.
         sret \<lparr>ar_first_record_lsn = first, ar_commit_lsn = wc_commit_lsn c, ar_page_count = ?n, ar_bytes_written = bytes_written\<rparr>)))))))
        (\<lambda>report s. wrote view stable w0 (log_bytes crc (pre @ commit_frames crc ?v c first)) s \<and>
          commit_ok crc c first \<and> wc_batch_id c = batch \<and>
          report = \<lparr>ar_first_record_lsn = first, ar_commit_lsn = wc_commit_lsn c, ar_page_count = ?n,
            ar_bytes_written = ar_bytes_written report\<rparr>) ?E" for d
      proof (rule triple_pre [where A = "d = concat (map page_payload (wc_pages c)) \<and> list_all (valid_page crc (wc_commit_lsn c)) (wc_pages c)"], goal_cases)
        case 2
        obtain stp' where stp': "group_stream crc w0 st commits ?pages stp' j"
          using group_at_pages [OF at' j lsn(2) order_refl, of "wc_commit_lsn c"] 2 by auto
        have E1: "?E s" if "?W s" for s using torn_group_full [OF stp' that] .
        have "triple ?W (sbind (wal_hit hit ''after_page_images_written'') (\<lambda>_.
         sbind (sres (ensure (?n < 4294967296) InvalidInput)) (\<lambda>_.
         sbind (wal_hit hit ''before_commit_record'') (\<lambda>_.
         sbind (append_frame ops crc hit CommitRecord (wc_commit_lsn c) (wc_batch_id c) (of_nat ?n) (commit_payload first ?n (crc d))) (\<lambda>n.
         sbind (sres (ok_or (checked_add_usize written n) InternalInvariantViolation)) (\<lambda>bytes_written.
         sbind (wal_hit hit ''after_commit_record_write'') (\<lambda>_.
         sret \<lparr>ar_first_record_lsn = first, ar_commit_lsn = wc_commit_lsn c, ar_page_count = ?n, ar_bytes_written = bytes_written\<rparr>)))))))
        (\<lambda>report s. wrote view stable w0 (log_bytes crc (pre @ commit_frames crc ?v c first)) s \<and>
          commit_ok crc c first \<and> wc_batch_id c = batch \<and>
          report = \<lparr>ar_first_record_lsn = first, ar_commit_lsn = wc_commit_lsn c, ar_page_count = ?n,
            ar_bytes_written = ar_bytes_written report\<rparr>) ?E"
        proof (rule wrote_hit_bind [OF triple_sres_bind [OF _ wrote_hit_bind]], erule E1, goal_cases)
          case (1 u)
          then have ok: "commit_ok crc c first" using 2 ne lsn by (auto simp: commit_ok_def result_iff)
          note full = group_at_commit(1) [OF at' ok j]
          have "triple ?W (append_frame ops crc hit CommitRecord (wc_commit_lsn c) (wc_batch_id c) (of_nat ?n) (commit_payload first ?n (crc d)))
             (\<lambda>n. wrote view stable w0 (log_bytes crc (pre @ commit_frames crc ?v c first))) ?E"
            using append_frame_grows [of crc w0 st commits ?pages ?fr _ "Suc j" hit] full 2
            by (simp add: commit_frames_def commit_frame_def)
          then show ?case
            using ok batch torn_group_full [OF full]
            by (intro triple_bind [of ?W _ "\<lambda>n. wrote view stable w0 (log_bytes crc (pre @ commit_frames crc ?v c first))"]
                triple_sres_bind wrote_hit_bind triple_sret) auto
        qed (use E1 in auto)
        then show ?case by (rule triple_weaken) auto
      qed simp
    qed
  qed
qed

lemma append_commits_torn:
  fixes w0 :: "'f wal_log"
  assumes "group_at crc w0 st commits pre stp j next_lsn next_batch_id" and "drop j commits = cs" and "j \<le> length commits"
  shows "triple (wrote view stable w0 (log_bytes crc pre)) (append_commits ops crc hit cs next_lsn next_batch_id)
    (\<lambda>(reports, l, b) s. map ar_commit_lsn reports = map wc_commit_lsn cs \<and>
       (\<exists>fs st'. group_at crc w0 st commits fs st' (length commits) l b \<and> wrote view stable w0 (log_bytes crc fs) s))
    (torn_group view stable crc w0 st commits)"
  using assms
proof (induction cs arbitrary: pre stp j next_lsn next_batch_id)
  case Nil
  then have "j = length commits" by simp
  with Nil.prems(1) show ?case unfolding append_commits.simps by (intro triple_sret) auto
next
  case (Cons c cs)
  have j: "j < length commits" "commits ! j = c" "drop (Suc j) commits = cs"
    using drop_eq_Cons [OF Cons.prems(2)] by simp_all
  let ?fs = "pre @ commit_frames crc (wl_format_version w0) c next_lsn"
  let ?E = "torn_group view stable crc w0 st commits"
  show ?case
    unfolding append_commits.simps
  proof (rule triple_bind [OF append_group_commit_torn [OF Cons.prems(1) j(1,2)]], goal_cases)
    case (1 report)
    show ?case
    proof (rule triple_pre [where A = "commit_ok crc c next_lsn \<and> wc_batch_id c = next_batch_id \<and> ar_commit_lsn report = wc_commit_lsn c"],
        goal_cases)
      case (1 s)
      then show ?case by (metis wal_append_report.select_convs(2))
    next
      case 2
      then have at: "group_at crc w0 st commits pre stp j next_lsn (wc_batch_id c)" and ok: "commit_ok crc c next_lsn"
        using Cons.prems(1) by simp_all
      have E: "?E s" if "wrote view stable w0 (log_bytes crc ?fs) s" for s
        using torn_group_full [OF group_at_commit(1) [OF at ok j(1,2)] that] .
      have "triple (wrote view stable w0 (log_bytes crc ?fs))
         (sbind (sres (ok_or (checked_add_u64 (ar_commit_lsn report) 1) InternalInvariantViolation)) (\<lambda>next_lsn'.
          sbind (sres (ok_or (checked_add_u64 next_batch_id 1) InternalInvariantViolation)) (\<lambda>next_batch_id'.
          sbind (append_commits ops crc hit cs next_lsn' next_batch_id') (\<lambda>(reports, l, b). sret (report # reports, l, b)))))
         (\<lambda>(reports, l, b) s. map ar_commit_lsn reports = map wc_commit_lsn (c # cs) \<and>
            (\<exists>fs st'. group_at crc w0 st commits fs st' (length commits) l b \<and> wrote view stable w0 (log_bytes crc fs) s)) ?E"
      proof ((rule triple_sres_bind, erule E)+, goal_cases)
        case (1 l b)
        then have "unat l = Suc (unat (wc_commit_lsn c))" "unat b = Suc (unat (wc_batch_id c))"
          using 2 by (auto simp: result_iff checked_add_u64_Some)
        note IH = Cons.IH [OF group_at_commit(2) [OF at ok j(1,2) this] j(3) Suc_leI [OF j(1)]]
        show ?case by (rule triple_bind [OF IH]) (use 2 in \<open>clarsimp simp: triple_def, blast\<close>)
      qed
      then show ?case by (rule triple_weaken) auto
    qed
  qed
qed

end

section \<open>The invariant of a log\<close>

text \<open>The initialization record of a log, in the current and in the legacy version.\<close>

definition init_frame :: "u16 \<Rightarrow> wal_identity \<Rightarrow> lsn \<Rightarrow> frame" where
  "init_frame v identity history =
     \<lparr>fr_format_version = v, fr_record_type = InitRecord, fr_record_lsn = 0, fr_batch_id = 0, fr_record_index = 0,
      fr_payload = (if v = LEGACY_WAL_FORMAT_VERSION then take LEGACY_INIT_PAYLOAD_SIZE (identity_payload identity history)
                    else identity_payload identity history)\<rparr>"

definition identity_ok :: "u16 \<Rightarrow> wal_identity \<Rightarrow> lsn \<Rightarrow> bool" where
  "identity_ok v identity history \<longleftrightarrow> version_ok v \<and> length (wi_database_uuid identity) = 16 \<and>
     (v = LEGACY_WAL_FORMAT_VERSION \<longrightarrow> history = 0)"

text \<open>A log whose file holds exactly the initialization record and the frames \<open>fs\<close>, all of it
  stable, with the in-memory fields of the source in agreement.\<close>

definition wal_inv :: "('f \<Rightarrow> bytes) \<Rightarrow> ('f \<Rightarrow> bytes) \<Rightarrow> crc_fun \<Rightarrow> 'f wal_log \<Rightarrow> frame list \<Rightarrow> scan_state \<Rightarrow> bool" where
  "wal_inv content kept crc w fs st \<longleftrightarrow>
     identity_ok (wl_format_version w) (wl_identity w) (wl_history_start_lsn w) \<and>
     content (wl_file w) =
       log_bytes crc (init_frame (wl_format_version w) (wl_identity w) (wl_history_start_lsn w) # fs) \<and>
     kept (wl_file w) = content (wl_file w) \<and>
     stream crc (wl_format_version w) (wl_history_start_lsn w) 1 scan_start fs st (unat (wl_next_lsn w)) \<and>
     wl_committed w = sc_committed st \<and> sc_highest st < wl_next_batch_id w"

text \<open>What a failed append leaves in the file.\<close>

definition torn_log :: "('f \<Rightarrow> bytes) \<Rightarrow> ('f \<Rightarrow> bytes) \<Rightarrow> crc_fun \<Rightarrow> 'f wal_log \<Rightarrow> scan_state \<Rightarrow> wal_commit list \<Rightarrow> 'f \<Rightarrow> bool" where
  "torn_log content kept crc w0 st commits f \<longleftrightarrow> (\<exists>fs st' j k.
     group_stream crc w0 st commits fs st' j \<and>
     content f = content (wl_file w0) @ take k (log_bytes crc fs) \<and>
     (kept f = kept (wl_file w0) \<or> kept f = content f))"

lemma torn_group_log:
  "torn_group content kept crc w0 st commits s \<Longrightarrow> torn_log content kept crc w0 st commits (wl_file (fst s))"
  unfolding torn_group_def torn_log_def wrote_def by (fastforce split: prod.splits)

text \<open>The state while a group is being made durable.\<close>

definition group_written :: "('f \<Rightarrow> bytes) \<Rightarrow> ('f \<Rightarrow> bytes) \<Rightarrow> crc_fun \<Rightarrow> 'f wal_log \<Rightarrow> frame list \<Rightarrow> bool \<Rightarrow> 'f wal_log \<times> 'i option \<Rightarrow> bool" where
  "group_written content kept crc w0 fs synced = (\<lambda>(w, i).
     wl_identity w = wl_identity w0 \<and> wl_format_version w = wl_format_version w0 \<and>
     wl_history_start_lsn w = wl_history_start_lsn w0 \<and> wl_committed w = wl_committed w0 \<and>
     content (wl_file w) = content (wl_file w0) @ log_bytes crc fs \<and>
     kept (wl_file w) = (if synced then content (wl_file w) else kept (wl_file w0)))"

lemma triple_mod_bind:
  "(\<And>w i. P (w, i) \<Longrightarrow> R (g w, i)) \<Longrightarrow> triple R (f ()) Q E \<Longrightarrow> triple P (sbind (mod_wal g) f) Q E"
  by (auto simp: triple_def sbind_def mod_wal_def)

lemma triple_get_wal_bind:
  "(\<And>s. P s \<Longrightarrow> E s) \<Longrightarrow> (\<And>x. triple P (f x) Q E) \<Longrightarrow> triple P (sbind (get_wal g) f) Q E"
  by (force simp: triple_def sbind_def get_wal_def split: sum.splits prod.splits)

lemma group_written_hit_bind:
  "triple (group_written content kept crc w0 fs synced) (f ()) Q E \<Longrightarrow>
   (\<And>s. group_written content kept crc w0 fs synced s \<Longrightarrow> E s) \<Longrightarrow>
   triple (group_written content kept crc w0 fs synced) (sbind (wal_hit hit point) f) Q E"
  by (rule triple_hit_bind) (auto simp: group_written_def)

lemma wrote_group_written:
  "wrote content kept w0 (log_bytes crc fs) s \<Longrightarrow> group_written content kept crc w0 fs False s"
  by (auto simp: wrote_def group_written_def)

lemma full_torn_log:
  assumes "group_at crc w0 st commits fs st' (length commits) l b"
    and "content f = content (wl_file w0) @ log_bytes crc fs" and "kept f = kept (wl_file w0) \<or> kept f = content f"
  shows "torn_log content kept crc w0 st commits f"
  unfolding torn_log_def
  by (rule exI [of _ fs], rule exI [of _ st'], rule exI [of _ "length commits"],
      rule exI [of _ "length (log_bytes crc fs)"]) (use assms(2,3) group_at_stream [OF assms(1)] in simp)

lemma group_written_log:
  assumes "group_at crc w0 st commits fs st' (length commits) l b"
    and "group_written content kept crc w0 fs synced s"
  shows "torn_log content kept crc w0 st commits (wl_file (fst s))"
  by (rule full_torn_log [OF assms(1)]) (use assms(2) in \<open>auto simp: group_written_def split: prod.splits if_splits\<close>)

lemma publish_group_inv:
  assumes at: "group_at crc w0 st commits fs st' (length commits) l b"
    and inv: "wal_inv content kept crc w0 frs st"
  shows "triple (group_written content kept crc w0 fs True) (publish_group commits l b)
    (\<lambda>_ s. wal_inv content kept crc (fst s) (frs @ fs) st' \<and> wl_committed (fst s) = wl_committed w0 @ commits \<and>
       wl_history_start_lsn (fst s) < wl_next_lsn (fst s) \<and> wl_identity (fst s) = wl_identity w0 \<and>
       wl_format_version (fst s) = wl_format_version w0 \<and> wl_history_start_lsn (fst s) = wl_history_start_lsn w0)
    (\<lambda>s. torn_log content kept crc w0 st commits (wl_file (fst s)))"
proof -
  have s: "stream crc (wl_format_version w0) (wl_history_start_lsn w0) 1 scan_start (frs @ fs) st' (unat l)"
    using inv at stream_append by (auto simp: wal_inv_def group_at_def)
  show ?thesis
  proof (rule tripleI, goal_cases)
    case (1 r x r')
    with inv at s show ?case
      by (auto simp: publish_group_def mod_wal_def get_wal_def result_iff group_written_def wal_inv_def group_at_def)
  next
    case (2 r e r')
    then have "wl_file (fst r') = wl_file (fst r)"
      by (auto simp: publish_group_def mod_wal_def get_wal_def result_iff sbind_Inl_iff split: prod.splits)
    with group_written_log [OF at 2(1)] show ?case by simp
  qed
qed

context torn_file
begin

lemma sync_failed:
  "sync_data ops s = (Inl e, s') \<Longrightarrow> view s' = view s \<and> (stable s' = stable s \<or> stable s' = view s)"
  using sync_err sync_torn by blast

lemma group_sync:
  fixes w0 :: "'f wal_log"
  assumes at: "group_at crc w0 st commits fs st' (length commits) l b"
  shows "triple (group_written view stable crc w0 fs False) (on_file (smap_err (\<lambda>_. DurabilityFailure) (sync_data ops)))
     (\<lambda>_. group_written view stable crc w0 fs True) (\<lambda>s. torn_log view stable crc w0 st commits (wl_file (fst s)))"
proof (rule tripleI, goal_cases)
  case (1 s x s')
  then show ?case
    by (auto simp: on_file_def group_written_def result_iff dest: sync_ok split: prod.splits)
next
  case (2 s e s')
  then show ?case
    by (auto simp: on_file_def group_written_def smap_err_Inl_iff dest!: sync_failed split: prod.splits
        intro!: full_torn_log [OF at])
qed

lemma group_durable:
  fixes w0 :: "'f wal_log"
  assumes inv: "wal_inv view stable crc w0 frs st"
    and at: "group_at crc w0 st commits fs st' (length commits) l b"
  shows "triple (group_written view stable crc w0 fs False)
     (sbind (get_wal (\<lambda>w. rbind (elapsed_nanos t1) (\<lambda>t. ok_or (checked_add_u64 (wl_append_nanos w) t) InternalInvariantViolation))) (\<lambda>nanos.
     sbind (mod_wal (\<lambda>w. w\<lparr>wl_append_nanos := nanos\<rparr>)) (\<lambda>_.
     sbind (wal_hit hit ''after_group_records_written'') (\<lambda>_.
     sbind (wal_hit hit ''before_wal_sync'') (\<lambda>_.
     sbind (wal_hit hit ''during_wal_sync'') (\<lambda>_.
     sbind (on_file (smap_err (\<lambda>_. DurabilityFailure) (sync_data ops))) (\<lambda>_.
     sbind (get_wal (\<lambda>w. rbind (elapsed_nanos t2) (\<lambda>t. ok_or (checked_add_u64 (wl_sync_nanos w) t) InternalInvariantViolation))) (\<lambda>nanos.
     sbind (mod_wal (\<lambda>w. w\<lparr>wl_sync_nanos := nanos\<rparr>)) (\<lambda>_.
     sbind (get_wal (\<lambda>w. ok_or (checked_add_u64 (wl_sync_count w) 1) InternalInvariantViolation)) (\<lambda>syncs.
     sbind (mod_wal (\<lambda>w. w\<lparr>wl_sync_count := syncs\<rparr>)) (\<lambda>_.
     sbind (wal_hit hit ''after_wal_sync'') (\<lambda>_.
     sbind (publish_group commits l b) (\<lambda>_. sret reports)))))))))))))
     (\<lambda>r s. r = reports \<and> (\<exists>fs st'. wal_inv view stable crc (fst s) (frs @ fs) st') \<and> wl_committed (fst s) = wl_committed w0 @ commits \<and>
       wl_history_start_lsn (fst s) < wl_next_lsn (fst s) \<and> wl_identity (fst s) = wl_identity w0 \<and>
       wl_format_version (fst s) = wl_format_version w0 \<and> wl_history_start_lsn (fst s) = wl_history_start_lsn w0)
     (\<lambda>s. torn_log view stable crc w0 st commits (wl_file (fst s)))"
  by (intro triple_get_wal_bind triple_mod_bind [where R = "group_written view stable crc w0 fs False"]
      triple_mod_bind [where R = "group_written view stable crc w0 fs True"]
      group_written_hit_bind triple_bind [OF group_sync [OF at]] triple_bind [OF publish_group_inv [OF at inv]] triple_sret
      group_written_log [OF at])
    (auto simp: group_written_def)

lemma append_group_torn:
  fixes w0 :: "'f wal_log"
  assumes inv: "wal_inv view stable crc w0 frs st" and ready: "wl_history_start_lsn w0 < wl_next_lsn w0"
  shows "triple (\<lambda>s. fst s = w0) (append_group ops crc hit t1 t2 commits)
    (\<lambda>reports s. map ar_commit_lsn reports = map wc_commit_lsn commits \<and>
       (\<exists>fs st'. wal_inv view stable crc (fst s) (frs @ fs) st') \<and> wl_committed (fst s) = wl_committed w0 @ commits \<and>
       wl_history_start_lsn (fst s) < wl_next_lsn (fst s) \<and> wl_identity (fst s) = wl_identity w0 \<and>
       wl_format_version (fst s) = wl_format_version w0 \<and> wl_history_start_lsn (fst s) = wl_history_start_lsn w0)
    (\<lambda>s. torn_log view stable crc w0 st commits (wl_file (fst s)))"
proof -
  let ?E = "\<lambda>s. torn_log view stable crc w0 st commits (wl_file (fst s))"
  have ok: "scan_ok st" using inv stream_ok scan_start_ok by (auto simp: wal_inv_def)
  have at: "group_at crc w0 st commits [] st 0 (wl_next_lsn w0) (wl_next_batch_id w0)"
    using inv ready ok by (auto simp: wal_inv_def group_at_def identity_ok_def group_records_def)
  have E: "?E s" if "torn_group view stable crc w0 st commits s" for s using torn_group_log [OF that] .
  have E0: "?E s" if "wrote view stable w0 (log_bytes crc []) s" for s
    using E [OF torn_group_full [OF group_at_stream [OF at] that]] .
  have "triple (wrote view stable w0 (log_bytes crc [])) (append_group ops crc hit t1 t2 commits)
    (\<lambda>reports s. map ar_commit_lsn reports = map wc_commit_lsn commits \<and>
       (\<exists>fs st'. wal_inv view stable crc (fst s) (frs @ fs) st') \<and> wl_committed (fst s) = wl_committed w0 @ commits \<and>
       wl_history_start_lsn (fst s) < wl_next_lsn (fst s) \<and> wl_identity (fst s) = wl_identity w0 \<and>
       wl_format_version (fst s) = wl_format_version w0 \<and> wl_history_start_lsn (fst s) = wl_history_start_lsn w0) ?E"
    unfolding append_group_def
    proof (rule triple_sres_bind [OF E0 wrote_hit_bind [OF _ E0]], assumption,
        unfold get_wal_def, rule triple_get_known [where x = "(wl_next_lsn w0, wl_next_batch_id w0)"],
        unfold get_wal_def [symmetric] split_conv, goal_cases)
      case (2 u)
      have "triple (wrote view stable w0 (log_bytes crc []))
          (append_commits ops crc hit commits (wl_next_lsn w0) (wl_next_batch_id w0))
          (\<lambda>(reports, l, b) s. \<exists>fs st'. map ar_commit_lsn reports = map wc_commit_lsn commits \<and>
             group_at crc w0 st commits fs st' (length commits) l b \<and> group_written view stable crc w0 fs False s) ?E"
        by (rule triple_weaken [OF append_commits_torn [OF at]])
          (use wrote_group_written E in \<open>fastforce+\<close>)
      then show ?case
        by (rule triple_bind, clarify)
          (intro triple_ex triple_conj triple_weaken [OF group_durable [OF inv]], auto)
    qed (auto simp: wrote_def E0)
  then show ?thesis
    by (rule triple_weaken) (auto simp: wrote_def intro!: exI [of _ "wl_file w0"] split: prod.splits)
qed

end

section \<open>Without faults nothing fails\<close>

context reliable_file
begin

lemma wal_append_total:
  assumes "healthy f" and "off = length (view f)" and "off + length bs < u64_limit"
  shows "\<exists>f'. wal_write_all_at ops off bs f = (Inr (), f') \<and> healthy f' \<and> view f' = view f @ bs \<and> stable f' = stable f"
  using wal_write_all_at_total [OF assms(1) _ assms(3)] assms(2) by (simp add: blit_end)

lemma append_frame_total:
  fixes w :: "'f wal_log"
  assumes f: "healthy (wl_file w)" and p: "length (fr_payload fr) \<le> WAL_MAX_PAYLOAD_SIZE"
    and v: "fr_format_version fr = wl_format_version w"
    and room: "length (view (wl_file w)) + 52 + length (fr_payload fr) < u64_limit"
  shows "\<exists>f'. append_frame ops crc hit (fr_record_type fr) (fr_record_lsn fr) (fr_batch_id fr) (fr_record_index fr) (fr_payload fr) (w, None) =
      (Inr (length (frame_bytes crc fr)), (w\<lparr>wl_file := f'\<rparr>, None)) \<and>
    healthy f' \<and> view f' = view (wl_file w) @ frame_bytes crc fr \<and> stable f' = stable (wl_file w)"
proof -
  let ?n = "length (fr_payload fr)" and ?V = "view (wl_file w)" and ?F = "frame_bytes crc fr"
  have len: "length ?F = 52 + ?n" by simp
  have enc: "encode_frame crc (wl_format_version w) (fr_record_type fr) (fr_record_lsn fr) (fr_batch_id fr) (fr_record_index fr) (fr_payload fr) = Inr ?F"
    using p v by (cases fr) (simp add: encode_frame_iff)
  have room': "length ?V + length (take 48 ?F) < u64_limit" "length ?V + 48 + length (seg 48 (48 + ?n) ?F) < u64_limit"
    "length ?V + (48 + ?n) + length (drop (48 + ?n) ?F) < u64_limit"
    using room by (simp_all add: length_seg)
  have cut: "take 48 ?F @ seg 48 (48 + ?n) ?F = take (48 + ?n) ?F" by (rule take_seg_next) simp
  obtain f1 where f1: "wal_write_all_at ops (length ?V) (take 48 ?F) (wl_file w) = (Inr (), f1)" "healthy f1"
    "view f1 = ?V @ take 48 ?F" "stable f1 = stable (wl_file w)"
    using wal_append_total [OF f refl room'(1)] by blast
  have l1: "length ?V + 48 = length (view f1)" unfolding f1(3) by simp
  obtain f2 where f2: "wal_write_all_at ops (length ?V + 48) (seg 48 (48 + ?n) ?F) f1 = (Inr (), f2)" "healthy f2"
    "view f2 = ?V @ take (48 + ?n) ?F" "stable f2 = stable (wl_file w)"
    using wal_append_total [OF f1(2) l1 room'(2)] f1(3,4) cut by (metis append.assoc)
  have l2: "length ?V + (48 + ?n) = length (view f2)" unfolding f2(3) by simp
  obtain f3 where f3: "wal_write_all_at ops (length ?V + (48 + ?n)) (drop (48 + ?n) ?F) f2 = (Inr (), f3)" "healthy f3"
    "view f3 = ?V @ ?F" "stable f3 = stable (wl_file w)"
    using wal_append_total [OF f2(2) l2 room'(3)] f2(3,4) append_take_drop_id by (metis append.assoc)
  have "file_len ops (wl_file w) = Inr (length ?V)" using healthy_len [OF f] by blast
  moreover have "checked_offset InvalidInput (length ?V) 48 = Inr (length ?V + 48)"
    "checked_offset InvalidInput (length ?V) (48 + ?n) = Inr (length ?V + (48 + ?n))"
    using room by (simp_all add: checked_offset_def)
  ultimately have "append_frame ops crc hit (fr_record_type fr) (fr_record_lsn fr) (fr_batch_id fr) (fr_record_index fr) (fr_payload fr) (w, None) =
      (Inr (length ?F), (w\<lparr>wl_file := f3\<rparr>, None))"
    by (simp add: append_frame_def sbind_def get_wal_def wal_hit_def hit_fault_def on_file_def Let_def enc f1(1) f2(1) f3(1))
  with f3 show ?thesis by blast
qed

lemma append_pages_total:
  fixes w :: "'f wal_log"
  assumes "healthy (wl_file w)" and "list_all (valid_page crc (wc_commit_lsn c)) pages"
    and "unat first + index + length pages < 2 ^ 64" and "index + length pages < 2 ^ 32"
    and "pages = drop index (wc_pages c)"
    and "length (view (wl_file w)) + 4156 * length pages < u64_limit" and "written + 4156 * length pages \<le> usize_max"
  shows "\<exists>f' d. append_pages ops crc hit c first index pages digest written (w, None) =
      (Inr (d, written + 4156 * length pages), (w\<lparr>wl_file := f'\<rparr>, None)) \<and>
    healthy f' \<and> length (view f') = length (view (wl_file w)) + 4156 * length pages"
  using assms
proof (induction pages arbitrary: w index digest written)
  case Nil
  then show ?case by (intro exI [of _ "wl_file w"] exI [of _ digest]) simp
next
  case (Cons p pages)
  let ?fr = "page_frame (wl_format_version w) c first index"
  have p: "p = wc_pages c ! index" "pages = drop (Suc index) (wc_pages c)"
    using drop_eq_Cons [OF Cons.prems(5) [symmetric]] by simp_all
  have valid: "validate_page_image crc p = Inr ()" "validate_page_image_lsn p (wc_commit_lsn c) = Inr ()"
    using Cons.prems(2) by (simp_all add: valid_page_def)
  have len: "length (page_payload p) = 4104" using valid_page_length [OF valid(1)] by (simp add: page_payload_def length_to_le)
  have fr: "fr_payload ?fr = page_payload p" by (simp add: page_frame_def p)
  obtain f1 where f1: "append_frame ops crc hit (fr_record_type ?fr) (fr_record_lsn ?fr) (fr_batch_id ?fr) (fr_record_index ?fr) (fr_payload ?fr) (w, None) =
      (Inr (length (frame_bytes crc ?fr)), (w\<lparr>wl_file := f1\<rparr>, None))"
    "healthy f1" "view f1 = view (wl_file w) @ frame_bytes crc ?fr"
    using append_frame_total [OF Cons.prems(1), of ?fr crc hit] Cons.prems(6) fr len
    by (auto simp: page_frame_def WAL_MAX_PAYLOAD_SIZE_def)
  have step: "append_frame ops crc hit PageImageRecord (first + of_nat index) (wc_batch_id c) (of_nat index) (page_payload p) (w, None) =
      (Inr 4156, (w\<lparr>wl_file := f1\<rparr>, None))"
    using f1(1) fr len by (simp add: page_frame_def)
  have l1: "length (view f1) = length (view (wl_file w)) + 4156" using f1(3) fr len by simp
  have pre: "healthy (wl_file (w\<lparr>wl_file := f1\<rparr>))" "list_all (valid_page crc (wc_commit_lsn c)) pages"
    "unat first + Suc index + length pages < 2 ^ 64" "Suc index + length pages < 2 ^ 32"
    "length (view (wl_file (w\<lparr>wl_file := f1\<rparr>))) + 4156 * length pages < u64_limit"
    "written + 4156 + 4156 * length pages \<le> usize_max"
    using Cons.prems(2-4,6,7) f1(2) l1 by simp_all
  obtain f' d where rest: "append_pages ops crc hit c first (Suc index) pages (digest @ page_payload p) (written + 4156) (w\<lparr>wl_file := f1\<rparr>, None) =
      (Inr (d, written + 4156 + 4156 * length pages), (w\<lparr>wl_file := f1, wl_file := f'\<rparr>, None))"
    "healthy f'" "length (view f') = length (view f1) + 4156 * length pages"
    using Cons.IH [OF pre(1-4) p(2) pre(5,6), of "digest @ page_payload p"] by auto
  have enc: "encode_page_image crc p = Inr (page_payload p)"
    by (simp add: encode_page_image_def valid page_payload_def)
  have lsn: "checked_add_u64 first (of_nat index) = Some (first + of_nat index)"
    using Cons.prems(3,4) by (simp add: checked_add_u64_def unat_of_nat_u64 usize_max_def)
  have wr: "checked_add_usize written 4156 = Some (written + 4156)"
    using Cons.prems(7) by (simp add: checked_add_usize_def)
  have "append_pages ops crc hit c first index (p # pages) digest written (w, None) =
      (Inr (d, written + 4156 * length (p # pages)), (w\<lparr>wl_file := f'\<rparr>, None))"
    using rest(1) Cons.prems(4) by (simp add: sbind_def valid enc lsn step wr)
  with rest l1 show ?case by (metis (no_types, lifting) add.assoc length_Cons mult_Suc_right)
qed

lemma append_group_commit_total:
  fixes w :: "'f wal_log"
  assumes w: "healthy (wl_file w)" and ok: "commit_ok crc c first"
    and room: "length (view (wl_file w)) + 4156 * length (wc_pages c) + 68 < u64_limit"
  shows "\<exists>f' report. append_group_commit ops crc hit c first (wc_batch_id c) (w, None) = (Inr report, (w\<lparr>wl_file := f'\<rparr>, None)) \<and>
    ar_commit_lsn report = wc_commit_lsn c \<and>
    healthy f' \<and> length (view f') = length (view (wl_file w)) + 4156 * length (wc_pages c) + 68"
proof -
  let ?n = "length (wc_pages c)"
  have n: "?n < 2 ^ 32" "wc_pages c \<noteq> []" "list_all (valid_page crc (wc_commit_lsn c)) (wc_pages c)"
    "unat (wc_commit_lsn c) = unat first + ?n" "unat first + ?n < 2 ^ 64"
    using ok unat_bound [of "wc_commit_lsn c"] by (auto simp: commit_ok_def)
  obtain f1 d where f1: "append_pages ops crc hit c first 0 (wc_pages c) [] 0 (w, None) =
      (Inr (d, 4156 * ?n), (w\<lparr>wl_file := f1\<rparr>, None))" "healthy f1" "length (view f1) = length (view (wl_file w)) + 4156 * ?n"
    using append_pages_total [OF w n(3), of first 0 0 hit "[]"] n room by (auto simp: usize_max_def u64_limit_def)
  let ?fr = "\<lparr>fr_format_version = wl_format_version w, fr_record_type = CommitRecord, fr_record_lsn = wc_commit_lsn c,
      fr_batch_id = wc_batch_id c, fr_record_index = of_nat ?n, fr_payload = commit_payload first ?n (crc d)\<rparr>"
  have len: "length (commit_payload first ?n (crc d)) = 16" by (simp add: commit_payload_def bytes_simps)
  obtain f2 where f2: "append_frame ops crc hit CommitRecord (wc_commit_lsn c) (wc_batch_id c) (of_nat ?n) (commit_payload first ?n (crc d)) (w\<lparr>wl_file := f1\<rparr>, None) =
      (Inr 68, (w\<lparr>wl_file := f2\<rparr>, None))" "healthy f2" "length (view f2) = length (view f1) + 68"
    using append_frame_total [of "w\<lparr>wl_file := f1\<rparr>" ?fr crc hit] f1(2,3) room len by (auto simp: WAL_MAX_PAYLOAD_SIZE_def)
  have a: "checked_add_u64 first (of_nat ?n) = Some (wc_commit_lsn c)" "checked_mul_usize ?n 4104 = Some (?n * 4104)"
    "checked_add_usize (4156 * ?n) 68 = Some (4156 * ?n + 68)"
    using n room by (simp_all add: checked_add_u64_Some unat_of_nat_u64 checked_mul_usize_def checked_add_usize_def usize_max_def u64_limit_def)
  have "\<exists>report. append_group_commit ops crc hit c first (wc_batch_id c) (w, None) = (Inr report, (w\<lparr>wl_file := f2\<rparr>, None)) \<and>
      ar_commit_lsn report = wc_commit_lsn c"
    using n by (simp add: append_group_commit_def Let_def sbind_def f1(1) f2(1) a wal_hit_def hit_fault_def PAGE_SIZE_def)
  with f1 f2 show ?thesis by (metis add.assoc)
qed

end

text \<open>A group that the log accepts at LSN \<open>l\<close> and batch id \<open>b\<close>: consecutive LSNs and batch ids
  that do not run out, valid pages.\<close>

fun group_ok :: "crc_fun \<Rightarrow> lsn \<Rightarrow> u64 \<Rightarrow> wal_commit list \<Rightarrow> bool" where
  "group_ok crc l b [] = True"
| "group_ok crc l b (c # cs) = (commit_ok crc c l \<and> wc_batch_id c = b \<and> unat (wc_commit_lsn c) + 1 < 2 ^ 64 \<and>
     unat b + 1 < 2 ^ 64 \<and> group_ok crc (wc_commit_lsn c + 1) (b + 1) cs)"

text \<open>The LSN and the batch id after a group.\<close>

fun group_end :: "lsn \<Rightarrow> u64 \<Rightarrow> wal_commit list \<Rightarrow> lsn \<times> u64" where
  "group_end l b [] = (l, b)"
| "group_end l b (c # cs) = group_end (wc_commit_lsn c + 1) (b + 1) cs"

definition group_bytes :: "wal_commit list \<Rightarrow> nat" where
  "group_bytes commits = sum_list (map (\<lambda>c. 4156 * length (wc_pages c) + 68) commits)"

text \<open>The counters of the log have room for the group.\<close>

definition group_room :: "nat \<Rightarrow> nat \<Rightarrow> wal_commit list \<Rightarrow> 'f wal_log \<Rightarrow> bool" where
  "group_room t1 t2 commits w \<longleftrightarrow> unat (wl_append_nanos w) + t1 < 2 ^ 64 \<and> unat (wl_sync_nanos w) + t2 < 2 ^ 64 \<and>
     unat (wl_sync_count w) + 1 < 2 ^ 64 \<and>
     records_scanned (wl_scan_report w) + group_records commits \<le> usize_max \<and>
     wl_page_images w + group_page_count commits \<le> usize_max"

lemma group_record_count_eq: "k + group_records cs \<le> usize_max \<Longrightarrow> group_record_count cs k = Inr (k + group_records cs)"
  by (induction cs arbitrary: k) (auto simp: group_records_def checked_add_usize_def)

lemma elapsed_ok: "unat n + t < 2 ^ 64 \<Longrightarrow>
  \<exists>x. rbind (elapsed_nanos t) (\<lambda>t. ok_or (checked_add_u64 n t) InternalInvariantViolation) = Inr x"
  by (simp add: elapsed_nanos_def checked_add_u64_def unat_of_nat_u64 usize_max_def)

lemma checked_add_one: "unat n + 1 < 2 ^ 64 \<Longrightarrow> checked_add_u64 n 1 = Some (n + 1)"
  by (simp add: checked_add_u64_def)

context reliable_file
begin

lemma append_commits_total:
  fixes w :: "'f wal_log"
  assumes "healthy (wl_file w)" and "group_ok crc l b cs" and "length (view (wl_file w)) + group_bytes cs < u64_limit"
  shows "\<exists>f' reports. append_commits ops crc hit cs l b (w, None) = (Inr (reports, group_end l b cs), (w\<lparr>wl_file := f'\<rparr>, None)) \<and>
    healthy f' \<and> length (view f') = length (view (wl_file w)) + group_bytes cs"
  using assms
proof (induction cs arbitrary: w l b)
  case Nil
  then show ?case by (intro exI [of _ "wl_file w"]) (simp add: group_bytes_def)
next
  case (Cons c cs)
  then obtain f1 report where f1: "append_group_commit ops crc hit c l b (w, None) = (Inr report, (w\<lparr>wl_file := f1\<rparr>, None))"
    "ar_commit_lsn report = wc_commit_lsn c" "healthy f1"
    "length (view f1) = length (view (wl_file w)) + 4156 * length (wc_pages c) + 68"
    using append_group_commit_total [of w crc c l hit] by (auto simp: group_bytes_def)
  obtain f' reports where "append_commits ops crc hit cs (wc_commit_lsn c + 1) (b + 1) (w\<lparr>wl_file := f1\<rparr>, None) =
      (Inr (reports, group_end (wc_commit_lsn c + 1) (b + 1) cs), (w\<lparr>wl_file := f1, wl_file := f'\<rparr>, None))" "healthy f'" "length (view f') = length (view f1) + group_bytes cs"
    using Cons.IH [of "w\<lparr>wl_file := f1\<rparr>" "wc_commit_lsn c + 1" "b + 1"] Cons.prems f1(3,4) by (auto simp: group_bytes_def)
  then show ?case
    using Cons.prems(2) f1 by (auto simp: sbind_def checked_add_one group_bytes_def split: prod.splits)
qed

lemma append_group_total:
  fixes w :: "'f wal_log"
  assumes w: "healthy (wl_file w)" and ok: "group_ok crc (wl_next_lsn w) (wl_next_batch_id w) commits" and ne: "commits \<noteq> []"
    and len: "length (view (wl_file w)) + group_bytes commits < u64_limit" and room: "group_room t1 t2 commits w"
  shows "\<exists>reports w'. append_group ops crc hit t1 t2 commits (w, None) = (Inr reports, (w', None)) \<and> healthy (wl_file w') \<and>
    (wl_next_lsn w', wl_next_batch_id w') = group_end (wl_next_lsn w) (wl_next_batch_id w) commits"
proof -
  obtain f1 reports l b where f1: "append_commits ops crc hit commits (wl_next_lsn w) (wl_next_batch_id w) (w, None) =
      (Inr (reports, l, b), (w\<lparr>wl_file := f1\<rparr>, None))" "healthy f1" "group_end (wl_next_lsn w) (wl_next_batch_id w) commits = (l, b)"
    using append_commits_total [OF w ok len, of hit] by (metis prod.exhaust_sel)
  obtain f2 where f2: "sync_data ops f1 = (Inr (), f2)" "healthy f2" using healthy_sync [OF f1(2)] by blast
  obtain n1 n2 where nanos: "rbind (elapsed_nanos t1) (\<lambda>t. ok_or (checked_add_u64 (wl_append_nanos w) t) InternalInvariantViolation) = Inr n1"
    "rbind (elapsed_nanos t2) (\<lambda>t. ok_or (checked_add_u64 (wl_sync_nanos w) t) InternalInvariantViolation) = Inr n2"
    using elapsed_ok room unfolding group_room_def by metis
  have "group_record_count commits 0 = Inr (group_records commits)"
    using group_record_count_eq [of 0 commits] room by (simp add: group_room_def)
  then show ?thesis
    using room ne f2(2) f1(3)
    by (auto simp: append_group_def publish_group_def sbind_def get_wal_def mod_wal_def wal_hit_def hit_fault_def on_file_def
        smap_err_def f1(1) f2(1) nanos checked_add_one group_room_def checked_add_usize_def)
qed

end

end
