(* ===== verification/Dodb_Wal_Recovery.thy ===== *)
theory Dodb_Wal_Recovery
  imports Dodb_Wal_Append
begin

text \<open>
  Opening a log that a crash has cut anywhere, and the durability and atomicity of groups of
  commits across append, crash and reopen.
\<close>

section \<open>Opening a log\<close>

fun complete :: "crc_fun \<Rightarrow> nat \<Rightarrow> frame list \<Rightarrow> frame list" where
  "complete crc n [] = []"
| "complete crc n (f # fs) =
     (if length (frame_bytes crc f) \<le> n then f # complete crc (n - length (frame_bytes crc f)) fs else [])"

lemma complete_prefix: "\<exists>rest. fs = complete crc n fs @ rest"
  by (induction fs arbitrary: n) auto

lemma complete_append:
  "length (log_bytes crc fs) \<le> n \<Longrightarrow> complete crc n (fs @ gs) = fs @ complete crc (n - length (log_bytes crc fs)) gs"
  by (induction fs arbitrary: n) auto

lemma complete_all: "length (log_bytes crc fs) \<le> n \<Longrightarrow> complete crc n fs = fs"
  using complete_append [of crc fs n "[]"] by simp

lemma take_log_bytes:
  "\<exists>k fr. fr \<in> set (fr0 # fs) \<and> k < length (frame_bytes crc fr) \<and>
     take n (log_bytes crc fs) = log_bytes crc (complete crc n fs) @ take k (frame_bytes crc fr)"
proof (induction fs arbitrary: n)
  case Nil
  have "0 < length (frame_bytes crc fr0)" by (simp add: frame_bytes_def length_to_le)
  then show ?case by force
next
  case (Cons f fs)
  show ?case
  proof (cases "length (frame_bytes crc f) \<le> n")
    case True
    with Cons.IH [of "n - length (frame_bytes crc f)"] show ?thesis by force
  next
    case False
    then show ?thesis by (intro exI [of _ n] exI [of _ f]) simp
  qed
qed

lemma scan_frames_highest: "scan_frames crc history fs st = Inr st' \<Longrightarrow> sc_highest st \<le> sc_highest st'"
proof (induction fs arbitrary: st)
  case (Cons f fs)
  then obtain st1 where "scan_frame crc history f st = Inr st1" "scan_frames crc history fs st1 = Inr st'"
    by (auto simp: result_iff)
  moreover from this(1) have "sc_highest st \<le> sc_highest st1"
    by (auto simp: scan_frame_def scan_page_image_def scan_commit_def result_iff Let_def
        split: wal_record_type.splits option.splits if_splits)
  ultimately show ?case using Cons.IH by (meson order.trans)
qed simp

lemma stream_prefix:
  assumes "stream crc v history lo st (fs @ gs) st' hi"
  obtains st1 where "stream crc v history lo st fs st1 hi" "stream crc v history lo st1 gs st' hi"
    "sc_highest st1 \<le> sc_highest st'" "\<exists>more. sc_committed st' = sc_committed st1 @ more"
proof -
  obtain st1 where "scan_frames crc history fs st = Inr st1" "scan_frames crc history gs st1 = Inr st'"
    using assms by (auto simp: stream_def scan_frames_append result_iff)
  with assms scan_frames_highest [OF this(2)] scan_frames_committed [OF this(2)] that show ?thesis
    by (auto simp: stream_def sorted_wrt_append)
qed

lemma identity_payload_segs:
  assumes "length (wi_database_uuid identity) = 16"
  shows "seg 0 16 (identity_payload identity history) = wi_database_uuid identity"
    "seg 16 24 (identity_payload identity history) = to_le_u64 (wi_tenant_id identity)"
    "seg 24 32 (identity_payload identity history) = to_le_u64 (wi_shard_id identity)"
    "seg 32 40 (identity_payload identity history) = to_le_u64 (wi_shard_epoch identity)"
    "seg 40 44 (identity_payload identity history) = to_le_u32 (of_nat PAGE_SIZE)"
    "seg 44 52 (identity_payload identity history) = to_le_u64 history"
    "length (identity_payload identity history) = 52"
  using assms by (simp_all add: identity_payload_def bytes_simps)

lemma init_frame_ok:
  assumes "identity_ok v identity history"
  shows "frame_ok (init_frame v identity history)" "fr_format_version (init_frame v identity history) = v"
    "fr_record_lsn (init_frame v identity history) = 0"
    "verify_identity v (fr_payload (init_frame v identity history)) identity = Inr history"
proof -
  have n: "length (wi_database_uuid identity) = 16" using assms by (simp add: identity_ok_def)
  note segs = identity_payload_segs [OF n]
  show "frame_ok (init_frame v identity history)" "fr_format_version (init_frame v identity history) = v"
    "fr_record_lsn (init_frame v identity history) = 0"
    using assms by (auto simp: frame_ok_def init_frame_def identity_ok_def version_ok_def segs WAL_MAX_PAYLOAD_SIZE_def)
  show "verify_identity v (fr_payload (init_frame v identity history)) identity = Inr history"
    using assms by (simp add: verify_identity_def init_frame_def segs seg_take PAGE_SIZE_def identity_ok_def)
qed

text \<open>The outcome of scanning a log of which the first \<open>fs\<close> frames are complete.\<close>

definition scan_of :: "u16 \<Rightarrow> lsn \<Rightarrow> frame list \<Rightarrow> scan_state \<Rightarrow> nat \<Rightarrow> wal_scan \<Rightarrow> bool" where
  "scan_of v history fs st valid scan \<longleftrightarrow>
     unat (ws_next_lsn scan) = (if fs = [] then 1 else Suc (unat (fr_record_lsn (last fs)))) \<and>
     unat (ws_next_batch_id scan) = Suc (unat (sc_highest st)) \<and> ws_format_version scan = v \<and>
     ws_history_start_lsn scan = history \<and> ws_committed scan = sc_committed st \<and> ws_valid_length scan = valid \<and>
     ws_report scan = \<lparr>records_scanned = Suc (length fs), committed_batches = length (sc_committed st),
       replayable_pages = group_page_count (sc_committed st), torn_tail_bytes = 0\<rparr>"

lemma scan_result_of:
  assumes id: "identity_ok v identity history" and s: "stream crc v history 1 scan_start fs st hi"
    and room: "hi < 2 ^ 64" "unat (sc_highest st) + 1 < 2 ^ 64"
  shows "\<exists>scan. scan_result crc identity (init_frame v identity history # fs)
      (Some (fr_record_lsn (last (init_frame v identity history # fs)))) valid = Inr scan \<and> scan_of v history fs st valid scan"
proof -
  have ok: "scan_ok st" using stream_ok [OF s] by simp
  have st: "scan_frames crc history fs \<lparr>sc_committed = [], sc_pending = None, sc_highest = 0, sc_max_batch_id = 0\<rparr> = Inr st"
    using s by (simp add: stream_def scan_start_def)
  define l where "l = (if fs = [] then 0 else fr_record_lsn (last fs))"
  have "unat (fr_record_lsn (last fs)) < hi" if "fs \<noteq> []"
    using s last_in_set [OF that] by (simp add: stream_def list_all_iff)
  then have l: "unat l + 1 < 2 ^ 64" "fr_record_lsn (last (init_frame v identity history # fs)) = l"
    using room(1) init_frame_ok(3) [OF id] by (force simp: l_def)+
  have a: "checked_add_u64 l 1 = Some (l + 1)" "unat (l + 1) = unat l + 1"
    using l by (simp_all add: checked_add_u64_def unat_add_lem [THEN iffD1])
  have b: "checked_add_u64 (sc_max_batch_id st) 1 = Some (sc_highest st + 1)" "unat (sc_highest st + 1) = unat (sc_highest st) + 1"
    using ok room(2) by (simp_all add: checked_add_u64_def scan_ok_def unat_add_lem [THEN iffD1])
  have m: "max (sc_highest st + 1) 1 = sc_highest st + 1"
    using b by (auto simp: max_def word_le_nat_alt unat_eq_zero)
  have first: "fr_record_type (init_frame v identity history) = InitRecord" "fr_batch_id (init_frame v identity history) = 0"
    "fr_record_index (init_frame v identity history) = 0"
    by (simp_all add: init_frame_def)
  have next_lsn: "(if fs = [] then 1 else Suc (unat (fr_record_lsn (last fs)))) = Suc (unat l)" by (simp add: l_def)
  show ?thesis
    unfolding scan_result_def l scan_of_def next_lsn
    by (simp add: first init_frame_ok [OF id] st a b m group_page_count_def)
qed

context reliable_file
begin

lemma scan_wal_log:
  assumes s: "healthy s" and id: "identity_ok v identity history"
    and v: "view s = take n (log_bytes crc (init_frame v identity history # fs))"
    and n: "length (frame_bytes crc (init_frame v identity history)) \<le> n"
    and str: "stream crc v history 1 scan_start fs st hi" and room: "hi < 2 ^ 64" "unat (sc_highest st) + 1 < 2 ^ 64"
  shows "\<exists>fs' st' scan s'. init_frame v identity history # fs' = complete crc n (init_frame v identity history # fs) \<and>
    stream crc v history 1 scan_start fs' st' hi \<and> (\<exists>more. sc_committed st = sc_committed st' @ more) \<and>
    scan_wal ops crc identity s = (Inr scan, s') \<and>
    scan_of v history fs' st' (length (log_bytes crc (init_frame v identity history # fs'))) scan \<and>
    healthy s' \<and> view s' = view s \<and> stable s' = stable s"
proof -
  let ?init = "init_frame v identity history"
  define fs' where "fs' = complete crc (n - length (frame_bytes crc ?init)) fs"
  have all: "complete crc n (?init # fs) = ?init # fs'" using n by (simp add: fs'_def)
  obtain rest where rest: "fs = fs' @ rest" using complete_prefix fs'_def by blast
  obtain st' where st': "stream crc v history 1 scan_start fs' st' hi" "sc_highest st' \<le> sc_highest st"
    "\<exists>more. sc_committed st = sc_committed st' @ more"
    using stream_prefix [of crc v history 1 scan_start fs' rest st hi] str rest by auto
  have ok: "list_all (\<lambda>fr. frame_ok fr \<and> fr_format_version fr = v) (?init # fs)"
    using str init_frame_ok [OF id] by (auto simp: stream_def list_all_iff)
  obtain torn k where torn: "torn \<in> set (?init # ?init # fs)" "k < length (frame_bytes crc torn)"
    "view s = [] @ concat (map (frame_bytes crc) (?init # fs')) @ take k (frame_bytes crc torn)"
    using take_log_bytes [of ?init "?init # fs" crc n] v all by (auto simp: log_bytes_def)
  have "sorted_wrt (<) (map fr_record_lsn (?init # fs'))"
    using st'(1) init_frame_ok [OF id] by (auto simp: stream_def list_all_iff word_less_nat_alt)
  then obtain s' where loop: "scan_loop ops crc (length (view s)) 0 None [] s =
      (Inr (?init # fs', Some (fr_record_lsn (last (?init # fs'))), length (log_bytes crc (?init # fs'))), s')"
    "healthy s'" "view s' = view s" "stable s' = stable s"
    using scan_loop_frames [OF s torn(3,2), of v "[]" None] ok rest torn(1)
    by (auto simp: list_all_iff log_bytes_def)
  have room': "unat (sc_highest st') + 1 < 2 ^ 64" using room(2) st'(2) by (simp add: word_le_nat_alt)
  obtain scan where "scan_result crc identity (?init # fs') (Some (fr_record_lsn (last (?init # fs'))))
      (length (log_bytes crc (?init # fs'))) = Inr scan"
      "scan_of v history fs' st' (length (log_bytes crc (?init # fs'))) scan"
    using scan_result_of [OF id st'(1) room(1) room'] by blast
  moreover have "file_len ops s = Inr (length (view s))" using healthy_len [OF s] by blast
  ultimately have "scan_wal ops crc identity s = (Inr scan, s')"
    using loop(1) by (simp add: scan_wal_def sbind_def)
  with all st' loop \<open>scan_of v history fs' st' _ scan\<close> show ?thesis by metis
qed

end

lemma init_frame_current:
  "length (wi_database_uuid identity) = 16 \<Longrightarrow> identity_ok WAL_FORMAT_VERSION identity history"
  "fr_payload (init_frame WAL_FORMAT_VERSION identity history) = identity_payload identity history"
  "length (wi_database_uuid identity) = 16 \<Longrightarrow> length (frame_bytes crc (init_frame WAL_FORMAT_VERSION identity history)) = 104"
  by (simp_all add: identity_ok_def version_ok_def init_frame_def WAL_FORMAT_VERSION_def LEGACY_WAL_FORMAT_VERSION_def
      identity_payload_segs)

lemma stream_last:
  assumes "stream crc v history lo st fs st' hi" and "lo = 1"
  shows "stream crc v history lo st fs st' (if fs = [] then 1 else Suc (unat (fr_record_lsn (last fs))))"
proof (cases fs rule: rev_cases)
  case (snoc gs g)
  with assms show ?thesis
    by (auto simp: stream_def list_all_iff sorted_wrt_append word_less_nat_alt)
qed (use assms in auto)

lemma complete_bytes:
  "length (log_bytes crc (complete crc n fs)) \<le> length (take n (log_bytes crc fs))"
  "take (length (log_bytes crc (complete crc n fs))) (take n (log_bytes crc fs)) = log_bytes crc (complete crc n fs)"
proof -
  obtain rest where rest: "take n (log_bytes crc fs) = log_bytes crc (complete crc n fs) @ rest"
    using take_log_bytes [of undefined fs crc n] by blast
  show "length (log_bytes crc (complete crc n fs)) \<le> length (take n (log_bytes crc fs))"
    "take (length (log_bytes crc (complete crc n fs))) (take n (log_bytes crc fs)) = log_bytes crc (complete crc n fs)"
    unfolding rest by simp_all
qed

lemma log_of_scan_file [simp]: "wl_file (log_of_scan f identity scan len) = f"
  by (simp add: log_of_scan_def)

lemma resize_shrink: "n \<le> length bs \<Longrightarrow> resize n bs = take n bs"
  by (simp add: resize_def zeros_def)

context reliable_file
begin

lemma healthy_sync_ok:
  "healthy s \<Longrightarrow> \<exists>s'. sync_data ops s = (Inr (), s') \<and> healthy s' \<and> view s' = view s \<and> stable s' = view s"
  using healthy_sync sync_ok by blast

lemma healthy_set_len_ok:
  "healthy s \<Longrightarrow> n < u64_limit \<Longrightarrow> \<exists>s'. set_len ops n s = (Inr (), s') \<and> healthy s' \<and> view s' = resize n (view s) \<and> stable s' = stable s"
  using healthy_set_len set_len_ok by blast

lemma initialize_empty_total:
  assumes s: "healthy s" "view s = []" and id: "length (wi_database_uuid identity) = 16" and start: "unat start + 1 < 2 ^ 64"
  shows "\<exists>w. initialize_empty ops crc identity start s = (Inr w, wl_file w) \<and> healthy (wl_file w) \<and>
    wal_inv view stable crc w [] scan_start \<and> wl_identity w = identity \<and> wl_history_start_lsn w = start \<and>
    wl_format_version w = WAL_FORMAT_VERSION \<and> start < wl_next_lsn w"
proof -
  let ?fr = "init_frame WAL_FORMAT_VERSION identity start" and ?w = "empty_log s identity start (start + 1)"
  have len: "length (identity_payload identity start) = 52" using identity_payload_segs(7) [OF id] .
  obtain f1 where f1: "append_frame ops crc no_hit InitRecord 0 0 0 (identity_payload identity start) (?w, None) =
      (Inr 104, (?w\<lparr>wl_file := f1\<rparr>, None))" "healthy f1" "view f1 = frame_bytes crc ?fr"
    using append_frame_total [of ?w ?fr crc no_hit] s len
    by (auto simp: empty_log_def init_frame_def WAL_MAX_PAYLOAD_SIZE_def u64_limit_def WAL_FORMAT_VERSION_def LEGACY_WAL_FORMAT_VERSION_def)
  obtain f2 where f2: "sync_data ops f1 = (Inr (), f2)" "healthy f2" "view f2 = view f1" "stable f2 = view f1"
    using healthy_sync_ok [OF f1(2)] by blast
  let ?w' = "?w\<lparr>wl_file := f2, wl_sync_count := 1, wl_scan_report := scan_report_default\<lparr>records_scanned := 1\<rparr>\<rparr>"
  have "initialize_empty ops crc identity start s = (Inr ?w', wl_file ?w')"
    using checked_add_one [OF start]
    by (simp add: initialize_empty_def sbind_def f1(1) on_file_def smap_err_def f2(1) mod_wal_def) (simp add: empty_log_def)
  moreover have "start < start + 1" using checked_add_u64_less [OF checked_add_one [OF start]] .
  moreover have "wal_inv view stable crc ?w' [] scan_start"
    using f1(3) f2 init_frame_current(1) [OF id, of start] \<open>start < start + 1\<close>
    by (simp add: wal_inv_def empty_log_def scan_start_def word_less_nat_alt)
  ultimately show ?thesis
    using f2(2) by (intro exI [of _ ?w']) (simp add: empty_log_def)
qed

lemma wal_open_log:
  assumes s: "healthy s" "stable s = view s" and id: "identity_ok v identity history"
    and v: "view s = take n (log_bytes crc (init_frame v identity history # fs))" and n: "INIT_FRAME_SIZE \<le> length (view s)"
    and str: "stream crc v history 1 scan_start fs st hi" and room: "hi < 2 ^ 64" "unat (sc_highest st) + 1 < 2 ^ 64"
  shows "\<exists>fs' st' w. init_frame v identity history # fs' = complete crc n (init_frame v identity history # fs) \<and>
    wal_open ops crc hit identity start (s, None) = (Inr w, (wl_file w, None)) \<and> healthy (wl_file w) \<and>
    wal_inv view stable crc w fs' st' \<and> wl_identity w = identity \<and> wl_history_start_lsn w = history \<and>
    wl_format_version w = v \<and> (\<exists>more. sc_committed st = wl_committed w @ more)"
proof -
  let ?init = "init_frame v identity history"
  have init: "length (frame_bytes crc ?init) \<le> 104"
    using id by (auto simp: init_frame_def identity_ok_def identity_payload_segs)
  have len: "104 \<le> length (view s)" "length (view s) \<le> n" using n unfolding v by simp_all
  obtain fs' st' scan s1 where scan: "?init # fs' = complete crc n (?init # fs)" "stream crc v history 1 scan_start fs' st' hi"
    "\<exists>more. sc_committed st = sc_committed st' @ more" "scan_wal ops crc identity s = (Inr scan, s1)"
    "scan_of v history fs' st' (length (log_bytes crc (?init # fs'))) scan"
    "healthy s1" "view s1 = view s" "stable s1 = stable s"
    using scan_wal_log [OF s(1) id v _ str room] init len by auto
  let ?bytes = "log_bytes crc (?init # fs')"
  have bytes: "length ?bytes \<le> length (view s)" "take (length ?bytes) (view s) = ?bytes"
    using complete_bytes [of crc n "?init # fs"] unfolding scan(1) v by simp_all
  have lim: "length (view s) < u64_limit" using healthy_len [OF s(1)] by blast
  have cut: "\<exists>f. (if length ?bytes < length (view s) then truncate_tail ops hit (length ?bytes) (s1, None) else (Inr (), (s1, None))) =
      (Inr (), (f, None)) \<and> healthy f \<and> view f = ?bytes \<and> stable f = ?bytes"
  proof (cases "length ?bytes < length (view s)")
    case True
    obtain f1 where f1: "set_len ops (length ?bytes) s1 = (Inr (), f1)" "healthy f1" "view f1 = ?bytes"
      using healthy_set_len_ok [OF scan(6), of "length ?bytes"] True lim bytes scan(7) by (auto simp: resize_shrink)
    obtain f2 where "sync_data ops f1 = (Inr (), f2)" "healthy f2" "view f2 = ?bytes" "stable f2 = ?bytes"
      using healthy_sync_ok [OF f1(2)] f1(3) by auto
    with True f1 show ?thesis by (simp add: truncate_tail_def hit_fault_def sbind_def smap_err_def)
  next
    case False
    then have "view s = ?bytes" using bytes by (metis le_antisym not_less order_refl take_all)
    with False scan(6-8) s(2) show ?thesis by metis
  qed
  then obtain f where f: "(if length ?bytes < length (view s) then truncate_tail ops hit (length ?bytes) (s1, None) else (Inr (), (s1, None))) =
      (Inr (), (f, None))" "healthy f" "view f = ?bytes" "stable f = ?bytes" by blast
  let ?w = "log_of_scan f identity scan (length (view s))"
  have valid: "ws_valid_length scan = length ?bytes" using scan(5) by (simp only: scan_of_def)
  have "file_len ops s = Inr (length (view s))" using healthy_len [OF s(1)] by blast
  moreover have "length (view s) \<noteq> 0" "\<not> length (view s) < INIT_FRAME_SIZE" using len by auto
  ultimately have "wal_open ops crc hit identity start (s, None) = (Inr ?w, (wl_file ?w, None))"
    using len by (simp add: wal_open_def scan(4) f(1) [folded valid])
  moreover have "wal_inv view stable crc ?w fs' st'"
    using scan(5) f id stream_last [OF scan(2) refl]
    by (auto simp: wal_inv_def log_of_scan_def scan_of_def word_less_nat_alt)
  ultimately show ?thesis
    using scan f(2) by (intro exI [of _ fs'] exI [of _ st'] exI [of _ ?w]) (auto simp: log_of_scan_def scan_of_def)
qed

end

context reliable_file
begin

lemma wal_open_torn_init:
  assumes s: "healthy s" and id: "length (wi_database_uuid identity) = 16" and start: "unat start + 1 < 2 ^ 64"
    and v: "view s = take n (frame_bytes crc (init_frame WAL_FORMAT_VERSION identity start))" and n: "n < INIT_FRAME_SIZE"
  shows "\<exists>w. wal_open ops crc hit identity start (s, None) = (Inr w, (wl_file w, None)) \<and> healthy (wl_file w) \<and>
    wal_inv view stable crc w [] scan_start \<and> wl_identity w = identity \<and> wl_history_start_lsn w = start \<and>
    wl_format_version w = WAL_FORMAT_VERSION \<and> start < wl_next_lsn w"
proof -
  let ?F = "frame_bytes crc (init_frame WAL_FORMAT_VERSION identity start)"
  have len: "length (view s) = n" using v n init_frame_current(3) [OF id, of crc start] by simp
  have flen: "file_len ops s = Inr n" using healthy_len [OF s] len by simp
  show ?thesis
  proof (cases "n = 0")
    case True
    then show ?thesis
      using initialize_empty_total [OF s _ id start, of crc] v flen by (fastforce simp: wal_open_def)
  next
    case False
    have enc: "encode_frame crc WAL_FORMAT_VERSION InitRecord 0 0 0 (identity_payload identity start) = Inr ?F"
      by (auto simp: encode_frame_iff init_frame_def WAL_FORMAT_VERSION_def LEGACY_WAL_FORMAT_VERSION_def
          identity_payload_segs(7) [OF id] WAL_MAX_PAYLOAD_SIZE_def)
    obtain s1 where s1: "wal_read_exact_at ops 0 n s = (Inr (view s), s1)" "healthy s1" "view s1 = view s"
      using wal_read_exact_at_total [OF s, of 0 n] len by auto
    have torn: "is_torn_initialization_prefix ops crc identity start n s = (Inr True, s1)"
      using n s1(1) v init_frame_current(3) [OF id, of crc start]
      by (simp add: is_torn_initialization_prefix_def sbind_def enc)
    obtain s2 where s2: "set_len ops 0 s1 = (Inr (), s2)" "healthy s2" "view s2 = []"
      using healthy_set_len_ok [OF s1(2), of 0] by (auto simp: u64_limit_def resize_shrink)
    obtain s3 where s3: "sync_data ops s2 = (Inr (), s3)" "healthy s3" "view s3 = []"
      using healthy_sync_ok [OF s2(2)] s2(3) by auto
    have "wal_open ops crc hit identity start (s, None) =
        (case initialize_empty ops crc identity start s3 of (r, f) \<Rightarrow> (r, (f, None)))"
      using False n by (simp add: wal_open_def flen torn sbind_def smap_err_def s2(1) s3(1))
    with initialize_empty_total [OF s3(2,3) id start, of crc] show ?thesis by auto
  qed
qed

end

section \<open>Groups of commits are atomic and durable\<close>

text \<open>The file as the next process finds it: the unsynced bytes are gone, or some of them have
  reached the disk; no fault is scheduled.\<close>

definition after_crash :: "nat option \<Rightarrow> crashable_file \<Rightarrow> crashable_file" where
  "after_crash persisted f = with_fault_plan fault_plan_default
     (case persisted of None \<Rightarrow> crash f | Some n \<Rightarrow> crash_with_persisted_prefix n f)"

lemma after_crash_simps [simp]:
  "volatile (after_crash None f) = durable f" "durable (after_crash p f) = volatile (after_crash p f)"
  "volatile (after_crash (Some n) f) = take n (volatile f)"
  by (auto simp: after_crash_def with_fault_plan_def crash_def crash_with_persisted_prefix_def Let_def min_def split: option.splits)

lemma after_crash_healthy:
  "length (volatile (after_crash p f)) < u64_limit \<Longrightarrow> cf_healthy (after_crash p f)"
  by (auto simp: cf_healthy_def after_crash_def with_fault_plan_def fault_plan_default_def)

text \<open>The crash keeps at least what was durable.\<close>

definition crash_keeps :: "nat option \<Rightarrow> crashable_file \<Rightarrow> bool" where
  "crash_keeps p f \<longleftrightarrow> (case p of None \<Rightarrow> True | Some n \<Rightarrow> length (durable f) \<le> n)"

text \<open>What a torn log holds after the crash: all of the old log and part of the group.\<close>

lemma torn_log_crash:
  assumes torn: "torn_log volatile durable crc w st commits f" and inv: "wal_inv volatile durable crc w frs st"
    and keeps: "crash_keeps p f"
  shows "\<exists>fs st' j k. group_stream crc w st commits fs st' j \<and>
    volatile (after_crash p f) = take (length (volatile (wl_file w)) + k)
      (log_bytes crc (init_frame (wl_format_version w) (wl_identity w) (wl_history_start_lsn w) # frs @ fs))"
proof -
  let ?old = "volatile (wl_file w)"
  obtain fs st' j k where t: "group_stream crc w st commits fs st' j" "volatile f = ?old @ take k (log_bytes crc fs)"
    "durable f = durable (wl_file w) \<or> durable f = volatile f"
    using torn unfolding torn_log_def by blast
  have old: "durable (wl_file w) = ?old"
    "log_bytes crc (init_frame (wl_format_version w) (wl_identity w) (wl_history_start_lsn w) # frs @ fs) = ?old @ log_bytes crc fs"
    using inv by (simp_all add: wal_inv_def)
  have "\<exists>m. volatile (after_crash p f) = ?old @ take m (log_bytes crc fs)"
  proof (cases p)
    case None
    then show ?thesis using t(2,3) old(1) by (auto intro: exI [of _ 0])
  next
    case (Some n)
    then have "length ?old \<le> n" using keeps t(2,3) old(1) by (auto simp: crash_keeps_def)
    then show ?thesis
      using Some t(2) by (intro exI [of _ "min (n - length ?old) k"]) simp
  qed
  then obtain m where "volatile (after_crash p f) = take (length ?old + m) (?old @ log_bytes crc fs)" by auto
  with t(1) old(2) show ?thesis by metis
qed

lemma inv_room:
  assumes "wal_inv content kept crc w fs st"
  shows "unat (wl_next_lsn w) < 2 ^ 64" "unat (sc_highest st) + 1 < 2 ^ 64"
  using assms unat_bound [of "wl_next_lsn w"] unat_bound [of "wl_next_batch_id w"]
  by (auto simp: wal_inv_def word_less_nat_alt)

lemma inv_length:
  assumes "wal_inv content kept crc w fs st" and "wl_format_version w = WAL_FORMAT_VERSION"
  shows "INIT_FRAME_SIZE \<le> length (content (wl_file w))"
  using assms init_frame_current(3) [of "wl_identity w" crc "wl_history_start_lsn w"] by (auto simp: wal_inv_def identity_ok_def)

lemma reopen_same:
  assumes inv: "wal_inv volatile durable crc w fs st" and v: "wl_format_version w = WAL_FORMAT_VERSION"
    and h: "cf_healthy f" "durable f = volatile f" and same: "volatile f = volatile (wl_file w)"
  shows "\<exists>w2. wal_open cf_ops crc hit (wl_identity w) start (f, None) = (Inr w2, (wl_file w2, None)) \<and>
    wl_committed w2 = wl_committed w \<and> wl_history_start_lsn w2 = wl_history_start_lsn w \<and>
    wal_inv volatile durable crc w2 fs st \<and> cf_healthy (wl_file w2)"
proof -
  let ?bytes = "log_bytes crc (init_frame (wl_format_version w) (wl_identity w) (wl_history_start_lsn w) # fs)"
  have w: "volatile (wl_file w) = ?bytes" "durable (wl_file w) = ?bytes"
    "identity_ok (wl_format_version w) (wl_identity w) (wl_history_start_lsn w)"
    "stream crc (wl_format_version w) (wl_history_start_lsn w) 1 scan_start fs st (unat (wl_next_lsn w))"
    "wl_committed w = sc_committed st"
    using inv by (auto simp: wal_inv_def)
  have f: "volatile f = ?bytes" using same w(1) by simp
  have all: "complete crc (length ?bytes) (init_frame (wl_format_version w) (wl_identity w) (wl_history_start_lsn w) # fs) =
      init_frame (wl_format_version w) (wl_identity w) (wl_history_start_lsn w) # fs"
    by (rule complete_all) simp
  have len: "INIT_FRAME_SIZE \<le> length (volatile f)" using inv_length [OF inv v] w(1) f by simp
  obtain st' w2 where w2: "wal_open cf_ops crc hit (wl_identity w) start (f, None) = (Inr w2, (wl_file w2, None))"
    "cf_healthy (wl_file w2)" "wal_inv volatile durable crc w2 fs st'" "wl_format_version w2 = wl_format_version w"
    "wl_history_start_lsn w2 = wl_history_start_lsn w"
    using cf.wal_open_log [OF h w(3) _ len w(4) inv_room [OF inv], of "length ?bytes" hit start] f all by auto
  moreover have "st' = st" using w2(3-5) w(4) by (simp add: wal_inv_def stream_def)
  ultimately show ?thesis using w(5) by (auto simp: wal_inv_def)
qed

lemma reopen_log:
  assumes inv: "wal_inv volatile durable crc w fs st" and v: "wl_format_version w = WAL_FORMAT_VERSION"
    and crash: "crash_keeps p (wl_file w)" "f = after_crash p (wl_file w)" "length (volatile f) < u64_limit"
  shows "\<exists>w2. wal_open cf_ops crc hit (wl_identity w) start (f, None) = (Inr w2, (wl_file w2, None)) \<and>
    wl_committed w2 = wl_committed w \<and> wl_history_start_lsn w2 = wl_history_start_lsn w \<and>
    wal_inv volatile durable crc w2 fs st \<and> cf_healthy (wl_file w2)"
proof (rule reopen_same [OF inv v])
  have "durable (wl_file w) = volatile (wl_file w)" using inv by (simp add: wal_inv_def)
  with crash(1,2) show "volatile f = volatile (wl_file w)" by (cases p) (auto simp: crash_keeps_def)
qed (use crash after_crash_healthy in auto)

lemma torn_log_reopens:
  assumes torn: "torn_log volatile durable crc w st commits f0"
    and inv: "wal_inv volatile durable crc w frs st" and v: "wl_format_version w = WAL_FORMAT_VERSION"
    and lsns: "unat (wl_next_lsn w) + group_records commits < 2 ^ 64"
    and batches: "unat (wl_next_batch_id w) + length commits < 2 ^ 64"
    and crash: "crash_keeps persisted f0" "f = after_crash persisted f0" "length (volatile f) < u64_limit"
  shows "\<exists>w2 j fs st2. wal_open cf_ops crc hit2 (wl_identity w) start (f, None) = (Inr w2, (wl_file w2, None)) \<and>
    wl_committed w2 = wl_committed w @ take j commits \<and> wal_inv volatile durable crc w2 fs st2 \<and> cf_healthy (wl_file w2)"
proof -
  let ?init = "init_frame (wl_format_version w) (wl_identity w) (wl_history_start_lsn w)" and ?old = "volatile (wl_file w)"
  from torn_log_crash [OF torn inv crash(1)] obtain fs st' j k where
    g: "group_stream crc w st commits fs st' j" and f: "volatile f = take (length ?old + k) (log_bytes crc (?init # frs @ fs))"
    using crash(2) by blast
  have w: "?old = log_bytes crc (?init # frs)" "identity_ok (wl_format_version w) (wl_identity w) (wl_history_start_lsn w)"
    "stream crc (wl_format_version w) (wl_history_start_lsn w) 1 scan_start frs st (unat (wl_next_lsn w))"
    "wl_committed w = sc_committed st"
    using inv by (auto simp: wal_inv_def)
  obtain hi where hi: "stream crc (wl_format_version w) (wl_history_start_lsn w) (unat (wl_next_lsn w)) st fs st' hi" "hi < 2 ^ 64"
    and st': "sc_committed st' = sc_committed st @ take j commits" "unat (sc_highest st') + 1 < 2 ^ 64"
    using g lsns batches by (auto simp: group_stream_def)
  note str = stream_append [OF w(3) hi(1)]
  have h: "cf_healthy f" "durable f = volatile f" "INIT_FRAME_SIZE \<le> length (volatile f)"
    using after_crash_healthy crash inv_length [OF inv v] w(1) f by auto
  obtain fs' st2 w2 where w2: "?init # fs' = complete crc (length ?old + k) (?init # frs @ fs)"
    "wal_open cf_ops crc hit2 (wl_identity w) start (f, None) = (Inr w2, (wl_file w2, None))"
    "cf_healthy (wl_file w2)" "wal_inv volatile durable crc w2 fs' st2" "wl_format_version w2 = wl_format_version w"
    "wl_history_start_lsn w2 = wl_history_start_lsn w" "\<exists>more. sc_committed st' = wl_committed w2 @ more"
    using cf.wal_open_log [OF h(1,2) w(2) f h(3) str hi(2) st'(2), of hit2 start] by blast
  have "\<exists>rest. fs' = frs @ rest"
    using w2(1) complete_append [of crc "?init # frs" "length ?old + k" fs] w(1) by auto
  then obtain rest where "fs' = frs @ rest" by blast
  then obtain more where "wl_committed w2 = sc_committed st @ more"
    using w2(4-6) w(3) by (auto simp: wal_inv_def stream_def scan_frames_append result_iff dest!: scan_frames_committed)
  with w2(7) st'(1) have "\<exists>more2. take j commits = more @ more2" by auto
  then have "more = take (min (length more) j) commits" by (metis append_eq_conv_conj take_take)
  with w2 w(4) \<open>wl_committed w2 = sc_committed st @ more\<close> show ?thesis by metis
qed

text \<open>C21: groups of commits are atomic and durable across crashes. Starting from any log that
  satisfies the invariant, append a group while the file and the fault injector may fail in any
  way, then crash: either all unsynced bytes are lost or any number of them survive. Reopening
  the file succeeds, its committed batches are the old ones followed by a prefix of the group,
  in order and each complete, and the invariant holds again. If the append had returned success,
  every commit of the group is there.\<close>

theorem wal_crash_atomic:
  assumes inv: "wal_inv volatile durable crc w frs st" and v: "wl_format_version w = WAL_FORMAT_VERSION"
    and ready: "wl_history_start_lsn w < wl_next_lsn w"
    and lsns: "unat (wl_next_lsn w) + group_records commits < 2 ^ 64"
    and batches: "unat (wl_next_batch_id w) + length commits < 2 ^ 64"
    and run: "append_group cf_ops crc hit t1 t2 commits (w, injector) = (r, (w', injector'))"
    and crash: "crash_keeps persisted (wl_file w')" "f = after_crash persisted (wl_file w')" "length (volatile f) < u64_limit"
  shows "\<exists>w2 j fs st2. wal_open cf_ops crc hit2 (wl_identity w) start (f, None) = (Inr w2, (wl_file w2, None)) \<and>
    wl_committed w2 = wl_committed w @ take j commits \<and> wal_inv volatile durable crc w2 fs st2 \<and>
    cf_healthy (wl_file w2) \<and> (is_ok r \<longrightarrow> wl_committed w2 = wl_committed w @ commits)"
proof (cases r)
  case (Inr reports)
  obtain fs st' where inv': "wal_inv volatile durable crc w' (frs @ fs) st'"
    and w': "wl_committed w' = wl_committed w @ commits" "wl_identity w' = wl_identity w"
    "wl_format_version w' = WAL_FORMAT_VERSION"
    using tripleD [OF cf.append_group_torn [OF inv ready] run] Inr v by auto
  from reopen_log [OF inv' w'(3) crash, of hit2 start] w' show ?thesis by (metis order_refl take_all)
next
  case (Inl e)
  then have "torn_log volatile durable crc w st commits (wl_file w')"
    using tripleD [OF cf.append_group_torn [OF inv ready] run] by auto
  from torn_log_reopens [OF this inv v lsns batches crash, of hit2 start] Inl show ?thesis by auto
qed

text \<open>C22: on a file without faults a well-formed group is always accepted. Its commits follow the
  committed ones, the reports carry their LSNs, everything is synced, and the log is again in a
  state that satisfies the invariant and accepts further groups.\<close>

theorem wal_append_succeeds:
  assumes inv: "wal_inv volatile durable crc w frs st" and ready: "wl_history_start_lsn w < wl_next_lsn w"
    and healthy: "cf_healthy (wl_file w)" "length (volatile (wl_file w)) + group_bytes commits < u64_limit"
    and group: "commits \<noteq> []" "group_ok crc (wl_next_lsn w) (wl_next_batch_id w) commits" "group_room t1 t2 commits w"
  shows "\<exists>reports w' fs st'. append_group cf_ops crc hit t1 t2 commits (w, None) = (Inr reports, (w', None)) \<and>
    map ar_commit_lsn reports = map wc_commit_lsn commits \<and> wl_committed w' = wl_committed w @ commits \<and>
    wal_inv volatile durable crc w' (frs @ fs) st' \<and> wl_history_start_lsn w' < wl_next_lsn w' \<and> cf_healthy (wl_file w')"
proof -
  obtain reports w' where run: "append_group cf_ops crc hit t1 t2 commits (w, None) = (Inr reports, (w', None))" "cf_healthy (wl_file w')"
    using cf.append_group_total [OF healthy(1) group(2,1) healthy(2) group(3)] by blast
  from tripleD [OF cf.append_group_torn [OF inv ready] run(1)] run show ?thesis by auto
qed

definition sample_identity :: wal_identity where
  "sample_identity = \<lparr>wi_database_uuid = zeros 16, wi_tenant_id = 1, wi_shard_id = 2, wi_shard_epoch = 3\<rparr>"

definition sample_image :: wal_page_image where
  "sample_image = \<lparr>wpi_page_id = 0, wpi_image = seal (\<lambda>_. 7) 90 (superblock_fields (sample_superblock 1))\<rparr>"

definition sample_commit :: wal_commit where
  "sample_commit = \<lparr>wc_batch_id = 1, wc_commit_lsn = 2, wc_pages = [sample_image]\<rparr>"

lemma sample_image_valid: "valid_page (\<lambda>_. 7) l sample_image"
  using decode_encoded_superblock [OF sample_superblock(1,2), of "\<lambda>_. 7" 1]
  by (simp add: valid_page_def sample_image_def validate_page_image_def validate_page_image_lsn_def
      SUPERBLOCK_A_PAGE_def SUPERBLOCK_B_PAGE_def)

lemma sample_commit_group: "group_ok (\<lambda>_. 7) 1 1 [sample_commit]"
  by (simp add: commit_ok_def sample_commit_def sample_image_valid)

lemma sample_log:
  "\<exists>w. wal_inv volatile durable (\<lambda>_. 7) w [] scan_start \<and> wl_history_start_lsn w < wl_next_lsn w \<and>
     wl_format_version w = WAL_FORMAT_VERSION \<and> cf_healthy (wl_file w) \<and> wl_identity w = sample_identity \<and>
     wl_next_lsn w = 1 \<and> wl_next_batch_id w = 1 \<and> length (volatile (wl_file w)) = 104 \<and> wl_committed w = [] \<and>
     group_room 0 0 [sample_commit] w"
proof -
  have id: "length (wi_database_uuid sample_identity) = 16" by (simp add: sample_identity_def length_zeros)
  have new: "cf_healthy crashable_new" "volatile crashable_new = []"
    by (simp_all add: cf_healthy_def crashable_new_def from_durable_def fault_plan_default_def u64_limit_def)
  obtain w where w: "initialize_empty cf_ops (\<lambda>_. 7) sample_identity 0 crashable_new = (Inr w, wl_file w)" "cf_healthy (wl_file w)"
    "wal_inv volatile durable (\<lambda>_. 7) w [] scan_start" "wl_identity w = sample_identity" "wl_history_start_lsn w = 0"
    "wl_format_version w = WAL_FORMAT_VERSION" "0 < wl_next_lsn w"
    using cf.initialize_empty_total [OF new id, of 0 "\<lambda>_. 7"] by auto
  have "wl_next_lsn w = 1 \<and> wl_next_batch_id w = 1 \<and> wl_append_nanos w = 0 \<and> wl_sync_nanos w = 0 \<and>
     wl_sync_count w = 1 \<and> wl_page_images w = 0 \<and> records_scanned (wl_scan_report w) = 1"
    using w(1) by (auto simp: initialize_empty_def checked_add_u64_def Let_def empty_log_def sbind_def append_frame_def get_wal_def
        mod_wal_def wal_hit_def hit_fault_def on_file_def split: sum.splits prod.splits)
  moreover have "length (volatile (wl_file w)) = 104"
    using w(3-6) init_frame_current(3) [OF id] by (simp add: wal_inv_def)
  ultimately show ?thesis
    using w by (intro exI [of _ w]) (auto simp: group_room_def group_records_def group_page_count_def sample_commit_def usize_max_def
        wal_inv_def scan_start_def)
qed

theorem wal_append_succeeds_witness:
  "\<exists>w w' reports. append_group cf_ops (\<lambda>_. 7) no_hit 0 0 [sample_commit] (w, None) = (Inr reports, (w', None)) \<and>
     wl_committed w = [] \<and> wl_committed w' = [sample_commit]"
proof -
  obtain w where w: "wal_inv volatile durable (\<lambda>_. 7) w [] scan_start" "wl_history_start_lsn w < wl_next_lsn w"
    "cf_healthy (wl_file w)" "wl_next_lsn w = 1" "wl_next_batch_id w = 1" "length (volatile (wl_file w)) = 104" "wl_committed w = []"
    "group_room 0 0 [sample_commit] w"
    using sample_log by blast
  have "length (volatile (wl_file w)) + group_bytes [sample_commit] < u64_limit"
    using w(6) by (simp add: group_bytes_def sample_commit_def u64_limit_def)
  from wal_append_succeeds [OF w(1-3) this _ _ w(8), of no_hit] w(4,5,7) sample_commit_group show ?thesis by auto
qed

theorem wal_crash_atomic_witness:
  "\<exists>w w' w2 reports. append_group cf_ops (\<lambda>_. 7) no_hit 0 0 [sample_commit] (w, None) = (Inr reports, (w', None)) \<and>
     wal_open cf_ops (\<lambda>_. 7) no_hit sample_identity 0 (after_crash None (wl_file w'), None) = (Inr w2, (wl_file w2, None)) \<and>
     wl_committed w2 = [sample_commit]"
proof -
  obtain w where w: "wal_inv volatile durable (\<lambda>_. 7) w [] scan_start" "wl_format_version w = WAL_FORMAT_VERSION"
    "wl_history_start_lsn w < wl_next_lsn w" "cf_healthy (wl_file w)" "wl_identity w = sample_identity"
    "wl_next_lsn w = 1" "wl_next_batch_id w = 1" "length (volatile (wl_file w)) = 104" "wl_committed w = []"
    "group_room 0 0 [sample_commit] w"
    using sample_log by blast
  have len: "length (volatile (wl_file w)) + group_bytes [sample_commit] < u64_limit"
    using w(8) by (simp add: group_bytes_def sample_commit_def u64_limit_def)
  obtain reports w' where run: "append_group cf_ops (\<lambda>_. 7) no_hit 0 0 [sample_commit] (w, None :: unit option) = (Inr reports, (w', None))"
    and h: "cf_healthy (wl_file w')"
    using cf.append_group_total [OF w(4) _ _ len w(10), of "\<lambda>_. 7" no_hit] w(6,7) sample_commit_group by auto
  have "durable (wl_file w') = volatile (wl_file w')"
    using tripleD [OF cf.append_group_torn [OF w(1,3)] run] by (auto simp: wal_inv_def)
  then have "length (volatile (after_crash None (wl_file w'))) < u64_limit" using h by (simp add: cf_healthy_def)
  from wal_crash_atomic [OF w(1-3) _ _ run _ refl this, of no_hit 0] w(5-7,9) run show ?thesis
    by (auto simp: group_records_def sample_commit_def crash_keeps_def)
qed

section \<open>Resetting the log\<close>

lemma triple_fst: "(\<And>x. P x \<Longrightarrow> triple (\<lambda>s. fst s = x) m Q E) \<Longrightarrow> triple (\<lambda>s. P (fst s)) m Q E"
  by (rule tripleI) (blast dest: tripleD)+

lemma wal_hit_bind:
  "triple (\<lambda>s. P (fst s)) (f ()) Q E \<Longrightarrow> (\<And>s. P (fst s) \<Longrightarrow> E s) \<Longrightarrow> triple (\<lambda>s. P (fst s)) (sbind (wal_hit hit point) f) Q E"
  by (rule triple_hit_bind) auto

lemma mod_wal_bind:
  "(\<And>w. P w \<Longrightarrow> R (g w)) \<Longrightarrow> triple (\<lambda>s. R (fst s)) (f ()) Q E \<Longrightarrow> triple (\<lambda>s. P (fst s)) (sbind (mod_wal g) f) Q E"
  by (rule triple_mod_bind [where R = "\<lambda>s. R (fst s)"]) auto

lemma get_wal_bind:
  "(\<And>s. P (fst s) \<Longrightarrow> E s) \<Longrightarrow> (\<And>x. triple (\<lambda>s. P (fst s)) (f x) Q E) \<Longrightarrow> triple (\<lambda>s. P (fst s)) (sbind (get_wal g) f) Q E"
  by (rule triple_get_wal_bind)

text \<open>A log of the given identity whose file has content \<open>c\<close>, of which \<open>k\<close> is stable.\<close>

definition holds :: "('f \<Rightarrow> bytes) \<Rightarrow> ('f \<Rightarrow> bytes) \<Rightarrow> wal_identity \<Rightarrow> bytes \<Rightarrow> bytes \<Rightarrow> 'f wal_log \<Rightarrow> bool" where
  "holds content kept identity c k w \<longleftrightarrow> wl_identity w = identity \<and> content (wl_file w) = c \<and> kept (wl_file w) = k"

text \<open>Where an interrupted reset leaves the file: the old log, or part of the new initialization
  record over whatever was stable.\<close>

definition torn_reset :: "('f \<Rightarrow> bytes) \<Rightarrow> ('f \<Rightarrow> bytes) \<Rightarrow> bytes \<Rightarrow> bytes \<Rightarrow> 'f \<Rightarrow> bool" where
  "torn_reset content kept old new f \<longleftrightarrow> content f = old \<and> kept f = old \<or>
     (\<exists>k. content f = take k new \<and> (kept f = old \<or> (\<exists>k'. kept f = take k' new)))"

definition reset_log :: "lsn \<Rightarrow> 'f wal_log \<Rightarrow> bool" where
  "reset_log checkpoint w \<longleftrightarrow> wl_format_version w = WAL_FORMAT_VERSION \<and> wl_history_start_lsn w = checkpoint \<and>
     checkpoint < wl_next_lsn w \<and> wl_next_batch_id w = 1 \<and> wl_committed w = []"

lemma reset_log_file [simp]: "reset_log checkpoint (w\<lparr>wl_file := f\<rparr>) = reset_log checkpoint w"
  by (simp add: reset_log_def)

lemma torn_resetI:
  "holds content kept identity old old w \<Longrightarrow> torn_reset content kept old new (wl_file w)"
  "holds content kept identity (take m new) k w \<Longrightarrow> k = old \<or> k = [] \<or> k = new \<Longrightarrow> torn_reset content kept old new (wl_file w)"
  "holds content kept identity [] k w \<Longrightarrow> k = old \<or> k = [] \<or> k = new \<Longrightarrow> torn_reset content kept old new (wl_file w)"
  "holds content kept identity new k w \<Longrightarrow> k = old \<or> k = [] \<or> k = new \<Longrightarrow> torn_reset content kept old new (wl_file w)"
  unfolding torn_reset_def holds_def by (metis take0 take_all order_refl)+

lemma torn_reset_empty: "content f = [] \<Longrightarrow> kept f = [] \<Longrightarrow> torn_reset content kept old new f"
  unfolding torn_reset_def by (metis take0)

lemma reset_inv:
  assumes "holds content kept identity new new w" and "reset_log checkpoint w" and "length (wi_database_uuid identity) = 16"
    and "new = frame_bytes crc (init_frame WAL_FORMAT_VERSION identity checkpoint)"
  shows "wal_inv content kept crc w [] scan_start"
  using assms init_frame_current(1) [OF assms(3), of checkpoint]
  by (auto simp: wal_inv_def holds_def reset_log_def scan_start_def word_less_nat_alt)

context torn_file
begin

lemma set_len_failed: "set_len ops n s = (Inl e, s') \<Longrightarrow> view s' = view s \<and> stable s' = stable s"
  using set_len_torn set_len_err by blast

lemma holds_set_len:
  "triple (\<lambda>s. holds view stable identity c k (fst s)) (on_file (smap_err g (set_len ops 0)))
     (\<lambda>_ s. holds view stable identity [] k (fst s)) (\<lambda>s. holds view stable identity c k (fst s))"
  by (rule tripleI) (auto simp: on_file_def holds_def result_iff smap_err_Inl_iff resize_shrink split: prod.splits
      dest!: set_len_ok set_len_failed)

lemma holds_sync:
  assumes "\<And>w f. A (w\<lparr>wl_file := f\<rparr>) = A w"
  shows "triple (\<lambda>s. holds view stable identity c k (fst s) \<and> A (fst s)) (on_file (smap_err g (sync_data ops)))
     (\<lambda>_ s. holds view stable identity c c (fst s) \<and> A (fst s))
     (\<lambda>s. holds view stable identity c k (fst s) \<or> holds view stable identity c c (fst s))"
  by (rule tripleI) (auto simp: on_file_def holds_def result_iff smap_err_Inl_iff assms split: prod.splits
      dest!: sync_ok sync_failed)

lemma holds_append:
  assumes v: "fr_format_version fr = WAL_FORMAT_VERSION"
  shows "triple (\<lambda>s. holds view stable identity [] k (fst s) \<and> reset_log cp (fst s))
    (append_frame ops crc hit (fr_record_type fr) (fr_record_lsn fr) (fr_batch_id fr) (fr_record_index fr) (fr_payload fr))
    (\<lambda>_ s. holds view stable identity (frame_bytes crc fr) k (fst s) \<and> reset_log cp (fst s))
    (\<lambda>s. \<exists>m. holds view stable identity (take m (frame_bytes crc fr)) k (fst s))"
proof (rule triple_fst [where P = "\<lambda>w. holds view stable identity [] k w \<and> reset_log cp w"])
  fix w assume w: "holds view stable identity [] k w \<and> reset_log cp w"
  then have "fr_format_version fr = wl_format_version w" using v by (simp add: reset_log_def)
  from append_frame_torn [OF this, of "[]" crc hit] w
  show "triple (\<lambda>s. fst s = w)
    (append_frame ops crc hit (fr_record_type fr) (fr_record_lsn fr) (fr_batch_id fr) (fr_record_index fr) (fr_payload fr))
    (\<lambda>_ s. holds view stable identity (frame_bytes crc fr) k (fst s) \<and> reset_log cp (fst s))
    (\<lambda>s. \<exists>m. holds view stable identity (take m (frame_bytes crc fr)) k (fst s))"
    by (elim triple_weaken) (auto simp: wrote_def holds_def reset_log_def intro!: exI [of _ "wl_file w"])
qed

text \<open>The second half of a reset writes the new initialization record.\<close>

lemma reinit_torn:
  assumes new: "new = frame_bytes crc (init_frame WAL_FORMAT_VERSION identity cp)"
  shows "triple (\<lambda>s. holds view stable identity [] [] (fst s) \<and> reset_log cp (fst s))
     (sbind (wal_hit hit ''before_wal_reinitialization'') (\<lambda>_.
     sbind (get_wal (\<lambda>w. Inr (identity_payload (wl_identity w) cp))) (\<lambda>payload.
     sbind (wal_hit hit ''during_wal_reinitialization'') (\<lambda>_.
     sbind (append_frame ops crc hit InitRecord 0 0 0 payload) (\<lambda>_.
     sbind (wal_hit hit ''after_wal_reset_write'') (\<lambda>_.
     sbind (wal_hit hit ''before_wal_reset_sync'') (\<lambda>_.
     sbind (wal_hit hit ''during_wal_reset_sync'') (\<lambda>_.
     sbind (on_file (smap_err (\<lambda>_. CheckpointFailure) (sync_data ops))) (\<lambda>_.
     sbind (get_wal (\<lambda>w. ok_or (checked_add_u64 (wl_sync_count w) 1) InternalInvariantViolation)) (\<lambda>syncs.
     sbind (mod_wal (\<lambda>w. w\<lparr>wl_sync_count := syncs\<rparr>)) (\<lambda>_.
     wal_hit hit ''after_wal_reset_sync'')))))))))))
     (\<lambda>_ s. holds view stable identity new new (fst s) \<and> reset_log cp (fst s))
     (\<lambda>s. torn_reset view stable old new (wl_file (fst s)))"
    (is "triple _ _ ?Q ?E")
proof -
  let ?fr = "init_frame WAL_FORMAT_VERSION identity cp"
  let ?R = "\<lambda>w. holds view stable identity [] [] w \<and> reset_log cp w" and ?N = "\<lambda>k w. holds view stable identity new k w \<and> reset_log cp w"
  have fr: "fr_format_version ?fr = WAL_FORMAT_VERSION" "fr_record_type ?fr = InitRecord" "fr_record_lsn ?fr = 0"
    "fr_batch_id ?fr = 0" "fr_record_index ?fr = 0" "fr_payload ?fr = identity_payload identity cp"
    by (simp_all add: init_frame_def WAL_FORMAT_VERSION_def LEGACY_WAL_FORMAT_VERSION_def)
  have app: "triple (\<lambda>s. ?R (fst s)) (append_frame ops crc hit InitRecord 0 0 0 (identity_payload identity cp)) (\<lambda>_ s. ?N [] (fst s)) ?E"
    using holds_append [OF fr(1), of identity "[]" cp crc hit] unfolding fr new [symmetric]
    by (elim triple_weaken) (auto intro: torn_resetI)
  have sync: "triple (\<lambda>s. ?N [] (fst s)) (on_file (smap_err (\<lambda>_. CheckpointFailure) (sync_data ops))) (\<lambda>_ s. ?N new (fst s)) ?E"
    using holds_sync [of "reset_log cp", OF reset_log_file, of identity new "[]" "\<lambda>_. CheckpointFailure"]
    by (rule triple_weaken) (auto intro: torn_resetI)
  show ?thesis
  proof (rule wal_hit_bind [where P = ?R], unfold get_wal_def, rule triple_get_known [where x = "identity_payload identity cp"],
      unfold get_wal_def [symmetric], goal_cases)
    case 2
    show ?case
      by (intro wal_hit_bind [where P = ?R] triple_bind [OF app] wal_hit_bind [where P = "?N []"] triple_bind [OF sync]
          get_wal_bind [where P = "?N new"] mod_wal_bind [where P = "?N new" and R = "?N new"] triple_hit)
        (auto simp: holds_def reset_log_def intro: torn_resetI)
  qed (auto simp: holds_def intro: torn_resetI)
qed

lemma wal_reset_torn:
  fixes w0 :: "'f wal_log"
  assumes inv: "wal_inv view stable crc w0 frs st"
  shows "triple (\<lambda>s. fst s = w0) (wal_reset ops crc hit cp)
    (\<lambda>_ s. wal_inv view stable crc (fst s) [] scan_start \<and> reset_log cp (fst s) \<and> wl_identity (fst s) = wl_identity w0)
    (\<lambda>s. torn_reset view stable (view (wl_file w0))
       (frame_bytes crc (init_frame WAL_FORMAT_VERSION (wl_identity w0) cp)) (wl_file (fst s)))"
    (is "triple _ _ ?Q ?E")
proof -
  let ?H = "holds view stable (wl_identity w0)" and ?old = "view (wl_file w0)"
  let ?M = "\<lambda>w. ?H [] [] w \<and> wl_format_version w = WAL_FORMAT_VERSION \<and> wl_history_start_lsn w = cp"
  let ?R = "\<lambda>w. ?H [] [] w \<and> reset_log cp w"
  have id: "length (wi_database_uuid (wl_identity w0)) = 16" using inv by (simp add: wal_inv_def identity_ok_def)
  have cut: "triple (\<lambda>s. ?H ?old ?old (fst s)) (on_file (smap_err (\<lambda>_. CheckpointFailure) (set_len ops 0)))
      (\<lambda>_ s. ?H [] ?old (fst s)) ?E"
    using holds_set_len by (rule triple_weaken) (auto intro: torn_resetI)
  have sync: "triple (\<lambda>s. ?H [] ?old (fst s)) (on_file (smap_err (\<lambda>_. CheckpointFailure) (sync_data ops)))
      (\<lambda>_ s. ?H [] [] (fst s)) ?E"
    using holds_sync [of "\<lambda>_. True", OF refl, of "wl_identity w0" "[]" ?old "\<lambda>_. CheckpointFailure"] by (rule triple_weaken) (auto intro: torn_resetI)
  have "triple (\<lambda>s. ?H ?old ?old (fst s)) (wal_reset ops crc hit cp) ?Q ?E"
    unfolding wal_reset_def
    by (intro get_wal_bind [where P = "?H ?old ?old"] wal_hit_bind [where P = "?H ?old ?old"] triple_bind [OF cut]
        wal_hit_bind [where P = "?H [] ?old"] triple_bind [OF sync] wal_hit_bind [where P = "?H [] []"]
        mod_wal_bind [where P = "?H [] []" and R = ?M] triple_sres_bind mod_wal_bind [where P = ?M and R = ?R]
        triple_weaken [OF reinit_torn [OF refl]])
      (auto intro: torn_resetI reset_inv [OF _ _ id refl] dest!: checked_add_u64_less
        simp: ok_or_Inr_iff holds_def [of _ _ _ "[]" "[]"] reset_log_def,
       auto simp: holds_def intro: torn_reset_empty)
  then show ?thesis
    by (rule triple_weaken) (use inv in \<open>auto simp: holds_def wal_inv_def\<close>)
qed

end

text \<open>After the crash the file of an interrupted reset holds the old log or a prefix of the new
  initialization record.\<close>

lemma torn_reset_crash:
  assumes "torn_reset volatile durable old new f" and "crash_keeps p f"
  shows "volatile (after_crash p f) = old \<or> (\<exists>k. volatile (after_crash p f) = take k new)"
  using assms by (cases p) (auto simp: torn_reset_def crash_keeps_def)

lemma reopen_reset:
  assumes f: "cf_healthy f" "durable f = volatile f" "volatile f = take k (frame_bytes crc (init_frame WAL_FORMAT_VERSION identity cp))"
    and id: "length (wi_database_uuid identity) = 16" and cp: "unat cp + 1 < 2 ^ 64"
  shows "\<exists>w2. wal_open cf_ops crc hit identity cp (f, None) = (Inr w2, (wl_file w2, None)) \<and> wl_committed w2 = [] \<and>
    wal_inv volatile durable crc w2 [] scan_start \<and> cf_healthy (wl_file w2) \<and> wl_history_start_lsn w2 = cp"
proof (cases "k < INIT_FRAME_SIZE")
  case True
  from cf.wal_open_torn_init [OF f(1) id cp f(3) True, of hit] show ?thesis by (auto simp: wal_inv_def scan_start_def)
next
  case False
  let ?init = "init_frame WAL_FORMAT_VERSION identity cp"
  have v: "volatile f = take k (log_bytes crc (?init # []))" using f(3) by simp
  have len: "INIT_FRAME_SIZE \<le> length (volatile f)" using f(3) False init_frame_current(3) [OF id, of crc cp] by simp
  have "complete crc k [?init] = [?init]" using False init_frame_current(3) [OF id, of crc cp] by simp
  moreover have "stream crc WAL_FORMAT_VERSION cp 1 scan_start [] scan_start 1" "(1 :: nat) < 2 ^ 64" "unat (sc_highest scan_start) + 1 < 2 ^ 64"
    by (simp_all add: scan_start_def)
  ultimately show ?thesis
    using cf.wal_open_log [OF f(1,2) init_frame_current(1) [OF id] v len, of scan_start 1 hit cp]
    by (auto simp: wal_inv_def scan_start_def)
qed

text \<open>C23: a checkpoint's log reset is crash safe. Whatever fails while the log is truncated and
  its initialization record rewritten, and whatever part of the unsynced bytes survives, opening
  the log at the checkpoint succeeds and finds either the old log, with all its committed batches
  and its old start, which is possible only when the reset failed, or an empty log whose history
  starts at the checkpoint.\<close>

theorem wal_reset_crash_safe:
  assumes inv: "wal_inv volatile durable crc w frs st" and v: "wl_format_version w = WAL_FORMAT_VERSION"
    and checkpoint: "unat cp + 1 < 2 ^ 64"
    and run: "wal_reset cf_ops crc hit cp (w, injector) = (r, (w', injector'))"
    and crash: "crash_keeps persisted (wl_file w')" "f = after_crash persisted (wl_file w')" "length (volatile f) < u64_limit"
  shows "\<exists>w2 fs st2. wal_open cf_ops crc hit2 (wl_identity w) cp (f, None) = (Inr w2, (wl_file w2, None)) \<and>
    wal_inv volatile durable crc w2 fs st2 \<and> cf_healthy (wl_file w2) \<and>
    (\<not> is_ok r \<and> wl_committed w2 = wl_committed w \<and> wl_history_start_lsn w2 = wl_history_start_lsn w \<or>
     wl_committed w2 = [] \<and> wl_history_start_lsn w2 = cp)"
proof -
  let ?new = "frame_bytes crc (init_frame WAL_FORMAT_VERSION (wl_identity w) cp)" and ?old = "volatile (wl_file w)"
  have id: "length (wi_database_uuid (wl_identity w)) = 16" and old: "durable (wl_file w) = ?old"
    using inv by (auto simp: wal_inv_def identity_ok_def)
  have h: "cf_healthy f" "durable f = volatile f" using after_crash_healthy crash by auto
  note post = tripleD [OF cf.wal_reset_torn [OF inv] run]
  consider (torn) e where "r = Inl e" "volatile f = ?old" | (new) k where "volatile f = take k ?new"
  proof (cases r)
    case (Inl e)
    then show thesis using torn_reset_crash [OF _ crash(1)] post crash(2) that by auto
  next
    case (Inr u)
    then have "volatile (wl_file w') = ?new" "durable (wl_file w') = ?new"
      using post by (auto simp: wal_inv_def reset_log_def)
    then have "volatile f = take (length ?new) ?new" using crash(1,2) by (cases persisted) (auto simp: crash_keeps_def)
    then show thesis by (rule that(2))
  qed
  then show ?thesis
  proof cases
    case torn
    from reopen_same [OF inv v h torn(2), of hit2 cp] torn(1) show ?thesis by auto
  next
    case new
    from reopen_reset [OF h new id checkpoint, of hit2] show ?thesis by blast
  qed
qed

lemma sample_written_log:
  "\<exists>w frs st. wal_inv volatile durable (\<lambda>_. 7) w frs st \<and> wl_format_version w = WAL_FORMAT_VERSION \<and>
     wl_identity w = sample_identity \<and> cf_healthy (wl_file w) \<and> wl_committed w = [sample_commit]"
proof -
  obtain w :: "crashable_file wal_log" where w: "wal_inv volatile durable (\<lambda>_. 7) w [] scan_start" "wl_history_start_lsn w < wl_next_lsn w"
    "cf_healthy (wl_file w)" "wl_next_lsn w = 1" "wl_next_batch_id w = 1" "length (volatile (wl_file w)) = 104" "wl_committed w = []"
    "group_room 0 0 [sample_commit] w" "wl_format_version w = WAL_FORMAT_VERSION" "wl_identity w = sample_identity"
    using sample_log by blast
  have len: "length (volatile (wl_file w)) + group_bytes [sample_commit] < u64_limit"
    using w(6) by (simp add: group_bytes_def sample_commit_def u64_limit_def)
  obtain reports w' where run: "append_group cf_ops (\<lambda>_. 7) no_hit 0 0 [sample_commit] (w, None :: unit option) = (Inr reports, (w', None))"
    and h: "cf_healthy (wl_file w')"
    using cf.append_group_total [OF w(3) _ _ len w(8), of "\<lambda>_. 7" no_hit] w(4,5) sample_commit_group by auto
  from tripleD [OF cf.append_group_torn [OF w(1,2)] run] w(7,9,10) h show ?thesis by auto
qed

theorem wal_reset_crash_safe_witness:
  "\<exists>w r w' i w2. wl_committed w = [sample_commit] \<and> wal_reset cf_ops (\<lambda>_. 7) no_hit 5 (w, None) = (r, (w', i)) \<and>
     wal_open cf_ops (\<lambda>_. 7) no_hit sample_identity 5 (after_crash None (wl_file w'), None) = (Inr w2, (wl_file w2, None)) \<and>
     (wl_committed w2 = [sample_commit] \<and> \<not> is_ok r \<or> wl_committed w2 = [] \<and> wl_history_start_lsn w2 = 5)"
proof -
  obtain w :: "crashable_file wal_log" and frs st where w: "wal_inv volatile durable (\<lambda>_. 7) w frs st" "wl_format_version w = WAL_FORMAT_VERSION"
    "wl_identity w = sample_identity" "cf_healthy (wl_file w)" "wl_committed w = [sample_commit]"
    using sample_written_log by blast
  obtain r w' i where run: "wal_reset cf_ops (\<lambda>_. 7) no_hit 5 (w, None :: unit option) = (r, (w', i))"
    by (metis prod.exhaust)
  have new: "length (frame_bytes (\<lambda>_. 7) (init_frame WAL_FORMAT_VERSION (wl_identity w) 5)) = 104"
    using init_frame_current(3) [of sample_identity "\<lambda>_. 7" 5] w(3) by (simp add: sample_identity_def length_zeros)
  have "length (volatile (wl_file w)) < u64_limit" using w(4) by (simp add: cf_healthy_def)
  then have "length (durable (wl_file w')) < u64_limit"
    using tripleD [OF cf.wal_reset_torn [OF w(1)] run] new
    by (cases r) (auto simp: wal_inv_def reset_log_def torn_reset_def u64_limit_def)
  then have "length (volatile (after_crash None (wl_file w'))) < u64_limit" by simp
  from wal_reset_crash_safe [OF w(1,2) _ run _ refl this, of no_hit] w(3,5) run show ?thesis
    by (auto simp: crash_keeps_def)
qed

end
