(* ===== verification/Dodb_Durable.thy ===== *)
theory Dodb_Durable
  imports Dodb_Publish Dodb_Store Dodb_Wal_Recovery
begin

text \<open>
  The store between batches. \<open>store_ok\<close> relates the fields of a store and its committed pages to
  the ordered map of rows it holds; publishing a prepared batch moves the store to the rows the
  batch computed, stamped with the commit LSN.
\<close>

section \<open>States of the store\<close>

definition store_state :: "memory \<Rightarrow> ('f, 'w, 'i) btree_store \<Rightarrow> ostate" where
  "store_state base st = ov_state base base (overlay_new st)"

definition rows_before :: "revision \<Rightarrow> rows \<Rightarrow> bool" where
  "rows_before n rows \<longleftrightarrow> (\<forall>r \<in> set rows. 0 < rs_revision (snd r) \<and> rs_revision (snd r) < n)"

text \<open>A committed state: no page is dirty, the superblock names the root, the free list and the
  high-water mark, and the revisions of the rows are in the past.\<close>

definition superblock_of :: "ostate \<Rightarrow> superblock \<Rightarrow> bool" where
  "superblock_of s sb \<longleftrightarrow> superblock_ok sb \<and> sb_root_page_id sb = Some (o_root s) \<and> sb_free_list_head sb = o_free s \<and>
     sb_high_water_page_id sb = Some (o_high s)"

definition state_ok :: "ostate \<Rightarrow> rows \<Rightarrow> bool" where
  "state_ok s rows \<longleftrightarrow>
     holds_rows s rows \<and> rows_before (o_next_revision s) rows \<and> 0 < o_next_revision s \<and> o_next_revision s \<le> o_next_lsn s \<and>
     (\<forall>q. o_high s < q \<longrightarrow> o_mem s q = None) \<and> o_clean s = o_mem s \<and> o_dirty s = [] \<and> o_last s = None \<and>
     superblock_of s (o_superblock s)"

definition store_ok :: "memory \<Rightarrow> ('f, 'w, 'i) btree_store \<Rightarrow> rows \<Rightarrow> bool" where
  "store_ok base st rows \<longleftrightarrow> cache_coherent base (bs_cache st) \<and> om_wf (bs_dirty_pages st) \<and> state_ok (store_state base st) rows"

lemma store_state_fields [simp]:
  "o_mem (store_state base st) = base" "o_clean (store_state base st) = base" "o_root (store_state base st) = bs_root_page_id st"
  "o_free (store_state base st) = bs_free_list_head st" "o_high (store_state base st) = bs_high_water_page_id st"
  "o_dirty (store_state base st) = []" "o_last (store_state base st) = None"
  "o_next_revision (store_state base st) = bs_next_revision st" "o_next_lsn (store_state base st) = bs_next_lsn st"
  "o_next_batch (store_state base st) = bs_next_batch_id st" "o_superblock (store_state base st) = bs_current_superblock st"
  "o_slot (store_state base st) = bs_active_slot st"
  by (simp_all add: store_state_def ov_state_def overlay_new_def ov_mem_def om_get_def fun_eq_iff)

lemma stamp_of_store [simp]: "stamp_of (store_state base st) = bs_next_revision st"
  by (simp add: stamp_of_def)

section \<open>The cache\<close>

lemma cache_capacity_0: "cache_ok c \<Longrightarrow> pc_capacity c = 0 \<Longrightarrow> cached c q = None"
  by (simp add: cache_ok_def cached_def om_get_def)

text \<open>Pages outside \<open>K\<close> are cached as \<open>m\<close> has them.\<close>

definition coherent_off :: "page_id set \<Rightarrow> memory \<Rightarrow> page_cache \<Rightarrow> bool" where
  "coherent_off K m c \<longleftrightarrow> cache_ok c \<and> (\<forall>q d. cached c q = Some d \<longrightarrow> q \<in> K \<or> m q = Some d)"

lemma cache_insert_coherent:
  assumes c: "coherent_off (insert k K) m c" and new: "k \<in> K \<or> m k = Some page"
  shows "coherent_off K m (cache_insert k page c)"
  unfolding coherent_off_def
proof (intro conjI allI impI)
  have ok: "cache_ok c" and old: "\<forall>q d. cached c q = Some d \<longrightarrow> q \<in> insert k K \<or> m q = Some d" using c by (simp_all add: coherent_off_def)
  show "cache_ok (cache_insert k page c)" by (rule cache_insert_ok [OF ok])
  fix q d assume "cached (cache_insert k page c) q = Some d"
  from cache_insert_sub [OF ok this] old new cache_capacity_0 [OF ok, of q] show "q \<in> K \<or> m q = Some d"
    by (auto split: if_splits)
qed

lemma cache_insert_many_coherent:
  assumes "coherent_off (fst ` set kvs \<union> K) m c" and "\<forall>(q, d) \<in> set kvs. q \<in> K \<or> m q = Some d"
  shows "coherent_off K m (cache_insert_many kvs c)"
  using assms unfolding cache_insert_many_def
proof (induction kvs arbitrary: c)
  case (Cons kv kvs)
  obtain k d where kv: "kv = (k, d)" by (metis surj_pair)
  have "coherent_off (fst ` set kvs \<union> K) m (cache_insert k d c)"
    by (rule cache_insert_coherent) (use Cons.prems kv in auto)
  with Cons.IH [of "cache_insert k d c"] Cons.prems(2) kv show ?case by simp
qed simp

section \<open>Publishing a candidate\<close>

text \<open>The pages after a commit.\<close>

definition committed_memory :: "ostate \<Rightarrow> revision \<Rightarrow> lsn \<Rightarrow> memory" where
  "committed_memory s p c q = (if q \<in> set (o_dirty s) then map_option (\<lambda>d. restamp d p c) (o_mem s q) else o_mem s q)"

lemma map_of_rev_distinct: "distinct (map fst kvs) \<Longrightarrow> map_of (rev kvs) = map_of kvs"
  by (simp add: map_of_inject_set rev_map [symmetric])

lemma base_page_extend:
  assumes wf: "om_wf dirty" and cp: "commits_pages crc s p c pr"
    and off: "\<forall>q. q \<notin> set (o_dirty s) \<longrightarrow> o_mem s q = base_page crc content dirty q"
  shows "base_page crc content (om_extend dirty (pr_changed_pages pr)) = committed_memory s p c"
proof
  fix q
  let ?cp = "pr_changed_pages pr"
  have keys: "map fst ?cp = o_dirty s" and wf': "om_wf ?cp" using cp by (simp_all add: commits_pages_def)
  have "distinct (map fst ?cp)" using wf' by (simp add: om_wf_def strict_sorted_iff)
  then have get: "om_get (om_extend dirty ?cp) q = (case map_of ?cp q of None \<Rightarrow> om_get dirty q | Some v \<Rightarrow> Some v)"
    unfolding om_get_extend [OF wf] by (simp add: map_of_rev_distinct)
  show "base_page crc content (om_extend dirty ?cp) q = committed_memory s p c q"
  proof (cases "map_of ?cp q")
    case None
    then have "q \<notin> set (o_dirty s)" using keys by (metis list.set_map map_of_eq_None_iff)
    then show ?thesis using off None get by (simp add: committed_memory_def base_page_def)
  next
    case (Some bs)
    then have m: "(q, bs) \<in> set ?cp" by (rule map_of_SomeD)
    then have dirty: "q \<in> set (o_dirty s)" using keys by (metis fst_conv image_eqI list.set_map)
    obtain d where d: "o_mem s q = Some d" "pd_encode crc (restamp d p c) q = Inr bs" "pd_wf (restamp d p c)"
      using cp m by (auto simp: commits_pages_def)
    have "page_of crc bs q = Some (restamp d p c)" using pd_decode_encoded [OF d(3,2)] by (simp add: page_of_def)
    then show ?thesis using get Some d dirty by (simp add: committed_memory_def base_page_def)
  qed
qed

lemma at_lsn_restamp: "at_lsn c (restamp d p c) = restamp d p c"
  by (cases d) auto

text \<open>The memory after a commit holds the restamped rows.\<close>

lemma committed_rows:
  assumes base: "tree_inv s0 t0 own0 frees0 rows0" "\<forall>q. o_high s0 < q \<longrightarrow> o_mem s0 q = None"
    and fresh: "\<forall>r \<in> set rows0. rs_revision (snd r) \<noteq> p"
    and off: "\<forall>q. q \<notin> set (o_dirty s) \<longrightarrow> o_mem s q = o_mem s0 q"
    and inv: "tree_inv s t own frees rows"
    and new: "o_mem s' = committed_memory s p c" "o_root s' = o_root s" "o_free s' = o_free s" "o_high s' = o_high s" "o_dirty s' = []"
  shows "holds_rows s' (restamp_rows p c rows)"
proof -
  have "restamped p c (o_mem (masked s)) (o_mem s')"
    unfolding restamped_def
  proof (intro allI impI)
    fix q d assume "o_mem (masked s) q = Some d"
    then have d: "o_mem s q = Some d" and q: "FIRST_DATA_PAGE \<le> q" "q \<le> o_high s" by (auto simp: restrict_map_def split: if_splits)
    show "\<exists>l. o_mem s' q = Some (at_lsn l (restamp d p c))"
    proof (cases "q \<in> set (o_dirty s)")
      case True
      then show ?thesis using d at_lsn_restamp [of c d p] by (intro exI [of _ c]) (simp add: new(1) committed_memory_def)
    next
      case False
      then have d0: "o_mem s0 q = Some d" using off d by simp
      then have "q \<le> o_high s0" using base(2) by (metis not_le option.distinct(1))
      from tree_inv_fresh [OF base(1) fresh q(1) this d0] obtain l where "at_lsn l (restamp d p c) = d" by blast
      then show ?thesis using False d by (intro exI [of _ l]) (simp add: new(1) committed_memory_def)
    qed
  qed
  from restamp_tree_inv [OF tree_inv_masked [OF inv] this] new show ?thesis by (auto simp: holds_rows_def)
qed

lemma committed_above:
  assumes "tree_inv s t own frees rows" and "\<forall>q. hw0 < q \<longrightarrow> m0 q = None" and "hw0 \<le> o_high s"
    and "\<forall>q. q \<notin> set (o_dirty s) \<longrightarrow> o_mem s q = m0 q"
  shows "\<forall>q. o_high s < q \<longrightarrow> committed_memory s p c q = None"
proof (intro allI impI)
  fix q assume q: "o_high s < q"
  have "set (o_dirty s) \<subseteq> {FIRST_DATA_PAGE..o_high s}" using assms(1) by (simp add: tree_inv_def pages_ok_def)
  then have "q \<notin> set (o_dirty s)" using q by (meson atLeastAtMost_iff not_le subsetD)
  then show "committed_memory s p c q = None" using assms(2-4) q by (simp add: committed_memory_def)
qed

lemma committed_cache:
  assumes c: "cache_coherent m0 c" and off: "\<forall>q. q \<notin> set (o_dirty s) \<longrightarrow> o_mem s q = m0 q" and cp: "commits_pages crc s p l pr"
    and reads: "\<forall>q d. om_get (pr_read_pages pr) q = Some d \<longrightarrow> m0 q = Some d" and wf: "om_wf (pr_read_pages pr)"
  shows "cache_coherent (committed_memory s p l) (cache_insert_many (pr_changed_decoded pr) (cache_insert_many (pr_read_pages pr) c))"
proof -
  let ?m = "committed_memory s p l" and ?K = "set (o_dirty s)"
  have same: "q \<in> ?K \<or> ?m q = m0 q" for q using off by (simp add: committed_memory_def)
  have get: "om_get (pr_changed_decoded pr) q = (if q \<in> ?K then ?m q else None)" for q
    using cp by (simp add: commits_pages_def committed_memory_def)
  have wfd: "om_wf (pr_changed_decoded pr)" using cp by (simp add: commits_pages_def)
  have keys: "map fst (pr_changed_pages pr) = o_dirty s"
    and img: "\<forall>(q, bs) \<in> set (pr_changed_pages pr). \<exists>d. o_mem s q = Some d \<and> pd_encode crc (restamp d p l) q = Inr bs \<and> pd_wf (restamp d p l)"
    using cp by (simp_all add: commits_pages_def)
  have "q \<in> fst ` set (pr_changed_decoded pr)" if q: "q \<in> ?K" for q
  proof -
    obtain bs where "(q, bs) \<in> set (pr_changed_pages pr)" using q unfolding keys [symmetric] by auto
    then obtain d where "o_mem s q = Some d" using img by blast
    then have "om_get (pr_changed_decoded pr) q \<noteq> None" using get q by (simp add: committed_memory_def)
    then show ?thesis by (rule contrapos_np) (simp add: om_get_notin)
  qed
  then have K: "?K \<subseteq> fst ` set (pr_changed_decoded pr)" by blast
  have "coherent_off ?K ?m (cache_insert_many (pr_read_pages pr) c)"
  proof (rule cache_insert_many_coherent)
    show "coherent_off (fst ` set (pr_read_pages pr) \<union> ?K) ?m c" using c same by (fastforce simp: coherent_off_def cache_coherent_def)
    show "\<forall>(q, d) \<in> set (pr_read_pages pr). q \<in> ?K \<or> ?m q = Some d" using reads same om_get_eq_Some [OF wf] by fastforce
  qed
  then have "coherent_off (fst ` set (pr_changed_decoded pr) \<union> {}) ?m (cache_insert_many (pr_read_pages pr) c)"
    using K by (auto simp: coherent_off_def)
  moreover have "\<forall>(q, d) \<in> set (pr_changed_decoded pr). q \<in> {} \<or> ?m q = Some d"
    using get om_get_eq_Some [OF wfd] by (fastforce split: if_splits)
  ultimately have "coherent_off {} ?m (cache_insert_many (pr_changed_decoded pr) (cache_insert_many (pr_read_pages pr) c))"
    by (rule cache_insert_many_coherent)
  then show ?thesis by (simp add: coherent_off_def cache_coherent_def)
qed

section \<open>The candidate in the store\<close>

definition published :: "prepared_batch \<Rightarrow> bytes \<Rightarrow> lsn \<Rightarrow> ('f, 'w, 'i) btree_store \<Rightarrow> ('f, 'w, 'i) btree_store" where
  "published pr img c st = st\<lparr>bs_current_superblock := pr_new_superblock pr, bs_active_slot := pr_new_slot pr,
     bs_root_page_id := pr_root_page_id pr, bs_free_list_head := pr_free_list_head pr,
     bs_high_water_page_id := pr_high_water_page_id pr, bs_next_revision := pr_next_revision pr, bs_next_lsn := c + 1,
     bs_next_batch_id := pr_batch_id pr + 1, bs_dirty_pages := om_extend (bs_dirty_pages st) (pr_changed_pages pr),
     bs_dirty_superblock := Some img,
     bs_cache := cache_insert_many (pr_changed_decoded pr) (cache_insert_many (pr_read_pages pr) (bs_cache st)),
     bs_published_page_updates :=
       (if bs_track_published_pages st then om_extend (bs_published_page_updates st) (pr_changed_decoded pr)
        else bs_published_page_updates st)\<rparr>"

text \<open>A candidate whose superblock image and counters are in order.\<close>

definition publishable :: "crc_fun \<Rightarrow> prepared_batch \<Rightarrow> bytes \<Rightarrow> lsn \<Rightarrow> bool" where
  "publishable crc pr img c \<longleftrightarrow> encode_superblock crc (pr_new_superblock pr) = Inr img \<and>
     decode_superblock crc img = Inr (pr_new_superblock pr) \<and> pr_commit_lsn pr = Some c \<and>
     unat c + 1 < 2 ^ 64 \<and> unat (pr_batch_id pr) + 1 < 2 ^ 64"

lemma publishable_meta:
  "commits_meta crc s c img pr \<Longrightarrow> unat c + 1 < 2 ^ 64 \<Longrightarrow> unat (o_next_batch s) + 1 < 2 ^ 64 \<Longrightarrow> publishable crc pr img c"
  by (auto simp: commits_meta_def publishable_def)

lemma publish_candidate_run:
  "publishable (crc32c env) pr img c \<Longrightarrow> publish_candidate env pr img st = (Inr (), published pr img c st)"
  by (simp add: publishable_def publish_candidate_def sbind_def sres_def smod_def checked_add_u64_def published_def)

type_synonym candidate = "prepared_batch \<times> bytes \<times> lsn"

definition published_all :: "candidate list \<Rightarrow> ('f, 'w, 'i) btree_store \<Rightarrow> ('f, 'w, 'i) btree_store" where
  "published_all cs = fold (\<lambda>(pr, img, c). published pr img c) cs"

definition commit_record :: "prepared_batch \<Rightarrow> bytes \<Rightarrow> lsn \<Rightarrow> wal_commit" where
  "commit_record pr img c = \<lparr>wc_batch_id = pr_batch_id pr, wc_commit_lsn = c,
     wc_pages = map (\<lambda>(pid, bs). \<lparr>wpi_page_id = pid, wpi_image = bs\<rparr>) (pr_changed_pages pr) @
       [\<lparr>wpi_page_id = slot_page (pr_new_slot pr), wpi_image = img\<rparr>]\<rparr>"

definition all_publishable :: "crc_fun \<Rightarrow> candidate list \<Rightarrow> bool" where
  "all_publishable crc = list_all (\<lambda>(pr, img, c). publishable crc pr img c)"

definition records :: "candidate list \<Rightarrow> wal_commit list" where
  "records = map (\<lambda>(pr, img, c). commit_record pr img c)"

lemma prepare_commits_run:
  "all_publishable crc cs \<Longrightarrow> rmap (prepare_commit crc True) (map fst cs) = Inr (map (\<lambda>(pr, img, c). (img, Some (commit_record pr img c))) cs)"
  by (induction cs) (auto simp: all_publishable_def publishable_def prepare_commit_def commit_record_def)

lemma publish_candidates_run:
  "all_publishable (crc32c env) cs \<Longrightarrow>
     publish_candidates env (zip (map fst cs) (map (fst \<circ> snd) cs)) st = (Inr (), published_all cs st)"
  by (induction cs arbitrary: st) (auto simp: all_publishable_def published_all_def publish_candidate_run sbind_def)

lemma records_filter: "List.map_filter snd (map (\<lambda>(pr, img, c). (img, Some (commit_record pr img c))) cs) = records cs"
  by (induction cs) (auto simp: records_def List.map_filter_def)

lemma published_all_fields [simp]:
  "bs_broken (published_all cs st) = bs_broken st" "bs_fault_injector (published_all cs st) = bs_fault_injector st"
  "bs_wal (published_all cs st) = bs_wal st" "bs_file (published_all cs st) = bs_file st" "bs_config (published_all cs st) = bs_config st"
  unfolding published_all_def by (induction cs arbitrary: st; force simp: published_def)+

lemma publish_group_run:
  assumes cs: "all_publishable (crc32c env) cs" "\<not> list_all (\<lambda>c. pr_changed_pages (fst c) = []) cs"
    and st: "bs_broken st = None" "bs_fault_injector st = None" "bs_wal st = Some w"
      "contiguous (sb_generation (bs_current_superblock st)) (map fst cs)"
    and log: "append_group (wal_ops env) (crc32c env) (fault_hit env) (append_time env) (sync_time env) (records cs) (w, None) =
      (Inr reports, (w', None))"
  shows "\<exists>m. publish_prepared_group env (map fst cs) st = (Inr (), (published_all cs (st\<lparr>bs_wal := Some w'\<rparr>))\<lparr>bs_storage_metrics := m\<rparr>)"
proof -
  let ?st = "st\<lparr>bs_wal := Some w'\<rparr>"
  note enc = prepare_commits_run [OF cs(1)]
  have persist: "persist_group env (map fst cs) (map (\<lambda>(pr, img, c). (img, Some (commit_record pr img c))) cs) st = (Inr (), ?st)"
    using st(2,3) log by (simp add: persist_group_def sbind_def sget_def or_broken_def on_wal_def records_filter)
  have imgs: "map fst (map (\<lambda>(pr, img, c). (img, Some (commit_record pr img c))) cs) = map (fst \<circ> snd) cs" by (simp add: comp_def case_prod_unfold)
  have hit: "store_hit env point s = (Inr (), s)" if "bs_fault_injector s = None" for point s
    using that by (cases s) (simp add: store_hit_def hit_fault_def)
  show ?thesis
    using st cs(2) hit publish_candidates_run [OF cs(1), of ?st]
    by (simp add: publish_prepared_group_def sbind_def not_broken_def sget_def smod_def enc persist imgs or_broken_def list.pred_map comp_def
        ensure_def del: map_map) (rule exI, rule refl)
qed

lemma rows_before_restamp:
  assumes old: "rows_before p rows0" and new: "\<forall>r \<in> set rows. rs_revision (snd r) = p \<or> r \<in> set rows0"
    and c: "p \<le> c" "0 < p" "c < c + 1"
  shows "rows_before (c + 1) (restamp_rows p c rows)"
  unfolding rows_before_def
proof
  fix r assume "r \<in> set (restamp_rows p c rows)"
  then obtain k v where kv: "(k, v) \<in> set rows" "r = (k, restamp_state v p c)" by (auto simp: restamp_rows_def)
  have "rs_revision (snd r) = c \<or> 0 < rs_revision (snd r) \<and> rs_revision (snd r) < p"
    using old new kv by (cases v) (fastforce simp: rows_before_def)+
  moreover have "0 < c" using c(2,1) by (rule less_le_trans)
  moreover have "p < c + 1" using c(1,3) by (rule le_less_trans)
  ultimately show "0 < rs_revision (snd r) \<and> rs_revision (snd r) < c + 1"
    using c(3) by (elim disjE conjE) (simp, blast intro: less_trans)
qed

section \<open>The commit in the log\<close>

lemma decoded_page_lsn: "decode_page_at crc bs expected = Inr page \<Longrightarrow> from_le_u64 (seg 16 24 bs) = ph_page_lsn (dp_header page)"
  unfolding decode_page_at_iff by (metis from_to_le_u64)

lemma pd_encode_header:
  assumes "pd_encode crc d pid = Inr bs"
  shows "is_ok (decode_page_at crc bs (Some pid))" "from_le_u64 (seg 16 24 bs) = pd_lsn d"
proof -
  obtain body where "encode_page crc (page_header_new (pd_page_type d) pid (pd_lsn d)) body = Inr bs"
    using assms by (auto simp: pd_encode_def rbind_Inr_iff)
  from decode_encoded_page [OF this, of "Some pid"] obtain page where "decode_page_at crc bs (Some pid) = Inr page"
    "ph_page_lsn (dp_header page) = pd_lsn d" by (simp add: page_header_new_def)
  then show "is_ok (decode_page_at crc bs (Some pid))" "from_le_u64 (seg 16 24 bs) = pd_lsn d"
    using decoded_page_lsn by (auto simp: is_ok_iff)
qed

lemma pd_lsn_restamp: "pd_lsn (restamp d p c) = c"
  by (cases d) auto

lemma data_page_not_superblock: "FIRST_DATA_PAGE \<le> q \<Longrightarrow> q \<noteq> SUPERBLOCK_A_PAGE \<and> q \<noteq> SUPERBLOCK_B_PAGE"
  by (auto simp: FIRST_DATA_PAGE_def SUPERBLOCK_A_PAGE_def SUPERBLOCK_B_PAGE_def word_le_nat_alt)

lemma commit_record_pages:
  assumes cp: "commits_pages crc s p c pr" and meta: "commits_meta crc s c img pr" and dirty: "set (o_dirty s) \<subseteq> {FIRST_DATA_PAGE..}"
  shows "list_all (valid_page crc c) (wc_pages (commit_record pr img c))"
proof -
  have keys: "map fst (pr_changed_pages pr) = o_dirty s"
    and images: "\<forall>(q, bs) \<in> set (pr_changed_pages pr). \<exists>d. o_mem s q = Some d \<and> pd_encode crc (restamp d p c) q = Inr bs \<and> pd_wf (restamp d p c)"
    using cp by (simp_all add: commits_pages_def)
  have "valid_page crc c \<lparr>wpi_page_id = q, wpi_image = bs\<rparr>" if m: "(q, bs) \<in> set (pr_changed_pages pr)" for q bs
  proof -
    obtain d where "pd_encode crc (restamp d p c) q = Inr bs" using images m by blast
    from pd_encode_header [OF this] have "is_ok (decode_page_at crc bs (Some q))" "from_le_u64 (seg 16 24 bs) = c"
      by (simp_all add: pd_lsn_restamp)
    moreover have "q \<in> set (o_dirty s)" using m unfolding keys [symmetric] by force
    ultimately show ?thesis
      using dirty data_page_not_superblock [of q]
      by (auto simp: valid_page_def validate_page_image_def validate_page_image_lsn_def is_ok_iff)
  qed
  moreover have "valid_page crc c \<lparr>wpi_page_id = slot_page (pr_new_slot pr), wpi_image = img\<rparr>"
    using meta by (cases "pr_new_slot pr") (auto simp: commits_meta_def valid_page_def validate_page_image_def validate_page_image_lsn_def
        slot_page_def SUPERBLOCK_A_PAGE_def SUPERBLOCK_B_PAGE_def)
  ultimately show ?thesis by (auto simp: commit_record_def list_all_iff)
qed

lemma length_commit_record: "commits_pages crc s p c pr \<Longrightarrow> length (wc_pages (commit_record pr img c)) = length (o_dirty s) + 1"
  by (auto simp: commit_record_def commits_pages_def dest: arg_cong [of _ _ length])

lemma commit_record_group:
  assumes cp: "commits_pages crc s p (commit_of s) pr" and meta: "commits_meta crc s (commit_of s) img pr"
    and dirty: "set (o_dirty s) \<subseteq> {FIRST_DATA_PAGE..}" "length (o_dirty s) + 1 < 2 ^ 32" and room: "commit_room s"
  shows "group_ok crc (o_next_lsn s) (o_next_batch s) (commit_record pr img (commit_of s) # cs) \<longleftrightarrow>
    group_ok crc (commit_of s + 1) (o_next_batch s + 1) cs"
proof -
  have "commit_ok crc (commit_record pr img (commit_of s)) (o_next_lsn s)"
    using commit_record_pages [OF cp meta dirty(1)] length_commit_record [OF cp, of img] dirty(2) unat_commit_of [OF room]
    unfolding commit_ok_def by (auto simp: commit_record_def)
  then show ?thesis
    using meta room unat_commit_of [OF room] by (simp add: commit_record_def commits_meta_def commit_room_def)
qed

definition batch_room :: "('f, 'w, 'i) btree_store \<Rightarrow> nat \<Rightarrow> bool" where
  "batch_room st n \<longleftrightarrow> unat (bs_high_water_page_id st) + n * PUT_GROWTH < 2 ^ 31 \<and> unat (bs_next_lsn st) + 2 ^ 32 < 2 ^ 64 \<and>
     unat (sb_generation (bs_current_superblock st)) + 1 < 2 ^ 64 \<and> unat (bs_next_batch_id st) + 1 < 2 ^ 64"

lemma length_dirty:
  assumes inv: "tree_inv s t own frees rows" and "sorted_wrt (<) (o_dirty s)"
  shows "length (o_dirty s) \<le> unat (o_high s) + 1"
proof -
  have dirty: "set (o_dirty s) \<subseteq> {FIRST_DATA_PAGE..o_high s}" using inv by (simp add: tree_inv_def pages_ok_def)
  have "distinct (o_dirty s)" using assms(2) by (simp add: strict_sorted_iff)
  moreover have "inj_on unat (set (o_dirty s))" by (intro inj_onI) (metis word_unat_eq_iff)
  ultimately have "length (o_dirty s) = card (unat ` set (o_dirty s))" by (simp add: card_image distinct_card)
  also have "\<dots> \<le> card {..unat (o_high s)}" using dirty by (intro card_mono) (auto simp: word_le_nat_alt)
  finally show ?thesis by simp
qed

section \<open>Prepared batches\<close>

text \<open>A batch that wrote \<open>rows\<close> from the committed state \<open>s0\<close>, with its pages in \<open>s\<close>.\<close>

definition prepared_from :: "crc_fun \<Rightarrow> ostate \<Rightarrow> rows \<Rightarrow> ostate \<Rightarrow> bytes \<Rightarrow> prepared_batch \<Rightarrow> bool" where
  "prepared_from crc s0 rows s img pr \<longleftrightarrow>
     commits_pages crc s (o_next_revision s0) (commit_of s) pr \<and> commits_meta crc s (commit_of s) img pr \<and>
     (\<exists>t own frees. tree_inv s t own frees rows) \<and> o_high s0 \<le> o_high s \<and>
     (\<forall>q. q \<notin> set (o_dirty s) \<longrightarrow> o_mem s q = o_mem s0 q) \<and>
     (\<forall>q d. om_get (pr_read_pages pr) q = Some d \<longrightarrow> o_mem s0 q = Some d) \<and> om_wf (pr_read_pages pr) \<and>
     o_dirty s \<noteq> [] \<and> length (o_dirty s) + 1 < 2 ^ 32 \<and> commit_room s \<and>
     o_next_lsn s = o_next_lsn s0 \<and> o_next_batch s = o_next_batch s0 \<and> o_superblock s = o_superblock s0 \<and> o_slot s = o_slot s0"

lemma prepared_fromD:
  assumes "prepared_from crc s0 rows s img pr"
  shows "commits_pages crc s (o_next_revision s0) (commit_of s) pr" "commits_meta crc s (commit_of s) img pr" "o_high s0 \<le> o_high s"
    "\<forall>q. q \<notin> set (o_dirty s) \<longrightarrow> o_mem s q = o_mem s0 q" "\<forall>q d. om_get (pr_read_pages pr) q = Some d \<longrightarrow> o_mem s0 q = Some d"
    "om_wf (pr_read_pages pr)" "o_dirty s \<noteq> []" "length (o_dirty s) + 1 < 2 ^ 32"
    "o_next_batch s = o_next_batch s0" "o_slot s = o_slot s0" "o_next_lsn s = o_next_lsn s0" "o_superblock s = o_superblock s0" "commit_room s"
  using assms by (simp_all add: prepared_from_def)

definition after_commit :: "revision \<Rightarrow> prepared_batch \<Rightarrow> ostate \<Rightarrow> ostate" where
  "after_commit p pr s = s\<lparr>o_mem := committed_memory s p (commit_of s), o_clean := committed_memory s p (commit_of s), o_dirty := [],
     o_last := None, o_next_revision := commit_of s + 1, o_next_lsn := commit_of s + 1, o_next_batch := o_next_batch s + 1,
     o_superblock := pr_new_superblock pr, o_slot := other_slot (o_slot s)\<rparr>"

lemma after_commit_fields [simp]:
  "o_next_revision (after_commit p pr s) = commit_of s + 1" "o_next_lsn (after_commit p pr s) = commit_of s + 1"
  "o_next_batch (after_commit p pr s) = o_next_batch s + 1" "o_high (after_commit p pr s) = o_high s"
  "o_superblock (after_commit p pr s) = pr_new_superblock pr"
  by (simp_all add: after_commit_def)

lemma commit_above:
  assumes "commit_room s" and "p \<le> o_next_lsn s"
  shows "p \<le> commit_of s" "commit_of s < commit_of s + 1" "unat (commit_of s) + 1 < 2 ^ 64"
proof -
  have c: "unat (commit_of s) = unat (o_next_lsn s) + length (o_dirty s) + 1" by (rule unat_commit_of [OF assms(1)])
  show "unat (commit_of s) + 1 < 2 ^ 64" using c assms(1) by (simp add: commit_room_def)
  then show "commit_of s < commit_of s + 1" by (simp add: word_less_nat_alt unat_word_ariths)
  show "p \<le> commit_of s" using c assms(2) by (simp add: word_le_nat_alt)
qed

lemma after_commit_ok:
  assumes ok: "state_ok s0 rows0" and pr: "prepared_from crc s0 rows s img pr"
    and new: "\<forall>r \<in> set rows. rs_revision (snd r) = o_next_revision s0 \<or> r \<in> set rows0"
  shows "state_ok (after_commit (o_next_revision s0) pr s) (restamp_rows (o_next_revision s0) (commit_of s) rows)"
proof -
  let ?p = "o_next_revision s0" and ?c = "commit_of s"
  let ?s = "after_commit ?p pr s"
  note p = prepared_fromD [OF pr]
  have above: "\<forall>q. o_high s0 < q \<longrightarrow> o_mem s0 q = None" and rows0: "holds_rows s0 rows0" "rows_before ?p rows0" "0 < ?p" "?p \<le> o_next_lsn s"
    using ok p(11) by (simp_all add: state_ok_def)
  note c = commit_above [OF p(13) rows0(4)]
  obtain t0 own0 frees0 where t0: "tree_inv s0 t0 own0 frees0 rows0" using rows0(1) by (auto simp: holds_rows_def)
  obtain t own frees where inv: "tree_inv s t own frees rows" using pr by (auto simp: prepared_from_def)
  have fresh: "\<forall>r \<in> set rows0. rs_revision (snd r) \<noteq> ?p" using rows0(2) by (auto simp: rows_before_def)
  have s: "o_mem ?s = committed_memory s ?p ?c" "o_root ?s = o_root s" "o_free ?s = o_free s" "o_high ?s = o_high s" "o_dirty ?s = []"
    "o_next_revision ?s = ?c + 1" "o_next_lsn ?s = ?c + 1" "o_last ?s = None" "o_superblock ?s = pr_new_superblock pr" "o_clean ?s = o_mem ?s"
    by (simp_all add: after_commit_def)
  have "holds_rows ?s (restamp_rows ?p ?c rows)" by (rule committed_rows [OF t0 above fresh p(4) inv s(1-5)])
  moreover have "\<forall>q. o_high ?s < q \<longrightarrow> o_mem ?s q = None" using committed_above [OF inv above p(3,4)] s by simp
  moreover have "0 < ?c + 1" using le_less_trans [OF word_zero_le c(2)] .
  moreover have "superblock_of ?s (pr_new_superblock pr)" using p(2) s by (auto simp: commits_meta_def superblock_of_def)
  ultimately show ?thesis
    using rows_before_restamp [OF rows0(2) new c(1) rows0(3) c(2)] s by (simp add: state_ok_def)
qed

text \<open>A sequence of batches, each prepared from the state the one before it commits.\<close>

inductive chain :: "crc_fun \<Rightarrow> ostate \<Rightarrow> rows \<Rightarrow> candidate list \<Rightarrow> ostate \<Rightarrow> rows \<Rightarrow> bool" for crc where
  chain_Nil: "chain crc s rows [] s rows"
| chain_Cons: "prepared_from crc s0 rows1 s img pr \<Longrightarrow> \<forall>r \<in> set rows1. rs_revision (snd r) = o_next_revision s0 \<or> r \<in> set rows0 \<Longrightarrow>
    chain crc (after_commit (o_next_revision s0) pr s) (restamp_rows (o_next_revision s0) (commit_of s) rows1) cs s' rows' \<Longrightarrow>
    chain crc s0 rows0 ((pr, img, commit_of s) # cs) s' rows'"

definition small_commits :: "wal_commit list \<Rightarrow> bool" where
  "small_commits = list_all (\<lambda>c. length (wc_pages c) < 2 ^ 32)"

lemma chain_state_ok: "chain crc s rows cs s' rows' \<Longrightarrow> state_ok s rows \<Longrightarrow> state_ok s' rows'"
  by (induction rule: chain.induct) (auto intro: after_commit_ok)

lemma chain_records:
  assumes "chain crc s rows cs s' rows'" and "state_ok s rows"
  shows "group_ok crc (o_next_lsn s) (o_next_batch s) (records cs) \<and>
    group_end (o_next_lsn s) (o_next_batch s) (records cs) = (o_next_lsn s', o_next_batch s') \<and> small_commits (records cs) \<and>
    all_publishable crc cs \<and> contiguous (sb_generation (o_superblock s)) (map fst cs) \<and>
    list_all (\<lambda>c. pr_changed_pages (fst c) \<noteq> []) cs"
  using assms
proof (induction rule: chain.induct)
  case (chain_Cons s0 rows1 s img pr rows0 cs s' rows')
  note p = prepared_fromD [OF chain_Cons.hyps(1)]
  obtain t own frees where inv: "tree_inv s t own frees rows1" using chain_Cons.hyps(1) by (auto simp: prepared_from_def)
  have data: "set (o_dirty s) \<subseteq> {FIRST_DATA_PAGE..}" using inv by (auto simp: tree_inv_def pages_ok_def)
  have le: "o_next_revision s0 \<le> o_next_lsn s" using chain_Cons.prems p(11) by (simp add: state_ok_def)
  note c = commit_above [OF p(13) le]
  have "publishable crc pr img (commit_of s)" using publishable_meta [OF p(2) c(3)] p(13) by (simp add: commit_room_def)
  moreover have "pr_changed_pages pr \<noteq> []" using p(1,7) by (auto simp: commits_pages_def)
  moreover have "pr_base_generation pr = sb_generation (o_superblock s0)" using p(2,12) by (auto simp: commits_meta_def)
  moreover have "length (wc_pages (commit_record pr img (commit_of s))) < 2 ^ 32" using length_commit_record [OF p(1), of img] p(8) by simp
  moreover have "wc_commit_lsn (commit_record pr img (commit_of s)) = commit_of s" by (simp add: commit_record_def)
  moreover note commit_record_group [OF p(1,2) data p(8,13), of "records cs"]
    and chain_Cons.IH [OF after_commit_ok [OF chain_Cons.prems chain_Cons.hyps(1,2)]]
  ultimately show ?case
    unfolding p(9) [symmetric] p(11) [symmetric] by (simp add: after_commit_def records_def all_publishable_def small_commits_def)
qed (simp add: records_def all_publishable_def small_commits_def)

context reliable_file
begin

lemma published_base:
  assumes "om_wf (bs_dirty_pages st)" and "commits_pages (crc32c env) s p c pr"
    and "\<forall>q. q \<notin> set (o_dirty s) \<longrightarrow> o_mem s q = store_base env st q"
  shows "store_base env (published pr img c st) = committed_memory s p c"
  using base_page_extend [OF assms(1,2)] assms(3) by (simp add: store_base_def published_def)

text \<open>Publishing the pages of a batch that wrote \<open>rows\<close> over the committed \<open>rows0\<close>.\<close>

lemma publish_step:
  assumes ok: "store_ok (store_base env st) st rows0"
    and pr: "prepared_from (crc32c env) (store_state (store_base env st) st) rows s img pr"
    and new: "\<forall>r \<in> set rows. rs_revision (snd r) = bs_next_revision st \<or> r \<in> set rows0"
  shows "store_ok (store_base env (published pr img (commit_of s) st)) (published pr img (commit_of s) st)
      (restamp_rows (bs_next_revision st) (commit_of s) rows)"
    and "store_state (store_base env (published pr img (commit_of s) st)) (published pr img (commit_of s) st) =
      after_commit (bs_next_revision st) pr s"
proof -
  let ?st = "published pr img (commit_of s) st"
  have dirty: "om_wf (bs_dirty_pages st)" and cache: "cache_coherent (store_base env st) (bs_cache st)"
    and state: "state_ok (store_state (store_base env st) st) rows0" using ok by (simp_all add: store_ok_def)
  note p = prepared_fromD [OF pr, simplified]
  have base: "store_base env ?st = committed_memory s (bs_next_revision st) (commit_of s)" by (rule published_base [OF dirty p(1,4)])
  show st: "store_state (store_base env ?st) ?st = after_commit (bs_next_revision st) pr s"
    unfolding base by (rule ostate.equality) (use p(2,9,10) in \<open>auto simp: after_commit_def published_def commits_meta_def\<close>)
  have "cache_coherent (store_base env ?st) (bs_cache ?st)"
    using committed_cache [OF cache p(4,1,5,6)] base by (simp add: published_def)
  moreover have "om_wf (bs_dirty_pages ?st)" using om_extend_wf [OF dirty] by (simp add: published_def)
  ultimately show "store_ok (store_base env ?st) ?st (restamp_rows (bs_next_revision st) (commit_of s) rows)"
    using after_commit_ok [OF state pr] new st by (simp add: store_ok_def)
qed

section \<open>Preparing a batch\<close>

lemma exec_all_reads: "exec_all_rows p requests rows b = Inr (rs, rows') \<Longrightarrow> \<not> list_ex writes requests \<Longrightarrow> rows' = rows"
  by (induction requests arbitrary: rows b rs) (auto simp: rbind_Inr_iff dest!: exec_rows_keeps)

text \<open>A store that differs in the file handle, the cache and the metrics only.\<close>

definition idle :: "('f, 'w, 'i) env \<Rightarrow> ('f, 'w, 'i) btree_store \<Rightarrow> ('f, 'w, 'i) btree_store \<Rightarrow> bool" where
  "idle env st st' \<longleftrightarrow> (\<exists>f c m. st' = st\<lparr>bs_file := f, bs_cache := c, bs_storage_metrics := m\<rparr> \<and> healthy f \<and>
     view f = view (bs_file st) \<and> stable f = stable (bs_file st) \<and> cache_coherent (store_base env st) c)"

lemma holds_idle: "holds env st s ov \<Longrightarrow> idle env st (ov_store ov)"
  unfolding idle_def by (metis holds_same_store)

lemma idle_base: "idle env st st' \<Longrightarrow> store_base env st' = store_base env st"
  by (auto simp: idle_def store_base_def)

lemma idle_state: "idle env st st' \<Longrightarrow> store_state (store_base env st') st' = store_state (store_base env st) st"
  unfolding idle_base by (rule ostate.equality) (auto simp: idle_def)

lemma idle_store_ok: "idle env st st' \<Longrightarrow> store_ok (store_base env st) st rows \<Longrightarrow> store_ok (store_base env st') st' rows"
  using idle_state [of env st st'] idle_base [of env st st'] by (auto simp: store_ok_def idle_def)

lemma overlay_new_holds:
  assumes "store_ok (store_base env st) st rows" and "data_ops env = ops" and "healthy (bs_file st)"
  shows "holds env st (store_state (store_base env st) st) (overlay_new st)"
proof -
  have "pages_coherent (store_base env st) (store_state (store_base env st) st) (overlay_new st)"
    by (simp add: pages_coherent_def overlay_new_def om_get_def)
  then show ?thesis
    using assms by (simp add: holds_def store_ok_def same_store_def store_state_def ov_state_def) (simp add: overlay_new_def)
qed

lemma executed_prepared:
  assumes h: "holds env st s ov" and ok: "store_ok (store_base env st) st rows0" and wal: "bs_wal st \<noteq> None"
    and adv: "touched n (stamped (store_state (store_base env st) st)) s" and rows: "holds_rows s rows"
    and n: "n = k * PUT_GROWTH" and room: "batch_room st k"
  shows "\<exists>pr img. finish env ov rs = Inr pr \<and> pr_responses pr = restamp_responses rs (bs_next_revision st) (commit_of s) \<and>
    prepared_from (crc32c env) (store_state (store_base env st) st) rows s img pr"
proof -
  let ?s0 = "store_state (store_base env st) st"
  obtain t own frees where inv: "tree_inv s t own frees rows" using rows by (auto simp: holds_rows_def)
  have g: "o_dirty s \<noteq> []" using adv by (simp add: touched_def)
  have s: "o_last s = Some (bs_next_revision st)" "o_clean s = store_base env st" "o_next_lsn s = bs_next_lsn st"
    "o_next_batch s = bs_next_batch_id st" "o_superblock s = bs_current_superblock st" "o_slot s = bs_active_slot st"
    "bs_high_water_page_id st \<le> o_high s" "unat (o_high s) \<le> unat (bs_high_water_page_id st) + n"
    using adv by (simp_all add: touched_def Dodb_Values.grows_def)
  have high: "unat (o_high s) < 2 ^ 31" using s(8) n room by (simp add: batch_room_def)
  then have hw: "o_high s \<noteq> NULL_PAGE_ID" by (auto simp: NULL_PAGE_ID_def unsigned_minus_1_eq_mask mask_eq_exp_minus_1)
  have dirty: "length (o_dirty s) + 1 < 2 ^ 32" using length_dirty [OF inv holds_pages(2) [OF h]] high by simp
  have cr: "commit_room s" using room dirty s by (simp add: commit_room_def batch_room_def)
  have sb: "superblock_ok (o_superblock s)" using ok s(5) by (simp add: store_ok_def state_ok_def superblock_of_def)
  obtain pr img where pr: "finish env ov rs = Inr pr" "pr_responses pr = restamp_responses rs (bs_next_revision st) (commit_of s)"
    "commits_pages (crc32c env) s (bs_next_revision st) (commit_of s) pr" "commits_meta (crc32c env) s (commit_of s) img pr"
    "pr_read_pages pr = ov_read_pages ov"
    using finish_run [OF h s(1) inv hw wal sb cr s(5,6,3,4)] by blast
  have "prepared_from (crc32c env) ?s0 rows s img pr"
    unfolding prepared_from_def using pr(3-5) inv s g dirty cr holds_pages(5-7) [OF h] by auto
  then show ?thesis using pr(1,2) by blast
qed

lemma finish_idle:
  assumes h: "holds env st (store_state (store_base env st) st) ov"
  shows "\<exists>pr. finish env ov rs = Inr pr \<and> pr_responses pr = rs \<and> pr_changed_pages pr = [] \<and>
    pr_base_generation pr = sb_generation (bs_current_superblock st)"
proof -
  obtain f c m where st: "ov_store ov = st\<lparr>bs_file := f, bs_cache := c, bs_storage_metrics := m\<rparr>" using holds_same_store [OF h] by metis
  show ?thesis using holds_fields [OF h] by (simp add: finish_def Let_def st)
qed

lemma prepare_run:
  assumes ok: "store_ok (store_base env st) st rows" and env: "data_ops env = ops" "healthy (bs_file st)" and wal: "bs_wal st \<noteq> None"
    and room: "batch_room st (length requests)" and b: "budget_new n = Inr b"
  shows "\<exists>r st'. prepare_batch_with_response_budget env requests n st = (r, st') \<and> idle env st st' \<and>
    (case r of
       Inl e \<Rightarrow> exec_all_rows (bs_next_revision st) requests rows b = Inl e \<or> e = InvalidInput \<and> \<not> requests_ok (bs_config st) rows requests
     | Inr pr \<Rightarrow> list_all (within_limits (bs_config st)) requests \<and>
         (\<exists>rs rows'. exec_all_rows (bs_next_revision st) requests rows b = Inr (rs, rows') \<and>
           (if list_ex writes requests
            then \<exists>s img. pr_responses pr = restamp_responses rs (bs_next_revision st) (commit_of s) \<and>
              prepared_from (crc32c env) (store_state (store_base env st) st) rows' s img pr
            else rows' = rows \<and> pr_responses pr = rs \<and> pr_changed_pages pr = [] \<and>
              pr_base_generation pr = sb_generation (bs_current_superblock st))))"
proof -
  let ?s = "store_state (store_base env st) st"
  have rows: "holds_rows ?s rows" using ok by (simp add: store_ok_def state_ok_def)
  obtain r1 ov where run: "execute_all env requests b (overlay_new st) = (r1, ov)" by (metis surj_pair)
  from does_run [OF does_execute_all [OF rows] overlay_new_holds [OF ok env] run] obtain s where h: "holds env st s ov"
    and post: "case r1 of Inr rs \<Rightarrow> \<exists>rows'. exec_all_rows (stamp_of ?s) requests rows b = Inr (rs, rows') \<and> holds_rows s rows' \<and>
       advanced (list_ex writes requests) (length requests * PUT_GROWTH) ?s s \<and> list_all (within_limits (bs_config st)) requests
     | Inl e \<Rightarrow> batch_error (bs_config st) ?s requests rows b e" .
  have prep: "prepare_batch_with_response_budget env requests n st = (rbind r1 (finish env ov), ov_store ov)"
    using b run by (cases r1) (simp_all add: prepare_batch_with_response_budget_def with_overlay_def sbind_def sres_def sget_def)
  show ?thesis
  proof (cases r1)
    case (Inl e)
    then show ?thesis using prep post room holds_idle [OF h] by (auto simp: batch_error_def batch_room_def)
  next
    case (Inr rs)
    then obtain rows' where r: "exec_all_rows (bs_next_revision st) requests rows b = Inr (rs, rows')" "holds_rows s rows'"
      "advanced (list_ex writes requests) (length requests * PUT_GROWTH) ?s s" "list_all (within_limits (bs_config st)) requests" using post by auto
    show ?thesis
    proof (cases "list_ex writes requests")
      case True
      then have "touched (length requests * PUT_GROWTH) (stamped ?s) s" using r(3) by (simp add: advanced_def)
      from executed_prepared [OF h ok wal this r(2) refl room, of rs] True prep r(1,4) Inr holds_idle [OF h] show ?thesis
        by (auto, intro exI [of _ s], auto)
    next
      case False
      then have "s = ?s" using r(3) by (simp add: advanced_def)
      moreover have "rows' = rows" using exec_all_reads [OF r(1) False] .
      ultimately show ?thesis using finish_idle [of env st ov rs] h prep r(1,4) Inr holds_idle [OF h] False by auto
    qed
  qed
qed

section \<open>Publishing a sequence\<close>

lemma publish_chain:
  assumes "chain (crc32c env) s rows cs s' rows'" and "s = store_state (store_base env st) st" and "store_ok (store_base env st) st rows"
  shows "store_ok (store_base env (published_all cs st)) (published_all cs st) rows' \<and>
    store_state (store_base env (published_all cs st)) (published_all cs st) = s'"
  using assms
proof (induction arbitrary: st rule: chain.induct)
  case (chain_Cons s0 rows1 s img pr rows0 cs s' rows')
  let ?st = "published pr img (commit_of s) st"
  have p: "o_next_revision s0 = bs_next_revision st" using chain_Cons.prems(1) by simp
  note pr = chain_Cons.hyps(1) [unfolded chain_Cons.prems(1)] and new = chain_Cons.hyps(2) [unfolded p]
  from publish_step [OF chain_Cons.prems(2) pr new] chain_Cons.IH [of ?st] p show ?case by (simp add: published_all_def)
qed (simp add: published_all_def)

end

end
