(* ===== verification/Dodb_Engine.thy ===== *)
theory Dodb_Engine
  imports Dodb_Durable
begin

text \<open>
  The durable engine on crashable files. \<open>store_inv\<close> says which rows a store holds and that its
  log is consistent with it; batches keep it, and their responses and rows are those of the same
  requests on the ordered map of rows.
\<close>

section \<open>The invariant of the store\<close>

definition log_ok :: "crc_fun \<Rightarrow> crashable_file wal_log \<Rightarrow> bool" where
  "log_ok crc w \<longleftrightarrow> (\<exists>frs sc. wal_inv volatile durable crc w frs sc) \<and> wl_format_version w = WAL_FORMAT_VERSION \<and>
     wl_history_start_lsn w < wl_next_lsn w \<and> cf_healthy (wl_file w)"

text \<open>The counters of the log have room for \<open>n\<close> more commits.\<close>

definition log_room :: "(crashable_file, crashable_file, 'i) env \<Rightarrow> crashable_file wal_log \<Rightarrow> nat \<Rightarrow> bool" where
  "log_room env w n \<longleftrightarrow> length (volatile (wl_file w)) + n * 2 ^ 45 < u64_limit \<and>
     unat (wl_append_nanos w) + append_time env < 2 ^ 64 \<and> unat (wl_sync_nanos w) + sync_time env < 2 ^ 64 \<and>
     unat (wl_sync_count w) + 1 < 2 ^ 64 \<and> records_scanned (wl_scan_report w) + n * 2 ^ 33 \<le> usize_max \<and>
     wl_page_images w + n * 2 ^ 33 \<le> usize_max"

lemma small_commits_bounds:
  assumes "small_commits cs"
  shows "group_bytes cs \<le> length cs * 2 ^ 45" "group_records cs \<le> length cs * 2 ^ 33" "group_page_count cs \<le> length cs * 2 ^ 33"
  using assms by (induction cs) (simp_all add: small_commits_def group_bytes_def group_records_def group_page_count_def)

lemma append_run:
  assumes w: "log_ok crc w" and group: "group_ok crc (wl_next_lsn w) (wl_next_batch_id w) commits" "commits \<noteq> []" "small_commits commits"
    and room: "log_room env w (length commits)"
  shows "\<exists>reports w'. append_group cf_ops crc hit (append_time env) (sync_time env) commits (w, None) = (Inr reports, (w', None)) \<and>
    log_ok crc w' \<and> (wl_next_lsn w', wl_next_batch_id w') = group_end (wl_next_lsn w) (wl_next_batch_id w) commits \<and>
    wl_committed w' = wl_committed w @ commits"
proof -
  obtain frs sc where inv: "wal_inv volatile durable crc w frs sc" and v: "wl_format_version w = WAL_FORMAT_VERSION"
    and ready: "wl_history_start_lsn w < wl_next_lsn w" and h: "cf_healthy (wl_file w)" using w by (auto simp: log_ok_def)
  have len: "length (volatile (wl_file w)) + group_bytes commits < u64_limit"
    and r: "group_room (append_time env) (sync_time env) commits w"
    using room small_commits_bounds [OF group(3)] by (simp_all add: log_room_def group_room_def)
  obtain reports w' where run: "append_group cf_ops crc hit (append_time env) (sync_time env) commits (w, None) = (Inr reports, (w', None))"
    "cf_healthy (wl_file w')" "(wl_next_lsn w', wl_next_batch_id w') = group_end (wl_next_lsn w) (wl_next_batch_id w) commits"
    using cf.append_group_total [OF h group(1,2) len r, of hit] by blast
  with tripleD [OF cf.append_group_torn [OF inv ready] run(1)] v show ?thesis by (auto simp: log_ok_def)
qed

definition store_inv :: "(crashable_file, crashable_file, 'i) env \<Rightarrow> (crashable_file, crashable_file, 'i) btree_store \<Rightarrow> rows \<Rightarrow> bool" where
  "store_inv env st rows \<longleftrightarrow>
     data_ops env = cf_ops \<and> wal_ops env = cf_ops \<and> cf_healthy (bs_file st) \<and> store_ok (cf.store_base env st) st rows \<and>
     bs_broken st = None \<and> bs_fault_injector st = None \<and>
     (\<exists>w. bs_wal st = Some w \<and> log_ok (crc32c env) w \<and> wl_next_lsn w = bs_next_lsn st \<and> wl_next_batch_id w = bs_next_batch_id st)"

text \<open>The store has room for a batch of \<open>n\<close> requests.\<close>

definition room_for :: "(crashable_file, crashable_file, 'i) env \<Rightarrow> (crashable_file, crashable_file, 'i) btree_store \<Rightarrow> nat \<Rightarrow> bool" where
  "room_for env st n \<longleftrightarrow> batch_room st n \<and> (\<forall>w \<in> set_option (bs_wal st). log_room env w 1)"

lemma idle_inv:
  assumes "cf.idle env st st'" and "store_inv env st rows"
  shows "store_inv env st' rows"
proof -
  obtain f c m where st': "st' = st\<lparr>bs_file := f, bs_cache := c, bs_storage_metrics := m\<rparr>" "cf_healthy f"
    using assms(1) by (auto simp: cf.idle_def)
  with cf.idle_store_ok [OF assms(1)] assms(2) show ?thesis by (simp add: store_inv_def)
qed

section \<open>Publishing a group\<close>

lemma store_state_wal [simp]: "store_state base (st\<lparr>bs_wal := w\<rparr>) = store_state base st"
  "store_state base (st\<lparr>bs_storage_metrics := m\<rparr>) = store_state base st"
  by (simp_all add: store_state_def ov_state_def overlay_new_def ov_mem_def fun_eq_iff)

lemma store_ok_wal [simp]:
  "store_ok base (st\<lparr>bs_wal := w\<rparr>) rows \<longleftrightarrow> store_ok base st rows"
  "store_ok base (st\<lparr>bs_storage_metrics := m\<rparr>) rows \<longleftrightarrow> store_ok base st rows"
  by (simp_all add: store_ok_def)

lemma store_base_wal [simp]:
  "cf.store_base env (st\<lparr>bs_wal := w\<rparr>) = cf.store_base env st" "cf.store_base env (st\<lparr>bs_storage_metrics := m\<rparr>) = cf.store_base env st"
  by (simp_all add: cf.store_base_def)

abbreviation state_of :: "(crashable_file, crashable_file, 'i) env \<Rightarrow> (crashable_file, crashable_file, 'i) btree_store \<Rightarrow> ostate" where
  "state_of env st \<equiv> store_state (cf.store_base env st) st"

lemma publish_group:
  assumes inv: "store_inv env st rows" and cs: "chain (crc32c env) (state_of env st) rows cs s' rows'" "cs \<noteq> []"
    and room: "\<forall>w \<in> set_option (bs_wal st). log_room env w (length cs)"
  shows "\<exists>st'. publish_prepared_group env (map fst cs) st = (Inr (), st') \<and> store_inv env st' rows' \<and> state_of env st' = s' \<and>
    bs_config st' = bs_config st"
proof -
  obtain w where w: "bs_wal st = Some w" "log_ok (crc32c env) w" "wl_next_lsn w = bs_next_lsn st" "wl_next_batch_id w = bs_next_batch_id st"
    and st: "store_ok (cf.store_base env st) st rows" "bs_broken st = None" "bs_fault_injector st = None" "wal_ops env = cf_ops"
    using inv by (auto simp: store_inv_def)
  have "state_ok (state_of env st) rows" using st(1) by (simp add: store_ok_def)
  from chain_records [OF cs(1) this] w(3,4)
  have rec: "group_ok (crc32c env) (wl_next_lsn w) (wl_next_batch_id w) (records cs)" "small_commits (records cs)"
      "group_end (wl_next_lsn w) (wl_next_batch_id w) (records cs) = (o_next_lsn s', o_next_batch s')" "all_publishable (crc32c env) cs"
      "contiguous (sb_generation (bs_current_superblock st)) (map fst cs)" "list_all (\<lambda>c. pr_changed_pages (fst c) \<noteq> []) cs"
    by simp_all
  have "log_room env w (length (records cs))" "records cs \<noteq> []" using room w(1) cs(2) by (simp_all add: records_def)
  from append_run [OF w(2) rec(1) this(2) rec(2) this(1), of "fault_hit env"] obtain reports w'
    where log: "append_group cf_ops (crc32c env) (fault_hit env) (append_time env) (sync_time env) (records cs) (w, None) =
      (Inr reports, (w', None))" "log_ok (crc32c env) w'" "wl_next_lsn w' = o_next_lsn s'" "wl_next_batch_id w' = o_next_batch s'"
    using rec(3) by auto
  have pages: "\<not> list_all (\<lambda>c. pr_changed_pages (fst c) = []) cs" using rec(6) cs(2) by (cases cs) auto
  obtain m where run: "publish_prepared_group env (map fst cs) st =
      (Inr (), (published_all cs (st\<lparr>bs_wal := Some w'\<rparr>))\<lparr>bs_storage_metrics := m\<rparr>)" (is "_ = (_, ?st')")
    using publish_group_run [OF rec(4) pages st(2,3) w(1) rec(5)] log(1) st(4) by auto
  have ok: "store_ok (cf.store_base env ?st') ?st' rows'" "state_of env ?st' = s'"
    using cf.publish_chain [OF cs(1), of "st\<lparr>bs_wal := Some w'\<rparr>"] st(1) by simp_all
  then have "bs_next_lsn ?st' = o_next_lsn s'" "bs_next_batch_id ?st' = o_next_batch s'" by (metis store_state_fields(9,10))+
  then have "store_inv env ?st' rows'" using inv ok(1) log(2-4) by (simp add: store_inv_def)
  then show ?thesis using run ok(2) by auto
qed

section \<open>Batches\<close>

definition exec_batch :: "revision \<Rightarrow> batch_request list \<Rightarrow> nat \<Rightarrow> rows \<Rightarrow> error + batch_response list \<times> rows" where
  "exec_batch r requests n rows = rbind (budget_new n) (exec_all_rows r requests rows)"

lemma publish_nothing:
  assumes "bs_broken st = None" and "pr_changed_pages pr = []" and "pr_base_generation pr = sb_generation (bs_current_superblock st)"
  shows "publish_prepared_group env [pr] st = (Inr (), st)"
  using assms by (simp add: publish_prepared_group_def sbind_def not_broken_def sget_def ensure_def)

lemma inv_fresh: "store_inv env st rows \<Longrightarrow> restamp_rows (bs_next_revision st) c rows = rows"
  by (rule restamp_rows_fresh) (auto simp: store_inv_def store_ok_def state_ok_def rows_before_def)

lemma idle_fields:
  assumes "cf.idle env st st'"
  shows "bs_next_revision st' = bs_next_revision st" "bs_broken st' = bs_broken st" "bs_current_superblock st' = bs_current_superblock st"
    "bs_config st' = bs_config st" "room_for env st' n = room_for env st n"
  using assms by (auto simp: cf.idle_def room_for_def batch_room_def)

text \<open>The rows a batch wrote under the provisional revision are, once published, those of the
  batch run with the LSN of its commit.\<close>

lemma publish_writes:
  assumes inv: "store_inv env st rows" and i: "cf.idle env st st1" and room: "room_for env st n"
    and x: "exec_all_rows (bs_next_revision st) requests rows b = Inr (rs, rows')"
    and pr: "prepared_from (crc32c env) (state_of env st) rows' s img pr"
      "pr_responses pr = restamp_responses rs (bs_next_revision st) (commit_of s)"
  shows "\<exists>st' rows''. publish_prepared env pr st1 = (Inr (pr_responses pr), st') \<and> bs_next_revision st \<le> commit_of s \<and>
    unat (commit_of s) + 1 < 2 ^ 64 \<and>
    exec_all_rows (commit_of s) requests rows b = Inr (pr_responses pr, rows'') \<and> store_inv env st' rows'' \<and>
    bs_next_revision st' = commit_of s + 1 \<and> bs_config st' = bs_config st"
proof -
  let ?p = "bs_next_revision st"
  have p: "?p \<noteq> 0" "?p \<le> bs_next_lsn st" using inv by (auto simp: store_inv_def store_ok_def state_ok_def)
  have new: "\<forall>r \<in> set rows'. rs_revision (snd r) = o_next_revision (state_of env st) \<or> r \<in> set rows" using exec_all_origin [OF x] by simp
  note ch = chain_Cons [OF pr(1) new chain_Nil, folded cf.idle_state [OF i]]
  have "\<forall>w \<in> set_option (bs_wal st1). log_room env w (length [(pr, img, commit_of s)])"
    using room idle_fields(5) [OF i, of n] by (simp add: room_for_def)
  from publish_group [OF idle_inv [OF i inv] ch _ this] obtain st' where st': "publish_prepared_group env [pr] st1 = (Inr (), st')"
      "store_inv env st' (restamp_rows ?p (commit_of s) rows')" "state_of env st' = after_commit ?p pr s" "bs_config st' = bs_config st"
    using idle_fields [OF i] by auto
  have "bs_next_revision st' = commit_of s + 1" using st'(3) by (metis after_commit_fields(1) store_state_fields(8))
  moreover have "commit_room s" "?p \<le> o_next_lsn s" using prepared_fromD(11,13) [OF pr(1)] p(2) by simp_all
  note c = commit_above(1,3) [OF this]
  moreover from exec_all_restamp [OF p(1) x, of "commit_of s"] inv_fresh [OF inv]
  have "exec_all_rows (commit_of s) requests rows b = Inr (pr_responses pr, restamp_rows ?p (commit_of s) rows')" using pr(2) by simp
  ultimately show ?thesis using st' by (simp add: publish_prepared_def sbind_def)
qed

lemma batch_run:
  assumes inv: "store_inv env st rows" and room: "room_for env st (length requests)" and b: "budget_new n = Inr b"
  shows "\<exists>c r st'. bs_next_revision st \<le> c \<and> unat c + 1 < 2 ^ 64 \<and> apply_batch_with_response_budget env requests n st = (r, st') \<and>
    bs_config st' = bs_config st \<and>
    (case r of
       Inl e \<Rightarrow> store_inv env st' rows \<and> bs_next_revision st' = bs_next_revision st \<and>
         (exec_all_rows c requests rows b = Inl e \<or> e = InvalidInput \<and> \<not> requests_ok (bs_config st) rows requests)
     | Inr rs \<Rightarrow> list_all (within_limits (bs_config st)) requests \<and> (\<exists>rows'. exec_all_rows c requests rows b = Inr (rs, rows') \<and>
         store_inv env st' rows' \<and> bs_next_revision st' = (if list_ex writes requests then c + 1 else bs_next_revision st)))"
proof -
  let ?p = "bs_next_revision st" and ?ok = "list_all (within_limits (bs_config st)) requests"
  have st: "store_ok (cf.store_base env st) st rows" "data_ops env = cf_ops" "cf_healthy (bs_file st)" "bs_wal st \<noteq> None" "bs_broken st = None"
    using inv by (auto simp: store_inv_def)
  have br: "batch_room st (length requests)" using room by (simp add: room_for_def)
  then have p: "unat ?p + 1 < 2 ^ 64" using inv by (simp add: batch_room_def store_inv_def store_ok_def state_ok_def word_le_nat_alt)
  obtain r st1 where prep: "prepare_batch_with_response_budget env requests n st = (r, st1)" "cf.idle env st st1"
    and cases: "case r of
       Inl e \<Rightarrow> exec_all_rows ?p requests rows b = Inl e \<or> e = InvalidInput \<and> \<not> requests_ok (bs_config st) rows requests
     | Inr pr \<Rightarrow> ?ok \<and> (\<exists>rs rows'. exec_all_rows ?p requests rows b = Inr (rs, rows') \<and>
           (if list_ex writes requests
            then \<exists>s img. pr_responses pr = restamp_responses rs ?p (commit_of s) \<and> prepared_from (crc32c env) (state_of env st) rows' s img pr
            else rows' = rows \<and> pr_responses pr = rs \<and> pr_changed_pages pr = [] \<and>
              pr_base_generation pr = sb_generation (bs_current_superblock st)))"
    using cf.prepare_run [OF st(1-4) br b] by blast
  note same = idle_fields [OF prep(2)] and st1 = idle_inv [OF prep(2) inv]
  have ab: "apply_batch_with_response_budget env requests n st =
      (case r of Inl e \<Rightarrow> (Inl e, st1) | Inr pr \<Rightarrow> publish_prepared env pr st1)"
    by (simp add: apply_batch_with_response_budget_def sbind_def prep(1) split: sum.split)
  show ?thesis
  proof (cases r)
    case (Inl e)
    then show ?thesis using cases ab st1 same p by (intro exI [of _ ?p] exI [of _ r] exI [of _ st1]) simp
  next
    case (Inr pr)
    then obtain rs rows' where ok: ?ok and x: "exec_all_rows ?p requests rows b = Inr (rs, rows')"
      and pr: "if list_ex writes requests
            then \<exists>s img. pr_responses pr = restamp_responses rs ?p (commit_of s) \<and> prepared_from (crc32c env) (state_of env st) rows' s img pr
            else rows' = rows \<and> pr_responses pr = rs \<and> pr_changed_pages pr = [] \<and>
              pr_base_generation pr = sb_generation (bs_current_superblock st)" using cases by auto
    show ?thesis
    proof (cases "list_ex writes requests")
      case True
      then obtain s img where pr: "prepared_from (crc32c env) (state_of env st) rows' s img pr"
        "pr_responses pr = restamp_responses rs ?p (commit_of s)" using pr by auto
      from publish_writes [OF inv prep(2) room x pr] ab Inr True ok show ?thesis
        by (elim exE) (rule exI [of _ "commit_of s"], rule exI [of _ "Inr (pr_responses pr)"], rule exI, force)
    next
      case False
      then have "rows' = rows" "pr_responses pr = rs" "pr_changed_pages pr = []" "pr_base_generation pr = sb_generation (bs_current_superblock st1)"
        using pr same(3) by simp_all
      then show ?thesis
        using ab Inr st1 same p x False ok st(5) publish_nothing [of st1 pr env]
        by (intro exI [of _ ?p] exI [of _ "Inr rs"] exI [of _ st1]) (simp add: publish_prepared_def sbind_def)
    qed
  qed
qed

lemma budget_error:
  "budget_new n = Inl e \<Longrightarrow> apply_batch_with_response_budget env requests n st = (Inl e, st)"
  by (simp add: apply_batch_with_response_budget_def prepare_batch_with_response_budget_def with_overlay_def sbind_def sres_def overlay_new_def)

end
