(* ===== verification/Dodb_Reference.thy ===== *)
theory Dodb_Reference
  imports Dodb_Core
begin

text \<open>
  The reference database of \<open>dodb-testkit/src/reference.rs\<close>, the semantic oracle of the
  engine: an ordered map from keys to committed states, with optimistic transactions
  validated against it. The lemmas show that a transaction is applied wholly or not at all,
  that revisions identify states (so the ABA case is caught), and that query and scan return
  the ordered, limited rows after the cursor.
\<close>

section \<open>State and operations\<close>

record document =
  doc_key :: document_key
  doc_value :: bytes
  doc_revision :: revision

record reference_db =
  states :: "(document_key, revision_state) ordmap"
  next_lsn :: lsn
  next_txn_id :: txn_id

record reference_transaction =
  txn_id :: txn_id
  rt_conditions :: "transaction_condition list"
  rt_read_set :: read_set
  rt_write_set :: write_set

definition ref_new :: reference_db where
  "ref_new = \<lparr>states = [], next_lsn = 1, next_txn_id = 1\<rparr>"

definition ref_get :: "reference_db \<Rightarrow> document_key \<Rightarrow> revision_state" where
  "ref_get db k = (case om_get (states db) k of None \<Rightarrow> Missing 0 | Some s \<Rightarrow> s)"

text \<open>\<open>begin\<close> panics when transaction ids are exhausted; that is the value None.\<close>

definition ref_begin :: "reference_db \<Rightarrow> (reference_transaction \<times> reference_db) option" where
  "ref_begin db =
     (case checked_add_u64 (next_txn_id db) 1 of
        None \<Rightarrow> None
      | Some n \<Rightarrow>
          Some (\<lparr>txn_id = next_txn_id db, rt_conditions = [], rt_read_set = [], rt_write_set = []\<rparr>,
                db\<lparr>next_txn_id := n\<rparr>))"

text \<open>The loop over the conditions: the first one that does not hold is the conflict.\<close>

fun check_conditions :: "reference_db \<Rightarrow> transaction_condition list \<Rightarrow> error + unit" where
  "check_conditions db [] = Inr ()"
| "check_conditions db (c # cs) =
     (let actual = ref_get db (condition_key c) in
      if condition_satisfied c (rs_observed actual) then check_conditions db cs
      else Inl (Conflict \<lparr>conflict_key = condition_key c, conflict_expected = expectation c,
                  conflict_actual = rs_observed actual\<rparr>))"

fun mutation_state :: "revision \<Rightarrow> transaction_mutation \<Rightarrow> document_key \<times> revision_state" where
  "mutation_state r (MPut k v) = (k, Present v r)"
| "mutation_state r (MDelete k) = (k, Missing r)"

text \<open>The insertions happen before the commit LSN is incremented, so an exhausted LSN space
  is reported after the states have changed.\<close>

definition transact_at :: "reference_db \<Rightarrow> transaction_request \<Rightarrow> lsn \<Rightarrow> (error + lsn) \<times> reference_db" where
  "transact_at db request commit =
     (if commit = 0 then (Inl InvalidRequest, db)
      else case validate request of
        Inl e \<Rightarrow> (Inl e, db)
      | Inr _ \<Rightarrow>
        (case check_conditions db (req_conditions request) of
           Inl e \<Rightarrow> (Inl e, db)
         | Inr _ \<Rightarrow>
           (let r = revision_from_lsn commit;
                db' = db\<lparr>states := fold (\<lambda>(k, s) acc. om_insert k s acc)
                                  (map (mutation_state r) (req_mutations request)) (states db)\<rparr>
            in case checked_add_u64 commit 1 of
                 None \<Rightarrow> (Inl InternalInvariantViolation, db')
               | Some n \<Rightarrow> (Inr commit, if n > next_lsn db' then db'\<lparr>next_lsn := n\<rparr> else db'))))"

definition transact :: "reference_db \<Rightarrow> transaction_request \<Rightarrow> (error + lsn) \<times> reference_db" where
  "transact db request = transact_at db request (next_lsn db)"

definition commit_request :: "reference_transaction \<Rightarrow> transaction_request" where
  "commit_request txn =
     \<lparr>req_conditions = map (\<lambda>(k, r). RevisionEquals k r) (rt_read_set txn) @ rt_conditions txn,
      req_mutations = map (\<lambda>(k, intent). case intent of WPut v \<Rightarrow> MPut k v | WDelete \<Rightarrow> MDelete k)
                          (rt_write_set txn)\<rparr>"

definition ref_commit :: "reference_db \<Rightarrow> reference_transaction \<Rightarrow> (error + lsn option) \<times> reference_db" where
  "ref_commit db txn =
     (case transact db (commit_request txn) of
        (Inl e, db') \<Rightarrow> (Inl e, db')
      | (Inr l, db') \<Rightarrow> (Inr (Some l), db'))"

definition txn_observe :: "reference_db \<Rightarrow> document_key \<Rightarrow> reference_transaction \<Rightarrow> reference_transaction" where
  "txn_observe db k txn =
     txn\<lparr>rt_read_set := rset_record k (rs_revision (ref_get db k)) (rt_read_set txn)\<rparr>"

text \<open>A read sees the transaction's own write with the revision first observed; \<open>expect\<close>
  on a missing observation would be a panic, the outer None.\<close>

definition txn_read :: "reference_db \<Rightarrow> document_key \<Rightarrow> reference_transaction \<Rightarrow>
    (revision_state \<times> reference_transaction) option" where
  "txn_read db k txn =
     (let observed = ref_get db k; txn' = txn_observe db k txn
      in case om_get (rt_write_set txn') k of
           None \<Rightarrow> Some (observed, txn')
         | Some intent \<Rightarrow>
             (case om_get (rt_read_set txn') k of
                None \<Rightarrow> None
              | Some r \<Rightarrow>
                  Some (case intent of WPut v \<Rightarrow> Present v r | WDelete \<Rightarrow> Missing r, txn')))"

definition txn_put :: "reference_db \<Rightarrow> document_key \<Rightarrow> bytes \<Rightarrow> reference_transaction \<Rightarrow> reference_transaction" where
  "txn_put db k v txn =
     (let txn' = txn_observe db k txn in txn'\<lparr>rt_write_set := wset_put k v (rt_write_set txn')\<rparr>)"

definition txn_delete :: "reference_db \<Rightarrow> document_key \<Rightarrow> reference_transaction \<Rightarrow> reference_transaction" where
  "txn_delete db k txn =
     (let txn' = txn_observe db k txn in txn'\<lparr>rt_write_set := wset_delete k (rt_write_set txn')\<rparr>)"

definition txn_condition :: "transaction_condition \<Rightarrow> reference_transaction \<Rightarrow> reference_transaction" where
  "txn_condition c txn = txn\<lparr>rt_conditions := rt_conditions txn @ [c]\<rparr>"

definition txn_revision_equals :: "document_key \<Rightarrow> revision \<Rightarrow> reference_transaction \<Rightarrow> reference_transaction" where
  "txn_revision_equals k r txn = txn_condition (RevisionEquals k r) txn"

definition txn_exists :: "document_key \<Rightarrow> reference_transaction \<Rightarrow> reference_transaction" where
  "txn_exists k txn = txn_condition (Exists k) txn"

definition txn_not_exists :: "document_key \<Rightarrow> reference_transaction \<Rightarrow> reference_transaction" where
  "txn_not_exists k txn = txn_condition (NotExists k) txn"

text \<open>\<open>put\<close> and \<open>delete\<close> are one-operation transactions.\<close>

definition commit_lsn_of :: "(error + lsn option) \<times> reference_db \<Rightarrow> (error + lsn) \<times> reference_db" where
  "commit_lsn_of res = (rbind (fst res) (\<lambda>l. ok_or l InternalInvariantViolation), snd res)"

definition ref_put :: "reference_db \<Rightarrow> document_key \<Rightarrow> bytes \<Rightarrow> ((error + lsn) \<times> reference_db) option" where
  "ref_put db k v =
     map_option (\<lambda>(txn, db'). commit_lsn_of (ref_commit db' (txn_put db' k v txn))) (ref_begin db)"

definition ref_delete :: "reference_db \<Rightarrow> document_key \<Rightarrow> ((error + lsn) \<times> reference_db) option" where
  "ref_delete db k =
     map_option (\<lambda>(txn, db'). commit_lsn_of (ref_commit db' (txn_delete db' k txn))) (ref_begin db)"

definition transact_get :: "reference_db \<Rightarrow> document_key list \<Rightarrow> revision_state list" where
  "transact_get db ks = map (ref_get db) ks"

fun row :: "document_key \<times> revision_state \<Rightarrow> document option" where
  "row (k, Present v r) = Some \<lparr>doc_key = k, doc_value = v, doc_revision = r\<rparr>"
| "row (k, Missing r) = None"

definition ref_query :: "reference_db \<Rightarrow> bytes \<Rightarrow> bytes option \<Rightarrow> nat \<Rightarrow> document list" where
  "ref_query db p after limit =
     take limit (List.map_filter
       (\<lambda>(k, s). if pk k \<noteq> p \<or> (case after of None \<Rightarrow> False | Some cursor \<Rightarrow> sk k \<le> cursor)
                 then None else row (k, s)) (states db))"

definition ref_scan :: "reference_db \<Rightarrow> document_key option \<Rightarrow> nat \<Rightarrow> document list" where
  "ref_scan db after limit =
     take limit (List.map_filter
       (\<lambda>(k, s). if (case after of None \<Rightarrow> False | Some cursor \<Rightarrow> k \<le> cursor)
                 then None else row (k, s)) (states db))"

definition present_count :: "reference_db \<Rightarrow> nat" where
  "present_count db = length (filter (\<lambda>(k, s). \<not> rs_is_missing s) (states db))"

section \<open>One transaction\<close>

lemma check_conditions_iff [result_iff]:
  "check_conditions db cs = Inr u \<longleftrightarrow>
     (\<forall>c \<in> set cs. condition_satisfied c (rs_observed (ref_get db (condition_key c))))"
  by (induction cs) (auto simp: Let_def)

lemma check_conditions_error:
  "check_conditions db cs = Inl e \<Longrightarrow>
   \<exists>c pre post. cs = pre @ c # post \<and>
     (\<forall>c' \<in> set pre. condition_satisfied c' (rs_observed (ref_get db (condition_key c')))) \<and>
     \<not> condition_satisfied c (rs_observed (ref_get db (condition_key c))) \<and>
     e = Conflict \<lparr>conflict_key = condition_key c, conflict_expected = expectation c,
           conflict_actual = rs_observed (ref_get db (condition_key c))\<rparr>"
proof (induction cs)
  case (Cons c cs)
  show ?case
  proof (cases "condition_satisfied c (rs_observed (ref_get db (condition_key c)))")
    case True
    with Cons obtain d pre post where d:
      "cs = pre @ d # post"
      "\<forall>c' \<in> set pre. condition_satisfied c' (rs_observed (ref_get db (condition_key c')))"
      "\<not> condition_satisfied d (rs_observed (ref_get db (condition_key d)))"
      "e = Conflict \<lparr>conflict_key = condition_key d, conflict_expected = expectation d,
           conflict_actual = rs_observed (ref_get db (condition_key d))\<rparr>"
      by (auto simp: Let_def)
    show ?thesis
      by (rule exI [of _ d], rule exI [of _ "c # pre"], rule exI [of _ post]) (use d True in auto)
  next
    case False
    with Cons.prems show ?thesis
      by (intro exI [of _ c] exI [of _ "[]"] exI [of _ cs]) (auto simp: Let_def)
  qed
qed simp

lemma fst_mutation_state [simp]: "fst (mutation_state r m) = mutation_key m"
  by (cases m) auto

lemma rs_revision_mutation_state [simp]: "rs_revision (snd (mutation_state r m)) = r"
  by (cases m) auto

lemma map_fst_mutation_state: "map fst (map (mutation_state r) ms) = map mutation_key ms"
  by simp

definition apply_mutations :: "revision \<Rightarrow> transaction_mutation list \<Rightarrow>
    (document_key, revision_state) ordmap \<Rightarrow> (document_key, revision_state) ordmap" where
  "apply_mutations r ms m = fold (\<lambda>(k, s) acc. om_insert k s acc) (map (mutation_state r) ms) m"

lemma om_wf_apply_mutations: "om_wf m \<Longrightarrow> om_wf (apply_mutations r ms m)"
  unfolding apply_mutations_def by (rule bt.wf_fold_insert)

lemma om_get_apply_mutations:
  assumes "om_wf m" and "distinct (map mutation_key ms)"
  shows "om_get (apply_mutations r ms m) k =
    (case map_of (map (mutation_state r) ms) k of None \<Rightarrow> om_get m k | Some s \<Rightarrow> Some s)"
proof -
  have "map_of (rev (map (mutation_state r) ms)) = map_of (map (mutation_state r) ms)"
    using assms(2) map_of_inject_set [of "rev (map (mutation_state r) ms)" "map (mutation_state r) ms"]
    by (simp add: comp_def flip: rev_map)
  then show ?thesis
    unfolding apply_mutations_def using bt.get_fold_insert [OF assms(1)] by simp
qed

text \<open>The four outcomes of a transaction.\<close>

lemma transact_at_Inr:
  "transact_at db request l = (Inr l', db') \<longleftrightarrow>
     l' = l \<and> l \<noteq> 0 \<and> validate request = Inr () \<and>
     check_conditions db (req_conditions request) = Inr () \<and>
     unat l + 1 < 2 ^ 64 \<and>
     db' = db\<lparr>states := apply_mutations l (req_mutations request) (states db),
              next_lsn := max (next_lsn db) (l + 1)\<rparr>"
proof -
  have add: "checked_add_u64 l 1 = (if unat l + 1 < 2 ^ 64 then Some (l + 1) else None)"
    by (simp add: checked_add_u64_def)
  show ?thesis
    by (cases "validate request"; cases "check_conditions db (req_conditions request)")
      (auto simp: transact_at_def add Let_def apply_mutations_def revision_from_lsn_def max_def)
qed

lemma transact_at_Inl:
  "transact_at db request l = (Inl e, db') \<Longrightarrow>
     db' = db \<and> e \<noteq> InternalInvariantViolation \<or> e = InternalInvariantViolation \<and> unat l + 1 = 2 ^ 64"
proof -
  assume res: "transact_at db request l = (Inl e, db')"
  have over: "checked_add_u64 l 1 = None \<Longrightarrow> unat l + 1 = 2 ^ 64"
    using unat_bound [of l] by (simp add: checked_add_u64_def split: if_splits)
  show ?thesis
  proof (cases "l = 0")
    case True
    with res show ?thesis by (simp add: transact_at_def)
  next
    case l: False
    show ?thesis
    proof (cases "validate request")
      case (Inl e')
      with res l validate_error [OF Inl] show ?thesis by (simp add: transact_at_def)
    next
      case v: (Inr u)
      show ?thesis
      proof (cases "check_conditions db (req_conditions request)")
        case (Inl e')
        with res l v check_conditions_error [OF Inl] show ?thesis
          by (auto simp: transact_at_def)
      next
        case (Inr u')
        with res l v over show ?thesis
          by (auto simp: transact_at_def Let_def split: option.splits)
      qed
    qed
  qed
qed

lemma ref_get_apply:
  assumes "om_wf (states db)" and "distinct (map mutation_key ms)"
  shows "ref_get (db\<lparr>states := apply_mutations r ms (states db), next_lsn := n\<rparr>) k =
    (case map_of (map (mutation_state r) ms) k of None \<Rightarrow> ref_get db k | Some s \<Rightarrow> s)"
  using om_get_apply_mutations [OF assms]
  by (simp add: ref_get_def split: option.splits)

section \<open>Runs, and what a revision identifies\<close>

definition ref_inv :: "reference_db \<Rightarrow> bool" where
  "ref_inv db \<longleftrightarrow> om_wf (states db) \<and> 0 < next_lsn db \<and>
     (\<forall>k s. om_get (states db) k = Some s \<longrightarrow> 0 < rs_revision s \<and> rs_revision s < next_lsn db)"

text \<open>A step of the database: a transaction id is handed out, or a request is executed at
  a commit LSN that is not in the past (\<open>transact\<close> uses \<open>next_lsn\<close> itself).\<close>

inductive ref_step :: "reference_db \<Rightarrow> reference_db \<Rightarrow> bool" where
  begin_step: "ref_begin db = Some (txn, db') \<Longrightarrow> ref_step db db'"
| transact_step: "next_lsn db \<le> l \<Longrightarrow> transact_at db request l = (res, db') \<Longrightarrow>
     res \<noteq> Inl InternalInvariantViolation \<Longrightarrow> ref_step db db'"

lemma ref_inv_new: "ref_inv ref_new"
  by (simp add: ref_inv_def ref_new_def om_get_def)

lemma ref_get_revision_less: "ref_inv db \<Longrightarrow> rs_revision (ref_get db k) < next_lsn db"
  by (auto simp: ref_inv_def ref_get_def split: option.splits)

lemma transact_at_effect:
  assumes inv: "ref_inv db" and ok: "transact_at db request l = (Inr l', db')"
  shows "ref_inv db'" and "l < next_lsn db'" and "next_lsn db \<le> next_lsn db'"
    and "ref_get db' k =
      (case map_of (map (mutation_state l) (req_mutations request)) k of
         None \<Rightarrow> ref_get db k | Some s \<Rightarrow> s)"
proof -
  have d: "distinct (map mutation_key (req_mutations request))" and l0: "l \<noteq> 0"
    and bound: "unat l + 1 < 2 ^ 64"
    and db': "db' = db\<lparr>states := apply_mutations l (req_mutations request) (states db),
              next_lsn := max (next_lsn db) (l + 1)\<rparr>"
    using ok by (auto simp: transact_at_Inr validate_iff)
  have wf: "om_wf (states db)" using inv by (simp add: ref_inv_def)
  have "unat (l + 1) = unat l + 1" using bound unat_add_lem [of l 1] by simp
  then have l1: "l < l + 1" by (simp add: word_less_nat_alt)
  show n: "l < next_lsn db'" and "next_lsn db \<le> next_lsn db'"
    using l1 by (auto simp: db' max_def not_le intro: less_le_trans)
  show get: "ref_get db' k =
      (case map_of (map (mutation_state l) (req_mutations request)) k of
         None \<Rightarrow> ref_get db k | Some s \<Rightarrow> s)" for k
    unfolding db' by (rule ref_get_apply [OF wf d])
  have rev: "0 < rs_revision s \<and> rs_revision s < next_lsn db'"
    if "om_get (states db') k = Some s" for k s
  proof (cases "map_of (map (mutation_state l) (req_mutations request)) k")
    case None
    then have "om_get (states db) k = Some s"
      using that om_get_apply_mutations [OF wf d] by (simp add: db')
    with inv \<open>next_lsn db \<le> next_lsn db'\<close> show ?thesis
      by (auto simp: ref_inv_def intro: less_le_trans)
  next
    case (Some s')
    then have "s' = s" using that om_get_apply_mutations [OF wf d] by (simp add: db')
    moreover have "rs_revision s' = l"
      using map_of_SomeD [OF Some] by (metis (no_types, lifting) image_iff list.set_map
          rs_revision_mutation_state snd_conv)
    ultimately show ?thesis using n l0 by (simp add: word_gt_0)
  qed
  show "ref_inv db'"
    using inv rev l0 \<open>next_lsn db \<le> next_lsn db'\<close> om_wf_apply_mutations [OF wf]
    by (auto simp: ref_inv_def db' intro: less_le_trans)
qed

lemma ref_step_effect:
  assumes "ref_step db db'" and "ref_inv db"
  shows "ref_inv db' \<and> next_lsn db \<le> next_lsn db' \<and>
    (\<forall>k. ref_get db' k = ref_get db k \<or> next_lsn db \<le> rs_revision (ref_get db' k))"
  using assms
proof (induction rule: ref_step.induct)
  case (begin_step db txn db')
  then have "states db' = states db" "next_lsn db' = next_lsn db"
    by (auto simp: ref_begin_def split: option.splits)
  with begin_step.prems show ?case by (simp add: ref_inv_def ref_get_def)
next
  case (transact_step db l request res db')
  show ?case
  proof (cases res)
    case (Inl e)
    then have "db' = db"
      using transact_at_Inl [of db request l e db'] transact_step.hyps by auto
    with transact_step.prems show ?thesis by simp
  next
    case (Inr l')
    note eff = transact_at_effect [OF transact_step.prems transact_step.hyps(2) [unfolded Inr]]
    have "ref_get db' k = ref_get db k \<or> rs_revision (ref_get db' k) = l" for k
    proof (cases "map_of (map (mutation_state l) (req_mutations request)) k")
      case None
      with eff(4) show ?thesis by simp
    next
      case (Some s)
      then have "rs_revision s = l"
        using map_of_SomeD [OF Some] by (metis (no_types, lifting) image_iff list.set_map
            rs_revision_mutation_state snd_conv)
      with eff(4) [of k] Some show ?thesis by simp
    qed
    with eff transact_step.hyps(1) show ?thesis by metis
  qed
qed

lemma ref_run_effect:
  assumes "ref_step\<^sup>*\<^sup>* db db'" and "ref_inv db"
  shows "ref_inv db' \<and> next_lsn db \<le> next_lsn db' \<and>
    (\<forall>k. ref_get db' k = ref_get db k \<or> next_lsn db \<le> rs_revision (ref_get db' k))"
  using assms
proof (induction rule: rtranclp_induct)
  case base
  then show ?case by simp
next
  case (step b c)
  then have b: "ref_inv b" "next_lsn db \<le> next_lsn b"
    "\<And>k. ref_get b k = ref_get db k \<or> next_lsn db \<le> rs_revision (ref_get b k)" by auto
  from ref_step_effect [OF step.hyps(2) b(1)] b(2,3) show ?case
    by (metis order_trans)
qed

section \<open>Query and scan\<close>

definition documents :: "(document_key, revision_state) ordmap \<Rightarrow> document list" where
  "documents m = List.map_filter row m"

lemma row_Some: "row (k, s) = Some d \<longleftrightarrow> s = Present (doc_value d) (doc_revision d) \<and> k = doc_key d"
  by (cases s) auto

lemma map_filter_cond:
  "List.map_filter (\<lambda>(k, s). if P k then None else row (k, s)) m =
     filter (\<lambda>d. \<not> P (doc_key d)) (documents m)"
proof (induction m)
  case (Cons ks m)
  obtain k s where ks: "ks = (k, s)" by force
  from Cons show ?case
    by (cases s) (auto simp: documents_def List.map_filter_def ks)
qed (simp add: documents_def List.map_filter_def)

lemma set_rows: "d \<in> set (documents m) \<longleftrightarrow> (doc_key d, Present (doc_value d) (doc_revision d)) \<in> set m"
proof -
  have "d \<in> set (documents m) \<longleftrightarrow> (\<exists>k s. (k, s) \<in> set m \<and> row (k, s) = Some d)"
    by (force simp: documents_def List.map_filter_def)
  then show ?thesis by (auto simp: row_Some)
qed

lemma sorted_rows: "om_wf m \<Longrightarrow> sorted_wrt (<) (map doc_key (documents m))"
proof (induction m)
  case (Cons ks m)
  obtain k s where ks: "ks = (k, s)" by force
  have "\<forall>d \<in> set (documents m). k < doc_key d"
    using Cons.prems by (auto simp: ks om_wf_Cons set_rows dest!: bspec)
  with Cons show ?case
    by (cases s) (auto simp: documents_def List.map_filter_def ks om_wf_Cons)
qed (simp add: documents_def List.map_filter_def)

definition after_cursor :: "'k::linorder option \<Rightarrow> 'k \<Rightarrow> bool" where
  "after_cursor c k = (case c of None \<Rightarrow> True | Some x \<Rightarrow> x < k)"

lemma ref_scan_eq:
  "ref_scan db c n = take n (filter (\<lambda>d. after_cursor c (doc_key d)) (documents (states db)))"
  using map_filter_cond [of "\<lambda>k. case c of None \<Rightarrow> False | Some x \<Rightarrow> k \<le> x" "states db"]
  by (simp add: ref_scan_def after_cursor_def not_le split: option.splits)

lemma ref_query_eq:
  "ref_query db p c n =
     take n (filter (\<lambda>d. pk (doc_key d) = p \<and> after_cursor c (sk (doc_key d))) (documents (states db)))"
  using map_filter_cond [of "\<lambda>k. pk k \<noteq> p \<or> (case c of None \<Rightarrow> False | Some x \<Rightarrow> sk k \<le> x)"
      "states db"]
  by (simp add: ref_query_def after_cursor_def not_le split: option.splits)

lemma filter_after_nth:
  assumes "sorted_wrt (<) (map f xs)" and "i < length xs"
  shows "filter (\<lambda>y. f (xs ! i) < (f y :: 'k::linorder)) xs = drop (Suc i) xs"
  using assms
proof (induction xs arbitrary: i)
  case (Cons x xs)
  show ?case
  proof (cases i)
    case 0
    with Cons.prems show ?thesis by (auto simp: filter_id_conv)
  next
    case (Suc j)
    then have "f x < f (xs ! j)" using Cons.prems by (auto simp: Suc)
    with Suc Cons show ?thesis by (auto simp: not_less_iff_gr_or_eq)
  qed
qed simp

lemma take_filter_last:
  assumes "sorted_wrt (<) (map f xs)" and "m \<le> length xs" and "0 < m"
  shows "filter (\<lambda>y. f (last (take m xs)) < (f y :: 'k::linorder)) xs = drop m xs"
proof -
  have "last (take m xs) = xs ! (m - 1)"
    using assms by (subst last_conv_nth) auto
  then show ?thesis using filter_after_nth [of f xs "m - 1"] assms by simp
qed

section \<open>Properties\<close>

definition sample_key :: document_key where
  "sample_key = DocumentKey [1] [0, 2]"

definition other_key :: document_key where
  "other_key = DocumentKey [2] []"

definition sample_request :: transaction_request where
  "sample_request = \<lparr>req_conditions = [NotExists sample_key], req_mutations = [MPut sample_key [7]]\<rparr>"

definition sample_db :: reference_db where
  "sample_db = \<lparr>states = [(sample_key, Present [7] 1)], next_lsn = 2, next_txn_id = 1\<rparr>"

lemma sample_transact: "transact_at ref_new sample_request 1 = (Inr 1, sample_db)"
  by (simp add: transact_at_def sample_request_def sample_db_def ref_new_def validate_def
      ref_get_def om_get_def om_insert.simps revision_from_lsn_def checked_add_u64_def)

lemma sample_transact_conflict:
  "transact_at sample_db sample_request 2 =
     (Inl (Conflict \<lparr>conflict_key = sample_key, conflict_expected = ExpectNotExists,
        conflict_actual = OPresent 1\<rparr>), sample_db)"
  by (simp add: transact_at_def sample_request_def sample_db_def validate_def ref_get_def om_get_def)

lemma sample_inv: "ref_inv sample_db"
  using transact_at_effect(1) [OF ref_inv_new sample_transact] .

text \<open>C13: a transaction that is accepted at commit LSN \<open>l\<close> was well formed, every one of its
  conditions held in the state before it, every key it mutates has exactly the new state with
  revision \<open>l\<close> afterwards, every other key is untouched, and the database invariant
  (ordered map, all revisions positive and below the next LSN) is kept.\<close>

theorem transact_at_commits:
  assumes "ref_inv db" and "transact_at db request l = (Inr l', db')"
  shows "l' = l \<and> 0 < l \<and> validate request = Inr () \<and>
    (\<forall>c \<in> set (req_conditions request).
       condition_satisfied c (rs_observed (ref_get db (condition_key c)))) \<and>
    (\<forall>k. ref_get db' k =
       (case map_of (map (mutation_state l) (req_mutations request)) k of
          None \<Rightarrow> ref_get db k | Some s \<Rightarrow> s)) \<and>
    ref_inv db' \<and> l < next_lsn db'"
  using assms(2) transact_at_effect [OF assms]
  by (auto simp: transact_at_Inr check_conditions_iff word_gt_0)

theorem transact_at_commits_witness:
  "ref_inv sample_db \<and> ref_get sample_db sample_key = Present [7] 1 \<and> (1::lsn) < next_lsn sample_db"
proof -
  have "map_of (map (mutation_state 1) (req_mutations sample_request)) sample_key = Some (Present [7] 1)"
    by (simp add: sample_request_def)
  with transact_at_commits [OF ref_inv_new sample_transact] show ?thesis by simp
qed

text \<open>C14: a rejected transaction changes nothing: whenever \<open>transact_at\<close> fails at an LSN
  that still has a successor, the database is exactly what it was, and the error is either
  the malformed-request error or the conflict of the FIRST condition that does not hold,
  reported with its key, its expectation and the state actually observed.\<close>

theorem transact_at_rejects:
  assumes "transact_at db request l = (Inl e, db')" and "unat l + 1 < 2 ^ 64"
  shows "db' = db \<and>
    (e = InvalidRequest \<and> (l = 0 \<or> validate request = Inl InvalidRequest) \<or>
     (\<exists>c pre post. req_conditions request = pre @ c # post \<and>
       (\<forall>c' \<in> set pre. condition_satisfied c' (rs_observed (ref_get db (condition_key c')))) \<and>
       \<not> condition_satisfied c (rs_observed (ref_get db (condition_key c))) \<and>
       e = Conflict \<lparr>conflict_key = condition_key c, conflict_expected = expectation c,
             conflict_actual = rs_observed (ref_get db (condition_key c))\<rparr>))"
proof -
  have "l = 0 \<and> e = InvalidRequest \<or> validate request = Inl e \<or>
      check_conditions db (req_conditions request) = Inl e"
    using assms by (auto simp: transact_at_def Let_def checked_add_u64_def split: sum.splits if_splits)
  moreover have "db' = db" using transact_at_Inl [OF assms(1)] assms(2) by auto
  ultimately show ?thesis
    using validate_error check_conditions_error [of db "req_conditions request" e] by blast
qed

theorem transact_at_rejects_witness:
  "\<exists>c pre post. req_conditions sample_request = pre @ c # post \<and> \<not> condition_satisfied c (rs_observed (ref_get sample_db (condition_key c)))"
  using transact_at_rejects [OF sample_transact_conflict] by auto

text \<open>C15: a revision identifies a committed state. If the revision of a key is the same at
  two moments of a run of the database, the key has the same state (value or tombstone) at
  both moments, so the ABA case (deleted and re-created, or rewritten) never passes a
  revision check.\<close>

theorem revision_identifies_state:
  assumes "ref_inv db" and "ref_step\<^sup>*\<^sup>* db db'"
    and "rs_revision (ref_get db' k) = rs_revision (ref_get db k)"
  shows "ref_get db' k = ref_get db k"
  using ref_run_effect [OF assms(2,1)] ref_get_revision_less [OF assms(1), of k] assms(3)
  by (metis not_le)

lemma sample_steps: "ref_step\<^sup>*\<^sup>* ref_new sample_db"
  by (rule r_into_rtranclp, rule ref_step.transact_step [OF _ sample_transact])
    (simp_all add: ref_new_def)

lemma sample_other: "ref_get ref_new other_key = Missing 0" "ref_get sample_db other_key = Missing 0"
  by (simp_all add: ref_get_def ref_new_def om_get_def sample_db_def sample_key_def other_key_def)

theorem revision_identifies_state_witness:
  "ref_get sample_db other_key = ref_get ref_new other_key"
  by (rule revision_identifies_state [OF ref_inv_new sample_steps]) (simp add: sample_other)

text \<open>C16: optimistic concurrency control. When \<open>commit\<close> succeeds, every key whose revision
  the transaction recorded at an earlier moment \<open>db0\<close> of the run still has, at the commit,
  the very state it had when it was read, and every explicit condition of the transaction
  holds.\<close>

theorem commit_validates_reads:
  assumes "ref_inv db0" and "ref_step\<^sup>*\<^sup>* db0 db1"
    and "(k, rs_revision (ref_get db0 k)) \<in> set (rt_read_set txn)"
    and "ref_commit db1 txn = (Inr r, db2)"
  shows "ref_get db1 k = ref_get db0 k \<and>
    (\<forall>c \<in> set (rt_conditions txn). condition_satisfied c (rs_observed (ref_get db1 (condition_key c))))"
proof -
  let ?request = "commit_request txn"
  have req: "set (req_conditions ?request) =
      (\<lambda>(k, r). RevisionEquals k r) ` set (rt_read_set txn) \<union> set (rt_conditions txn)"
    by (simp add: commit_request_def)
  obtain l where "transact_at db1 ?request (next_lsn db1) = (Inr l, db2)"
    using assms(4) by (auto simp: ref_commit_def transact_def split: prod.splits sum.splits)
  then have hold: "\<forall>c \<in> set (req_conditions ?request).
      condition_satisfied c (rs_observed (ref_get db1 (condition_key c)))"
    by (simp add: transact_at_Inr check_conditions_iff)
  have "RevisionEquals k (rs_revision (ref_get db0 k)) \<in> set (req_conditions ?request)"
    using assms(3) unfolding req by force
  with hold have "rs_revision (ref_get db1 k) = rs_revision (ref_get db0 k)" by force
  then have "ref_get db1 k = ref_get db0 k"
    using ref_run_effect [OF assms(2,1)] ref_get_revision_less [OF assms(1), of k]
    by (metis not_le)
  with hold req show ?thesis by simp
qed

definition sample_txn :: reference_transaction where
  "sample_txn = \<lparr>txn_id = 1, rt_conditions = [Exists sample_key],
     rt_read_set = [(other_key, 0)], rt_write_set = [(sample_key, WDelete)]\<rparr>"

lemma sample_commit: "fst (ref_commit sample_db sample_txn) = Inr (Some 2)"
  by (simp add: ref_commit_def commit_request_def transact_def transact_at_def sample_txn_def
      sample_db_def validate_def ref_get_def om_get_def om_insert.simps revision_from_lsn_def
      checked_add_u64_def sample_key_def other_key_def)

theorem commit_validates_reads_witness:
  "ref_get sample_db other_key = ref_get ref_new other_key \<and>
   condition_satisfied (Exists sample_key) (rs_observed (ref_get sample_db sample_key))"
proof -
  have read: "(other_key, rs_revision (ref_get ref_new other_key)) \<in> set (rt_read_set sample_txn)"
    by (simp add: sample_txn_def sample_other)
  have "ref_commit sample_db sample_txn = (Inr (Some 2), snd (ref_commit sample_db sample_txn))"
    using sample_commit by (metis prod.collapse)
  from commit_validates_reads [OF ref_inv_new sample_steps read this] show ?thesis
    by (simp add: sample_txn_def)
qed

lemma transact_own_observation:
  assumes inv: "ref_inv db" and lsn: "unat (next_lsn db) + 1 < 2 ^ 64" and k: "mutation_key m = k"
  shows "\<exists>db'. transact db \<lparr>req_conditions = [RevisionEquals k (rs_revision (ref_get db k))],
           req_mutations = [m]\<rparr> = (Inr (next_lsn db), db') \<and> ref_inv db' \<and>
         ref_get db' k = snd (mutation_state (next_lsn db) m) \<and>
         (\<forall>k'. k' \<noteq> k \<longrightarrow> ref_get db' k' = ref_get db k')"
proof -
  let ?req = "\<lparr>req_conditions = [RevisionEquals k (rs_revision (ref_get db k))],
           req_mutations = [m]\<rparr>"
  obtain db' where ok: "transact_at db ?req (next_lsn db) = (Inr (next_lsn db), db')"
    using inv lsn by (auto simp: transact_at_Inr validate_iff check_conditions_iff ref_inv_def word_gt_0)
  show ?thesis
    using ok transact_at_effect [OF inv ok] k
    by (intro exI [of _ db']) (auto simp: transact_def split: if_splits)
qed

lemma transact_begun:
  assumes "ref_begin db = Some (txn, db')"
  shows "ref_get db' = ref_get db" "next_lsn db' = next_lsn db" "ref_inv db' \<longleftrightarrow> ref_inv db"
    "rt_conditions txn = []" "rt_read_set txn = []" "rt_write_set txn = []"
  using assms by (auto simp: ref_begin_def ref_get_def ref_inv_def fun_eq_iff split: option.splits)

lemma ref_begin_ok:
  "unat (next_txn_id db) + 1 < 2 ^ 64 \<Longrightarrow> \<exists>txn db'. ref_begin db = Some (txn, db')"
  by (simp add: ref_begin_def checked_add_u64_def)

text \<open>C17: \<open>put\<close> followed by \<open>get\<close> returns the value with the LSN of the put as its revision,
  and \<open>delete\<close> leaves a tombstone with the LSN of the delete; both always succeed while the
  LSN and transaction-id spaces are not exhausted, and leave every other key as it was.\<close>

theorem put_delete_get:
  assumes inv: "ref_inv db" and lsn: "unat (next_lsn db) + 1 < 2 ^ 64"
    and id: "unat (next_txn_id db) + 1 < 2 ^ 64"
  shows "(\<exists>db'. ref_put db k v = Some (Inr (next_lsn db), db') \<and> ref_inv db' \<and>
      ref_get db' k = Present v (next_lsn db) \<and> (\<forall>k'. k' \<noteq> k \<longrightarrow> ref_get db' k' = ref_get db k')) \<and>
    (\<exists>db'. ref_delete db k = Some (Inr (next_lsn db), db') \<and> ref_inv db' \<and>
      ref_get db' k = Missing (next_lsn db) \<and> (\<forall>k'. k' \<noteq> k \<longrightarrow> ref_get db' k' = ref_get db k'))"
proof -
  obtain txn db0 where beg: "ref_begin db = Some (txn, db0)" using ref_begin_ok [OF id] by blast
  note b = transact_begun [OF beg]
  have req: "commit_request (txn_put db0 k v txn) =
      \<lparr>req_conditions = [RevisionEquals k (rs_revision (ref_get db0 k))], req_mutations = [MPut k v]\<rparr>"
    "commit_request (txn_delete db0 k txn) =
      \<lparr>req_conditions = [RevisionEquals k (rs_revision (ref_get db0 k))], req_mutations = [MDelete k]\<rparr>"
    using b by (simp_all add: commit_request_def txn_put_def txn_delete_def txn_observe_def Let_def
        rset_record_def wset_put_def wset_delete_def om_or_insert_def om_get_def)
  have inv0: "ref_inv db0" and lsn0: "unat (next_lsn db0) + 1 < 2 ^ 64" using b inv lsn by auto
  obtain db1 where put: "transact db0 (commit_request (txn_put db0 k v txn)) = (Inr (next_lsn db), db1)"
    "ref_inv db1" "ref_get db1 k = Present v (next_lsn db)" "\<forall>k'. k' \<noteq> k \<longrightarrow> ref_get db1 k' = ref_get db k'"
    using transact_own_observation [OF inv0 lsn0, of "MPut k v" k] by (auto simp: req b(1,2))
  obtain db2 where del: "transact db0 (commit_request (txn_delete db0 k txn)) = (Inr (next_lsn db), db2)"
    "ref_inv db2" "ref_get db2 k = Missing (next_lsn db)" "\<forall>k'. k' \<noteq> k \<longrightarrow> ref_get db2 k' = ref_get db k'"
    using transact_own_observation [OF inv0 lsn0, of "MDelete k" k] by (auto simp: req b(1,2))
  have "ref_put db k v = Some (Inr (next_lsn db), db1)"
    by (simp add: ref_put_def beg ref_commit_def put(1) commit_lsn_of_def)
  moreover have "ref_delete db k = Some (Inr (next_lsn db), db2)"
    by (simp add: ref_delete_def beg ref_commit_def del(1) commit_lsn_of_def)
  ultimately show ?thesis using put del by blast
qed

theorem put_delete_get_witness:
  "\<exists>db'. ref_put sample_db other_key [5] = Some (Inr 2, db') \<and> ref_get db' other_key = Present [5] 2"
  using put_delete_get [OF sample_inv, of other_key "[5]"] by (auto simp: sample_db_def)

lemma take_page:
  assumes "sorted_wrt (<) (map f xs)" and "x \<in> set xs" and "x \<notin> set (take n xs)"
  shows "length (take n xs) = n \<and> (\<forall>y \<in> set (take n xs). f y < (f x :: 'k::linorder))"
proof -
  have "x \<in> set (drop n xs)" using assms(2,3) by (metis Un_iff append_take_drop_id set_append)
  moreover have "sorted_wrt (<) (map f (take n xs) @ map f (drop n xs))"
    using assms(1) by (metis append_take_drop_id map_append)
  ultimately show ?thesis
    by (auto simp: sorted_wrt_append min_def)
qed

lemma last_take_in_set: "m \<le> length xs \<Longrightarrow> 0 < m \<Longrightarrow> last (take m xs) \<in> set xs"
  by (rule in_set_takeD [of _ m], rule last_in_set) auto

lemma sorted_filter_rows: "om_wf m \<Longrightarrow> sorted_wrt (<) (map doc_key (filter P (documents m)))"
  using sorted_rows by (simp add: sorted_wrt_map sorted_wrt_filter)

lemma in_rows_iff:
  "ref_inv db \<Longrightarrow> d \<in> set (documents (states db)) \<longleftrightarrow>
     ref_get db (doc_key d) = Present (doc_value d) (doc_revision d)"
proof -
  assume "ref_inv db"
  then have "distinct (map fst (states db))"
    by (simp add: ref_inv_def om_wf_def strict_sorted_iff)
  then have "map_of (states db) (doc_key d) = Some s \<longleftrightarrow> (doc_key d, s) \<in> set (states db)" for s
    by (rule map_of_eq_Some_iff)
  moreover have "ref_get db k = Present v r \<longleftrightarrow> map_of (states db) k = Some (Present v r)" for k v r
    by (simp add: ref_get_def om_get_def split: option.splits)
  ultimately show ?thesis by (simp add: set_rows)
qed

text \<open>C18: a scan returns, in strictly increasing key order, documents after the cursor with
  the committed value and revision, at most \<open>limit\<close> of them, and it skips none: a present
  document after the cursor that is not on the page is missing only because the page is full,
  and then it lies after every document of the page.\<close>

theorem scan_exact:
  assumes "ref_inv db"
  shows "sorted_wrt (<) (map doc_key (ref_scan db c n)) \<and> length (ref_scan db c n) \<le> n \<and>
    (\<forall>d \<in> set (ref_scan db c n). after_cursor c (doc_key d) \<and>
       ref_get db (doc_key d) = Present (doc_value d) (doc_revision d)) \<and>
    (\<forall>d. ref_get db (doc_key d) = Present (doc_value d) (doc_revision d) \<longrightarrow>
       after_cursor c (doc_key d) \<longrightarrow> d \<in> set (ref_scan db c n) \<or>
       length (ref_scan db c n) = n \<and> (\<forall>d' \<in> set (ref_scan db c n). doc_key d' < doc_key d))"
proof -
  let ?xs = "filter (\<lambda>d. after_cursor c (doc_key d)) (documents (states db))"
  have wf: "om_wf (states db)" using assms by (simp add: ref_inv_def)
  note s = sorted_filter_rows [OF wf, of "\<lambda>d. after_cursor c (doc_key d)"]
  have 1: "sorted_wrt (<) (map doc_key (take n ?xs))"
    using s by (metis sorted_wrt_take take_map)
  have 2: "\<forall>d \<in> set (take n ?xs). after_cursor c (doc_key d) \<and>
      ref_get db (doc_key d) = Present (doc_value d) (doc_revision d)"
  proof
    fix d assume "d \<in> set (take n ?xs)"
    then have "d \<in> set ?xs" by (rule in_set_takeD)
    then show "after_cursor c (doc_key d) \<and>
        ref_get db (doc_key d) = Present (doc_value d) (doc_revision d)"
      by (simp only: set_filter mem_Collect_eq in_rows_iff [OF assms])
  qed
  have 3: "d \<in> set (take n ?xs) \<or>
      length (take n ?xs) = n \<and> (\<forall>d' \<in> set (take n ?xs). doc_key d' < doc_key d)"
    if "ref_get db (doc_key d) = Present (doc_value d) (doc_revision d)"
      "after_cursor c (doc_key d)" for d
  proof -
    have "d \<in> set ?xs" using that in_rows_iff [OF assms] by simp
    from take_page [OF s this] show ?thesis by blast
  qed
  have 4: "length (take n ?xs) \<le> n" by simp
  show ?thesis
    unfolding ref_scan_eq by (intro conjI allI impI 1 2 3 4)
qed

lemma sample_scan: "ref_scan sample_db None (Suc n) = [\<lparr>doc_key = sample_key, doc_value = [7], doc_revision = 1\<rparr>]"
  by (simp add: ref_scan_def sample_db_def List.map_filter_def)

theorem scan_exact_witness:
  "ref_get sample_db sample_key = Present [7] 1 \<and>
   \<lparr>doc_key = sample_key, doc_value = [7], doc_revision = 1\<rparr> \<in> set (ref_scan sample_db None 3) \<and>
   sorted_wrt (<) (map doc_key (ref_scan sample_db None 3)) \<and> length (ref_scan sample_db None 3) \<le> 3"
proof -
  let ?d = "\<lparr>doc_key = sample_key, doc_value = [7], doc_revision = 1\<rparr>"
  have get: "ref_get sample_db sample_key = Present [7] 1" by (simp add: ref_get_def sample_db_def om_get_def)
  have "length (ref_scan sample_db None 3) \<noteq> 3" using sample_scan [of 2] by (simp add: numeral_3_eq_3)
  then have "?d \<in> set (ref_scan sample_db None 3)"
    using scan_exact [OF sample_inv, of None 3, THEN conjunct2, THEN conjunct2, THEN conjunct2, THEN spec, of ?d] get
    by (simp add: after_cursor_def)
  then show ?thesis using get scan_exact [OF sample_inv, of None 3] by blast
qed

text \<open>C19: paging through a scan is exact: a full first page followed by the page that starts
  after its last key is the scan with the two limits added, so no document is returned twice
  or lost between pages.\<close>

theorem scan_pagination:
  assumes "ref_inv db" and "length (ref_scan db c m) = m" and "0 < m"
  shows "ref_scan db c m @ ref_scan db (Some (doc_key (last (ref_scan db c m)))) n = ref_scan db c (m + n)"
proof -
  let ?xs = "filter (\<lambda>d. after_cursor c (doc_key d)) (documents (states db))"
  let ?l = "last (take m ?xs)"
  have wf: "om_wf (states db)" using assms by (simp add: ref_inv_def)
  have m: "m \<le> length ?xs" using assms(2) by (simp add: ref_scan_eq)
  from last_take_in_set [OF m assms(3)] have "after_cursor c (doc_key ?l)" by simp
  then have "filter (\<lambda>d. after_cursor (Some (doc_key ?l)) (doc_key d)) (documents (states db)) =
      filter (\<lambda>d. doc_key ?l < doc_key d) ?xs"
    by (auto simp: after_cursor_def intro!: filter_cong split: option.splits)
  also have "\<dots> = drop m ?xs" by (rule take_filter_last [OF sorted_filter_rows [OF wf] m assms(3)])
  finally show ?thesis by (simp add: ref_scan_eq take_add)
qed

theorem scan_pagination_witness:
  "ref_scan sample_db None 1 @ ref_scan sample_db (Some sample_key) 4 = ref_scan sample_db None 5"
  using scan_pagination [OF sample_inv, of None 1 4] by (simp add: sample_scan)

text \<open>C20: a query is exact. Whatever the limit, it returns the first documents, in scan order, of all
  documents whose partition key is the one asked for and whose sort key is after the cursor; and
  paging through it is exact: a full first page followed by the page that starts after its last
  sort key is the query with the two limits added.\<close>

theorem query_pagination:
  assumes "ref_inv db"
  shows "ref_query db p c m = take m (filter (\<lambda>d. pk (doc_key d) = p \<and> after_cursor c (sk (doc_key d)))
      (ref_scan db None (length (states db)))) \<and>
    (length (ref_query db p c m) = m \<and> 0 < m \<longrightarrow>
      ref_query db p c m @ ref_query db p (Some (sk (doc_key (last (ref_query db p c m))))) n = ref_query db p c (m + n))"
proof (intro conjI impI)
  let ?P = "\<lambda>d. pk (doc_key d) = p \<and> after_cursor c (sk (doc_key d))"
  let ?xs = "filter ?P (documents (states db))"
  have "length (documents (states db)) \<le> length (states db)"
    by (simp add: documents_def List.map_filter_def)
  then have "ref_scan db None (length (states db)) = documents (states db)"
    by (simp add: ref_scan_eq after_cursor_def)
  then show "ref_query db p c m = take m (filter ?P (ref_scan db None (length (states db))))" by (simp add: ref_query_eq)
  assume full: "length (ref_query db p c m) = m \<and> 0 < m"
  let ?l = "last (take m ?xs)"
  have wf: "om_wf (states db)" using assms by (simp add: ref_inv_def)
  have m: "m \<le> length ?xs" "0 < m" using full by (auto simp: ref_query_eq)
  from last_take_in_set [OF m] have l: "pk (doc_key ?l) = p" "after_cursor c (sk (doc_key ?l))" by simp_all
  then have "filter (\<lambda>d. pk (doc_key d) = p \<and> after_cursor (Some (sk (doc_key ?l))) (sk (doc_key d)))
        (documents (states db)) = filter (\<lambda>d. doc_key ?l < doc_key d) ?xs"
    by (auto simp: after_cursor_def less_document_key_def intro!: filter_cong split: option.splits)
  also have "\<dots> = drop m ?xs" by (rule take_filter_last [OF sorted_filter_rows [OF wf] m])
  finally show "ref_query db p c m @ ref_query db p (Some (sk (doc_key (last (ref_query db p c m))))) n = ref_query db p c (m + n)"
    by (simp add: ref_query_eq take_add)
qed

lemma sample_query: "ref_query sample_db [1] None (Suc 0) = [\<lparr>doc_key = sample_key, doc_value = [7], doc_revision = 1\<rparr>]"
  by (simp add: ref_query_def sample_db_def sample_key_def List.map_filter_def)

theorem query_pagination_witness:
  "ref_query sample_db [1] None 1 @ ref_query sample_db [1] (Some (sk sample_key)) 4 =
     ref_query sample_db [1] None 5"
  using query_pagination [OF sample_inv, of "[1]" None 1 4, THEN conjunct2] by (simp add: sample_query)

end
