(* ===== verification/Dodb_Refine.thy ===== *)
theory Dodb_Refine
  imports Dodb_Engine Dodb_Reference
begin

text \<open>
  The engine refines the reference database. The rows of a store are the states of a reference
  database under the order-preserving key encoding; a batch answers what the reference database
  answers, and leaves the store holding its states.
\<close>

section \<open>Rows of a reference database\<close>

definition encoded :: "(document_key, revision_state) ordmap \<Rightarrow> rows" where
  "encoded m = map (\<lambda>(k, s). (encode k, s)) m"

lemma encoded_simps [simp]: "encoded [] = []" "encoded ((k, s) # m) = (encode k, s) # encoded m"
  by (simp_all add: encoded_def)

lemma encode_eq_iff [simp]: "encode k = encode k' \<longleftrightarrow> k = k'"
  by (metis decode_encode sum.inject(2))

lemma key_of_encode [simp]: "key_of (encode k) = k"
  by (simp add: key_of_def decode_encode)

lemma om_get_encoded: "om_get (encoded m) (encode k) = om_get m k"
  by (induction m) (auto simp: om_get_def)

lemma om_insert_encoded: "om_insert (encode k) s (encoded m) = encoded (om_insert k s m)"
  by (induction k s m rule: om_insert.induct) (auto simp: encode_less_iff)

lemma om_wf_encoded [simp]: "om_wf (encoded m) = om_wf m"
  by (induction m) (force simp: om_wf_Cons encode_less_iff encoded_def)+

lemma lookup_encoded [simp]: "lookup (encoded (states db)) (encode k) = ref_get db k"
  by (simp add: lookup_def ref_get_def om_get_encoded split: option.splits)

section \<open>Scans and queries\<close>

definition engine_doc :: "document \<Rightarrow> btree_document" where
  "engine_doc d = btree_document.make (document.doc_key d) (document.doc_value d) (document.doc_revision d)"

fun reserve_docs :: "document list \<Rightarrow> response_budget \<Rightarrow> error + response_budget" where
  "reserve_docs [] b = Inr b"
| "reserve_docs (d # ds) b = rbind (reserve_document (document.doc_key d) (length (document.doc_value d)) b) (reserve_docs ds)"

abbreviation answer :: "document list \<Rightarrow> btree_document list \<Rightarrow> response_budget \<Rightarrow> error + btree_document list \<times> response_budget" where
  "answer docs acc b \<equiv> rbind (reserve_docs docs b) (\<lambda>b'. Inr (acc @ map engine_doc docs, b'))"

lemma documents_simps [simp]:
  "documents [] = []" "documents ((k, Missing r) # m) = documents m"
  "documents ((k, Present v r) # m) = \<lparr>document.doc_key = k, doc_value = v, doc_revision = r\<rparr> # documents m"
  by (simp_all add: documents_def List.map_filter_def)

lemma scan_rows_encoded:
  assumes "length acc < limit"
  shows "scan_rows (map_option encode cursor) limit (encoded m) acc b =
    answer (take (limit - length acc) (filter (\<lambda>d. after_cursor cursor (document.doc_key d)) (documents m))) acc b"
  using assms
proof (induction m arbitrary: acc b)
  case (Cons ks m)
  obtain k s where ks: "ks = (k, s)" by force
  have up: "up_to (map_option encode cursor) (encode k) \<longleftrightarrow> \<not> after_cursor cursor k"
    using encode_less_iff by (auto simp: up_to_def after_cursor_def not_le [symmetric] split: option.splits)
  show ?case
  proof (cases "after_cursor cursor k \<and> (\<exists>v r. s = Present v r)")
    case True
    then obtain v r where s: "s = Present v r" "after_cursor cursor k" by blast
    show ?thesis
    proof (cases "reserve_document k (length v) b")
      case (Inr b')
      then show ?thesis
        using s up ks Cons.prems Cons.IH [of "acc @ [\<lparr>btree_document.doc_key = k, doc_value = v, doc_revision = r\<rparr>]" b']
        by (cases "Suc (length acc) = limit")
          (auto simp: Let_def engine_doc_def btree_document.make_def take_Cons' rbind_def split: sum.splits)
    qed (use s up ks Cons.prems in \<open>simp add: take_Cons'\<close>)
  next
    case False
    then show ?thesis using up ks Cons by (cases s) auto
  qed
qed simp

lemma documents_in: "d \<in> set (documents m) \<Longrightarrow> document.doc_key d \<in> fst ` set m"
  by (force simp: set_rows)

lemma query_rows_encoded:
  assumes "om_wf m" and "length acc < limit"
  shows "query_rows qpk after_sk limit (encoded m) acc b =
    answer (take (limit - length acc) (filter (\<lambda>d. pk (document.doc_key d) = qpk \<and> after_cursor after_sk (sk (document.doc_key d))) (documents m)))
      acc b"
  using assms
proof (induction m arbitrary: acc b)
  case (Cons ks m)
  obtain k s where ks: "ks = (k, s)" by force
  let ?P = "\<lambda>d. pk (document.doc_key d) = qpk \<and> after_cursor after_sk (sk (document.doc_key d))"
  have wf: "om_wf m" and later: "\<forall>k' \<in> fst ` set m. k < k'" using Cons.prems(1) by (auto simp: ks om_wf_Cons)
  have up: "up_to after_sk (sk k) \<longleftrightarrow> \<not> after_cursor after_sk (sk k)"
    by (auto simp: up_to_def after_cursor_def split: option.splits)
  consider (past) "pk k > qpk" | (skip) "pk k < qpk \<or> pk k = qpk \<and> (up_to after_sk (sk k) \<or> (\<exists>r. s = Missing r))"
    | (hit) v r where "pk k = qpk" "after_cursor after_sk (sk k)" "s = Present v r"
    using up by (metis (full_types) revision_state.exhaust less_linear)
  then show ?case
  proof cases
    case past
    have "pk (document.doc_key d) > qpk" if "d \<in> set (documents m)" for d
      using later documents_in [OF that] past by (auto simp: less_document_key_def)
    then have "filter ?P (documents m) = []" by (force simp: filter_empty_conv)
    with past ks show ?thesis by (cases s) auto
  next
    case skip
    then have "\<not> pk k > qpk" by auto
    then show ?thesis using skip up ks Cons.IH [OF wf Cons.prems(2)] by (cases s) auto
  next
    case hit
    show ?thesis
    proof (cases "reserve_document k (length v) b")
      case (Inr b')
      then show ?thesis
        using hit up ks Cons.prems Cons.IH [OF wf, of "acc @ [\<lparr>btree_document.doc_key = k, doc_value = v, doc_revision = r\<rparr>]" b']
        by (cases "Suc (length acc) = limit")
          (auto simp: Let_def engine_doc_def btree_document.make_def take_Cons' rbind_def split: sum.splits)
    qed (use hit up ks Cons.prems in \<open>simp add: take_Cons'\<close>)
  qed
qed simp

section \<open>Batches on the reference database\<close>

text \<open>A batch committed at LSN \<open>c\<close>: each request answers from the reference database, a write is
  a transaction at \<open>c\<close>.\<close>

abbreviation write_at :: "reference_db \<Rightarrow> transaction_mutation \<Rightarrow> lsn \<Rightarrow> reference_db" where
  "write_at db mutation c \<equiv> snd (transact_at db \<lparr>req_conditions = [], req_mutations = [mutation]\<rparr> c)"

fun ref_exec :: "lsn \<Rightarrow> batch_request \<Rightarrow> reference_db \<Rightarrow> response_budget \<Rightarrow> error + batch_response \<times> response_budget \<times> reference_db" where
  "ref_exec c (GetRequest key) db b =
     rbind (reserve_state (state_length (ref_get db key)) b) (\<lambda>b'. Inr (GetResponse (ref_get db key), b', db))"
| "ref_exec c (PutRequest key v) db b = Inr (PutResponse c, b, write_at db (MPut key v) c)"
| "ref_exec c (DeleteRequest key) db b = Inr (DeleteResponse c, b, write_at db (MDelete key) c)"
| "ref_exec c (QueryRequest qpk after_sk limit) db b =
     rbind (reserve_docs (ref_query db qpk after_sk limit) b) (\<lambda>b'.
     Inr (QueryResponse (map engine_doc (ref_query db qpk after_sk limit)), b', db))"
| "ref_exec c (ScanRequest cursor limit) db b =
     rbind (reserve_docs (ref_scan db cursor limit) b) (\<lambda>b'.
     Inr (ScanResponse (map engine_doc (ref_scan db cursor limit)), b', db))"

fun ref_exec_all :: "lsn \<Rightarrow> batch_request list \<Rightarrow> reference_db \<Rightarrow> response_budget \<Rightarrow> error + batch_response list \<times> reference_db" where
  "ref_exec_all c [] db b = Inr ([], db)"
| "ref_exec_all c (request # requests) db b =
     rbind (ref_exec c request db b) (\<lambda>(response, b', db').
     rbind (ref_exec_all c requests db' b') (\<lambda>(responses, db''). Inr (response # responses, db'')))"

definition ref_batch :: "lsn \<Rightarrow> batch_request list \<Rightarrow> nat \<Rightarrow> reference_db \<Rightarrow> error + batch_response list \<times> reference_db" where
  "ref_batch c requests n db = rbind (budget_new n) (ref_exec_all c requests db)"

lemma write_at_states:
  assumes "c \<noteq> 0"
  shows "states (write_at db (MPut key v) c) = om_insert key (Present v c) (states db)"
    "states (write_at db (MDelete key) c) = om_insert key (Missing c) (states db)"
  using assms by (auto simp: transact_at_def validate_def Let_def split: option.splits)

lemma exec_rows_encoded:
  assumes "om_wf (states db)" and "c \<noteq> 0"
  shows "exec_rows c request (encoded (states db)) b = map_sum id (\<lambda>(r, b', db'). (r, b', encoded (states db'))) (ref_exec c request db b)"
proof (cases request)
  case (QueryRequest qpk after_sk limit)
  then show ?thesis
    using query_rows_encoded [OF assms(1), of "[]" limit qpk after_sk b]
    by (cases "limit = 0") (auto simp: ref_query_eq rbind_def split: sum.splits)
next
  case (ScanRequest cursor limit)
  then show ?thesis
    using scan_rows_encoded [of "[]" limit cursor "states db" b] by (cases "limit = 0") (auto simp: ref_scan_eq rbind_def split: sum.splits)
qed (use assms write_at_states in \<open>auto simp: om_insert_encoded rbind_def split: sum.splits\<close>)

lemma ref_exec_inv:
  assumes inv: "ref_inv db" and c: "c \<noteq> 0" "unat c + 1 < 2 ^ 64" and run: "ref_exec c request db b = Inr (r, b', db')"
  shows "ref_inv db'" "next_lsn db' \<le> max (next_lsn db) (c + 1)" "\<not> writes request \<Longrightarrow> db' = db"
proof -
  have w: "\<exists>l. transact_at db \<lparr>req_conditions = [], req_mutations = [m]\<rparr> c = (Inr l, write_at db m c) \<and>
      next_lsn (write_at db m c) = max (next_lsn db) (c + 1)" for m
    using c by (intro exI [of _ c])
      (auto simp: transact_at_Inr validate_def transact_at_def Let_def checked_add_u64_def max_def apply_mutations_def not_less)
  show "ref_inv db'" using run inv transact_at_effect(1) [OF inv] w by (cases request) (auto simp: rbind_Inr_iff, blast+)
  show "next_lsn db' \<le> max (next_lsn db) (c + 1)" using run w by (cases request) (auto simp: rbind_Inr_iff)
  show "\<not> writes request \<Longrightarrow> db' = db" using run by (cases request) (auto simp: rbind_Inr_iff)
qed

lemma ref_exec_all_inv:
  assumes "ref_inv db" and c: "c \<noteq> 0" "unat c + 1 < 2 ^ 64" and "ref_exec_all c requests db b = Inr (rs, db')"
  shows "ref_inv db' \<and> next_lsn db' \<le> max (next_lsn db) (c + 1) \<and> (\<not> list_ex writes requests \<longrightarrow> db' = db)"
  using assms(1,4)
proof (induction requests arbitrary: db b rs)
  case (Cons request requests)
  then obtain r b1 db1 rs1 where 1: "ref_exec c request db b = Inr (r, b1, db1)" "ref_exec_all c requests db1 b1 = Inr (rs1, db')"
    by (auto simp: rbind_Inr_iff)
  note step = ref_exec_inv [OF Cons.prems(1) c 1(1)]
  from Cons.IH [OF step(1) 1(2)] step(2,3) show ?case by (auto simp: max_def split: if_splits)
qed simp

lemma exec_all_encoded:
  assumes "ref_inv db" and c: "c \<noteq> 0" "unat c + 1 < 2 ^ 64"
  shows "exec_all_rows c requests (encoded (states db)) b = map_sum id (\<lambda>(rs, db'). (rs, encoded (states db'))) (ref_exec_all c requests db b)"
  using assms(1)
proof (induction requests arbitrary: db b)
  case (Cons request requests)
  have e: "exec_rows c request (encoded (states db)) b = map_sum id (\<lambda>(r, b', db'). (r, b', encoded (states db'))) (ref_exec c request db b)"
    using exec_rows_encoded [OF _ c(1)] Cons.prems by (simp add: ref_inv_def)
  show ?case
  proof (cases "ref_exec c request db b")
    case (Inr x)
    obtain r b1 db1 where x: "x = (r, b1, db1)" by (metis surj_pair)
    from Cons.IH [OF ref_exec_inv(1) [OF Cons.prems c Inr [unfolded x]]] e Inr x show ?thesis
      by (auto simp: rbind_def split: sum.splits)
  qed (use e in simp)
qed simp

section \<open>Refinement of batches\<close>

definition models :: "(crashable_file, crashable_file, 'i) env \<Rightarrow> (crashable_file, crashable_file, 'i) btree_store \<Rightarrow> reference_db \<Rightarrow> bool" where
  "models env st db \<longleftrightarrow> store_inv env st (encoded (states db)) \<and> ref_inv db \<and> next_lsn db \<le> bs_next_revision st"

text \<open>The batches that can be refused as invalid input: one is over a limit of the database, or it writes and a key,
  stored or written, is not light.\<close>

definition refusable :: "database_config \<Rightarrow> reference_db \<Rightarrow> batch_request list \<Rightarrow> bool" where
  "refusable config db requests \<longleftrightarrow> \<not> list_all (within_limits config) requests \<or> \<not> list_all writes_light requests \<or>
     list_ex writes requests \<and> \<not> light (encoded (states db))"

lemma batch_models:
  assumes m: "models env st db" and room: "room_for env st (length requests)"
  shows "\<exists>c r st'. next_lsn db \<le> c \<and> apply_batch_with_response_budget env requests n st = (r, st') \<and> bs_config st' = bs_config st \<and>
    (case r of
       Inr rs \<Rightarrow> list_all (within_limits (bs_config st)) requests \<and> (\<exists>db'. ref_batch c requests n db = Inr (rs, db') \<and> models env st' db')
     | Inl e \<Rightarrow> models env st' db \<and>
         (ref_batch c requests n db = Inl e \<or> e = InvalidInput \<and> refusable (bs_config st) db requests))"
proof (cases "budget_new n")
  case (Inl e)
  then show ?thesis using m budget_error [OF Inl, of env requests st]
    by (intro exI [of _ "next_lsn db"] exI [of _ "Inl e"] exI [of _ st]) (simp add: ref_batch_def)
next
  case (Inr b)
  have inv: "store_inv env st (encoded (states db))" and db: "ref_inv db" "next_lsn db \<le> bs_next_revision st" "0 < bs_next_revision st"
    using m by (auto simp: models_def store_inv_def store_ok_def state_ok_def)
  obtain c r st' where c: "bs_next_revision st \<le> c" "unat c + 1 < 2 ^ 64" and run: "apply_batch_with_response_budget env requests n st = (r, st')"
    and st': "bs_config st' = bs_config st"
    and res: "case r of
       Inl e \<Rightarrow> store_inv env st' (encoded (states db)) \<and> bs_next_revision st' = bs_next_revision st \<and>
         (exec_all_rows c requests (encoded (states db)) b = Inl e \<or> e = InvalidInput \<and> \<not> requests_ok (bs_config st) (encoded (states db)) requests)
     | Inr rs \<Rightarrow> list_all (within_limits (bs_config st)) requests \<and> (\<exists>rows'. exec_all_rows c requests (encoded (states db)) b = Inr (rs, rows') \<and>
         store_inv env st' rows' \<and> bs_next_revision st' = (if list_ex writes requests then c + 1 else bs_next_revision st))"
    using batch_run [OF inv room Inr] by blast
  have c0: "c \<noteq> 0" using c(1) db(3) by (metis leD)
  have "max (next_lsn db) (c + 1) = c + 1"
    using db(2) c by (simp add: max_def word_le_nat_alt unat_word_ariths)
  with res run exec_all_encoded [OF db(1) c0 c(2), of requests b] ref_exec_all_inv [OF db(1) c0 c(2), of requests b] Inr st' c db
  show ?thesis
    by (intro exI [of _ c] exI [of _ r] exI [of _ st'])
      (auto simp: ref_batch_def models_def refusable_def requests_ok_def map_sum_def split: sum.splits if_splits)
qed

end
