(* ===== verification/Dodb_Transactions.thy ===== *)
theory Dodb_Transactions
  imports Dodb_Refine
begin

text \<open>
  Optimistic transactions on the engine. A group of transactions gives, in one log append, the
  results of the reference database executing the requests one after the other: a request whose
  conditions do not hold is a conflict and changes nothing, the others commit in order.
\<close>

section \<open>Transactions on rows\<close>

fun check_rows :: "rows \<Rightarrow> transaction_condition list \<Rightarrow> error + unit" where
  "check_rows rows [] = Inr ()"
| "check_rows rows (c # cs) =
     (let actual = rs_observed (lookup rows (encode (condition_key c))) in
      if condition_satisfied c actual then check_rows rows cs
      else Inl (Conflict \<lparr>conflict_key = condition_key c, conflict_expected = expectation c, conflict_actual = actual\<rparr>))"

fun mutate_rows :: "revision \<Rightarrow> transaction_mutation list \<Rightarrow> rows \<Rightarrow> rows" where
  "mutate_rows p [] rows = rows"
| "mutate_rows p (MPut key v # ms) rows = mutate_rows p ms (om_insert (encode key) (Present v p) rows)"
| "mutate_rows p (MDelete key # ms) rows = mutate_rows p ms (om_insert (encode key) (Missing p) rows)"

text \<open>Mutations and transactions within the limits of the database, and those that only write light keys.\<close>

fun mutation_within :: "database_config \<Rightarrow> transaction_mutation \<Rightarrow> bool" where
  "mutation_within config (MPut key v) \<longleftrightarrow> within_limits config (PutRequest key v)"
| "mutation_within config (MDelete key) \<longleftrightarrow> within_limits config (DeleteRequest key)"

definition transaction_within :: "database_config \<Rightarrow> transaction_request \<Rightarrow> bool" where
  "transaction_within config request \<longleftrightarrow> list_all (mutation_within config) (req_mutations request) \<and>
     list_all (\<lambda>c. length (encode (condition_key c)) \<le> MAX_ENCODED_KEY_SIZE) (req_conditions request)"

definition mutation_light :: "transaction_mutation \<Rightarrow> bool" where
  "mutation_light m \<longleftrightarrow> length (encode (mutation_key m)) \<le> LIGHT_KEY"

lemma mutation_light_simps [simp]:
  "mutation_light (MPut key v) \<longleftrightarrow> length (encode key) \<le> LIGHT_KEY" "mutation_light (MDelete key) \<longleftrightarrow> length (encode key) \<le> LIGHT_KEY"
  by (simp_all add: mutation_light_def)

lemma mutate_rows_light: "light rows \<Longrightarrow> list_all mutation_light ms \<Longrightarrow> light (mutate_rows p ms rows)"
  by (induction p ms rows rule: mutate_rows.induct) (auto simp: light_insert)

lemma mutate_rows_origin: "r \<in> set (mutate_rows p ms rows) \<Longrightarrow> rs_revision (snd r) = p \<or> r \<in> set rows"
  by (induction p ms rows rule: mutate_rows.induct) (use set_om_insert_le in fastforce)+

lemma mutate_rows_restamp: "restamp_rows p c (mutate_rows p ms rows) = mutate_rows c ms (restamp_rows p c rows)"
  by (induction p ms rows rule: mutate_rows.induct)
    (use om_insert_restamp [of _ "Present _ p" p c] om_insert_restamp [of _ "Missing p" p c] in \<open>auto simp: om_insert_restamp [symmetric]\<close>)

definition mutations_ok :: "database_config \<Rightarrow> rows \<Rightarrow> transaction_mutation list \<Rightarrow> bool" where
  "mutations_ok config rows ms \<longleftrightarrow> list_all (mutation_within config) ms \<and> list_all mutation_light ms \<and> light rows"

text \<open>The state has room for a transaction with \<open>n\<close> mutations.\<close>

definition state_room :: "ostate \<Rightarrow> nat \<Rightarrow> bool" where
  "state_room s n \<longleftrightarrow> unat (o_high s) + n * PUT_GROWTH < 2 ^ 31 \<and> unat (o_next_lsn s) + 2 ^ 32 < 2 ^ 64 \<and>
     unat (sb_generation (o_superblock s)) + 1 < 2 ^ 64 \<and> unat (o_next_batch s) + 1 < 2 ^ 64"

lemma validate_mutations:
  "rmap (validate_transaction_mutation (dc_limits config)) ms =
     (if list_all (mutation_within config) ms then Inr (map (\<lambda>_. ()) ms) else Inl InvalidInput)"
proof (induction ms)
  case (Cons m ms)
  have "validate_transaction_mutation (dc_limits config) m = (if mutation_within config m then Inr () else Inl InvalidInput)"
    by (cases m) (auto simp: validate_transaction_mutation_def validate_value_def validate_encoded_key_def ensure_def)
  with Cons show ?case by simp
qed simp

text \<open>What a transaction gives from the committed state \<open>s\<close>.\<close>

definition transacted :: "crc_fun \<Rightarrow> ostate \<Rightarrow> rows \<Rightarrow> transaction_request \<Rightarrow> prepared_batch option \<Rightarrow> ostate \<Rightarrow> bool" where
  "transacted crc s rows request r s' \<longleftrightarrow> validate request = Inr () \<and> check_rows rows (req_conditions request) = Inr () \<and>
     (if req_mutations request = [] then r = None \<and> s' = s
      else \<exists>pr s1 img. r = Some pr \<and> prepared_from crc s (mutate_rows (o_next_revision s) (req_mutations request) rows) s1 img pr \<and>
        s' = after_commit (o_next_revision s) pr s1 \<and>
        unat (o_high s1) \<le> unat (o_high s) + length (req_mutations request) * PUT_GROWTH)"

definition refused :: "rows \<Rightarrow> transaction_request \<Rightarrow> error \<Rightarrow> bool" where
  "refused rows request e \<longleftrightarrow> validate request = Inl e \<or> validate request = Inr () \<and> check_rows rows (req_conditions request) = Inl e"

text \<open>A request within the limits that fails because a key is not light; this is the one case in which a
  failed request may leave its first writes behind.\<close>

definition stranded :: "database_config \<Rightarrow> rows \<Rightarrow> transaction_request \<Rightarrow> error \<Rightarrow> bool" where
  "stranded config rows request e \<longleftrightarrow> e = InvalidInput \<and> transaction_within config request \<and>
     \<not> (list_all mutation_light (req_mutations request) \<and> light rows)"

section \<open>On the overlay\<close>

context reliable_file
begin

lemma holds_metrics: "holds env st0 s ov \<Longrightarrow> holds env st0 s (ov\<lparr>ov_store := (ov_store ov)\<lparr>bs_storage_metrics := m\<rparr>\<rparr>)"
  by (auto simp: holds_def pages_coherent_def ov_state_def)

lemma does_metrics:
  assumes "\<And>st. \<exists>m. f st = st\<lparr>bs_storage_metrics := m\<rparr>" and "Q () s"
  shows "does env st0 (on_store (smod f)) s Q F"
proof (rule does_intro)
  fix ov r ov' assume h: "holds env st0 s ov" and run: "on_store (smod f) ov = (r, ov')"
  obtain m where "f (ov_store ov) = (ov_store ov)\<lparr>bs_storage_metrics := m\<rparr>" using assms(1) by blast
  then have "ov' = ov\<lparr>ov_store := (ov_store ov)\<lparr>bs_storage_metrics := m\<rparr>\<rparr>" "r = Inr ()" using run by (auto simp: on_store_def smod_def)
  then show "\<exists>s'. holds env st0 s' ov' \<and> (case r of Inr x \<Rightarrow> Q x s' | Inl e \<Rightarrow> F e s')"
    using holds_metrics [OF h, of m] assms(2) by (intro exI [of _ s]) simp
qed

lemma does_assume: "(\<And>ov. holds env st0 s ov \<Longrightarrow> does env st0 m s Q F) \<Longrightarrow> does env st0 m s Q F"
  unfolding does_def by blast

lemma does_check_conditions:
  assumes inv: "holds_rows s rows"
  shows "does env st0 (check_tree_conditions env cs) s (\<lambda>_ s'. s' = s \<and> check_rows rows cs = Inr () \<and>
       list_all (\<lambda>c. length (encode (condition_key c)) \<le> MAX_ENCODED_KEY_SIZE) cs)
    (\<lambda>e s'. s' = s \<and> (check_rows rows cs = Inl e \<or>
       e = InvalidInput \<and> \<not> list_all (\<lambda>c. length (encode (condition_key c)) \<le> MAX_ENCODED_KEY_SIZE) cs))"
proof (induction cs)
  case Nil
  show ?case unfolding check_tree_conditions.simps by (intro does_ret) simp
next
  case (Cons c cs)
  show ?case
    unfolding check_tree_conditions.simps
  proof (rule does_bind, rule does_weaken [OF does_observe [OF inv]], assumption, goal_cases)
    case (1 e s')
    then show ?case by simp
  next
    case (2 actual s')
    then have a: "s' = s" "actual = rs_observed (lookup rows (encode (condition_key c)))" "length (encode (condition_key c)) \<le> MAX_ENCODED_KEY_SIZE"
      by simp_all
    show ?case
    proof (cases "condition_satisfied c actual")
      case True
      show ?thesis unfolding a(1) using does_weaken [OF Cons.IH] True a(2,3) by (simp add: Let_def)
    next
      case False
      then have "check_rows rows (c # cs) =
          Inl (Conflict \<lparr>conflict_key = condition_key c, conflict_expected = expectation c, conflict_actual = actual\<rparr>)"
        using a(2) by (simp add: Let_def)
      then show ?thesis
        unfolding a(1) if_not_P [OF False]
        by (intro does_bind [where R = "\<lambda>_ s'. s' = s"] does_metrics) (auto intro: does_fail simp: add_validation_time_def)
    qed
  qed
qed

lemma does_apply_mutations:
  assumes "holds_rows s rows"
  shows "does env st0 (apply_tree_mutations env ms) s
    (\<lambda>_ s'. holds_rows s' (mutate_rows (stamp_of s) ms rows) \<and> advanced (ms \<noteq> []) (length ms * PUT_GROWTH) s s')
    (\<lambda>e _. e = InvalidInput \<and> \<not> mutations_ok (bs_config st0) rows ms \<or> 2 ^ 62 \<le> unat (o_high s) + length ms * PUT_GROWTH)"
  using assms
proof (induction ms arbitrary: s rows)
  case Nil
  then show ?case unfolding apply_tree_mutations.simps by (intro does_ret) (simp add: advanced_def)
next
  case (Cons m ms)
  have step: "does env st0 (apply_tree_mutations env ms) s1
      (\<lambda>_ s'. holds_rows s' (mutate_rows (stamp_of s) ms rows1) \<and> advanced (m # ms \<noteq> []) (length (m # ms) * PUT_GROWTH) s s')
      (\<lambda>e _. e = InvalidInput \<and> \<not> mutations_ok (bs_config st0) rows (m # ms) \<or> 2 ^ 62 \<le> unat (o_high s) + length (m # ms) * PUT_GROWTH)"
    if h: "holds_rows s1 rows1" and t: "touched PUT_GROWTH (stamped s) s1"
      and l: "mutation_light m \<Longrightarrow> light rows \<Longrightarrow> light rows1" for s1 rows1
  proof -
    have adv: "advanced True PUT_GROWTH s s1" using t by (simp add: advanced_def)
    note stamp = advanced_stamp [OF adv] and high = advanced_high [OF adv]
    show ?thesis
    proof (rule does_weaken [OF Cons.IH [OF h]], goal_cases)
      case (1 x s')
      then show ?case using advanced_trans [OF adv, of "ms \<noteq> []" "length ms * PUT_GROWTH" s'] stamp by simp
    next
      case (2 e s')
      then show ?case using l high by (auto simp: mutations_ok_def)
    qed
  qed
  show ?case
  proof (cases m)
    case (MPut key v)
    show ?thesis
      unfolding MPut apply_tree_mutations.simps
      by (rule does_bind [OF does_weaken [OF does_overlay_put [OF Cons.prems]]])
        (use step MPut in \<open>auto simp: mutations_ok_def put_error_def light_insert dest: write_error_ok\<close>)
  next
    case (MDelete key)
    show ?thesis
      unfolding MDelete apply_tree_mutations.simps
      by (rule does_bind [OF does_weaken [OF does_overlay_delete [OF Cons.prems]]])
        (use step MDelete in \<open>auto simp: mutations_ok_def light_insert dest: write_error_ok\<close>)
  qed
qed

section \<open>Finishing a transaction\<close>

lemma finish_transaction_run:
  assumes h: "holds env st0 s ov" and last: "o_last s = Some p" and inv: "tree_inv s t own frees rows"
    and hw: "o_high s \<noteq> NULL_PAGE_ID" and wal: "bs_wal st0 \<noteq> None" and sb: "superblock_ok (o_superblock s)" and room: "commit_room s"
  shows "\<exists>pr img ov'. finish_transaction env ov = (Inr pr, ov') \<and> commits_pages (crc32c env) s p (commit_of s) pr \<and>
    commits_meta (crc32c env) s (commit_of s) img pr \<and> pr_read_pages pr = ov_read_pages ov \<and> holds env st0 (after_commit p pr s) ov'"
proof -
  note f = holds_fields [OF h] and pg = holds_pages [OF h]
  obtain fl c m where st: "ov_store ov = st0\<lparr>bs_file := fl, bs_cache := c, bs_storage_metrics := m\<rparr>" using holds_same_store [OF h] by metis
  obtain pages' cp cd where d: "restamp_dirty (o_dirty s) p (commit_of s) (ov_pages ov) = Inr pages'"
    "encode_dirty (crc32c env) (o_dirty s) pages' = Inr (cp, cd)" "om_wf pages'"
    "\<And>q. om_get pages' q = (if q \<in> set (o_dirty s) then map_option (\<lambda>d. restamp d p (commit_of s)) (o_mem s q) else om_get (ov_pages ov) q)"
    "\<And>pr. pr_changed_pages pr = cp \<Longrightarrow> pr_changed_decoded pr = cd \<Longrightarrow> commits_pages (crc32c env) s p (commit_of s) pr"
    using dirty_images [OF inv hw pg(1-4), of p "commit_of s" "crc32c env"] by metis
  note meta = tree_inv_meta [OF inv hw]
  have gen: "unat (sb_generation (o_superblock s)) + 1 < 2 ^ 64" and batch: "unat (o_next_batch s) + 1 < 2 ^ 64"
    using room by (simp_all add: commit_room_def)
  obtain r img where r: "next_superblock (crc32c env) (o_superblock s) (o_root s) (o_free s) (o_high s) = Inr r"
    "superblock_ok r \<and> encode_superblock (crc32c env) r = Inr img \<and> decode_superblock (crc32c env) img = Inr r \<and> length img = PAGE_SIZE \<and>
     sb_generation r = sb_generation (o_superblock s) + 1 \<and> sb_root_page_id r = Some (o_root s) \<and> sb_free_list_head r = o_free s \<and>
     sb_high_water_page_id r = Some (o_high s) \<and> sb_checkpoint_lsn r = sb_checkpoint_lsn (o_superblock s) \<and>
     sb_database_uuid r = sb_database_uuid (o_superblock s) \<and> sb_tenant_id r = sb_tenant_id (o_superblock s) \<and>
     sb_shard_id r = sb_shard_id (o_superblock s) \<and> sb_shard_epoch r = sb_shard_epoch (o_superblock s)"
    using next_superblock_run [OF sb gen meta(1,2) hw, of "crc32c env"] by metis
  note sum = commit_of_sum [OF room]
  let ?pr = "\<lparr>pr_responses = [], pr_changed_pages = cp, pr_changed_decoded = cd,
     pr_read_pages = ov_read_pages ov, pr_new_superblock = r, pr_new_slot = other_slot (o_slot s),
     pr_base_generation = sb_generation (o_superblock s), pr_next_revision = commit_of s + 1, pr_root_page_id = o_root s,
     pr_free_list_head = o_free s, pr_high_water_page_id = o_high s, pr_commit_lsn = Some (commit_of s), pr_batch_id = o_next_batch s\<rparr>"
  let ?ov = "ov\<lparr>ov_pages := pages', ov_read_pages := [], ov_current_superblock := r, ov_active_slot := other_slot (o_slot s),
     ov_next_revision := commit_of s + 1, ov_next_lsn := commit_of s + 1, ov_next_batch_id := o_next_batch s + 1, ov_dirty := [], ov_last_lsn := None\<rparr>"
  have "finish_transaction env ov = (Inr ?pr, ?ov)"
    using wal sum d(1,2) r(1) last batch
    by (simp add: finish_transaction_def sbind_def sget_def smod_def sres_def st f checked_add_one)
  moreover have "commits_meta (crc32c env) s (commit_of s) img ?pr" using r(2) by (simp add: commits_meta_def)
  moreover have "holds env st0 (after_commit p ?pr s) ?ov"
  proof -
    have "ov_mem (store_base env st0) ?ov q = committed_memory s p (commit_of s) q" for q
      using d(4) [of q] pg(3,4) f(11) by (auto simp: ov_mem_def committed_memory_def fun_eq_iff split: option.splits)
    then have mem: "ov_mem (store_base env st0) ?ov = committed_memory s p (commit_of s)" by (rule ext)
    have "after_commit p ?pr s = ov_state (store_base env st0) (o_clean (after_commit p ?pr s)) ?ov"
      by (rule ostate.equality) (use mem f in \<open>simp_all add: after_commit_def ov_state_def\<close>)
    moreover have "pages_coherent (store_base env st0) (after_commit p ?pr s) ?ov"
      using d(3) by (simp add: pages_coherent_def after_commit_def om_get_def)
    ultimately show ?thesis using h by (simp add: holds_def)
  qed
  ultimately show ?thesis using d(5) [of ?pr] by (intro exI [of _ ?pr] exI [of _ img] exI [of _ ?ov]) simp
qed

lemma does_finish_transaction:
  assumes last: "o_last s = Some p" and inv: "tree_inv s t own frees rows"
    and hw: "o_high s \<noteq> NULL_PAGE_ID" and wal: "bs_wal st0 \<noteq> None" and sb: "superblock_ok (o_superblock s)" and room: "commit_room s"
  shows "does env st0 (finish_transaction env) s
    (\<lambda>pr s'. \<exists>img. commits_pages (crc32c env) s p (commit_of s) pr \<and> commits_meta (crc32c env) s (commit_of s) img pr \<and>
       (\<forall>q d. om_get (pr_read_pages pr) q = Some d \<longrightarrow> o_clean s q = Some d) \<and> om_wf (pr_read_pages pr) \<and>
       (\<forall>q. q \<notin> set (o_dirty s) \<longrightarrow> o_mem s q = o_clean s q) \<and> s' = after_commit p pr s) F"
proof (rule does_intro)
  fix ov r ov' assume h: "holds env st0 s ov" and run: "finish_transaction env ov = (r, ov')"
  from finish_transaction_run [OF h assms] obtain pr img where "r = Inr pr" "commits_pages (crc32c env) s p (commit_of s) pr"
    "commits_meta (crc32c env) s (commit_of s) img pr" "pr_read_pages pr = ov_read_pages ov" "holds env st0 (after_commit p pr s) ov'"
    using run by auto
  then show "\<exists>s'. holds env st0 s' ov' \<and> (case r of Inr pr \<Rightarrow> \<exists>img. commits_pages (crc32c env) s p (commit_of s) pr \<and>
       commits_meta (crc32c env) s (commit_of s) img pr \<and> (\<forall>q d. om_get (pr_read_pages pr) q = Some d \<longrightarrow> o_clean s q = Some d) \<and>
       om_wf (pr_read_pages pr) \<and> (\<forall>q. q \<notin> set (o_dirty s) \<longrightarrow> o_mem s q = o_clean s q) \<and> s' = after_commit p pr s | Inl e \<Rightarrow> F e s')"
    using holds_pages(5-7) [OF h] by auto
qed

lemma does_commit_writes:
  assumes ok: "state_ok s rows" and wal: "bs_wal st0 \<noteq> None" and room: "state_room s n"
    and rows1: "holds_rows s1 rows1" and adv: "advanced True (n * PUT_GROWTH) s s1"
  shows "does env st0 (finish_transaction env) s1
    (\<lambda>pr s'. (\<exists>img. prepared_from (crc32c env) s rows1 s1 img pr) \<and> s' = after_commit (o_next_revision s) pr s1 \<and>
       unat (o_high s1) \<le> unat (o_high s) + n * PUT_GROWTH) F"
proof (rule does_assume)
  have s: "o_dirty s = []" "o_last s = None" "superblock_ok (o_superblock s)" "o_clean s = o_mem s"
    using ok by (simp_all add: state_ok_def superblock_of_def)
  obtain t own frees where inv: "tree_inv s1 t own frees rows1" using rows1 by (auto simp: holds_rows_def)
  have s1: "o_last s1 = Some (o_next_revision s)" "o_clean s1 = o_clean s" "o_next_lsn s1 = o_next_lsn s" "o_next_batch s1 = o_next_batch s"
    "o_superblock s1 = o_superblock s" "o_slot s1 = o_slot s" "o_high s \<le> o_high s1"
    "unat (o_high s1) \<le> unat (o_high s) + n * PUT_GROWTH" "o_dirty s1 \<noteq> []"
    using adv s(2) by (simp_all add: advanced_def touched_def Dodb_Values.grows_def stamp_of_def)
  have high: "unat (o_high s1) < 2 ^ 31" using s1(8) room by (simp add: state_room_def)
  then have hw: "o_high s1 \<noteq> NULL_PAGE_ID" by (auto simp: NULL_PAGE_ID_def unsigned_minus_1_eq_mask mask_eq_exp_minus_1)
  fix ov assume h: "holds env st0 s1 ov"
  have dirty: "length (o_dirty s1) + 1 < 2 ^ 32" using length_dirty [OF inv holds_pages(2) [OF h]] high by simp
  have room1: "commit_room s1" using room dirty s1 by (simp add: commit_room_def state_room_def)
  have sb: "superblock_ok (o_superblock s1)" using s(3) s1(5) by simp
  show "does env st0 (finish_transaction env) s1
    (\<lambda>pr s'. (\<exists>img. prepared_from (crc32c env) s rows1 s1 img pr) \<and> s' = after_commit (o_next_revision s) pr s1 \<and>
       unat (o_high s1) \<le> unat (o_high s) + n * PUT_GROWTH) F"
    by (rule does_weaken [OF does_finish_transaction [OF s1(1) inv hw wal sb room1]])
      (use inv s1 s(4) dirty room1 in \<open>auto simp: prepared_from_def\<close>)
qed

lemma does_write_transaction:
  assumes ok: "state_ok s rows" and wal: "bs_wal st0 \<noteq> None" and ms: "list_all (mutation_within (bs_config st0)) ms" "ms \<noteq> []"
    and room: "state_room s (length ms)"
  shows "does env st0 (sbind (apply_tree_mutations env ms) (\<lambda>_. finish_transaction env)) s
    (\<lambda>pr s'. \<exists>s1 img. prepared_from (crc32c env) s (mutate_rows (o_next_revision s) ms rows) s1 img pr \<and>
       s' = after_commit (o_next_revision s) pr s1 \<and> unat (o_high s1) \<le> unat (o_high s) + length ms * PUT_GROWTH)
    (\<lambda>e _. e = InvalidInput \<and> \<not> (list_all mutation_light ms \<and> light rows))"
proof -
  have s: "holds_rows s rows" "stamp_of s = o_next_revision s" using ok by (simp_all add: state_ok_def stamp_of_def)
  show ?thesis
  proof (rule does_bind, rule does_weaken [OF does_apply_mutations [OF s(1)]], assumption, goal_cases)
    case (1 e s')
    then show ?case using ms(1) room by (auto simp: mutations_ok_def state_room_def)
  next
    case (2 u s1)
    then show ?case using ms(2) s(2) by (intro does_weaken [OF does_commit_writes [OF ok wal room]]) auto
  qed
qed

lemma does_prepare_transaction:
  assumes ok: "state_ok s rows" and wal: "bs_wal st0 \<noteq> None" and room: "state_room s (length (req_mutations request))"
  shows "does env st0 (prepare_transaction env request) s
    (\<lambda>r s'. transacted (crc32c env) s rows request r s' \<and> transaction_within (bs_config st0) request)
    (\<lambda>e s'. s' = s \<and> (refused rows request e \<or> e = InvalidInput \<and> \<not> transaction_within (bs_config st0) request) \<or>
       stranded (bs_config st0) rows request e)" (is "does _ _ _ _ ?Q ?F")
  unfolding prepare_transaction_def
proof (rule does_res_bind, goal_cases)
  case (2 e)
  then show ?case by (simp add: refused_def)
next
  case (1 u)
  let ?ms = "req_mutations request" and ?cs = "list_all (\<lambda>c. length (encode (condition_key c)) \<le> MAX_ENCODED_KEY_SIZE) (req_conditions request)"
  have rows: "holds_rows s rows" using ok by (simp add: state_ok_def)
  show ?case
  proof (rule does_get [where r = "rmap (validate_transaction_mutation (dc_limits (bs_config st0))) ?ms"], goal_cases)
    case (1 ov)
    then show ?case using holds_store(1) [OF 1] by simp
  next
    case (3 e)
    then show ?case by (auto simp: validate_mutations transaction_within_def split: if_splits)
  next
    case (2 x)
    then have ms: "list_all (mutation_within (bs_config st0)) ?ms" by (simp add: validate_mutations split: if_splits)
    show ?case
    proof (rule does_bind, rule does_weaken [OF does_check_conditions [OF rows]], assumption, goal_cases)
      case (1 e s')
      then show ?case using \<open>validate request = Inr u\<close> by (auto simp: refused_def transaction_within_def)
    next
      case (2 v s')
      then have c: "s' = s" "check_rows rows (req_conditions request) = Inr ()" "transaction_within (bs_config st0) request"
        using ms by (simp_all add: transaction_within_def)
      show ?case
        unfolding c(1)
      proof (rule does_bind [where R = "\<lambda>_ s'. s' = s"], rule does_metrics, goal_cases)
        case (3 w s')
        show ?case
        proof (cases "?ms = []")
          case True
          then show ?thesis using 3 c \<open>validate request = Inr u\<close> by (auto intro!: does_ret simp: transacted_def)
        next
          case False
          have "does env st0 (sbind (sbind (apply_tree_mutations env ?ms) (\<lambda>_. finish_transaction env)) (\<lambda>prepared. sret (Some prepared))) s ?Q ?F"
            by (rule does_bind, rule does_weaken [OF does_write_transaction [OF ok wal ms False room]], assumption)
              (use False c(2,3) \<open>validate request = Inr u\<close> in \<open>auto intro!: does_ret simp: transacted_def stranded_def\<close>)
          then show ?thesis using False 3 by (simp add: sbind_assoc)
        qed
      qed (auto simp: add_validation_time_def)
    qed
  qed
qed

end

section \<open>Serial execution\<close>

text \<open>The reference database executes the requests in order, each at an LSN of its own. It has no limits
  itself; a request over those of \<open>config\<close> is refused or conflicts, and changes nothing.\<close>

inductive serial :: "database_config \<Rightarrow> reference_db \<Rightarrow> transaction_request list \<Rightarrow> (error + transaction_result) list \<Rightarrow> reference_db \<Rightarrow> bool"
  for config :: database_config where
  serial_Nil: "serial config db [] [] db"
| serial_refuse: "next_lsn db \<le> c \<Longrightarrow> transact_at db request c = (Inl e, db) \<Longrightarrow> serial config db requests results db' \<Longrightarrow>
    serial config db (request # requests) (Inl e # results) db'"
| serial_limit: "\<not> transaction_within config request \<Longrightarrow> serial config db requests results db' \<Longrightarrow>
    serial config db (request # requests) (Inl InvalidInput # results) db'"
| serial_read: "next_lsn db \<le> c \<Longrightarrow> transaction_within config request \<Longrightarrow> req_mutations request = [] \<Longrightarrow>
    fst (transact_at db request c) = Inr c \<Longrightarrow> serial config db requests results db' \<Longrightarrow>
    serial config db (request # requests) (Inr \<lparr>commit_lsn = None\<rparr> # results) db'"
| serial_commit: "next_lsn db \<le> c \<Longrightarrow> transaction_within config request \<Longrightarrow> req_mutations request \<noteq> [] \<Longrightarrow>
    transact_at db request c = (Inr c, db1) \<Longrightarrow> serial config db1 requests results db' \<Longrightarrow>
    serial config db (request # requests) (Inr \<lparr>commit_lsn = Some c\<rparr> # results) db'"

lemma check_rows_encoded: "check_rows (encoded (states db)) cs = check_conditions db cs"
  by (induction cs) (auto simp: Let_def)

lemma mutate_rows_encoded: "mutate_rows c ms (encoded m) = encoded (apply_mutations c ms m)"
proof (induction ms arbitrary: m)
  case (Cons x ms)
  then show ?case by (cases x) (simp_all add: apply_mutations_def om_insert_encoded)
qed (simp add: apply_mutations_def)

definition tracks :: "ostate \<Rightarrow> reference_db \<Rightarrow> bool" where
  "tracks s db \<longleftrightarrow> state_ok s (encoded (states db)) \<and> ref_inv db \<and> next_lsn db \<le> o_next_revision s"

lemma refused_reference:
  assumes t: "tracks s db" and r: "refused (encoded (states db)) request e"
  shows "transact_at db request (o_next_revision s) = (Inl e, db)" "recoverable e"
proof -
  have "o_next_revision s \<noteq> 0" using t by (auto simp: tracks_def state_ok_def)
  then show "transact_at db request (o_next_revision s) = (Inl e, db)"
    using r by (auto simp: refused_def transact_at_def check_rows_encoded)
  show "recoverable e"
    using r validate_error [of request e] check_conditions_error [of db "req_conditions request" e]
    by (auto simp: refused_def recoverable_def check_rows_encoded)
qed

text \<open>Committing mutations on the engine and on the reference database.\<close>

definition mutated :: "reference_db \<Rightarrow> lsn \<Rightarrow> transaction_mutation list \<Rightarrow> reference_db" where
  "mutated db c ms = db\<lparr>states := apply_mutations c ms (states db), next_lsn := max (next_lsn db) (c + 1)\<rparr>"

lemma apply_mutations_origin:
  "om_wf m \<Longrightarrow> om_get (apply_mutations c ms m) k = Some st \<Longrightarrow> rs_revision st = c \<or> om_get m k = Some st"
proof (induction ms arbitrary: m)
  case (Cons x ms)
  then have "rs_revision st = c \<or> om_get (om_insert (mutation_key x) (snd (mutation_state c x)) m) k = Some st"
    by (cases x) (auto simp: apply_mutations_def bt.wf_insert)
  then show ?case using Cons.prems(1) by (cases x) (auto simp: bt.get_insert split: if_splits)
qed (simp add: apply_mutations_def)

lemma ref_inv_mutated:
  assumes inv: "ref_inv db" and c: "c \<noteq> 0" "unat c + 1 < 2 ^ 64"
  shows "ref_inv (mutated db c ms)"
proof -
  have "unat (c + 1) = unat c + 1" using c(2) unat_add_lem [of c 1] by simp
  then have "c < c + 1" by (simp add: word_less_nat_alt)
  then have n: "c < next_lsn (mutated db c ms)" "next_lsn db \<le> next_lsn (mutated db c ms)" by (auto simp: mutated_def max_def not_le intro: less_le_trans)
  have "0 < rs_revision st \<and> rs_revision st < next_lsn (mutated db c ms)" if "om_get (apply_mutations c ms (states db)) k = Some st" for k st
  proof -
    have "om_wf (states db)" using inv by (simp add: ref_inv_def)
    from apply_mutations_origin [OF this that] show ?thesis
      using inv n c(1) by (auto simp: ref_inv_def word_neq_0_conv intro: less_le_trans)
  qed
  then show ?thesis
    using inv less_le_trans [OF _ n(2), of 0] by (auto simp: ref_inv_def mutated_def om_wf_apply_mutations)
qed

lemma commit_tracks:
  assumes t: "tracks s db" and pr: "prepared_from crc s (mutate_rows (o_next_revision s) ms (encoded (states db))) s1 img pr"
  shows "commit_of s1 \<noteq> 0" "unat (commit_of s1) + 1 < 2 ^ 64" "next_lsn db \<le> commit_of s1"
    "restamp_rows (o_next_revision s) (commit_of s1) (mutate_rows (o_next_revision s) ms (encoded (states db))) =
       encoded (states (mutated db (commit_of s1) ms))"
    "tracks (after_commit (o_next_revision s) pr s1) (mutated db (commit_of s1) ms)"
proof -
  let ?p = "o_next_revision s" and ?c = "commit_of s1"
  have s: "state_ok s (encoded (states db))" "ref_inv db" "next_lsn db \<le> ?p" "0 < ?p" "?p \<le> o_next_lsn s1" "rows_before ?p (encoded (states db))"
    using t prepared_fromD(11) [OF pr] by (simp_all add: tracks_def state_ok_def)
  note c = commit_above [OF prepared_fromD(13) [OF pr] s(5)]
  show le: "next_lsn db \<le> ?c" using s(3) c(1) by simp
  show c0: "?c \<noteq> 0" using s(4) c(1) by auto
  show "unat ?c + 1 < 2 ^ 64" by (rule c(3))
  have "restamp_rows ?p ?c (encoded (states db)) = encoded (states db)"
    by (rule restamp_rows_fresh) (use s(6) in \<open>auto simp: rows_before_def\<close>)
  then show rows: "restamp_rows ?p ?c (mutate_rows ?p ms (encoded (states db))) = encoded (states (mutated db ?c ms))"
    unfolding mutate_rows_restamp by (simp add: mutate_rows_encoded mutated_def)
  have "next_lsn (mutated db ?c ms) \<le> ?c + 1" using le c(2) by (simp add: mutated_def)
  then show "tracks (after_commit ?p pr s1) (mutated db ?c ms)"
    using after_commit_ok [OF s(1) pr] mutate_rows_origin [of _ ?p ms "encoded (states db)"]
      ref_inv_mutated [OF s(2) c0 c(3)] rows by (simp add: tracks_def)
qed

lemma transact_at_mutated:
  assumes "validate request = Inr ()" "check_rows (encoded (states db)) (req_conditions request) = Inr ()" "c \<noteq> 0" "unat c + 1 < 2 ^ 64"
  shows "transact_at db request c = (Inr c, mutated db c (req_mutations request))"
  unfolding transact_at_Inr mutated_def using assms check_rows_encoded by simp

section \<open>Staging a group\<close>

definition mutation_count :: "transaction_request list \<Rightarrow> nat" where
  "mutation_count requests = sum_list (map (length \<circ> req_mutations) requests)"

text \<open>The state has room for the requests.\<close>

definition group_fits :: "ostate \<Rightarrow> transaction_request list \<Rightarrow> bool" where
  "group_fits s requests \<longleftrightarrow> unat (o_high s) + mutation_count requests * PUT_GROWTH < 2 ^ 31 \<and>
     unat (o_next_lsn s) + length requests * 2 ^ 32 < 2 ^ 64 \<and>
     unat (sb_generation (o_superblock s)) + length requests < 2 ^ 64 \<and> unat (o_next_batch s) + length requests < 2 ^ 64"

lemma group_fits_Cons:
  assumes "group_fits s (request # requests)"
  shows "state_room s (length (req_mutations request))" "group_fits s requests"
  using assms by (auto simp: group_fits_def state_room_def mutation_count_def add_mult_distrib)

lemma group_fits_commit:
  assumes fits: "group_fits s (request # requests)" and pr: "prepared_from crc s rows s1 img pr"
    and high: "unat (o_high s1) \<le> unat (o_high s) + length (req_mutations request) * PUT_GROWTH"
  shows "group_fits (after_commit (o_next_revision s) pr s1) requests"
proof -
  note p = prepared_fromD [OF pr]
  have "unat (commit_of s1 + 1) \<le> unat (o_next_lsn s) + 2 ^ 32"
    using unat_commit_of [OF p(13)] p(8,11,13) by (simp add: unat_word_ariths commit_room_def)
  moreover have "unat (sb_generation (pr_new_superblock pr)) = unat (sb_generation (o_superblock s)) + 1"
    using p(2,12,13) by (auto simp: commits_meta_def commit_room_def unat_word_ariths)
  moreover have "unat (o_next_batch s1 + 1) = unat (o_next_batch s) + 1" using p(9,13) by (simp add: commit_room_def unat_word_ariths)
  ultimately show ?thesis
    using fits high by (simp add: group_fits_def mutation_count_def add_mult_distrib)
qed

text \<open>Only light keys are stored and written.\<close>

definition all_light :: "reference_db \<Rightarrow> transaction_request list \<Rightarrow> bool" where
  "all_light db requests \<longleftrightarrow> light (encoded (states db)) \<and> list_all (\<lambda>request. list_all mutation_light (req_mutations request)) requests"

lemma all_light_commit:
  assumes "all_light db (request # requests)"
    and rows: "restamp_rows p c (mutate_rows p (req_mutations request) (encoded (states db))) = encoded (states db1)"
  shows "all_light db1 requests"
proof -
  have "light (mutate_rows p (req_mutations request) (encoded (states db)))"
    using mutate_rows_light assms(1) by (simp add: all_light_def)
  then have "light (encoded (states db1))" unfolding rows [symmetric] light_def by (metis keys_restamp_rows list.set_map)
  then show ?thesis using assms(1) by (simp add: all_light_def)
qed

definition staged :: "database_config \<Rightarrow> crc_fun \<Rightarrow> ostate \<Rightarrow> reference_db \<Rightarrow> transaction_request list \<Rightarrow> prepared_batch list \<Rightarrow>
    (error + transaction_result) list \<Rightarrow> ostate \<Rightarrow> bool" where
  "staged config crc s db requests prs results s' \<longleftrightarrow> (\<exists>cs db'. prs = map fst cs \<and> length cs \<le> length requests \<and>
     chain crc s (encoded (states db)) cs s' (encoded (states db')) \<and> serial config db requests results db' \<and> tracks s' db')"

definition step_result :: "database_config \<Rightarrow> crc_fun \<Rightarrow> ostate \<Rightarrow> reference_db \<Rightarrow> transaction_request \<Rightarrow> prepared_batch option \<Rightarrow> (error + transaction_result) \<Rightarrow>
    ostate \<Rightarrow> bool" where
  "step_result config crc s db request candidate result s' \<longleftrightarrow>
     (\<exists>e. candidate = None \<and> result = Inl e \<and> s' = s \<and>
       (refused (encoded (states db)) request e \<or> e = InvalidInput \<and> \<not> transaction_within config request)) \<or>
     transaction_within config request \<and> transacted crc s (encoded (states db)) request candidate s' \<and> result = Inr \<lparr>commit_lsn = Option.bind candidate pr_commit_lsn\<rparr>"

text \<open>One request extends the staging of the ones after it.\<close>

lemma staged_Cons:
  assumes t: "tracks s db" and fits: "group_fits s (request # requests)" and res: "step_result config crc s db request candidate result s1"
  shows "\<exists>db1. tracks s1 db1 \<and> group_fits s1 requests \<and> (all_light db (request # requests) \<longrightarrow> all_light db1 requests) \<and> (\<forall>prs results s'. staged config crc s1 db1 requests prs results s' \<longrightarrow>
    staged config crc s db (request # requests) (case candidate of None \<Rightarrow> prs | Some c \<Rightarrow> c # prs) (result # results) s')"
proof -
  let ?p = "o_next_revision s"
  have p: "next_lsn db \<le> ?p" "?p \<noteq> 0" "unat ?p + 1 < 2 ^ 64"
    using t fits by (auto simp: tracks_def state_ok_def group_fits_def word_le_nat_alt)
  consider (refuse) e where "candidate = None" "result = Inl e" "s1 = s" "refused (encoded (states db)) request e"
    | (limit) "candidate = None" "result = Inl InvalidInput" "s1 = s" "\<not> transaction_within config request"
    | (looked) "transaction_within config request" "candidate = None" "result = Inr \<lparr>commit_lsn = None\<rparr>" "s1 = s" "req_mutations request = []" "validate request = Inr ()"
        "check_rows (encoded (states db)) (req_conditions request) = Inr ()"
    | (commit) pr s2 img where "transaction_within config request" "candidate = Some pr" "result = Inr \<lparr>commit_lsn = Some (commit_of s2)\<rparr>" "req_mutations request \<noteq> []"
        "validate request = Inr ()" "check_rows (encoded (states db)) (req_conditions request) = Inr ()"
        "prepared_from crc s (mutate_rows ?p (req_mutations request) (encoded (states db))) s2 img pr" "s1 = after_commit ?p pr s2"
        "unat (o_high s2) \<le> unat (o_high s) + length (req_mutations request) * PUT_GROWTH"
    using res prepared_fromD(2) unfolding step_result_def transacted_def commits_meta_def by (auto split: if_splits)
  then show ?thesis
  proof cases
    case refuse
    then show ?thesis
      using t group_fits_Cons(2) [OF fits] serial_refuse [OF p(1) refused_reference(1) [OF t refuse(4)]]
      by (intro exI [of _ db]) (force simp: staged_def all_light_def)
  next
    case limit
    then show ?thesis
      using t group_fits_Cons(2) [OF fits] serial_limit [OF limit(4)] by (intro exI [of _ db]) (force simp: staged_def all_light_def)
  next
    case looked
    then have "fst (transact_at db request ?p) = Inr ?p"
      using p by (simp add: transact_at_def check_rows_encoded Let_def checked_add_u64_def)
    then show ?thesis
      using t looked group_fits_Cons(2) [OF fits] serial_read [OF p(1) looked(1,5)]
      by (intro exI [of _ db]) (force simp: staged_def all_light_def)
  next
    case commit
    let ?db1 = "mutated db (commit_of s2) (req_mutations request)"
    note c = commit_tracks [OF t commit(7)]
    note run = transact_at_mutated [OF commit(5,6) c(1,2)]
    note ch = chain_Cons [OF commit(7), where ?rows0.0 = "encoded (states db)", unfolded c(4)]
    have "staged config crc s db (request # requests) (pr # prs) (result # results) s'" if stg: "staged config crc s1 ?db1 requests prs results s'" for prs results s'
    proof -
      obtain cs db' where cs: "prs = map fst cs" "length cs \<le> length requests" "chain crc s1 (encoded (states ?db1)) cs s' (encoded (states db'))"
        "serial config ?db1 requests results db'" "tracks s' db'" using stg by (auto simp: staged_def)
      have "chain crc s (encoded (states db)) ((pr, img, commit_of s2) # cs) s' (encoded (states db'))"
        using ch cs(3) mutate_rows_origin commit(8) by blast
      moreover have "serial config db (request # requests) (result # results) db'"
        using serial_commit [OF c(3) commit(1,4) run cs(4)] commit(3) by simp
      ultimately show ?thesis
        using cs unfolding staged_def by (intro exI [of _ "(pr, img, commit_of s2) # cs"] exI [of _ db']) simp
    qed
    then show ?thesis
      using c(5) commit group_fits_commit [OF fits commit(7,9)] all_light_commit [OF _ c(4)] by (intro exI [of _ ?db1]) auto
  qed
qed

text \<open>A request within the limits was answered with an invalid input.\<close>

definition refused_within :: "database_config \<Rightarrow> transaction_request list \<Rightarrow> (error + transaction_result) list \<Rightarrow> bool" where
  "refused_within config requests results \<longleftrightarrow>
     list_ex (\<lambda>(request, result). transaction_within config request \<and> result = Inl InvalidInput) (zip requests results)"

context reliable_file
begin

lemma does_stage_transaction:
  assumes t: "tracks s db" and wal: "bs_wal st0 \<noteq> None" and room: "state_room s (length (req_mutations request))"
  shows "does env st0 (stage_transaction env request) s
    (\<lambda>r s'. step_result (bs_config st0) (crc32c env) s db request (fst r) (snd r) s' \<or>
       (\<exists>e. r = (None, Inl e) \<and> stranded (bs_config st0) (encoded (states db)) request e)) (\<lambda>_ _. False)" (is "does _ _ _ _ ?Q _")
proof (rule does_intro)
  fix ov r ov' assume h: "holds env st0 s ov" and run: "stage_transaction env request ov = (r, ov')"
  let ?in = "transaction_within (bs_config st0) request"
  have st: "state_ok s (encoded (states db))" using t by (simp add: tracks_def)
  obtain r1 ov1 where prep: "prepare_transaction env request ov = (r1, ov1)" by (metis surj_pair)
  from does_run [OF does_prepare_transaction [OF st wal room] h prep] obtain s1 where h1: "holds env st0 s1 ov1"
    and post: "case r1 of Inr x \<Rightarrow> transacted (crc32c env) s (encoded (states db)) request x s1 \<and> ?in
      | Inl e \<Rightarrow> s1 = s \<and> (refused (encoded (states db)) request e \<or> e = InvalidInput \<and> \<not> ?in) \<or>
          stranded (bs_config st0) (encoded (states db)) request e" .
  have "holds env st0 s1 ov' \<and> (case r of Inr x \<Rightarrow> ?Q x s1 | Inl e \<Rightarrow> False)"
  proof (cases r1)
    case (Inl e)
    moreover from this have "recoverable e" using post refused_reference(2) [OF t, of request e] by (auto simp: stranded_def recoverable_def)
    ultimately show ?thesis using post run prep h1 by (auto simp: stage_transaction_def step_result_def)
  next
    case (Inr x)
    then have tr: "transacted (crc32c env) s (encoded (states db)) request x s1" ?in using post by simp_all
    show ?thesis
    proof (cases x)
      case None
      then show ?thesis using run prep h1 tr Inr by (auto simp: stage_transaction_def step_result_def)
    next
      case (Some pr)
      then have "pr_commit_lsn pr \<noteq> None" using tr(1) by (auto simp: transacted_def prepared_from_def commits_meta_def split: if_splits)
      then show ?thesis using run prep h1 tr Inr Some by (auto simp: stage_transaction_def step_result_def)
    qed
  qed
  then show "\<exists>s'. holds env st0 s' ov' \<and> (case r of Inr x \<Rightarrow> ?Q x s' | Inl e \<Rightarrow> False)" by blast
qed

lemma stage_group_run:
  assumes "tracks s db" and wal: "bs_wal st0 \<noteq> None" and "group_fits s requests" and "holds env st0 s ov"
    and "stage_group env requests ov = (r, ov')"
  shows "(\<exists>prs results s'. r = Inr (prs, results) \<and> holds env st0 s' ov' \<and> staged (bs_config st0) (crc32c env) s db requests prs results s') \<or>
    \<not> all_light db requests \<and> (\<forall>prs results. r = Inr (prs, results) \<longrightarrow> refused_within (bs_config st0) requests results)"
  using assms(1,3-)
proof (induction requests arbitrary: s db ov r)
  case Nil
  have "staged (bs_config st0) (crc32c env) s db [] [] [] s"
    unfolding staged_def using Nil.prems(1) by (intro exI [of _ "[]"] exI [of _ db]) (auto intro: chain_Nil serial_Nil)
  then show ?case using Nil.prems(3,4) by auto
next
  case (Cons request requests)
  note g = group_fits_Cons [OF Cons.prems(2)]
  obtain r1 ov1 where head: "stage_transaction env request ov = (r1, ov1)" by (metis surj_pair)
  from does_run [OF does_stage_transaction [OF Cons.prems(1) wal g(1)] Cons.prems(3) head] obtain s1 where h1: "holds env st0 s1 ov1"
    and post: "case r1 of
       Inr x \<Rightarrow> step_result (bs_config st0) (crc32c env) s db request (fst x) (snd x) s1 \<or>
         (\<exists>e. x = (None, Inl e) \<and> stranded (bs_config st0) (encoded (states db)) request e)
     | Inl e \<Rightarrow> False" .
  then obtain candidate result where r1: "r1 = Inr (candidate, result)"
    and step: "step_result (bs_config st0) (crc32c env) s db request candidate result s1 \<or>
       (\<exists>e. result = Inl e \<and> stranded (bs_config st0) (encoded (states db)) request e)"
    by (auto split: sum.splits)
  obtain ov2 where time: "add_preparation_time env ov1 = (Inr (), ov2)" "holds env st0 s1 ov2"
    using holds_metrics [OF h1] by (auto simp: add_preparation_time_def on_store_def smod_def)
  obtain r2 ov3 where tail: "stage_group env requests ov2 = (r2, ov3)" by (metis surj_pair)
  have run: "ov' = ov3" "r = rbind r2 (\<lambda>(prs, results). Inr (case candidate of None \<Rightarrow> prs | Some c \<Rightarrow> c # prs, result # results))"
    using Cons.prems(4) head r1 time(1) tail by (cases r2; auto simp: sbind_def sret_def split: prod.splits)+
  from step show ?case
  proof (elim disjE conjE exE)
    fix e assume "stranded (bs_config st0) (encoded (states db)) request e" and "result = Inl e"
    then show ?case using run(2) by (auto simp: refused_within_def stranded_def all_light_def rbind_Inr_iff)
  next
    assume "step_result (bs_config st0) (crc32c env) s db request candidate result s1"
    from staged_Cons [OF Cons.prems(1,2) this] obtain db1 where db1: "tracks s1 db1" "group_fits s1 requests"
      "all_light db (request # requests) \<Longrightarrow> all_light db1 requests"
      "\<And>prs results s'. staged (bs_config st0) (crc32c env) s1 db1 requests prs results s' \<Longrightarrow>
        staged (bs_config st0) (crc32c env) s db (request # requests) (case candidate of None \<Rightarrow> prs | Some c \<Rightarrow> c # prs) (result # results) s'" by blast
    from Cons.IH [OF db1(1,2) time(2) tail [folded run(1)]] db1(3,4) run(2) show ?case by (fastforce simp: refused_within_def rbind_Inr_iff)
  qed
qed

end

section \<open>Groups on the engine\<close>

lemma models_tracks: "models env st db \<longleftrightarrow> store_inv env st (encoded (states db)) \<and> tracks (state_of env st) db"
  by (auto simp: models_def tracks_def store_inv_def store_ok_def)

definition room_for_group :: "(crashable_file, crashable_file, 'i) env \<Rightarrow> (crashable_file, crashable_file, 'i) btree_store \<Rightarrow>
    transaction_request list \<Rightarrow> bool" where
  "room_for_group env st requests \<longleftrightarrow> group_fits (state_of env st) requests \<and> (\<forall>w \<in> set_option (bs_wal st). log_room env w (length requests))"

lemma log_room_mono: "log_room env w n \<Longrightarrow> m \<le> n \<Longrightarrow> log_room env w m"
proof -
  assume "log_room env w n" "m \<le> n"
  moreover from this have "m * 2 ^ 45 \<le> n * (2 ^ 45 :: nat)" "m * 2 ^ 33 \<le> n * (2 ^ 33 :: nat)" by simp_all
  ultimately show ?thesis unfolding log_room_def by linarith
qed

lemma idle_refl: "store_inv env st rows \<Longrightarrow> cf.idle env st st"
  unfolding cf.idle_def store_inv_def store_ok_def
  by (intro exI [of _ "bs_file st"] exI [of _ "bs_cache st"] exI [of _ "bs_storage_metrics st"]) simp

lemma publish_candidates:
  assumes m: "models env st db" and room: "room_for_group env st requests" and h: "cf.holds env st s' ov"
    and run: "stage_group env requests (overlay_new st) = (Inr (map fst cs, results), ov)"
    and cs: "length cs \<le> length requests" "chain (crc32c env) (state_of env st) (encoded (states db)) cs s' (encoded (states db'))" "tracks s' db'"
  shows "\<exists>st'. apply_transaction_group env requests st = (Inr results, st') \<and> models env st' db' \<and> bs_config st' = bs_config st"
proof -
  have inv: "store_inv env st (encoded (states db))" using m by (simp add: models_def)
  note i = cf.holds_idle [OF h] and st1 = idle_inv [OF cf.holds_idle [OF h] inv]
  have stage: "with_overlay (stage_group env requests) st = (Inr (map fst cs, results), ov_store ov)"
    using run by (simp add: with_overlay_def)
  show ?thesis
  proof (cases "requests = [] \<or> cs = []")
    case True
    have rs: "results = []" if "requests = []" using run that by simp
    obtain st' where "apply_transaction_group env requests st = (Inr results, st')" "cf.idle env st st'"
      using stage True i idle_refl [OF inv] rs by (cases "requests = []") (auto simp: apply_transaction_group_def sbind_def)
    moreover have "s' = state_of env st" "encoded (states db') = encoded (states db)" using cs(1,2) True by (auto elim: chain.cases)
    then have "models env st'' db'" if "cf.idle env st st''" for st''
      using idle_inv [OF that inv] cs(3) cf.idle_state [OF that] by (simp add: models_tracks)
    ultimately show ?thesis using idle_fields(4) by blast
  next
    case False
    have "bs_wal (ov_store ov) = bs_wal st" using i by (auto simp: cf.idle_def)
    then have room: "\<forall>w \<in> set_option (bs_wal (ov_store ov)). log_room env w (length cs)"
      using room log_room_mono [OF _ cs(1)] by (auto simp: room_for_group_def)
    from publish_group [OF st1 cs(2) [folded cf.idle_state [OF i]] _ room] False obtain st'
      where st': "publish_prepared_group env (map fst cs) (ov_store ov) = (Inr (), st')" "store_inv env st' (encoded (states db'))"
        "state_of env st' = s'" "bs_config st' = bs_config (ov_store ov)" by blast
    then have "apply_transaction_group env requests st = (Inr results, st')"
      using stage False by (simp add: apply_transaction_group_def sbind_def)
    then show ?thesis using cs(3) st' idle_fields(4) [OF i] by (auto simp: models_tracks)
  qed
qed

lemma group_models:
  assumes m: "models env st db" and room: "room_for_group env st requests" and run: "apply_transaction_group env requests st = (r, st')"
  shows "(\<exists>results db'. r = Inr results \<and> serial (bs_config st) db requests results db' \<and> models env st' db' \<and> bs_config st' = bs_config st) \<or>
    \<not> all_light db requests \<and> (\<forall>results. r = Inr results \<longrightarrow> refused_within (bs_config st) requests results)"
proof -
  have t: "tracks (state_of env st) db" using m by (simp add: models_tracks)
  have st: "store_ok (cf.store_base env st) st (encoded (states db))" "data_ops env = cf_ops" "cf_healthy (bs_file st)" "bs_wal st \<noteq> None"
    using m by (auto simp: models_def store_inv_def)
  obtain r1 ov where stage: "stage_group env requests (overlay_new st) = (r1, ov)" by (metis surj_pair)
  have fits: "group_fits (state_of env st) requests" using room by (simp add: room_for_group_def)
  from cf.stage_group_run [OF t st(4) fits cf.overlay_new_holds [OF st(1-3)] stage] consider
    (good) prs results s' where "r1 = Inr (prs, results)" "cf.holds env st s' ov"
      "staged (bs_config st) (crc32c env) (state_of env st) db requests prs results s'"
  | (bad) "\<not> all_light db requests" "\<forall>prs results. r1 = Inr (prs, results) \<longrightarrow> refused_within (bs_config st) requests results" by blast
  then show ?thesis
  proof cases
    case good
    obtain cs db' where cs: "prs = map fst cs" "length cs \<le> length requests"
      "chain (crc32c env) (state_of env st) (encoded (states db)) cs s' (encoded (states db'))" "tracks s' db'"
      "serial (bs_config st) db requests results db'" using good(3) by (auto simp: staged_def)
    from publish_candidates [OF m room good(2) _ cs(2-4)] stage good(1) cs(1,5) run show ?thesis by auto
  next
    case bad
    then have "refused_within (bs_config st) requests results" if "r = Inr results" for results
      using run stage that by (auto simp: apply_transaction_group_def with_overlay_def sbind_def sret_def refused_within_def
          split: if_splits prod.splits sum.splits)
    then show ?thesis using bad(1) by blast
  qed
qed

end
