(* ===== verification/Dodb_Create.thy ===== *)
theory Dodb_Create
  imports Dodb_Transactions
begin

text \<open>
  Creating a database. On empty files, opening with a log writes both superblock slots, an empty
  root leaf and the initialization record of the log; the store then models the empty reference
  database.
\<close>

section \<open>The initial pages\<close>

lemma initial_superblock_ok: "length (dc_database_uuid config) = 16 \<Longrightarrow> superblock_ok (initial_superblock config)"
  by (simp add: superblock_ok_def superblock_wf_def initial_superblock_def superblock_new_def FIRST_DATA_PAGE_def NULL_PAGE_ID_def PAGE_SIZE_def)

lemma superblock_ok_encode:
  assumes "superblock_ok sb"
  shows "\<exists>img. encode_superblock crc sb = Inr img \<and> length img = PAGE_SIZE \<and> seg 0 4 img = SUPERBLOCK_MAGIC \<and>
    decode_superblock crc img = Inr (sb\<lparr>sb_checksum := superblock_checksum crc img\<rparr>)"
proof -
  have wf: "superblock_wf sb" "length (sb_database_uuid sb) = 16" using assms by (simp_all add: superblock_ok_def superblock_wf_def)
  obtain img where img: "encode_superblock crc sb = Inr img" using assms by (simp add: encode_superblock_iff superblock_ok_def)
  have "seg 0 4 img = SUPERBLOCK_MAGIC"
    using superblock_sealed(2) [OF wf(2) img, of 4 0] superblock_fields_segs(2) [OF wf(2)] by simp
  then show ?thesis using superblock_sealed(1) [OF wf(2) img] decode_encoded_superblock [OF wf(1) img] img by simp
qed

lemma magic_not_page: "seg 0 4 bs = SUPERBLOCK_MAGIC \<Longrightarrow> page_of crc bs q = None"
  by (cases "decode_page_at crc bs (Some q)") (auto simp: page_of_def decode_page_at_iff PAGE_MAGIC_def SUPERBLOCK_MAGIC_def)

lemma page_of_id: "page_of crc bs q = Some d \<Longrightarrow> from_le_u64 (seg 8 16 bs) = q"
proof -
  assume "page_of crc bs q = Some d"
  then obtain page where "decode_page_at crc bs (Some q) = Inr page" by (cases "decode_page_at crc bs (Some q)") (auto simp: page_of_def)
  then have "to_le_u64 q = seg 8 16 bs" by (auto simp: decode_page_at_iff)
  then show ?thesis by (metis from_to_le_u64)
qed

lemma page_of_other: "page_of crc bs p = Some d \<Longrightarrow> q \<noteq> p \<Longrightarrow> page_of crc bs q = None"
  by (cases "page_of crc bs q") (auto dest!: page_of_id)

lemma page_offset_slots:
  assumes "page_offset q + PAGE_SIZE \<le> 3 * PAGE_SIZE"
  shows "page_offset q = 0 \<or> page_offset q = PAGE_SIZE \<or> page_offset q = 2 * PAGE_SIZE"
proof -
  have "PAGE_SIZE dvd page_offset q" by (simp add: page_offset_def PAGE_SIZE_def u64_limit_def dvd_mod)
  then obtain k where "page_offset q = PAGE_SIZE * k" by (elim dvdE)
  then show ?thesis using assms by (auto simp: PAGE_SIZE_def)
qed

lemma initial_base:
  assumes sb: "length img = PAGE_SIZE" "seg 0 4 img = SUPERBLOCK_MAGIC"
    and root: "length bs = PAGE_SIZE" "page_of crc bs FIRST_DATA_PAGE = Some d"
  shows "base_page crc (img @ img @ bs) [] q = (if q = FIRST_DATA_PAGE then Some d else None)"
proof -
  have len: "length (img @ img @ bs) = 3 * PAGE_SIZE" using sb root by simp
  have first: "page_offset FIRST_DATA_PAGE = 2 * PAGE_SIZE" by (simp add: page_offset_def FIRST_DATA_PAGE_def PAGE_SIZE_def u64_limit_def)
  have segs: "seg 0 PAGE_SIZE (img @ img @ bs) = img" "seg PAGE_SIZE (PAGE_SIZE + PAGE_SIZE) (img @ img @ bs) = img"
    "seg (2 * PAGE_SIZE) (2 * PAGE_SIZE + PAGE_SIZE) (img @ img @ bs) = bs"
    using sb(1) root(1) by (simp_all add: seg_def)
  show ?thesis
    using page_offset_slots [of q] page_of_other [OF root(2), of q] magic_not_page [OF sb(2), of crc q] segs root(2) first len
    by (auto simp: base_page_def om_get_def)
qed

lemma three_pages:
  assumes "length a = PAGE_SIZE" "length b = PAGE_SIZE" "length c = PAGE_SIZE"
  shows "blit (2 * PAGE_SIZE) c (blit PAGE_SIZE b (blit 0 a (zeros (3 * PAGE_SIZE)))) = a @ b @ c"
  using assms by (simp add: blit_def zeros_def)

context reliable_file
begin

lemma initialize_run:
  assumes f: "healthy f" "view f = []" and env: "data_ops env = ops" and uuid: "length (dc_database_uuid config) = 16"
  shows "\<exists>f' img bs. initialize env config f =
      (Inr (new_store f' None (initial_superblock config) SlotA FIRST_DATA_PAGE None FIRST_DATA_PAGE 1 config None), f') \<and> healthy f' \<and>
    view f' = img @ img @ bs \<and> stable f' = view f' \<and> encode_superblock (crc32c env) (initial_superblock config) = Inr img \<and>
    length img = PAGE_SIZE \<and> seg 0 4 img = SUPERBLOCK_MAGIC \<and> length bs = PAGE_SIZE \<and>
    page_of (crc32c env) bs FIRST_DATA_PAGE = Some (LeafData 0 None [])"
proof -
  obtain img where img: "encode_superblock (crc32c env) (initial_superblock config) = Inr img" "length img = PAGE_SIZE" "seg 0 4 img = SUPERBLOCK_MAGIC"
    using superblock_ok_encode [OF initial_superblock_ok [OF uuid], of "crc32c env"] by blast
  have leaf: "pd_wf (LeafData 0 None [])" "is_ok (encode_body (LeafData 0 None []))"
    by (simp_all add: encode_leaf_ok_iff)
  then obtain bs where bs: "pd_encode (crc32c env) (LeafData 0 None []) FIRST_DATA_PAGE = Inr bs" using pd_encode_ok by blast
  have "page_of (crc32c env) bs FIRST_DATA_PAGE = Some (LeafData 0 None [])" using pd_decode_encoded [OF leaf(1) bs] by (simp add: page_of_def)
  moreover have lbs: "length bs = PAGE_SIZE" using pd_encode_header(1) [OF bs] by (auto simp: is_ok_iff decode_page_at_iff PAGE_SIZE_def)
  obtain f1 where f1: "set_len ops (3 * PAGE_SIZE) f = (Inr (), f1)" "healthy f1" "view f1 = zeros (3 * PAGE_SIZE)"
    using healthy_set_len [OF f(1), of "3 * PAGE_SIZE"] set_len_ok [of "3 * PAGE_SIZE" f] f(2)
    by (force simp: PAGE_SIZE_def u64_limit_def resize_def)
  obtain f2 where f2: "write_all_at ops SUPERBLOCK_A_OFFSET img f1 = (Inr (), f2)" "healthy f2" "view f2 = blit 0 img (view f1)"
    using write_all_at_total [OF f1(2), of SUPERBLOCK_A_OFFSET img] img(2) by (auto simp: SUPERBLOCK_A_OFFSET_def PAGE_SIZE_def u64_limit_def)
  have l2: "length (view f2) = 3 * PAGE_SIZE" using f2(3) f1(3) img(2) by (simp add: length_blit length_zeros)
  obtain f3 where f3: "write_all_at ops SUPERBLOCK_B_OFFSET img f2 = (Inr (), f3)" "healthy f3" "view f3 = blit PAGE_SIZE img (view f2)"
    using write_all_at_total [OF f2(2), of SUPERBLOCK_B_OFFSET img] img(2) l2 by (auto simp: SUPERBLOCK_B_OFFSET_def PAGE_SIZE_def u64_limit_def)
  have l3: "length (view f3) = 3 * PAGE_SIZE" using f3(3) l2 img(2) by (simp add: length_blit)
  have first: "page_offset FIRST_DATA_PAGE = 2 * PAGE_SIZE" by (simp add: page_offset_def FIRST_DATA_PAGE_def PAGE_SIZE_def u64_limit_def)
  obtain f4 where f4: "write_all_at ops (page_offset FIRST_DATA_PAGE) bs f3 = (Inr (), f4)" "healthy f4" "view f4 = blit (2 * PAGE_SIZE) bs (view f3)"
    using write_all_at_total [OF f3(2), of "page_offset FIRST_DATA_PAGE" bs] lbs l3 by (auto simp: first PAGE_SIZE_def u64_limit_def)
  obtain f5 where f5: "sync_all ops f4 = (Inr (), f5)" "healthy f5" "view f5 = view f4" "stable f5 = view f5"
    using healthy_sync_all [OF f4(2)] sync_all_ok by fastforce
  have "initialize env config f = (Inr (new_store f5 None (initial_superblock config) SlotA FIRST_DATA_PAGE None FIRST_DATA_PAGE 1 config None), f5)"
    using img(1) bs f1(1) f2(1) f3(1) f4(1) f5(1) env by (simp add: initialize_def Let_def sbind_def sres_def sget_def)
  moreover have "view f5 = img @ img @ bs" using f5(3) f4(3) f3(3) f2(3) f1(3) three_pages [OF img(2,2) lbs] by simp
  ultimately show ?thesis using f5 img lbs by blast
qed

end

lemma empty_tree:
  assumes "o_mem s FIRST_DATA_PAGE = Some (LeafData l None [])" "o_root s = FIRST_DATA_PAGE" "o_free s = None" "o_high s = FIRST_DATA_PAGE" "o_dirty s = []"
  shows "tree_inv s (Leaf FIRST_DATA_PAGE []) (\<lambda>_. []) [] []"
  using assms by (auto simp: tree_inv_def tree_at_def pages_ok_def rows_at_def balanced_def bt_entries_def leaf_fits_iff FIRST_DATA_PAGE_def)

section \<open>A new database\<close>

text \<open>Counters of a log that was just written.\<close>

definition fresh_log :: "wal_identity \<Rightarrow> crashable_file wal_log \<Rightarrow> bool" where
  "fresh_log identity w \<longleftrightarrow> wl_identity w = identity \<and> wl_committed w = [] \<and> wl_next_lsn w = 1 \<and> wl_next_batch_id w = 1 \<and>
     wl_history_start_lsn w = 0 \<and> wl_append_nanos w = 0 \<and> wl_sync_nanos w = 0 \<and> wl_sync_count w = 1 \<and> wl_page_images w = 0 \<and>
     records_scanned (wl_scan_report w) = 1 \<and> length (volatile (wl_file w)) = 104"

lemma wal_open_empty:
  assumes f: "cf_healthy f" "volatile f = []" and id: "length (wi_database_uuid identity) = 16"
  shows "\<exists>w. wal_open cf_ops crc hit identity 0 (f, i) = (Inr w, (wl_file w, i)) \<and> log_ok crc w \<and> fresh_log identity w"
proof -
  obtain w where w: "initialize_empty cf_ops crc identity 0 f = (Inr w, wl_file w)" "cf_healthy (wl_file w)"
    "wal_inv volatile durable crc w [] scan_start" "wl_identity w = identity" "wl_history_start_lsn w = 0"
    "wl_format_version w = WAL_FORMAT_VERSION" "0 < wl_next_lsn w"
    using cf.initialize_empty_total [OF f id, of 0 crc] by auto
  have "wl_next_lsn w = 1 \<and> wl_next_batch_id w = 1 \<and> wl_append_nanos w = 0 \<and> wl_sync_nanos w = 0 \<and>
     wl_sync_count w = 1 \<and> wl_page_images w = 0 \<and> records_scanned (wl_scan_report w) = 1"
    using w(1) by (auto simp: initialize_empty_def checked_add_u64_def Let_def empty_log_def sbind_def append_frame_def get_wal_def
        mod_wal_def wal_hit_def hit_fault_def on_file_def split: sum.splits prod.splits)
  moreover have "length (volatile (wl_file w)) = 104" using w(3-6) init_frame_current(3) [OF id] by (simp add: wal_inv_def)
  moreover have "wl_committed w = []" using w(3) by (simp add: wal_inv_def scan_start_def)
  moreover have "wal_open cf_ops crc hit identity 0 (f, i) = (Inr w, (wl_file w, i))"
    using w(1) f by (simp add: wal_open_def cf.healthy_len [OF f(1)])
  ultimately show ?thesis using w by (auto simp: fresh_log_def log_ok_def)
qed

lemma open_new:
  fixes env :: "(crashable_file, crashable_file, 'i) env"
  assumes f: "cf_healthy f" "volatile f = []" "cf_healthy w" "volatile w = []" and uuid: "length (dc_database_uuid config) = 16"
    and env: "data_ops env = cf_ops" "wal_ops env = cf_ops"
  shows "\<exists>st l. open_with_wal_internal env config (f, w, None) = (Inr st, (bs_file st, wl_file l, None)) \<and> bs_wal st = Some l \<and>
    fresh_log (config_identity config) l \<and> models env st ref_new \<and> bs_config st = config \<and> bs_next_revision st = 1 \<and>
    bs_high_water_page_id st = FIRST_DATA_PAGE \<and> sb_generation (bs_current_superblock st) = 1"
proof -
  obtain l where l: "wal_open cf_ops (crc32c env) (fault_hit env) (config_identity config) 0 (w, None) = (Inr l, (wl_file l, None))"
    "log_ok (crc32c env) l" "fresh_log (config_identity config) l"
    using wal_open_empty [OF f(3,4), of "config_identity config" "crc32c env" "fault_hit env" None] uuid by (auto simp: config_identity_def)
  obtain f' img bs where i: "initialize env config f =
      (Inr (new_store f' None (initial_superblock config) SlotA FIRST_DATA_PAGE None FIRST_DATA_PAGE 1 config None), f')" "cf_healthy f'"
    "volatile f' = img @ img @ bs" "length img = PAGE_SIZE" "seg 0 4 img = SUPERBLOCK_MAGIC" "length bs = PAGE_SIZE"
    "page_of (crc32c env) bs FIRST_DATA_PAGE = Some (LeafData 0 None [])"
    using cf.initialize_run [OF f(1,2) env(1) uuid] by blast
  define st :: "(crashable_file, crashable_file, 'i) btree_store" where
    "st = store_counters l ((new_store f' None (initial_superblock config) SlotA FIRST_DATA_PAGE None FIRST_DATA_PAGE 1 config None)
    \<lparr>bs_wal := Some l, bs_fault_injector := None\<rparr>)"
  have run: "open_with_wal_internal env config (f, w, None) = (Inr st, (f', wl_file l, None))"
    using l i(1) f env
    by (simp add: open_with_wal_internal_def Let_def sbind_def sget_def open_data_def open_log_def cf.healthy_len
        validate_existing_identity_before_wal_def fresh_log_def st_def)
  have s: "bs_root_page_id st = FIRST_DATA_PAGE" "bs_free_list_head st = None" "bs_high_water_page_id st = FIRST_DATA_PAGE"
    "bs_next_revision st = 1" "bs_next_lsn st = 1" "bs_next_batch_id st = 1" "bs_current_superblock st = initial_superblock config"
    "bs_file st = f'" "bs_dirty_pages st = []" "bs_cache st = cache_new (dc_cache_capacity config)" "bs_wal st = Some l" "bs_broken st = None"
    "bs_fault_injector st = None" "bs_config st = config"
    using l(3) by (simp_all add: st_def store_counters_def new_store_def fresh_log_def)
  have base: "cf.store_base env st q = (if q = FIRST_DATA_PAGE then Some (LeafData 0 None []) else None)" for q
    using initial_base [OF i(4-7)] i(3) s(8,9) by (simp add: cf.store_base_def)
  have sb: "sb_root_page_id (initial_superblock config) = Some FIRST_DATA_PAGE" "sb_free_list_head (initial_superblock config) = None"
    "sb_high_water_page_id (initial_superblock config) = Some FIRST_DATA_PAGE" "sb_generation (initial_superblock config) = 1"
    by (simp_all add: initial_superblock_def superblock_new_def)
  have "holds_rows (state_of env st) []"
    unfolding holds_rows_def using empty_tree [of "state_of env st" 0] base s by auto
  then have "state_ok (state_of env st) []"
    using s base sb initial_superblock_ok [OF uuid] by (simp add: state_ok_def rows_before_def superblock_of_def)
  moreover have "cache_coherent (cf.store_base env st) (bs_cache st)"
    using s by (simp add: cache_coherent_def cached_def cache_new_def cache_ok_def om_get_def)
  ultimately have "store_inv env st []"
    using env i(2) l(2,3) s by (simp add: store_inv_def store_ok_def fresh_log_def)
  then have "models env st ref_new" using ref_inv_new s by (simp add: models_def ref_new_def)
  then show ?thesis using run l(3) s sb by (intro exI [of _ st] exI [of _ l]) simp
qed

end
