(* ===== verification/Dodb_Oversized.thy ===== *)
theory Dodb_Oversized
  imports Dodb_Transactions
begin

text \<open>
  Records that do not fit a leaf. A value of at most 512 bytes is always stored inline, so under a
  long key the record can be larger than a page although key and value are within the limits.
  Such a put is refused; as a batch it changes nothing, but in a group of transactions the
  mutations before it stay in the overlay and are committed by the next transaction.
\<close>

section \<open>The put\<close>

definition oversized :: "database_config \<Rightarrow> document_key \<Rightarrow> bytes \<Rightarrow> bool" where
  "oversized config key v \<longleftrightarrow> length v \<le> inline_value_limit (dc_limits config) \<and> length v \<le> INLINE_VALUE_LIMIT \<and>
     MAX_ENCODED_KEY_SIZE < length (encode key) + length v"

lemma insert_oversized:
  assumes e: "e \<in> set es" "4032 < leaf_weight e"
  shows "insert_leaf_entries env p route nx es stamp = sfail InvalidInput"
proof -
  have over: "\<not> leaf_fits xs" if "e \<in> set xs" for xs
    using member_le_sum_list [of "leaf_weight e" "map leaf_weight xs"] that e(2) by (auto simp: leaf_fits_iff)
  have "\<nexists>c. leaf_split_ok es c"
  proof
    assume "\<exists>c. leaf_split_ok es c"
    then obtain c where "leaf_fits (take c es)" "leaf_fits (drop c es)" by (auto simp: leaf_split_ok_def)
    moreover have "e \<in> set (take c es) \<union> set (drop c es)" using e(1) by (metis append_take_drop_id set_append)
    ultimately show False using over by blast
  qed
  then have "choose_leaf_split es = Inl InvalidInput" by (simp add: choose_leaf_split_Inl)
  then show ?thesis using over [OF e(1)] by (auto simp: insert_leaf_entries_def sbind_def sres_def sfail_def)
qed

context reliable_file
begin

lemma does_put_oversized:
  assumes rows: "holds_rows s rows" and lim: "within_limits (bs_config st0) (PutRequest key v)" and over: "oversized (bs_config st0) key v"
  shows "does env st0 (overlay_put env key v) s (\<lambda>_ _. False) (\<lambda>e s'. e = InvalidInput \<and> s' = stamped s)" (is "does _ _ _ _ _ ?F")
proof -
  obtain t own frees where inv: "tree_inv (stamped s) t own frees rows" using rows by (auto simp: holds_rows_def)
  then have t: "tree_at (stamped s) t" and ok: "pages_ok (stamped s) (bt_pages t @ owned own (bt_entries t)) frees" by (simp_all add: tree_inv_def)
  let ?stamp = "stamp_of s" and ?key = "encode key"
  let ?e = "\<lparr>le_key = ?key, le_revision = ?stamp, le_value = Some (Inline v)\<rparr>"
  have heavy: "4032 < leaf_weight ?e" using over by (simp add: oversized_def leaf_weight_def inline_bytes_def MAX_ENCODED_KEY_SIZE_def)
  have refuse: "(case binary_search le_key ?key es of
       Inr index \<Rightarrow> sbind (insert_leaf_entries env p route nx (es[index := ?e]) ?stamp) (\<lambda>_. free_value env (le_value (es ! index)) ?stamp)
     | Inl index \<Rightarrow> insert_leaf_entries env p route nx (insert_at index ?e es) ?stamp) = sfail InvalidInput"
    if "sorted_wrt (<) (map le_key es)" for es p route nx
    using that
  proof (cases rule: binary_search_split [of le_key es ?key])
    case (found xs x ys)
    then show ?thesis using insert_oversized [of ?e "es[length xs := ?e]" env p route nx ?stamp] heavy by (simp add: sbind_def sfail_def fun_eq_iff)
  next
    case (absent xs ys)
    then show ?thesis using insert_oversized [of ?e "insert_at (length xs) ?e es" env p route nx ?stamp] heavy by (simp add: insert_at_def)
  qed
  have "does env st0 (sbind (find_leaf env ?key) (\<lambda>(leaf_id, route). sbind (overlay_leaf env leaf_id) (\<lambda>(next_leaf, entries).
     sbind (make_value env v ?stamp) (\<lambda>value_ref.
     sbind (case binary_search le_key ?key entries of
              Inr index \<Rightarrow> sbind (insert_leaf_entries env leaf_id route next_leaf (entries[index := \<lparr>le_key = ?key, le_revision = ?stamp, le_value = Some value_ref\<rparr>]) ?stamp) (\<lambda>_.
                 free_value env (le_value (entries ! index)) ?stamp)
            | Inl index \<Rightarrow> insert_leaf_entries env leaf_id route next_leaf (insert_at index \<lparr>le_key = ?key, le_revision = ?stamp, le_value = Some value_ref\<rparr> entries) ?stamp) (\<lambda>_.
     sret ?stamp))))) (stamped s) (\<lambda>_ _. False) ?F"
  proof (rule does_find_leaf [OF t ok], unfold prod.case, goal_cases)
    case hs: (1 p es hs)
    obtain l where m: "o_mem (stamped s) p = Some (LeafData l (chain_head (right_leaves hs) None) es)"
      using focus_leaf(4) [OF t hs(1,2) ok] by blast
    have range: "FIRST_DATA_PAGE \<le> p" "p \<le> o_high (stamped s)" using pages_ok_range [OF ok, of p] hs(1) by (auto simp: set_pages_plug)
    have sorted: "sorted_wrt (<) (map le_key es)" using focus_leaf(2) [OF t hs(1,2) ok] by (simp add: leaf_entries_ok_def)
    have inline: "does env st0 (make_value env v ?stamp) (stamped s) (\<lambda>r s'. r = Inline v \<and> s' = stamped s) ?F"
      unfolding make_value_def
      by (rule does_known [where x = "inline_value_limit (dc_limits (bs_config st0))"])
        (use over in \<open>auto simp: oversized_def holds_store(1) intro!: does_ret\<close>)
    show ?case
    proof (rule does_leaf [OF m range], unfold prod.case, rule does_bind [OF inline], goal_cases)
      case (1 r s')
      then show ?case using refuse [OF sorted] by (auto simp: sbind_def sfail_def intro!: does_intro exI [of _ "stamped s"])
    qed
  qed
  then show ?thesis
    unfolding overlay_put_def Let_def
    by (intro does_get [where r = "Inr ()"] does_res_bind does_allocate_revision)
      (use lim in \<open>auto simp: holds_store(1) validate_value_def validate_encoded_key_def ensure_def\<close>)
qed

lemma does_execute_oversized:
  assumes "holds_rows s rows" and "within_limits (bs_config st0) (PutRequest key v)" and "oversized (bs_config st0) key v"
  shows "does env st0 (execute_all env [PutRequest key v] b) s (\<lambda>_ _. False) (\<lambda>e _. e = InvalidInput)"
  unfolding execute_all.simps execute_with_budget.simps sbind_assoc
  by (rule does_bind [OF does_weaken [OF does_put_oversized [OF assms]]]) auto

section \<open>Transactions\<close>

lemma apply_tree_mutations_append:
  "apply_tree_mutations env (ms @ ms') = sbind (apply_tree_mutations env ms) (\<lambda>_. apply_tree_mutations env ms')"
proof (induction ms)
  case (Cons m ms)
  then show ?case by (cases m) (simp_all add: sbind_assoc)
qed (simp add: sbind_def)

lemma does_prepare_unconditional:
  assumes v: "validate request = Inr ()" "req_conditions request = []" "req_mutations request \<noteq> []"
      "list_all (mutation_within (bs_config st0)) (req_mutations request)"
    and k: "does env st0 (sbind (apply_tree_mutations env (req_mutations request)) (\<lambda>_. sbind (finish_transaction env) (\<lambda>prepared. sret (Some prepared)))) s Q F"
  shows "does env st0 (prepare_transaction env request) s Q F"
  unfolding prepare_transaction_def v(1,2)
proof (rule does_res_bind, rule does_known [where x = "map (\<lambda>_. ()) (req_mutations request)"], goal_cases)
  case (1 x ov)
  then show ?case using v(4) by (simp add: holds_store(1) validate_mutations)
next
  case (2 x)
  show ?case
    by (rule does_bind [where R = "\<lambda>_ s'. s' = s"], force intro: does_ret, rule does_bind [where R = "\<lambda>_ s'. s' = s"], rule does_metrics)
      (use k v(3) in \<open>auto simp: add_validation_time_def\<close>)
qed simp

text \<open>A transaction whose last put is oversized fails with the rows of its other mutations in the overlay.\<close>

lemma does_prepare_oversized:
  assumes ok: "state_ok s rows" and v: "validate request = Inr ()" "req_conditions request = []" "req_mutations request = ms @ [MPut key v]"
      "list_all (mutation_within (bs_config st0)) (req_mutations request)"
    and light: "list_all mutation_light ms" "light rows" and over: "oversized (bs_config st0) key v" and room: "state_room s (length ms)"
  shows "does env st0 (prepare_transaction env request) s (\<lambda>_ _. False)
    (\<lambda>e s'. e = InvalidInput \<and> (\<exists>s1. s' = stamped s1 \<and> holds_rows s1 (mutate_rows (o_next_revision s) ms rows) \<and>
       advanced (ms \<noteq> []) (length ms * PUT_GROWTH) s s1))" (is "does _ _ _ _ ?Q ?F")
proof -
  have s: "holds_rows s rows" "stamp_of s = o_next_revision s" using ok by (simp_all add: state_ok_def stamp_of_def)
  have "mutation_within (bs_config st0) (MPut key v)" using v(3,4) by simp
  then have lim: "within_limits (bs_config st0) (PutRequest key v)" by simp
  have rest: "does env st0 (sbind (apply_tree_mutations env [MPut key v]) (\<lambda>_. sbind (finish_transaction env) (\<lambda>prepared. sret (Some prepared)))) s1 ?Q ?F"
    if "holds_rows s1 (mutate_rows (o_next_revision s) ms rows)" "advanced (ms \<noteq> []) (length ms * PUT_GROWTH) s s1" for s1
    unfolding apply_tree_mutations.simps sbind_assoc
    by (rule does_bind [OF does_weaken [OF does_put_oversized [OF that(1) lim over]]]) (use that in auto)
  show ?thesis
  proof (rule does_prepare_unconditional [OF v(1,2) _ v(4)])
    show "does env st0 (sbind (apply_tree_mutations env (req_mutations request)) (\<lambda>_. sbind (finish_transaction env) (\<lambda>prepared. sret (Some prepared)))) s ?Q ?F"
      unfolding v(3) apply_tree_mutations_append sbind_assoc
    proof (rule does_bind, rule does_weaken [OF does_apply_mutations [OF s(1)]], assumption, goal_cases)
      case (1 e s')
      then show ?case using v(3,4) light room by (auto simp: mutations_ok_def state_room_def)
    next
      case (2 x s1)
      then show ?case using rest [of s1] s(2) by simp
    qed
  qed (simp add: v(3))
qed

text \<open>The transaction after it commits those rows with its own.\<close>

lemma mutate_rows_append: "mutate_rows p (ms @ ms') rows = mutate_rows p ms' (mutate_rows p ms rows)"
  by (induction p ms rows rule: mutate_rows.induct) auto

lemma does_prepare_leftover:
  assumes ok: "state_ok s rows" and wal: "bs_wal st0 \<noteq> None" and room: "state_room s (length ms + length (req_mutations request))"
    and left: "holds_rows s1 (mutate_rows (o_next_revision s) ms rows)" "advanced (ms \<noteq> []) (length ms * PUT_GROWTH) s s1"
    and v: "validate request = Inr ()" "req_conditions request = []" "req_mutations request \<noteq> []"
      "list_all (mutation_within (bs_config st0)) (req_mutations request)"
    and light: "list_all mutation_light (ms @ req_mutations request)" "light rows"
  shows "does env st0 (prepare_transaction env request) (stamped s1)
    (\<lambda>r s'. \<exists>pr s2 img. r = Some pr \<and> s' = after_commit (o_next_revision s) pr s2 \<and>
       prepared_from (crc32c env) s (mutate_rows (o_next_revision s) (ms @ req_mutations request) rows) s2 img pr) (\<lambda>_ _. False)"
    (is "does _ _ _ _ ?Q ?F")
proof (rule does_prepare_unconditional [OF v])
  let ?ms = "req_mutations request" and ?p = "o_next_revision s"
  let ?n = "length ms + length ?ms"
  have stamp: "stamp_of s1 = ?p" using advanced_stamp [OF left(2)] ok by (simp add: state_ok_def stamp_of_def)
  have light1: "light (mutate_rows ?p ms rows)" using mutate_rows_light light by simp
  have high: "unat (o_high s1) + length ?ms * PUT_GROWTH < 2 ^ 62"
    using advanced_high [OF left(2)] room by (simp add: state_room_def add_mult_distrib)
  have finish: "does env st0 (finish_transaction env) s2 (\<lambda>pr s'. (\<exists>img. prepared_from (crc32c env) s (mutate_rows ?p (ms @ ?ms) rows) s2 img pr) \<and>
       s' = after_commit ?p pr s2 \<and> unat (o_high s2) \<le> unat (o_high s) + ?n * PUT_GROWTH) ?F"
    if "holds_rows s2 (mutate_rows ?p ?ms (mutate_rows ?p ms rows))" "advanced True (length ?ms * PUT_GROWTH) (stamped s1) s2" for s2
  proof -
    have "advanced True (length ?ms * PUT_GROWTH) s1 s2" using that(2) by (simp add: advanced_def)
    from advanced_trans [OF left(2) this] have "advanced True (?n * PUT_GROWTH) s s2" by (simp add: add_mult_distrib)
    with that(1) show ?thesis by (intro does_commit_writes [OF ok wal room]) (simp_all add: mutate_rows_append)
  qed
  have "holds_rows (stamped s1) (mutate_rows ?p ms rows)" using left(1) by (simp add: holds_rows_def)
  from does_apply_mutations [OF this, of env st0 ?ms]
  have "does env st0 (apply_tree_mutations env ?ms) (stamped s1)
    (\<lambda>_ s2. holds_rows s2 (mutate_rows ?p ?ms (mutate_rows ?p ms rows)) \<and> advanced True (length ?ms * PUT_GROWTH) (stamped s1) s2) ?F"
    by (rule does_weaken) (use v(3,4) light light1 high stamp in \<open>auto simp: mutations_ok_def stamp_of_def\<close>)
  then show "does env st0 (sbind (apply_tree_mutations env ?ms) (\<lambda>_. sbind (finish_transaction env) (\<lambda>prepared. sret (Some prepared)))) (stamped s1) ?Q ?F"
    by (rule does_bind) (rule does_bind [OF finish], auto intro!: does_ret)
qed

end

section \<open>On the engine\<close>

lemma oversized_batch:
  assumes m: "models env st db" and room: "room_for env st 1" and b: "budget_new n = Inr b"
    and put: "within_limits (bs_config st) (PutRequest key v)" "oversized (bs_config st) key v"
  shows "\<exists>st'. apply_batch_with_response_budget env [PutRequest key v] n st = (Inl InvalidInput, st') \<and> models env st' db"
proof -
  have st: "store_ok (cf.store_base env st) st (encoded (states db))" "data_ops env = cf_ops" "cf_healthy (bs_file st)"
    using m by (auto simp: models_def store_inv_def)
  then have rows: "holds_rows (state_of env st) (encoded (states db))" by (simp add: store_ok_def state_ok_def)
  obtain r ov where run: "execute_all env [PutRequest key v] b (overlay_new st) = (r, ov)" by (metis surj_pair)
  have "r = Inl InvalidInput"
    by (rule cf.does_run [OF cf.does_execute_oversized [OF rows put] cf.overlay_new_holds [OF st] run]) (auto split: sum.splits)
  then have "apply_batch_with_response_budget env [PutRequest key v] n st = (Inl InvalidInput, ov_store ov)"
    using run b by (simp add: apply_batch_with_response_budget_def prepare_batch_with_response_budget_def with_overlay_def sbind_def sres_def sget_def)
  moreover from batch_models [OF m, of "[PutRequest key v]" n] room this have "models env (ov_store ov) db" by auto
  ultimately show ?thesis by blast
qed

lemma leftover_group:
  assumes m: "models env st db" and room: "room_for_group env st [first, second]" and light: "light (encoded (states db))"
    and first: "validate first = Inr ()" "req_conditions first = []" "req_mutations first = ms @ [MPut key v]"
      "list_all (mutation_within (bs_config st)) (req_mutations first)" "list_all mutation_light ms" "oversized (bs_config st) key v"
    and second: "validate second = Inr ()" "req_conditions second = []" "req_mutations second \<noteq> []"
      "list_all (mutation_within (bs_config st)) (req_mutations second)" "list_all mutation_light (req_mutations second)"
  shows "\<exists>c st'. next_lsn db \<le> c \<and> apply_transaction_group env [first, second] st = (Inr [Inl InvalidInput, Inr \<lparr>commit_lsn = Some c\<rparr>], st') \<and>
    models env st' (mutated db c (ms @ req_mutations second))"
proof -
  let ?s = "state_of env st" and ?rows = "encoded (states db)"
  let ?p = "o_next_revision ?s"
  have t: "tracks ?s db" using m by (simp add: models_tracks)
  have st: "store_ok (cf.store_base env st) st ?rows" "data_ops env = cf_ops" "cf_healthy (bs_file st)" "bs_wal st \<noteq> None"
    using m by (auto simp: models_def store_inv_def)
  have ok: "state_ok ?s ?rows" using t by (simp add: tracks_def)
  have fits: "state_room ?s (length ms)" "state_room ?s (length ms + length (req_mutations second))"
    using room first(3) by (auto simp: room_for_group_def group_fits_def state_room_def mutation_count_def add_mult_distrib)
  obtain r1 ov1 where run1: "prepare_transaction env first (overlay_new st) = (r1, ov1)" by (metis surj_pair)
  from cf.does_run [OF cf.does_prepare_oversized [OF ok first(1-5) light first(6) fits(1)] cf.overlay_new_holds [OF st(1-3)] run1]
  obtain s1' where "cf.holds env st s1' ov1" and "case r1 of Inr _ \<Rightarrow> False
    | Inl e \<Rightarrow> e = InvalidInput \<and> (\<exists>s1. s1' = stamped s1 \<and> holds_rows s1 (mutate_rows ?p ms ?rows) \<and> advanced (ms \<noteq> []) (length ms * PUT_GROWTH) ?s s1)" .
  then obtain s1 where h1: "cf.holds env st (stamped s1) ov1" and r1: "r1 = Inl InvalidInput" "holds_rows s1 (mutate_rows ?p ms ?rows)"
      "advanced (ms \<noteq> []) (length ms * PUT_GROWTH) ?s s1"
    by (auto split: sum.splits)
  obtain ov2 where time1: "add_preparation_time env ov1 = (Inr (), ov2)" "cf.holds env st (stamped s1) ov2"
    using cf.holds_metrics [OF h1] by (auto simp: add_preparation_time_def on_store_def smod_def)
  obtain r2 ov3 where run2: "prepare_transaction env second ov2 = (r2, ov3)" by (metis surj_pair)
  have lights: "list_all mutation_light (ms @ req_mutations second)" using first(5) second(5) by simp
  from cf.does_run [OF cf.does_prepare_leftover [OF ok st(4) fits(2) r1(2,3) second(1-4) lights light] time1(2) run2]
  obtain s3 where h3: "cf.holds env st s3 ov3" and post: "case r2 of
       Inr x \<Rightarrow> \<exists>pr s2 img. x = Some pr \<and> s3 = after_commit ?p pr s2 \<and> prepared_from (crc32c env) ?s (mutate_rows ?p (ms @ req_mutations second) ?rows) s2 img pr
     | Inl e \<Rightarrow> False" .
  then obtain pr s2 img where r2: "r2 = Inr (Some pr)" "s3 = after_commit ?p pr s2"
    "prepared_from (crc32c env) ?s (mutate_rows ?p (ms @ req_mutations second) ?rows) s2 img pr" by (auto split: sum.splits)
  obtain ov4 where time2: "add_preparation_time env ov3 = (Inr (), ov4)" "cf.holds env st s3 ov4"
    using cf.holds_metrics [OF h3] by (auto simp: add_preparation_time_def on_store_def smod_def)
  let ?results = "[Inl InvalidInput, Inr \<lparr>commit_lsn = Some (commit_of s2)\<rparr>]" and ?cs = "[(pr, img, commit_of s2)]"
  have "pr_commit_lsn pr = Some (commit_of s2)" using prepared_fromD(2) [OF r2(3)] by (simp add: commits_meta_def)
  then have run: "stage_group env [first, second] (overlay_new st) = (Inr (map fst ?cs, ?results), ov4)"
    using run1 r1(1) time1(1) run2 r2(1) time2(1) by (simp add: sbind_def stage_transaction_def recoverable_def sret_def)
  note c = commit_tracks [OF t r2(3)]
  have "chain (crc32c env) ?s ?rows ?cs s3 (encoded (states (mutated db (commit_of s2) (ms @ req_mutations second))))"
    using chain_Cons [OF r2(3) _ chain_Nil, of ?rows] mutate_rows_origin c(4) r2(2) by metis
  from publish_candidates [OF m room time2(2) run _ this] c(3,5) r2(2) show ?thesis by auto
qed

end
