(* ===== verification/Dodb_Service.thy ===== *)
theory Dodb_Service
  imports Dodb_Core
begin

text \<open>
  The request and response types that the wire protocol, the server and the client share
  (\<open>dodb-service\<close>), with the classification of requests. The service trait itself is asynchronous
  interface without code of its own.
\<close>

record execution_budget =
  max_response_bytes :: nat

record service_document =
  sd_key :: document_key
  sd_value :: bytes
  sd_revision :: revision

datatype request =
    ReqGet document_key
  | ReqPut document_key bytes
  | ReqDelete document_key
  | ReqQuery bytes "bytes option" nat
  | ReqScan "document_key option" nat
  | ReqTransact transaction_request

record transaction_outcome =
  to_commit_lsn :: "lsn option"

datatype response =
    RespGet revision_state
  | RespPut revision
  | RespDelete revision
  | RespQuery "service_document list"
  | RespScan "service_document list"
  | RespTransact transaction_outcome

definition outcome_committed :: "lsn \<Rightarrow> transaction_outcome" where
  "outcome_committed l = \<lparr>to_commit_lsn = Some l\<rparr>"

definition outcome_conditions_satisfied :: transaction_outcome where
  "outcome_conditions_satisfied = \<lparr>to_commit_lsn = None\<rparr>"

fun operation_name :: "request \<Rightarrow> string" where
  "operation_name (ReqGet k) = ''get''"
| "operation_name (ReqPut k v) = ''put''"
| "operation_name (ReqDelete k) = ''delete''"
| "operation_name (ReqQuery p a n) = ''query''"
| "operation_name (ReqScan a n) = ''scan''"
| "operation_name (ReqTransact t) = ''transact''"

fun request_is_mutation :: "request \<Rightarrow> bool" where
  "request_is_mutation (ReqPut k v) = True"
| "request_is_mutation (ReqDelete k) = True"
| "request_is_mutation (ReqTransact t) = (req_mutations t \<noteq> [])"
| "request_is_mutation (ReqGet k) = False"
| "request_is_mutation (ReqQuery p a n) = False"
| "request_is_mutation (ReqScan a n) = False"

text \<open>The two outcomes are told apart by whether a commit LSN is there.\<close>

lemma outcome_cases:
  obtains l where "t = outcome_committed l" | "t = outcome_conditions_satisfied"
  by (cases t; cases "to_commit_lsn t") (auto simp: outcome_committed_def outcome_conditions_satisfied_def)

end
