(* ===== verification/Dodb_Wire.thy ===== *)
theory Dodb_Wire
  imports Dodb_Prelude
begin

text \<open>
  The byte-level layer of \<open>dodb-protocol\<close>: the \<open>Writer\<close>, the \<open>Reader\<close>, the errors, and Rust's
  UTF-8 strings. A writer step and a reader step agree when the reader takes exactly the bytes the
  writer appended and gives the same value (\<open>reads\<close>), and the reader is strict when whatever it
  accepts is what the writer would have written (\<open>parses\<close>). Both notions compose along \<open>sbind\<close>, so
  every message format is proved by one walk over its definition.
\<close>

section \<open>Errors\<close>

datatype protocol_error =
    InvalidLimits
  | TruncatedHeader
  | InvalidMagic
  | UnsupportedVersion u16
  | UnknownMessageType byte
  | TruncatedPayload
  | TrailingBytes
  | PayloadTooLarge nat nat
  | KeyTooLarge nat nat
  | LengthOverflow
  | InvalidOpcode byte
  | InvalidStatus byte
  | InvalidFlag byte
  | InvalidResponseType byte byte
  | InvalidErrorKind byte
  | InvalidExpectation byte
  | InvalidRevisionState byte
  | InvalidUtf8

section \<open>Writer\<close>

type_synonym writer = bytes
type_synonym wtr = "(writer, protocol_error, unit) sop"

definition writer_u8 :: "byte \<Rightarrow> wtr" where
  "writer_u8 b = smod (\<lambda>w. w @ [b])"

definition writer_u32 :: "u32 \<Rightarrow> wtr" where
  "writer_u32 v = smod (\<lambda>w. w @ to_be_u32 v)"

definition writer_u64 :: "u64 \<Rightarrow> wtr" where
  "writer_u64 v = smod (\<lambda>w. w @ to_be_u64 v)"

text \<open>\<open>u32::try_from\<close> on a length.\<close>

definition u32_try_from :: "nat \<Rightarrow> protocol_error + u32" where
  "u32_try_from n = (if n < 2 ^ 32 then Inr (of_nat n) else Inl LengthOverflow)"

definition writer_bytes_raw :: "bytes \<Rightarrow> wtr" where
  "writer_bytes_raw v =
     sbind (sres (u32_try_from (length v))) (\<lambda>n.
     sbind (writer_u32 n) (\<lambda>_.
     smod (\<lambda>w. w @ v)))"

definition encode_bytes :: "bytes \<Rightarrow> nat \<Rightarrow> wtr" where
  "encode_bytes v maximum =
     sbind (sres (ensure (\<not> length v > maximum) (PayloadTooLarge (length v) maximum))) (\<lambda>_.
     writer_bytes_raw v)"

definition writer_bytes :: "bytes \<Rightarrow> nat \<Rightarrow> wtr" where
  "writer_bytes v maximum = encode_bytes v maximum"

definition encode_limit :: "nat \<Rightarrow> nat \<Rightarrow> wtr" where
  "encode_limit n maximum =
     sbind (sres (ensure (\<not> n > maximum) (PayloadTooLarge n maximum))) (\<lambda>_.
     sbind (sres (u32_try_from n)) writer_u32)"

definition encode_count :: "nat \<Rightarrow> nat \<Rightarrow> wtr" where
  "encode_count n maximum =
     sbind (sres (ensure (\<not> n > maximum) (PayloadTooLarge n maximum))) (\<lambda>_.
     sbind (sres (u32_try_from n)) writer_u32)"

fun encode_optional_bytes :: "bytes option \<Rightarrow> nat \<Rightarrow> wtr" where
  "encode_optional_bytes (Some v) maximum = sbind (writer_u8 1) (\<lambda>_. encode_bytes v maximum)"
| "encode_optional_bytes None maximum = writer_u8 0"

text \<open>A \<open>for\<close> loop whose body writes.\<close>

fun s_for :: "('a \<Rightarrow> ('s, 'e, unit) sop) \<Rightarrow> 'a list \<Rightarrow> ('s, 'e, unit) sop" where
  "s_for f [] = sret ()"
| "s_for f (x # xs) = sbind (f x) (\<lambda>_. s_for f xs)"

section \<open>Reader\<close>

record reader =
  rd_input :: bytes
  rd_offset :: nat

type_synonym 'a rdr = "(reader, protocol_error, 'a) sop"

definition reader_new :: "bytes \<Rightarrow> reader" where
  "reader_new input = \<lparr>rd_input = input, rd_offset = 0\<rparr>"

definition reader_u8 :: "byte rdr" where
  "reader_u8 =
     sbind (sget (\<lambda>r. ok_or (if rd_offset r < length (rd_input r) then Some (rd_input r ! rd_offset r) else None)
                        TruncatedPayload)) (\<lambda>v.
     sbind (smod (\<lambda>r. r\<lparr>rd_offset := rd_offset r + 1\<rparr>)) (\<lambda>_.
     sret v))"

definition reader_take :: "nat \<Rightarrow> bytes rdr" where
  "reader_take n =
     sbind (sget (\<lambda>r. ok_or (checked_add_usize (rd_offset r) n) LengthOverflow)) (\<lambda>e.
     sbind (sget (\<lambda>r. ok_or (if rd_offset r \<le> e \<and> e \<le> length (rd_input r)
                              then Some (seg (rd_offset r) e (rd_input r)) else None) TruncatedPayload)) (\<lambda>bs.
     sbind (smod (\<lambda>r. r\<lparr>rd_offset := e\<rparr>)) (\<lambda>_.
     sret bs)))"

definition reader_u32 :: "u32 rdr" where
  "reader_u32 = sbind (reader_take 4) (\<lambda>bs. sret (from_be_u32 bs))"

definition reader_u64 :: "u64 rdr" where
  "reader_u64 = sbind (reader_take 8) (\<lambda>bs. sret (from_be_u64 bs))"

definition reader_bytes :: "nat \<Rightarrow> bytes rdr" where
  "reader_bytes maximum =
     sbind reader_u32 (\<lambda>n.
     sbind (sres (ensure (\<not> unat n > maximum) (PayloadTooLarge (unat n) maximum))) (\<lambda>_.
     reader_take (unat n)))"

definition reader_flag :: "bool rdr" where
  "reader_flag =
     sbind reader_u8 (\<lambda>v.
     if v = 0 then sret False else if v = 1 then sret True else sfail (InvalidFlag v))"

definition reader_optional_bytes :: "nat \<Rightarrow> bytes option rdr" where
  "reader_optional_bytes maximum =
     sbind reader_flag (\<lambda>f.
     if f then sbind (reader_bytes maximum) (\<lambda>v. sret (Some v)) else sret None)"

definition reader_count :: "nat \<Rightarrow> nat rdr" where
  "reader_count maximum =
     sbind reader_u32 (\<lambda>n.
     sbind (sres (ensure (\<not> unat n > maximum) (PayloadTooLarge (unat n) maximum))) (\<lambda>_.
     sret (unat n)))"

definition reader_limit :: "nat \<Rightarrow> nat rdr" where
  "reader_limit maximum = reader_count maximum"

definition reader_finish :: "reader \<Rightarrow> bool" where
  "reader_finish r = (rd_offset r = length (rd_input r))"

text \<open>A \<open>for _ in 0..count\<close> loop that pushes what its body reads.\<close>

fun s_repeat :: "nat \<Rightarrow> ('s, 'e, 'a) sop \<Rightarrow> ('s, 'e, 'a list) sop" where
  "s_repeat 0 m = sret []"
| "s_repeat (Suc n) m = sbind m (\<lambda>x. sbind (s_repeat n m) (\<lambda>xs. sret (x # xs)))"

section \<open>Strings\<close>

text \<open>A Rust \<open>String\<close> as its characters, each a Unicode scalar value; \<open>utf8\<close> is its byte
  representation (\<open>as_bytes\<close>) and \<open>from_utf8\<close> the validating \<open>String::from_utf8\<close>: shortest forms
  only, no surrogates, nothing above \<open>0x10FFFF\<close>.\<close>

type_synonym rust_string = "nat list"

definition is_scalar :: "nat \<Rightarrow> bool" where
  "is_scalar c = (c < 0xD800 \<or> (0xE000 \<le> c \<and> c < 0x110000))"

definition utf8_char :: "nat \<Rightarrow> bytes" where
  "utf8_char c =
     (if c < 0x80 then [of_nat c]
      else if c < 0x800 then [of_nat (0xC0 + c div 64), of_nat (0x80 + c mod 64)]
      else if c < 0x10000 then
        [of_nat (0xE0 + c div 4096), of_nat (0x80 + c div 64 mod 64), of_nat (0x80 + c mod 64)]
      else [of_nat (0xF0 + c div 262144), of_nat (0x80 + c div 4096 mod 64),
            of_nat (0x80 + c div 64 mod 64), of_nat (0x80 + c mod 64)])"

definition utf8 :: "rust_string \<Rightarrow> bytes" where
  "utf8 s = concat (map utf8_char s)"

text \<open>The payload of a continuation byte.\<close>

definition cont :: "byte \<Rightarrow> nat option" where
  "cont b = (if 0x80 \<le> unat b \<and> unat b < 0xC0 then Some (unat b - 0x80) else None)"

definition utf8_step :: "bytes \<Rightarrow> (nat \<times> bytes) option" where
  "utf8_step bs =
     (case bs of
        [] \<Rightarrow> None
      | b # r \<Rightarrow>
          if unat b < 0x80 then Some (unat b, r)
          else if 0xC0 \<le> unat b \<and> unat b < 0xE0 then
            (case map cont (take 1 r) of
               [Some x] \<Rightarrow>
                 (let c = (unat b - 0xC0) * 64 + x
                  in if 0x80 \<le> c then Some (c, drop 1 r) else None)
             | _ \<Rightarrow> None)
          else if 0xE0 \<le> unat b \<and> unat b < 0xF0 then
            (case map cont (take 2 r) of
               [Some x, Some y] \<Rightarrow>
                 (let c = (unat b - 0xE0) * 4096 + x * 64 + y
                  in if 0x800 \<le> c \<and> is_scalar c then Some (c, drop 2 r) else None)
             | _ \<Rightarrow> None)
          else if 0xF0 \<le> unat b \<and> unat b < 0xF8 then
            (case map cont (take 3 r) of
               [Some x, Some y, Some z] \<Rightarrow>
                 (let c = (unat b - 0xF0) * 262144 + x * 4096 + y * 64 + z
                  in if 0x10000 \<le> c \<and> is_scalar c then Some (c, drop 3 r) else None)
             | _ \<Rightarrow> None)
          else None)"

lemma utf8_step_shorter: "utf8_step bs = Some (c, r) \<Longrightarrow> length r < length bs"
  by (auto simp: utf8_step_def Let_def split: list.splits if_splits option.splits)

function from_utf8 :: "bytes \<Rightarrow> rust_string option" where
  "from_utf8 bs =
     (if bs = [] then Some []
      else case utf8_step bs of
             None \<Rightarrow> None
           | Some (c, r) \<Rightarrow> map_option (\<lambda>s. c # s) (from_utf8 r))"
  by pat_completeness auto
termination by (relation "measure length") (auto dest: utf8_step_shorter)

section \<open>UTF-8 round trip\<close>

lemma unat_byte: "n < 256 \<Longrightarrow> unat (of_nat n :: byte) = n"
  by (simp add: unat_of_nat)

lemma cont_of_nat [simp]: "x < 64 \<Longrightarrow> cont (of_nat (128 + x)) = Some x"
  by (simp add: cont_def unat_byte del: of_nat_add of_nat_numeral)

lemma cont_SomeD: "cont b = Some x \<Longrightarrow> x < 64 \<and> b = of_nat (128 + x)"
proof -
  assume "cont b = Some x"
  then have x: "unat b = 128 + x" "x < 64" by (auto simp: cont_def split: if_splits)
  have "b = of_nat (unat b)" by simp
  with x show ?thesis by simp
qed

lemma base64_digits:
  fixes c :: nat
  shows "c = c div 64 * 64 + c mod 64"
    and "c = c div 4096 * 4096 + c div 64 mod 64 * 64 + c mod 64"
    and "c = c div 262144 * 262144 + c div 4096 mod 64 * 4096 + c div 64 mod 64 * 64 + c mod 64"
proof -
  have d: "c div 4096 = c div 64 div 64" "c div 262144 = c div 4096 div 64"
    by (simp_all flip: div_mult2_eq)
  show 1: "c = c div 64 * 64 + c mod 64" by simp
  have q: "c div 64 = c div 4096 * 64 + c div 64 mod 64" by (simp add: d(1))
  have "c div 4096 = c div 262144 * 64 + c div 4096 mod 64" by (simp add: d(2))
  with 1 q show "c = c div 4096 * 4096 + c div 64 mod 64 * 64 + c mod 64"
    "c = c div 262144 * 262144 + c div 4096 mod 64 * 4096 + c div 64 mod 64 * 64 + c mod 64"
    by linarith+
qed

lemma lead_byte: "l < 32 \<Longrightarrow> unat (of_nat (192 + l) :: byte) = 192 + l"
  "l < 16 \<Longrightarrow> unat (of_nat (224 + l) :: byte) = 224 + l"
  "l < 8 \<Longrightarrow> unat (of_nat (240 + l) :: byte) = 240 + l"
  by (simp_all add: unat_byte del: of_nat_add of_nat_numeral)

lemma utf8_steps:
  "c < 128 \<Longrightarrow> utf8_step (of_nat c # r) = Some (c, r)"
  "l < 32 \<Longrightarrow> x < 64 \<Longrightarrow> c = l * 64 + x \<Longrightarrow> 128 \<le> c \<Longrightarrow>
     utf8_step (of_nat (192 + l) # of_nat (128 + x) # r) = Some (c, r)"
  "l < 16 \<Longrightarrow> x < 64 \<Longrightarrow> y < 64 \<Longrightarrow> c = l * 4096 + x * 64 + y \<Longrightarrow> 2048 \<le> c \<Longrightarrow> is_scalar c \<Longrightarrow>
     utf8_step (of_nat (224 + l) # of_nat (128 + x) # of_nat (128 + y) # r) = Some (c, r)"
  "l < 8 \<Longrightarrow> x < 64 \<Longrightarrow> y < 64 \<Longrightarrow> z < 64 \<Longrightarrow> c = l * 262144 + x * 4096 + y * 64 + z \<Longrightarrow> 65536 \<le> c \<Longrightarrow>
     is_scalar c \<Longrightarrow>
     utf8_step (of_nat (240 + l) # of_nat (128 + x) # of_nat (128 + y) # of_nat (128 + z) # r) = Some (c, r)"
  by (simp_all add: utf8_step_def Let_def lead_byte unat_byte numeral_2_eq_2 numeral_3_eq_3
      del: of_nat_add of_nat_numeral)

lemma utf8_step_char: "is_scalar c \<Longrightarrow> utf8_step (utf8_char c @ r) = Some (c, r)"
proof -
  assume c: "is_scalar c"
  consider "c < 0x80" | "0x80 \<le> c" "c < 0x800" | "0x800 \<le> c" "c < 0x10000" | "0x10000 \<le> c"
    by linarith
  then show ?thesis
  proof cases
    case 1
    then show ?thesis by (simp add: utf8_char_def utf8_steps)
  next
    case 2
    then have "c div 64 < 32" by simp
    with 2 show ?thesis
      using utf8_steps(2) [OF _ _ base64_digits(1)] by (simp add: utf8_char_def del: of_nat_add)
  next
    case 3
    then have "c div 4096 < 16" by simp
    with 3 c show ?thesis
      using utf8_steps(3) [OF _ _ _ base64_digits(2)] by (simp add: utf8_char_def del: of_nat_add)
  next
    case 4
    have "c < 0x110000" using c by (auto simp: is_scalar_def)
    then have "c div 262144 < 8" by simp
    with 4 c show ?thesis
      using utf8_steps(4) [OF _ _ _ _ base64_digits(3)] by (simp add: utf8_char_def del: of_nat_add)
  qed
qed

lemma utf8_char_nonempty [simp]: "utf8_char c \<noteq> []"
  by (simp add: utf8_char_def)

declare from_utf8.simps [simp del]

lemma from_utf8_Nil [simp]: "from_utf8 [] = Some []"
  by (simp add: from_utf8.simps)

lemma utf8_simps [simp]: "utf8 [] = []" "utf8 (c # s) = utf8_char c @ utf8 s"
  by (simp_all add: utf8_def)

lemma from_utf8_utf8: "\<forall>c\<in>set s. is_scalar c \<Longrightarrow> from_utf8 (utf8 s) = Some s"
proof (induction s)
  case (Cons c s)
  then show ?case
    by (subst from_utf8.simps) (simp add: utf8_step_char)
qed simp

lemma base64_undigits:
  fixes l x y z :: nat
  assumes "x < 64" "y < 64" "z < 64"
  shows "(l * 64 + x) div 64 = l" "(l * 64 + x) mod 64 = x"
    and "(l * 4096 + x * 64 + y) div 4096 = l" "(l * 4096 + x * 64 + y) div 64 mod 64 = x"
      "(l * 4096 + x * 64 + y) mod 64 = y"
    and "(l * 262144 + x * 4096 + y * 64 + z) div 262144 = l"
      "(l * 262144 + x * 4096 + y * 64 + z) div 4096 mod 64 = x"
      "(l * 262144 + x * 4096 + y * 64 + z) div 64 mod 64 = y"
      "(l * 262144 + x * 4096 + y * 64 + z) mod 64 = z"
proof -
  have one: "(q * 64 + d) div 64 = q" "(q * 64 + d) mod 64 = d" if "d < 64" for q d :: nat
    using that by simp_all
  have two: "l * 4096 + x * 64 + y = (l * 64 + x) * 64 + y" by simp
  have three: "l * 262144 + x * 4096 + y * 64 + z = ((l * 64 + x) * 64 + y) * 64 + z" by simp
  have d: "n div 4096 = n div 64 div 64" "n div 262144 = n div 64 div 64 div 64" for n :: nat
    by (simp_all flip: div_mult2_eq)
  show "(l * 64 + x) div 64 = l" "(l * 64 + x) mod 64 = x" by (simp_all only: one assms)
  show "(l * 4096 + x * 64 + y) div 4096 = l" "(l * 4096 + x * 64 + y) div 64 mod 64 = x"
      "(l * 4096 + x * 64 + y) mod 64 = y"
    by (simp_all only: two one d assms)
  show "(l * 262144 + x * 4096 + y * 64 + z) div 262144 = l"
      "(l * 262144 + x * 4096 + y * 64 + z) div 4096 mod 64 = x"
      "(l * 262144 + x * 4096 + y * 64 + z) div 64 mod 64 = y"
      "(l * 262144 + x * 4096 + y * 64 + z) mod 64 = z"
    by (simp_all only: three one d assms)
qed

lemma byte_split: "a \<le> unat (b :: byte) \<Longrightarrow> b = of_nat (a + (unat b - a))"
  by simp

lemma map_cont_eq:
  "map cont (take (Suc 0) r) = [Some x] \<Longrightarrow> x < 64 \<and> r = of_nat (128 + x) # drop 1 r"
  "map cont (take 2 r) = [Some x, Some y] \<Longrightarrow>
     x < 64 \<and> y < 64 \<and> r = of_nat (128 + x) # of_nat (128 + y) # drop 2 r"
  "map cont (take 3 r) = [Some x, Some y, Some z] \<Longrightarrow>
     x < 64 \<and> y < 64 \<and> z < 64 \<and> r = of_nat (128 + x) # of_nat (128 + y) # of_nat (128 + z) # drop 3 r"
  using append_take_drop_id [of "Suc 0" r] append_take_drop_id [of 2 r] append_take_drop_id [of 3 r]
  by (auto simp del: append_take_drop_id dest!: cont_SomeD)

lemma utf8_step_sound: "utf8_step bs = Some (c, r) \<Longrightarrow> is_scalar c \<and> bs = utf8_char c @ r"
proof (cases bs)
  case (Cons b t)
  assume step: "utf8_step bs = Some (c, r)"
  from step Cons consider
    (one) "unat b < 128" "c = unat b" "r = t"
  | (two) x where "192 \<le> unat b" "unat b < 224" "map cont (take (Suc 0) t) = [Some x]"
      "c = (unat b - 192) * 64 + x" "128 \<le> c" "r = drop 1 t"
  | (three) x y where "224 \<le> unat b" "unat b < 240" "map cont (take 2 t) = [Some x, Some y]"
      "c = (unat b - 224) * 4096 + x * 64 + y" "2048 \<le> c" "is_scalar c" "r = drop 2 t"
  | (four) x y z where "240 \<le> unat b" "unat b < 248" "map cont (take 3 t) = [Some x, Some y, Some z]"
      "c = (unat b - 240) * 262144 + x * 4096 + y * 64 + z" "65536 \<le> c" "is_scalar c" "r = drop 3 t"
    by (simp add: utf8_step_def Let_def split: if_splits list.splits option.splits)
  then show ?thesis
  proof cases
    case one
    with Cons show ?thesis by (simp add: is_scalar_def utf8_char_def)
  next
    case two
    note m = map_cont_eq(1) [OF two(3)]
    have c: "c < 2048" using two m by linarith
    then have "is_scalar c" by (simp add: is_scalar_def)
    moreover have "utf8_char c = [of_nat (192 + (unat b - 192)), of_nat (128 + x)]"
      using two(4,5) c m by (simp add: utf8_char_def base64_undigits(1,2) del: of_nat_add)
    ultimately show ?thesis
      using Cons m two(6) byte_split [OF two(1)] by (metis append_Cons append_Nil)
  next
    case three
    note m = map_cont_eq(2) [OF three(3)]
    have c: "c < 65536" using three m by linarith
    then have "utf8_char c = [of_nat (224 + (unat b - 224)), of_nat (128 + x), of_nat (128 + y)]"
      using three(4,5) m by (simp add: utf8_char_def base64_undigits(3-5) [where z = y] del: of_nat_add)
    then show ?thesis
      using Cons m three(6,7) byte_split [OF three(1)] by (metis append_Cons append_Nil)
  next
    case four
    note m = map_cont_eq(3) [OF four(3)]
    have "utf8_char c =
        [of_nat (240 + (unat b - 240)), of_nat (128 + x), of_nat (128 + y), of_nat (128 + z)]"
      using four(4,5) m by (simp add: utf8_char_def base64_undigits(6-9) del: of_nat_add)
    then show ?thesis
      using Cons m four(6,7) byte_split [OF four(1)] by (metis append_Cons append_Nil)
  qed
qed (simp add: utf8_step_def)

lemma utf8_from_utf8: "from_utf8 bs = Some s \<Longrightarrow> (\<forall>c\<in>set s. is_scalar c) \<and> utf8 s = bs"
proof (induction bs arbitrary: s rule: from_utf8.induct)
  case (1 bs)
  show ?case
  proof (cases "bs = []")
    case False
    with "1.prems" obtain c r s' where *: "utf8_step bs = Some (c, r)" "from_utf8 r = Some s'" "s = c # s'"
      by (subst (asm) from_utf8.simps) (auto split: option.splits)
    from "1.IH" [OF False *(1) refl *(2)] utf8_step_sound [OF *(1)] *(3) show ?thesis by simp
  qed (use "1.prems" in simp)
qed

lemma length_utf8_char: "1 \<le> length (utf8_char c)"
  by (simp add: utf8_char_def)

lemma length_utf8: "length s \<le> length (utf8 s)"
proof (induction s)
  case (Cons c s)
  with length_utf8_char [of c] show ?case by simp
qed simp

section \<open>Agreement of writers and readers\<close>

declare sop_simps(1) [simp del]

text \<open>\<open>at pre post\<close> is the reader that has consumed \<open>pre\<close> and has \<open>post\<close> before it.\<close>

definition at :: "bytes \<Rightarrow> bytes \<Rightarrow> reader" where
  "at pre post = \<lparr>rd_input = pre @ post, rd_offset = length pre\<rparr>"

definition emits :: "wtr \<Rightarrow> bytes \<Rightarrow> bool" where
  "emits m bs \<longleftrightarrow> (\<forall>w. m w = (Inr (), w @ bs))"

text \<open>A step that succeeds does so on every writer and appends the same bytes.\<close>

definition uniform :: "wtr \<Rightarrow> bool" where
  "uniform m \<longleftrightarrow> (\<forall>w w'. m w = (Inr (), w') \<longrightarrow> (\<exists>bs. w' = w @ bs \<and> emits m bs))"

text \<open>Readers work on inputs whose length a \<open>usize\<close> holds.\<close>

definition reads :: "'a rdr \<Rightarrow> bytes \<Rightarrow> 'a \<Rightarrow> bool" where
  "reads m bs y \<longleftrightarrow> (\<forall>pre post. length (pre @ bs @ post) \<le> usize_max \<longrightarrow>
     m (at pre (bs @ post)) = (Inr y, at (pre @ bs) post))"

definition parses :: "'a rdr \<Rightarrow> ('a \<Rightarrow> bytes \<Rightarrow> bool) \<Rightarrow> bool" where
  "parses m P \<longleftrightarrow> (\<forall>pre rest y r. m (at pre rest) = (Inr y, r) \<longrightarrow>
     (\<exists>bs post. rest = bs @ post \<and> r = at (pre @ bs) post \<and> P y bs))"

named_theorems emits_iff \<open>what a writer step emits\<close>
named_theorems uniform_rules \<open>writer steps that do not look at the writer\<close>

lemma emitsD: "emits m bs \<Longrightarrow> m w = (Inr (), w @ bs)"
  by (simp add: emits_def)

lemma emits_det: "emits m bs \<Longrightarrow> emits m bs' \<Longrightarrow> bs = bs'"
  by (auto simp: emits_def)

lemma uniformD: "uniform m \<Longrightarrow> m w = (Inr (), w') \<Longrightarrow> \<exists>bs. w' = w @ bs \<and> emits m bs"
  by (simp add: uniform_def)

lemma uniform_append [uniform_rules]: "uniform (smod (\<lambda>w. w @ bs))"
  by (simp add: uniform_def emits_def)

lemma emits_append [emits_iff]: "emits (smod (\<lambda>w. w @ x)) bs \<longleftrightarrow> bs = x"
  by (auto simp: emits_def)

lemma uniform_sret [uniform_rules]: "uniform (sret u)"
  by (simp add: uniform_def emits_def sop_simps)

lemma emits_sret [emits_iff]: "emits (sret u) bs \<longleftrightarrow> bs = []"
  by (auto simp: emits_def sop_simps)

lemma uniform_sbind [uniform_rules]:
  assumes "uniform m" and "uniform (f ())"
  shows "uniform (sbind m f)"
  unfolding uniform_def
proof (intro allI impI)
  fix w w' assume "sbind m f w = (Inr (), w')"
  then obtain w1 where *: "m w = (Inr (), w1)" "f () w1 = (Inr (), w')"
    by (auto simp: sbind_Inr_iff)
  from uniformD [OF assms(1) *(1)] obtain b1 where b1: "w1 = w @ b1" "emits m b1" by blast
  from uniformD [OF assms(2) *(2)] obtain b2 where b2: "w' = w1 @ b2" "emits (f ()) b2" by blast
  from b1 b2 show "\<exists>bs. w' = w @ bs \<and> emits (sbind m f) bs"
    by (intro exI [of _ "b1 @ b2"]) (simp add: emits_def sbind_def)
qed

lemma emits_sbind [emits_iff]:
  assumes "uniform m" and "uniform (f ())"
  shows "emits (sbind m f) bs \<longleftrightarrow> (\<exists>b1 b2. bs = b1 @ b2 \<and> emits m b1 \<and> emits (f ()) b2)"
proof
  assume "emits (sbind m f) bs"
  from emitsD [OF this, of "[]"] obtain w1 where *: "m [] = (Inr (), w1)" "f () w1 = (Inr (), bs)"
    by (auto simp: sbind_Inr_iff)
  from uniformD [OF assms(1) *(1)] obtain b1 where b1: "w1 = b1" "emits m b1" by auto
  from uniformD [OF assms(2) *(2)] obtain b2 where "bs = w1 @ b2" "emits (f ()) b2" by blast
  with b1 show "\<exists>b1 b2. bs = b1 @ b2 \<and> emits m b1 \<and> emits (f ()) b2" by blast
next
  assume "\<exists>b1 b2. bs = b1 @ b2 \<and> emits m b1 \<and> emits (f ()) b2"
  then show "emits (sbind m f) bs" by (auto simp: emits_def sbind_def)
qed

lemma emits_seq: "emits m b1 \<Longrightarrow> emits (f ()) b2 \<Longrightarrow> emits (sbind m f) (b1 @ b2)"
  by (auto simp: emits_def sbind_def)

lemma sbind_sres: "sbind (sres r) f = (case r of Inl e \<Rightarrow> sfail e | Inr x \<Rightarrow> f x)"
  by (rule ext) (simp add: sbind_def split: sum.splits)

lemma uniform_sres [uniform_rules]: "(\<And>x. r = Inr x \<Longrightarrow> uniform (f x)) \<Longrightarrow> uniform (sbind (sres r) f)"
  by (cases r) (simp_all add: sbind_sres uniform_def)

lemma emits_sres [emits_iff]: "emits (sbind (sres r) f) bs \<longleftrightarrow> (\<exists>x. r = Inr x \<and> emits (f x) bs)"
  by (cases r) (simp_all add: sbind_sres emits_def)

lemma uniform_s_for [uniform_rules]: "(\<And>x. x \<in> set xs \<Longrightarrow> uniform (f x)) \<Longrightarrow> uniform (s_for f xs)"
  by (induction xs) (auto intro!: uniform_rules)

section \<open>Readers\<close>

lemma readsI:
  "(\<And>pre post. length (pre @ bs @ post) \<le> usize_max \<Longrightarrow> m (at pre (bs @ post)) = (Inr y, at (pre @ bs) post)) \<Longrightarrow>
   reads m bs y"
  by (simp add: reads_def)

lemma readsD:
  "reads m bs y \<Longrightarrow> length (pre @ bs @ post) \<le> usize_max \<Longrightarrow>
   m (at pre (bs @ post)) = (Inr y, at (pre @ bs) post)"
  by (simp add: reads_def)

lemma reads_sret: "reads (sret y) [] y"
  by (simp add: reads_def sop_simps)

lemma reads_sbind:
  assumes "reads m b1 x" and "reads (f x) b2 y" and "bs = b1 @ b2"
  shows "reads (sbind m f) bs y"
proof (rule readsI)
  fix pre post assume len: "length (pre @ bs @ post) \<le> usize_max"
  with assms(3) have "m (at pre (bs @ post)) = (Inr x, at (pre @ b1) (b2 @ post))"
    using readsD [OF assms(1), of pre "b2 @ post"] by simp
  moreover have "f x (at (pre @ b1) (b2 @ post)) = (Inr y, at (pre @ bs) post)"
    using readsD [OF assms(2), of "pre @ b1" post] len assms(3) by simp
  ultimately show "sbind m f (at pre (bs @ post)) = (Inr y, at (pre @ bs) post)"
    by (simp add: sbind_eqs)
qed

lemma reads_append: "reads m b1 x \<Longrightarrow> reads (f x) b2 y \<Longrightarrow> reads (sbind m f) (b1 @ b2) y"
  by (rule reads_sbind) simp_all

lemma reads_ret: "reads m bs x \<Longrightarrow> y = f x \<Longrightarrow> reads (sbind m (\<lambda>x. sret (f x))) bs y"
  by (rule reads_sbind, assumption) (simp_all add: reads_sret)

lemma reads_sres: "r = Inr x \<Longrightarrow> reads (f x) bs y \<Longrightarrow> reads (sbind (sres r) f) bs y"
  by (simp add: sbind_sres)

lemma reads_u8: "reads reader_u8 [b] b"
  by (rule readsI) (simp add: reader_u8_def sbind_def at_def sop_simps)

lemma reads_take: "n = length bs \<Longrightarrow> reads (reader_take n) bs bs"
  by (rule readsI) (simp add: reader_take_def sbind_def at_def checked_add_usize_def bytes_simps sop_simps)

lemma reads_u32: "reads reader_u32 (to_be_u32 v) v"
  unfolding reader_u32_def by (rule reads_ret [OF reads_take]) (simp_all add: bytes_simps)

lemma reads_u64: "reads reader_u64 (to_be_u64 v) v"
  unfolding reader_u64_def by (rule reads_ret [OF reads_take]) (simp_all add: bytes_simps)

lemma reads_u8_then: "reads (f b) bs y \<Longrightarrow> reads (sbind reader_u8 f) (b # bs) y"
  by (rule reads_sbind [OF reads_u8]) simp_all

lemma reads_u64_then: "reads (f v) bs y \<Longrightarrow> reads (sbind reader_u64 f) (to_be_u64 v @ bs) y"
  by (rule reads_sbind [OF reads_u64]) simp_all

lemma reads_flag: "reads reader_flag [if f then 1 else 0] f"
  unfolding reader_flag_def by (rule reads_u8_then) (simp add: reads_sret)

lemma reads_repeat:
  "(\<And>x b. x \<in> set xs \<Longrightarrow> emits (f x) b \<Longrightarrow> reads m b x) \<Longrightarrow> (\<And>x. uniform (f x)) \<Longrightarrow>
   emits (s_for f xs) bs \<Longrightarrow> reads (s_repeat (length xs) m) bs xs"
proof (induction xs arbitrary: bs)
  case Nil
  then show ?case by (simp add: emits_iff reads_sret)
next
  case (Cons x xs)
  then obtain b1 b2 where b: "bs = b1 @ b2" "emits (f x) b1" "emits (s_for f xs) b2"
    by (auto simp: emits_iff uniform_rules)
  have "reads (s_repeat (length xs) m) b2 xs" using Cons b(3) by simp
  then show ?case
    using Cons.prems(1) [OF _ b(2)] b(1) by (auto intro!: reads_sbind reads_ret)
qed

section \<open>Strictness\<close>

lemma parsesI:
  "(\<And>pre rest y r. m (at pre rest) = (Inr y, r) \<Longrightarrow>
      \<exists>bs post. rest = bs @ post \<and> r = at (pre @ bs) post \<and> P y bs) \<Longrightarrow> parses m P"
  by (simp add: parses_def)

lemma parsesD:
  "parses m P \<Longrightarrow> m (at pre rest) = (Inr y, r) \<Longrightarrow>
     \<exists>bs post. rest = bs @ post \<and> r = at (pre @ bs) post \<and> P y bs"
  by (simp add: parses_def)

lemma parses_weaken:
  assumes "parses m P" and "\<And>y bs. P y bs \<Longrightarrow> Q y bs"
  shows "parses m Q"
proof (rule parsesI)
  fix pre rest y r assume "m (at pre rest) = (Inr y, r)"
  from parsesD [OF assms(1) this] assms(2)
  show "\<exists>bs post. rest = bs @ post \<and> r = at (pre @ bs) post \<and> Q y bs" by blast
qed

lemma parses_sret: "P y [] \<Longrightarrow> parses (sret y) P"
  by (rule parsesI, rule exI [of _ "[]"]) (simp add: sop_simps)

lemma parses_sfail [simp]: "parses (sfail e) P"
  by (simp add: parses_def)

lemma parses_sbind:
  assumes "parses m P" and "\<And>x b1. P x b1 \<Longrightarrow> parses (f x) (\<lambda>y b2. Q y (b1 @ b2))"
  shows "parses (sbind m f) Q"
proof (rule parsesI)
  fix pre rest y r assume "sbind m f (at pre rest) = (Inr y, r)"
  then obtain x r1 where *: "m (at pre rest) = (Inr x, r1)" "f x r1 = (Inr y, r)"
    by (auto simp: sbind_Inr_iff)
  from parsesD [OF assms(1) *(1)] obtain b1 p1 where
    1: "rest = b1 @ p1" "r1 = at (pre @ b1) p1" "P x b1" by blast
  from parsesD [OF assms(2) [OF 1(3)]] *(2) 1(2) obtain b2 post where
    2: "p1 = b2 @ post" "r = at ((pre @ b1) @ b2) post" "Q y (b1 @ b2)" by blast
  from 1 2 show "\<exists>bs post. rest = bs @ post \<and> r = at (pre @ bs) post \<and> Q y bs"
    by (intro exI [of _ "b1 @ b2"] exI [of _ post]) simp
qed

lemma parses_sres: "(\<And>x. r = Inr x \<Longrightarrow> parses (f x) P) \<Longrightarrow> parses (sbind (sres r) f) P"
  by (cases r) (simp_all add: sbind_sres)

lemma parses_u8: "parses reader_u8 (\<lambda>y bs. bs = [y])"
proof (rule parsesI)
  fix pre rest y r assume "reader_u8 (at pre rest) = (Inr y, r)"
  then show "\<exists>bs post. rest = bs @ post \<and> r = at (pre @ bs) post \<and> bs = [y]"
    by (cases rest) (auto simp: reader_u8_def at_def result_iff sop_simps split: if_splits)
qed

lemma parses_take: "parses (reader_take n) (\<lambda>y bs. bs = y \<and> length y = n)"
proof (rule parsesI)
  fix pre rest y r assume "reader_take n (at pre rest) = (Inr y, r)"
  then have "length pre + n \<le> length (pre @ rest)" "y = take n rest"
    "r = \<lparr>rd_input = pre @ rest, rd_offset = length pre + n\<rparr>"
    by (auto simp: reader_take_def at_def result_iff checked_add_usize_def seg_def sop_simps split: if_splits)
  then show "\<exists>bs post. rest = bs @ post \<and> r = at (pre @ bs) post \<and> bs = y \<and> length y = n"
    by (intro exI [of _ "take n rest"] exI [of _ "drop n rest"]) (simp add: at_def)
qed

lemma parses_u32: "parses reader_u32 (\<lambda>y bs. bs = to_be_u32 y)"
  unfolding reader_u32_def
  by (rule parses_sbind [OF parses_take]) (auto intro!: parses_sret simp: to_from_be_u32)

lemma parses_u64: "parses reader_u64 (\<lambda>y bs. bs = to_be_u64 y)"
  unfolding reader_u64_def
  by (rule parses_sbind [OF parses_take]) (auto intro!: parses_sret simp: to_from_be_u64)

lemma parses_flag: "parses reader_flag (\<lambda>y bs. bs = [if y then 1 else 0])"
  unfolding reader_flag_def
  by (rule parses_sbind [OF parses_u8]) (auto intro!: parses_sret)

lemma parses_repeat:
  assumes "parses m (\<lambda>x. emits (f x))"
  shows "parses (s_repeat n m) (\<lambda>xs bs. length xs = n \<and> emits (s_for f xs) bs)"
proof (induction n)
  case 0
  then show ?case by (auto intro!: parses_sret simp: emits_iff)
next
  case (Suc n)
  show ?case
    by (auto intro!: parses_sbind [OF assms] parses_sbind [OF Suc] parses_sret emits_seq)
qed

section \<open>Wire formats\<close>

text \<open>What every message part promises: its writer appends the same bytes to any writer, its reader
  takes exactly those bytes back, and its reader accepts nothing else.\<close>

locale wire_format =
  fixes put :: "'a \<Rightarrow> wtr"
    and get :: "'a rdr"
  assumes put_uniform: "uniform (put x)"
    and get_put: "emits (put x) bs \<Longrightarrow> reads get bs x"
    and put_get: "parses get (\<lambda>x. emits (put x))"
begin

lemma get_put_list: "emits (s_for put xs) bs \<Longrightarrow> reads (s_repeat (length xs) get) bs xs"
  by (rule reads_repeat [where f = put]) (simp_all add: get_put put_uniform)

lemma put_get_list: "parses (s_repeat n get) (\<lambda>xs bs. length xs = n \<and> emits (s_for put xs) bs)"
  by (rule parses_repeat) (rule put_get)

lemma put_list_uniform: "uniform (s_for put xs)"
  by (rule uniform_s_for) (rule put_uniform)

lemma prefix_free:
  assumes "emits (put x) bs" and "emits (put y) (bs @ cs)" and "length (bs @ cs) \<le> usize_max"
  shows "x = y \<and> cs = []"
proof -
  have "get (at [] (bs @ cs)) = (Inr x, at bs cs)" "get (at [] (bs @ cs)) = (Inr y, at (bs @ cs) [])"
    using readsD [OF get_put [OF assms(1)], of "[]" cs] readsD [OF get_put [OF assms(2)], of "[]" "[]"] assms(3)
    by simp_all
  then show ?thesis by (simp add: at_def)
qed

end

lemma u32_try_from_Inr [result_iff]: "u32_try_from n = Inr v \<longleftrightarrow> n < 2 ^ 32 \<and> unat v = n"
  by (auto simp: u32_try_from_def unat_of_nat_u32)

lemma uniform_primitives [uniform_rules]:
  "uniform (writer_u8 b)" "uniform (writer_u32 v)" "uniform (writer_u64 u)"
  by (simp_all add: writer_u8_def writer_u32_def writer_u64_def uniform_append)

lemma emits_primitives [emits_iff]:
  "emits (writer_u8 b) bs \<longleftrightarrow> bs = [b]"
  "emits (writer_u32 v) bs \<longleftrightarrow> bs = to_be_u32 v"
  "emits (writer_u64 u) bs \<longleftrightarrow> bs = to_be_u64 u"
  by (simp_all add: writer_u8_def writer_u32_def writer_u64_def emits_iff)

lemma emits_u8: "emits (f ()) bs \<Longrightarrow> emits (sbind (writer_u8 b) f) (b # bs)"
  using emits_seq [of "writer_u8 b" "[b]" f bs] by (simp add: emits_iff)

lemma uniform_bytes [uniform_rules]: "uniform (encode_bytes v maximum)"
  by (auto simp: encode_bytes_def writer_bytes_raw_def intro!: uniform_rules)

lemma emits_bytes [emits_iff]:
  "emits (encode_bytes v maximum) bs \<longleftrightarrow>
     length v \<le> maximum \<and> length v < 2 ^ 32 \<and> bs = to_be_u32 (of_nat (length v)) @ v"
  by (auto simp: encode_bytes_def writer_bytes_raw_def emits_iff uniform_rules result_iff unat_of_nat_u32
      intro!: exI [of _ "of_nat (length v)"] dest!: sym [of "unat _"])

lemma emits_count [emits_iff]:
  "emits (encode_count n maximum) bs \<longleftrightarrow> n \<le> maximum \<and> n < 2 ^ 32 \<and> bs = to_be_u32 (of_nat n)"
  "emits (encode_limit n maximum) bs \<longleftrightarrow> n \<le> maximum \<and> n < 2 ^ 32 \<and> bs = to_be_u32 (of_nat n)"
  by (auto simp: encode_count_def encode_limit_def emits_iff result_iff unat_of_nat_u32
      intro!: exI [of _ "of_nat n"] dest!: sym [of "unat _"])

interpretation wire_u64: wire_format writer_u64 reader_u64
  by unfold_locales (auto simp: uniform_rules emits_iff reads_u64 intro: parses_weaken [OF parses_u64])

interpretation wire_bytes: wire_format "\<lambda>v. encode_bytes v maximum" "reader_bytes maximum" for maximum
proof
  fix v bs
  show "uniform (encode_bytes v maximum)" by (rule uniform_bytes)
  show "reads (reader_bytes maximum) bs v" if e: "emits (encode_bytes v maximum) bs"
    unfolding reader_bytes_def using e
    by (intro reads_sbind [OF reads_u32]) (auto simp: emits_iff unat_of_nat_u32 sbind_sres intro: reads_take)
  show "parses (reader_bytes maximum) (\<lambda>v. emits (encode_bytes v maximum))"
    unfolding reader_bytes_def
    by (rule parses_sbind [OF parses_u32], rule parses_sres, rule parses_weaken [OF parses_take])
      (auto simp: emits_iff result_iff unsigned_less [of "_ :: u32", simplified])
qed

interpretation wire_count: wire_format "\<lambda>n. encode_count n maximum" "reader_count maximum" for maximum
proof
  fix n bs
  show "uniform (encode_count n maximum)"
    by (auto simp: encode_count_def intro!: uniform_rules)
  show "reads (reader_count maximum) bs n" if e: "emits (encode_count n maximum) bs"
    unfolding reader_count_def using e
    by (intro reads_sbind [OF reads_u32, where ?b2.0 = "[]"])
      (auto simp: emits_iff unat_of_nat_u32 sbind_sres reads_sret)
  show "parses (reader_count maximum) (\<lambda>n. emits (encode_count n maximum))"
    unfolding reader_count_def
    by (rule parses_sbind [OF parses_u32], rule parses_sres, rule parses_sret)
      (auto simp: emits_iff result_iff unsigned_less [of "_ :: u32", simplified])
qed

interpretation wire_optional_bytes:
  wire_format "\<lambda>v. encode_optional_bytes v maximum" "reader_optional_bytes maximum" for maximum
proof
  fix v bs
  show "uniform (encode_optional_bytes v maximum)"
    by (cases v) (auto intro!: uniform_rules)
  show "reads (reader_optional_bytes maximum) bs v" if e: "emits (encode_optional_bytes v maximum) bs"
  proof (cases v)
    case None
    with e have "bs = [if False then 1 else 0] @ []" by (simp add: emits_iff)
    with None show ?thesis
      unfolding reader_optional_bytes_def by (intro reads_sbind [OF reads_flag [of False]]) (auto simp: reads_sret)
  next
    case (Some u)
    with e obtain b where b: "bs = [if True then 1 else 0] @ b" "emits (encode_bytes u maximum) b"
      by (auto simp: emits_iff uniform_rules)
    from wire_bytes.get_put [OF b(2)] Some b(1) show ?thesis
      unfolding reader_optional_bytes_def by (intro reads_sbind [OF reads_flag [of True]]) (auto intro!: reads_ret)
  qed
  show "parses (reader_optional_bytes maximum) (\<lambda>v. emits (encode_optional_bytes v maximum))"
    unfolding reader_optional_bytes_def
    by (rule parses_sbind [OF parses_flag])
      (auto intro!: parses_sbind [OF wire_bytes.put_get] parses_sret emits_u8 simp: emits_iff)
qed

text \<open>A list is written as its length and its elements.\<close>

context wire_format
begin

lemma counted:
  "wire_format (\<lambda>xs. sbind (encode_count (length xs) maximum) (\<lambda>_. s_for put xs))
     (sbind (reader_count maximum) (\<lambda>n. s_repeat n get))"
proof
  fix xs bs
  show "uniform (sbind (encode_count (length xs) maximum) (\<lambda>_. s_for put xs))"
    by (intro uniform_sbind wire_count.put_uniform put_list_uniform)
  show "reads (sbind (reader_count maximum) (\<lambda>n. s_repeat n get)) bs xs"
    if "emits (sbind (encode_count (length xs) maximum) (\<lambda>_. s_for put xs)) bs"
    using that
    by (auto simp: emits_sbind wire_count.put_uniform put_list_uniform
        intro!: reads_sbind [OF wire_count.get_put] get_put_list)
  show "parses (sbind (reader_count maximum) (\<lambda>n. s_repeat n get))
     (\<lambda>xs. emits (sbind (encode_count (length xs) maximum) (\<lambda>_. s_for put xs)))"
    by (rule parses_sbind [OF wire_count.put_get], rule parses_weaken [OF put_get_list])
      (auto intro: emits_seq)
qed

end

section \<open>Whole payloads\<close>

text \<open>Running a writer from empty, and a reader over a payload that it must consume.\<close>

lemma run_writer:
  assumes "uniform m"
  shows "(case m [] of (Inl e, _) \<Rightarrow> Inl e | (Inr _, payload) \<Rightarrow> g payload) = Inr y \<longleftrightarrow>
    (\<exists>payload. emits m payload \<and> g payload = Inr y)"
proof (cases "m []")
  case (Pair r w)
  show ?thesis
  proof (cases r)
    case (Inl e)
    with Pair have "\<not> emits m payload" for payload using emitsD [of m payload "[]"] by auto
    with Pair Inl show ?thesis by simp
  next
    case (Inr u)
    with Pair uniformD [OF assms, of "[]" w] have "emits m w" by auto
    then have "emits m payload \<longleftrightarrow> payload = w" for payload using emits_det by blast
    with Pair Inr show ?thesis by simp
  qed
qed

lemma reader_new_at: "reader_new payload = at [] payload"
  by (simp add: reader_new_def at_def)

lemma reader_finish_at [simp]: "reader_finish (at pre post) \<longleftrightarrow> post = []"
  by (simp add: reader_finish_def at_def)

lemma run_reader_reads:
  assumes "reads m payload y" and "length payload \<le> usize_max"
  shows "(case m (reader_new payload) of (Inl e, _) \<Rightarrow> Inl e
            | (Inr r, rd) \<Rightarrow> ok_or (if reader_finish rd then Some r else None) TrailingBytes) = Inr y"
  using readsD [OF assms(1), of "[]" "[]"] assms(2) by (simp add: reader_new_at)

lemma run_reader_parses:
  assumes "parses m P"
    and "(case m (reader_new payload) of (Inl e, _) \<Rightarrow> Inl e
            | (Inr r, rd) \<Rightarrow> ok_or (if reader_finish rd then Some r else None) TrailingBytes) = Inr y"
  shows "P y payload"
proof -
  from assms(2) obtain rd where m: "m (at [] payload) = (Inr y, rd)" "reader_finish rd"
    by (auto simp: reader_new_at split: prod.splits sum.splits if_splits)
  from parsesD [OF assms(1) m(1)] obtain bs post where
    "payload = bs @ post" "rd = at ([] @ bs) post" "P y bs" by blast
  with m(2) show ?thesis by simp
qed

context wire_format
begin

lemma run_reader:
  "length payload \<le> usize_max \<Longrightarrow>
   (case get (reader_new payload) of (Inl e, _) \<Rightarrow> Inl e
      | (Inr r, rd) \<Rightarrow> ok_or (if reader_finish rd then Some r else None) TrailingBytes) = Inr x \<longleftrightarrow>
   emits (put x) payload"
  using run_reader_reads [OF get_put] run_reader_parses [OF put_get] by metis

lemma prefixed_u64:
  "wire_format (\<lambda>(t, x). sbind (writer_u64 t) (\<lambda>_. put x)) (sbind reader_u64 (\<lambda>t. sbind get (\<lambda>x. sret (t, x))))"
proof
  fix tx bs
  show "uniform (case tx of (t, x) \<Rightarrow> sbind (writer_u64 t) (\<lambda>_. put x))"
    by (cases tx) (auto intro!: uniform_rules put_uniform)
  show "reads (sbind reader_u64 (\<lambda>t. sbind get (\<lambda>x. sret (t, x)))) bs tx"
    if "emits (case tx of (t, x) \<Rightarrow> sbind (writer_u64 t) (\<lambda>_. put x)) bs"
    using that by (cases tx) (auto simp: emits_iff uniform_rules put_uniform
        intro!: reads_u64_then reads_ret get_put)
  show "parses (sbind reader_u64 (\<lambda>t. sbind get (\<lambda>x. sret (t, x))))
      (\<lambda>tx. emits (case tx of (t, x) \<Rightarrow> sbind (writer_u64 t) (\<lambda>_. put x)))"
    by (rule parses_sbind [OF parses_u64], rule parses_sbind [OF put_get], rule parses_sret)
      (auto intro!: emits_seq simp: emits_iff)
qed

end

end
