(* ===== verification/Dodb_Protocol.thy ===== *)
theory Dodb_Protocol
  imports Dodb_Service Dodb_Wire
begin

text \<open>
  The frames of \<open>dodb-protocol\<close>: limits, frame headers, the request and response payloads and the
  application errors, in the order of \<open>lib.rs\<close>. A decoder and its encoder are interpreted as a
  \<open>wire_format\<close> part by part; the properties state that a request frame decodes to a request
  exactly when the request encodes to that frame, and the same for responses. The text of a core
  error is an argument where the code copies it into a response.
\<close>

section \<open>Limits\<close>

definition MAGIC :: bytes where "MAGIC = [0x44, 0x4F, 0x44, 0x42]"
definition PROTOCOL_VERSION :: u16 where "PROTOCOL_VERSION = 1"
definition HEADER_SIZE :: nat where "HEADER_SIZE = 11"
definition REQUEST_MESSAGE_TYPE :: byte where "REQUEST_MESSAGE_TYPE = 1"
definition RESPONSE_MESSAGE_TYPE :: byte where "RESPONSE_MESSAGE_TYPE = 2"
definition MAX_STORAGE_VALUE_SIZE :: nat where "MAX_STORAGE_VALUE_SIZE = 64 * 1024 * 1024"
definition MAX_STORAGE_KEY_COMPONENT_SIZE :: nat where "MAX_STORAGE_KEY_COMPONENT_SIZE = 3990"
definition MAX_STORAGE_ENCODED_KEY_SIZE :: nat where "MAX_STORAGE_ENCODED_KEY_SIZE = 3992"

record protocol_limits =
  max_request_frame_size :: nat
  max_response_frame_size :: nat
  max_key_component_size :: nat
  max_encoded_key_size :: nat
  lim_max_value_size :: nat
  max_keys :: nat
  max_conditions :: nat
  max_mutations :: nat
  max_query_limit :: nat
  max_scan_limit :: nat
  max_error_detail_size :: nat

definition limits_default :: protocol_limits where
  "limits_default =
     \<lparr>max_request_frame_size = 68 * 1024 * 1024,
      max_response_frame_size = 68 * 1024 * 1024,
      max_key_component_size = MAX_STORAGE_KEY_COMPONENT_SIZE,
      max_encoded_key_size = MAX_STORAGE_ENCODED_KEY_SIZE,
      lim_max_value_size = MAX_STORAGE_VALUE_SIZE,
      max_keys = 4096,
      max_conditions = 256,
      max_mutations = 256,
      max_query_limit = 4096,
      max_scan_limit = 4096,
      max_error_detail_size = 4096\<rparr>"

definition limits_validate :: "protocol_limits \<Rightarrow> protocol_error + unit" where
  "limits_validate l =
     (if max_request_frame_size l < HEADER_SIZE \<or> max_response_frame_size l < HEADER_SIZE \<or>
         max_key_component_size l = 0 \<or> max_encoded_key_size l = 0 \<or> lim_max_value_size l = 0 \<or>
         max_keys l = 0 \<or> max_conditions l = 0 \<or> max_mutations l = 0 \<or> max_query_limit l = 0 \<or>
         max_scan_limit l = 0 \<or> max_error_detail_size l = 0
      then Inl InvalidLimits
      else if max_key_component_size l > MAX_STORAGE_KEY_COMPONENT_SIZE \<or>
              max_encoded_key_size l > MAX_STORAGE_ENCODED_KEY_SIZE \<or>
              lim_max_value_size l > MAX_STORAGE_VALUE_SIZE
      then Inl InvalidLimits
      else Inr ())"

section \<open>Application errors\<close>

datatype error_kind =
    KInvalidRequest
  | KOverloaded
  | KConflict
  | KResponseTooLarge
  | KStorageFailure
  | KCorruption
  | KDurabilityFailure
  | KInternal
  | KUnsupportedProtocol

datatype outcome_kind = NotApplicable | NotApplied | OutcomeUnknown

record conflict_details =
  cd_key :: document_key
  cd_expected :: condition_expectation
  cd_actual :: observed_state

record application_error =
  ae_kind :: error_kind
  ae_detail :: rust_string
  ae_mutation_outcome :: outcome_kind
  ae_conflict :: "conflict_details option"

definition conflict_details_from :: "transaction_conflict \<Rightarrow> conflict_details" where
  "conflict_details_from c =
     \<lparr>cd_key = conflict_key c, cd_expected = conflict_expected c, cd_actual = conflict_actual c\<rparr>"

definition ae_invalid_request :: "rust_string \<Rightarrow> application_error" where
  "ae_invalid_request detail =
     \<lparr>ae_kind = KInvalidRequest, ae_detail = detail, ae_mutation_outcome = NotApplied, ae_conflict = None\<rparr>"

text \<open>The literal \<open>transaction condition conflict\<close>.\<close>

definition conflict_text :: rust_string where
  "conflict_text = map of_char ''transaction condition conflict''"

definition from_core :: "error \<Rightarrow> rust_string \<Rightarrow> application_error" where
  "from_core e detail =
     (case e of
        InvalidInput \<Rightarrow>
          \<lparr>ae_kind = KInvalidRequest, ae_detail = detail, ae_mutation_outcome = NotApplied, ae_conflict = None\<rparr>
      | InvalidRequest \<Rightarrow>
          \<lparr>ae_kind = KInvalidRequest, ae_detail = detail, ae_mutation_outcome = NotApplied, ae_conflict = None\<rparr>
      | Overloaded \<Rightarrow>
          \<lparr>ae_kind = KOverloaded, ae_detail = detail, ae_mutation_outcome = NotApplied, ae_conflict = None\<rparr>
      | Conflict conflict \<Rightarrow>
          \<lparr>ae_kind = KConflict, ae_detail = conflict_text, ae_mutation_outcome = NotApplied,
           ae_conflict = Some (conflict_details_from conflict)\<rparr>
      | ResponseTooLarge \<Rightarrow>
          \<lparr>ae_kind = KResponseTooLarge, ae_detail = detail, ae_mutation_outcome = NotApplied, ae_conflict = None\<rparr>
      | Corruption \<Rightarrow>
          \<lparr>ae_kind = KCorruption, ae_detail = detail, ae_mutation_outcome = OutcomeUnknown, ae_conflict = None\<rparr>
      | Io \<Rightarrow>
          \<lparr>ae_kind = KStorageFailure, ae_detail = detail, ae_mutation_outcome = OutcomeUnknown, ae_conflict = None\<rparr>
      | UnsupportedFormat \<Rightarrow>
          \<lparr>ae_kind = KStorageFailure, ae_detail = detail, ae_mutation_outcome = OutcomeUnknown, ae_conflict = None\<rparr>
      | RecoveryFailure \<Rightarrow>
          \<lparr>ae_kind = KStorageFailure, ae_detail = detail, ae_mutation_outcome = OutcomeUnknown, ae_conflict = None\<rparr>
      | CheckpointFailure \<Rightarrow>
          \<lparr>ae_kind = KStorageFailure, ae_detail = detail, ae_mutation_outcome = OutcomeUnknown, ae_conflict = None\<rparr>
      | DurabilityFailure \<Rightarrow>
          \<lparr>ae_kind = KDurabilityFailure, ae_detail = detail, ae_mutation_outcome = OutcomeUnknown, ae_conflict = None\<rparr>
      | InternalInvariantViolation \<Rightarrow>
          \<lparr>ae_kind = KInternal, ae_detail = detail, ae_mutation_outcome = OutcomeUnknown, ae_conflict = None\<rparr>)"

definition from_core_for_request :: "error \<Rightarrow> rust_string \<Rightarrow> bool \<Rightarrow> application_error" where
  "from_core_for_request e detail is_mutation =
     (if \<not> is_mutation then (from_core e detail)\<lparr>ae_mutation_outcome := NotApplicable\<rparr>
      else from_core e detail)"

definition from_protocol :: "protocol_error \<Rightarrow> rust_string \<Rightarrow> application_error" where
  "from_protocol e detail =
     \<lparr>ae_kind = (case e of UnsupportedVersion _ \<Rightarrow> KUnsupportedProtocol
                        | UnknownMessageType _ \<Rightarrow> KUnsupportedProtocol
                        | _ \<Rightarrow> KInvalidRequest),
      ae_detail = detail, ae_mutation_outcome = NotApplied, ae_conflict = None\<rparr>"

datatype response_envelope = Success response | Failure application_error

section \<open>Frames\<close>

record wire_frame_header =
  fh_version :: u16
  fh_message_type :: byte
  fh_payload_length :: nat

definition decode_wire_header :: "bytes \<Rightarrow> protocol_error + wire_frame_header" where
  "decode_wire_header bs =
     rbind (ensure (\<not> length bs < HEADER_SIZE) TruncatedHeader) (\<lambda>_.
     rbind (ensure (seg 0 4 bs = MAGIC) InvalidMagic) (\<lambda>_.
     let version = from_be_u16 (seg 4 6 bs) in
     rbind (ensure (version = PROTOCOL_VERSION) (UnsupportedVersion version)) (\<lambda>_.
     let message_type = bs ! 6 in
     rbind (ensure (\<not> (message_type \<noteq> REQUEST_MESSAGE_TYPE \<and> message_type \<noteq> RESPONSE_MESSAGE_TYPE))
              (UnknownMessageType message_type)) (\<lambda>_.
     Inr \<lparr>fh_version = version, fh_message_type = message_type,
          fh_payload_length = unat (from_be_u32 (seg 7 11 bs))\<rparr>))))"

definition encode_wire_frame :: "byte \<Rightarrow> bytes \<Rightarrow> nat \<Rightarrow> protocol_error + bytes" where
  "encode_wire_frame message_type payload maximum_frame_size =
     rbind (ok_or (checked_add_usize HEADER_SIZE (length payload)) LengthOverflow) (\<lambda>frame_length.
     rbind (ensure (\<not> frame_length > maximum_frame_size) (PayloadTooLarge frame_length maximum_frame_size)) (\<lambda>_.
     rbind (u32_try_from (length payload)) (\<lambda>payload_length.
     Inr (MAGIC @ to_be_u16 PROTOCOL_VERSION @ [message_type] @ to_be_u32 payload_length @ payload))))"

definition validate_payload_length :: "wire_frame_header \<Rightarrow> bytes \<Rightarrow> nat \<Rightarrow> protocol_error + unit" where
  "validate_payload_length header payload maximum_frame_size =
     rbind (ok_or (checked_add_usize HEADER_SIZE (fh_payload_length header)) LengthOverflow) (\<lambda>frame_length.
     rbind (ensure (\<not> frame_length > maximum_frame_size) (PayloadTooLarge frame_length maximum_frame_size)) (\<lambda>_.
     if length payload \<noteq> fh_payload_length header
     then Inl (if length payload < fh_payload_length header then TruncatedPayload else TrailingBytes)
     else Inr ()))"

section \<open>Keys\<close>

definition validate_key_parts :: "bytes \<Rightarrow> bytes \<Rightarrow> protocol_limits \<Rightarrow> protocol_error + unit" where
  "validate_key_parts p s limits =
     (let n = encoded_len (DocumentKey p s)
      in if n > max_encoded_key_size limits then Inl (KeyTooLarge n (max_encoded_key_size limits)) else Inr ())"

definition validate_key :: "document_key \<Rightarrow> protocol_limits \<Rightarrow> protocol_error + unit" where
  "validate_key key limits = validate_key_parts (pk key) (sk key) limits"

definition encode_key :: "document_key \<Rightarrow> protocol_limits \<Rightarrow> wtr" where
  "encode_key key limits =
     sbind (sres (validate_key key limits)) (\<lambda>_.
     sbind (encode_bytes (pk key) (max_key_component_size limits)) (\<lambda>_.
     encode_bytes (sk key) (max_key_component_size limits)))"

definition decode_key :: "protocol_limits \<Rightarrow> document_key rdr" where
  "decode_key limits =
     sbind (reader_bytes (max_key_component_size limits)) (\<lambda>p.
     sbind (reader_bytes (max_key_component_size limits)) (\<lambda>s.
     sbind (sres (validate_key (DocumentKey p s) limits)) (\<lambda>_.
     sret (DocumentKey p s))))"

fun encode_optional_key :: "document_key option \<Rightarrow> protocol_limits \<Rightarrow> wtr" where
  "encode_optional_key (Some key) limits = sbind (writer_u8 1) (\<lambda>_. encode_key key limits)"
| "encode_optional_key None limits = writer_u8 0"

definition decode_optional_key :: "protocol_limits \<Rightarrow> document_key option rdr" where
  "decode_optional_key limits =
     sbind reader_flag (\<lambda>f.
     if f then sbind (decode_key limits) (\<lambda>key. sret (Some key)) else sret None)"

section \<open>Transactions\<close>

fun encode_condition :: "protocol_limits \<Rightarrow> transaction_condition \<Rightarrow> wtr" where
  "encode_condition limits (RevisionEquals key r) =
     sbind (writer_u8 0) (\<lambda>_. sbind (encode_key key limits) (\<lambda>_. writer_u64 r))"
| "encode_condition limits (Exists key) = sbind (writer_u8 1) (\<lambda>_. encode_key key limits)"
| "encode_condition limits (NotExists key) = sbind (writer_u8 2) (\<lambda>_. encode_key key limits)"

definition encode_conditions :: "transaction_condition list \<Rightarrow> protocol_limits \<Rightarrow> wtr" where
  "encode_conditions conditions limits =
     sbind (encode_count (length conditions) (max_conditions limits)) (\<lambda>_.
     s_for (encode_condition limits) conditions)"

definition decode_condition :: "protocol_limits \<Rightarrow> transaction_condition rdr" where
  "decode_condition limits =
     sbind reader_u8 (\<lambda>kind.
     sbind (decode_key limits) (\<lambda>key.
     if kind = 0 then sbind reader_u64 (\<lambda>r. sret (RevisionEquals key r))
     else if kind = 1 then sret (Exists key)
     else if kind = 2 then sret (NotExists key)
     else sfail (InvalidExpectation kind)))"

definition decode_conditions :: "protocol_limits \<Rightarrow> transaction_condition list rdr" where
  "decode_conditions limits =
     sbind (reader_count (max_conditions limits)) (\<lambda>n. s_repeat n (decode_condition limits))"

fun encode_mutation :: "protocol_limits \<Rightarrow> transaction_mutation \<Rightarrow> wtr" where
  "encode_mutation limits (MPut key v) =
     sbind (writer_u8 0) (\<lambda>_. sbind (encode_key key limits) (\<lambda>_. writer_bytes v (lim_max_value_size limits)))"
| "encode_mutation limits (MDelete key) = sbind (writer_u8 1) (\<lambda>_. encode_key key limits)"

definition encode_mutations :: "transaction_mutation list \<Rightarrow> protocol_limits \<Rightarrow> wtr" where
  "encode_mutations mutations limits =
     sbind (encode_count (length mutations) (max_mutations limits)) (\<lambda>_.
     s_for (encode_mutation limits) mutations)"

definition decode_mutation :: "protocol_limits \<Rightarrow> transaction_mutation rdr" where
  "decode_mutation limits =
     sbind reader_u8 (\<lambda>kind.
     sbind (decode_key limits) (\<lambda>key.
     if kind = 0 then sbind (reader_bytes (lim_max_value_size limits)) (\<lambda>v. sret (MPut key v))
     else if kind = 1 then sret (MDelete key)
     else sfail (InvalidOpcode kind)))"

definition decode_mutations :: "protocol_limits \<Rightarrow> transaction_mutation list rdr" where
  "decode_mutations limits =
     sbind (reader_count (max_mutations limits)) (\<lambda>n. s_repeat n (decode_mutation limits))"

section \<open>Requests\<close>

fun request_opcode :: "request \<Rightarrow> byte" where
  "request_opcode (ReqGet _) = 1"
| "request_opcode (ReqPut _ _) = 2"
| "request_opcode (ReqDelete _) = 3"
| "request_opcode (ReqQuery _ _ _) = 4"
| "request_opcode (ReqScan _ _) = 5"
| "request_opcode (ReqTransact _) = 8"

definition encode_request_payload :: "request \<Rightarrow> protocol_limits \<Rightarrow> wtr" where
  "encode_request_payload request limits =
     sbind (writer_u8 (request_opcode request)) (\<lambda>_.
     case request of
       ReqGet key \<Rightarrow> encode_key key limits
     | ReqPut key v \<Rightarrow>
         sbind (encode_key key limits) (\<lambda>_. writer_bytes v (lim_max_value_size limits))
     | ReqDelete key \<Rightarrow> encode_key key limits
     | ReqQuery p exclusive_after_sk n \<Rightarrow>
         sbind (sres (validate_key_parts p (case exclusive_after_sk of None \<Rightarrow> [] | Some s \<Rightarrow> s) limits)) (\<lambda>_.
         sbind (encode_bytes p (max_key_component_size limits)) (\<lambda>_.
         sbind (encode_optional_bytes exclusive_after_sk (max_key_component_size limits)) (\<lambda>_.
         encode_limit n (max_query_limit limits))))
     | ReqScan exclusive_after_key n \<Rightarrow>
         sbind (encode_optional_key exclusive_after_key limits) (\<lambda>_.
         encode_limit n (max_scan_limit limits))
     | ReqTransact t \<Rightarrow>
         sbind (encode_conditions (req_conditions t) limits) (\<lambda>_.
         encode_mutations (req_mutations t) limits))"

definition decode_request_payload :: "protocol_limits \<Rightarrow> request rdr" where
  "decode_request_payload limits =
     sbind reader_u8 (\<lambda>opcode.
     if opcode = 1 then sbind (decode_key limits) (\<lambda>key. sret (ReqGet key))
     else if opcode = 2 then
       sbind (decode_key limits) (\<lambda>key.
       sbind (reader_bytes (lim_max_value_size limits)) (\<lambda>v. sret (ReqPut key v)))
     else if opcode = 3 then sbind (decode_key limits) (\<lambda>key. sret (ReqDelete key))
     else if opcode = 4 then
       sbind (reader_bytes (max_key_component_size limits)) (\<lambda>p.
       sbind (reader_optional_bytes (max_key_component_size limits)) (\<lambda>exclusive_after_sk.
       sbind (sres (validate_key_parts p (case exclusive_after_sk of None \<Rightarrow> [] | Some s \<Rightarrow> s) limits)) (\<lambda>_.
       sbind (reader_limit (max_query_limit limits)) (\<lambda>n.
       sret (ReqQuery p exclusive_after_sk n)))))
     else if opcode = 5 then
       sbind (decode_optional_key limits) (\<lambda>exclusive_after_key.
       sbind (reader_limit (max_scan_limit limits)) (\<lambda>n.
       sret (ReqScan exclusive_after_key n)))
     else if opcode = 8 then
       sbind (decode_conditions limits) (\<lambda>conditions.
       sbind (decode_mutations limits) (\<lambda>mutations.
       sret (ReqTransact \<lparr>req_conditions = conditions, req_mutations = mutations\<rparr>)))
     else sfail (InvalidOpcode opcode))"

definition encode_request :: "tenant_id \<Rightarrow> request \<Rightarrow> protocol_limits \<Rightarrow> protocol_error + bytes" where
  "encode_request tenant request limits =
     rbind (limits_validate limits) (\<lambda>_.
     case sbind (writer_u64 tenant) (\<lambda>_. encode_request_payload request limits) [] of
       (Inl e, _) \<Rightarrow> Inl e
     | (Inr _, payload) \<Rightarrow> encode_wire_frame REQUEST_MESSAGE_TYPE payload (max_request_frame_size limits))"

definition decode_request_parts ::
  "wire_frame_header \<Rightarrow> bytes \<Rightarrow> protocol_limits \<Rightarrow> protocol_error + (tenant_id \<times> request)" where
  "decode_request_parts header payload limits =
     rbind (limits_validate limits) (\<lambda>_.
     rbind (validate_payload_length header payload (max_request_frame_size limits)) (\<lambda>_.
     rbind (ensure (fh_message_type header = REQUEST_MESSAGE_TYPE) (UnknownMessageType (fh_message_type header))) (\<lambda>_.
     case sbind reader_u64 (\<lambda>tenant. sbind (decode_request_payload limits) (\<lambda>request. sret (tenant, request)))
            (reader_new payload) of
       (Inl e, _) \<Rightarrow> Inl e
     | (Inr r, reader) \<Rightarrow> ok_or (if reader_finish reader then Some r else None) TrailingBytes)))"

text \<open>The header and length checks that both frame decoders begin with.\<close>

definition split_frame :: "bytes \<Rightarrow> protocol_error + (wire_frame_header \<times> bytes)" where
  "split_frame frame =
     rbind (ok_or (if HEADER_SIZE \<le> length frame then Some (seg 0 HEADER_SIZE frame) else None) TruncatedHeader)
       (\<lambda>head.
     rbind (decode_wire_header head) (\<lambda>header.
     if length frame \<noteq> HEADER_SIZE + fh_payload_length header
     then Inl (if length frame < HEADER_SIZE + fh_payload_length header then TruncatedPayload else TrailingBytes)
     else Inr (header, drop HEADER_SIZE frame)))"

definition decode_request_frame ::
  "bytes \<Rightarrow> protocol_limits \<Rightarrow> protocol_error + (tenant_id \<times> request)" where
  "decode_request_frame frame limits =
     rbind (split_frame frame) (\<lambda>(header, payload). decode_request_parts header payload limits)"

section \<open>Responses\<close>

fun response_opcode :: "response \<Rightarrow> byte" where
  "response_opcode (RespGet _) = 1"
| "response_opcode (RespPut _) = 2"
| "response_opcode (RespDelete _) = 3"
| "response_opcode (RespQuery _) = 4"
| "response_opcode (RespScan _) = 5"
| "response_opcode (RespTransact _) = 8"

definition encode_transaction_outcome :: "transaction_outcome \<Rightarrow> wtr" where
  "encode_transaction_outcome outcome =
     (case to_commit_lsn outcome of
        Some l \<Rightarrow> sbind (writer_u8 1) (\<lambda>_. writer_u64 l)
      | None \<Rightarrow> writer_u8 0)"

definition decode_transaction_outcome :: "transaction_outcome rdr" where
  "decode_transaction_outcome =
     sbind reader_u8 (\<lambda>flag.
     if flag = 0 then sret outcome_conditions_satisfied
     else if flag = 1 then sbind reader_u64 (\<lambda>l. sret (outcome_committed l))
     else sfail (InvalidFlag flag))"

definition encode_document :: "protocol_limits \<Rightarrow> service_document \<Rightarrow> wtr" where
  "encode_document limits d =
     sbind (encode_key (sd_key d) limits) (\<lambda>_.
     sbind (writer_bytes (sd_value d) (lim_max_value_size limits)) (\<lambda>_.
     writer_u64 (sd_revision d)))"

definition encode_documents :: "service_document list \<Rightarrow> protocol_limits \<Rightarrow> wtr" where
  "encode_documents ds limits =
     sbind (encode_count (length ds) (max_scan_limit limits)) (\<lambda>_.
     s_for (encode_document limits) ds)"

definition decode_document :: "protocol_limits \<Rightarrow> service_document rdr" where
  "decode_document limits =
     sbind (decode_key limits) (\<lambda>key.
     sbind (reader_bytes (lim_max_value_size limits)) (\<lambda>v.
     sbind reader_u64 (\<lambda>r.
     sret \<lparr>sd_key = key, sd_value = v, sd_revision = r\<rparr>)))"

definition decode_documents :: "protocol_limits \<Rightarrow> service_document list rdr" where
  "decode_documents limits =
     sbind (reader_count (max_scan_limit limits)) (\<lambda>n. s_repeat n (decode_document limits))"

fun encode_revision_state :: "revision_state \<Rightarrow> protocol_limits \<Rightarrow> wtr" where
  "encode_revision_state (Present v r) limits =
     sbind (writer_u8 0) (\<lambda>_. sbind (writer_bytes v (lim_max_value_size limits)) (\<lambda>_. writer_u64 r))"
| "encode_revision_state (Missing r) limits = sbind (writer_u8 1) (\<lambda>_. writer_u64 r)"

definition decode_revision_state :: "protocol_limits \<Rightarrow> revision_state rdr" where
  "decode_revision_state limits =
     sbind reader_u8 (\<lambda>tag.
     if tag = 0 then
       sbind (reader_bytes (lim_max_value_size limits)) (\<lambda>v. sbind reader_u64 (\<lambda>r. sret (Present v r)))
     else if tag = 1 then sbind reader_u64 (\<lambda>r. sret (Missing r))
     else sfail (InvalidRevisionState tag))"

fun encode_observed_state :: "observed_state \<Rightarrow> wtr" where
  "encode_observed_state (OPresent r) = sbind (writer_u8 0) (\<lambda>_. writer_u64 r)"
| "encode_observed_state (OMissing r) = sbind (writer_u8 1) (\<lambda>_. writer_u64 r)"

definition decode_observed_state :: "observed_state rdr" where
  "decode_observed_state =
     sbind reader_u8 (\<lambda>tag.
     if tag = 0 then sbind reader_u64 (\<lambda>r. sret (OPresent r))
     else if tag = 1 then sbind reader_u64 (\<lambda>r. sret (OMissing r))
     else sfail (InvalidRevisionState tag))"

definition encode_response_payload :: "response \<Rightarrow> protocol_limits \<Rightarrow> wtr" where
  "encode_response_payload response limits =
     (case response of
        RespGet state \<Rightarrow> encode_revision_state state limits
      | RespPut r \<Rightarrow> writer_u64 r
      | RespDelete r \<Rightarrow> writer_u64 r
      | RespQuery ds \<Rightarrow> encode_documents ds limits
      | RespScan ds \<Rightarrow> encode_documents ds limits
      | RespTransact outcome \<Rightarrow> encode_transaction_outcome outcome)"

definition decode_response_payload :: "byte \<Rightarrow> protocol_limits \<Rightarrow> response rdr" where
  "decode_response_payload opcode limits =
     (if opcode = 1 then sbind (decode_revision_state limits) (\<lambda>s. sret (RespGet s))
      else if opcode = 2 then sbind reader_u64 (\<lambda>r. sret (RespPut r))
      else if opcode = 3 then sbind reader_u64 (\<lambda>r. sret (RespDelete r))
      else if opcode = 4 then sbind (decode_documents limits) (\<lambda>ds. sret (RespQuery ds))
      else if opcode = 5 then sbind (decode_documents limits) (\<lambda>ds. sret (RespScan ds))
      else if opcode = 8 then sbind decode_transaction_outcome (\<lambda>t. sret (RespTransact t))
      else sfail (InvalidOpcode opcode))"

section \<open>Error responses\<close>

fun application_error_kind_code :: "error_kind \<Rightarrow> byte" where
  "application_error_kind_code KInvalidRequest = 0"
| "application_error_kind_code KOverloaded = 1"
| "application_error_kind_code KConflict = 2"
| "application_error_kind_code KStorageFailure = 3"
| "application_error_kind_code KCorruption = 4"
| "application_error_kind_code KDurabilityFailure = 5"
| "application_error_kind_code KInternal = 6"
| "application_error_kind_code KUnsupportedProtocol = 7"
| "application_error_kind_code KResponseTooLarge = 8"

definition application_error_kind :: "byte \<Rightarrow> protocol_error + error_kind" where
  "application_error_kind code =
     (if code = 0 then Inr KInvalidRequest
      else if code = 1 then Inr KOverloaded
      else if code = 2 then Inr KConflict
      else if code = 3 then Inr KStorageFailure
      else if code = 4 then Inr KCorruption
      else if code = 5 then Inr KDurabilityFailure
      else if code = 6 then Inr KInternal
      else if code = 7 then Inr KUnsupportedProtocol
      else if code = 8 then Inr KResponseTooLarge
      else Inl (InvalidErrorKind code))"

fun mutation_outcome_code :: "outcome_kind \<Rightarrow> byte" where
  "mutation_outcome_code NotApplicable = 0"
| "mutation_outcome_code NotApplied = 1"
| "mutation_outcome_code OutcomeUnknown = 2"

definition mutation_outcome :: "byte \<Rightarrow> protocol_error + outcome_kind" where
  "mutation_outcome code =
     (if code = 0 then Inr NotApplicable
      else if code = 1 then Inr NotApplied
      else if code = 2 then Inr OutcomeUnknown
      else Inl (InvalidFlag code))"

definition encode_conflict :: "conflict_details \<Rightarrow> protocol_limits \<Rightarrow> wtr" where
  "encode_conflict c limits =
     sbind (encode_key (cd_key c) limits) (\<lambda>_.
     sbind (case cd_expected c of
              ExpectRevisionEquals r \<Rightarrow> sbind (writer_u8 0) (\<lambda>_. writer_u64 r)
            | ExpectExists \<Rightarrow> writer_u8 1
            | ExpectNotExists \<Rightarrow> writer_u8 2) (\<lambda>_.
     encode_observed_state (cd_actual c)))"

definition decode_conflict :: "protocol_limits \<Rightarrow> conflict_details rdr" where
  "decode_conflict limits =
     sbind (decode_key limits) (\<lambda>key.
     sbind (sbind reader_u8 (\<lambda>tag.
              if tag = 0 then sbind reader_u64 (\<lambda>r. sret (ExpectRevisionEquals r))
              else if tag = 1 then sret ExpectExists
              else if tag = 2 then sret ExpectNotExists
              else sfail (InvalidExpectation tag))) (\<lambda>expected.
     sbind decode_observed_state (\<lambda>actual.
     sret \<lparr>cd_key = key, cd_expected = expected, cd_actual = actual\<rparr>)))"

definition encode_application_error :: "application_error \<Rightarrow> protocol_limits \<Rightarrow> wtr" where
  "encode_application_error e limits =
     sbind (writer_u8 (application_error_kind_code (ae_kind e))) (\<lambda>_.
     sbind (encode_bytes (utf8 (take (max_error_detail_size limits) (ae_detail e)))
              (max_error_detail_size limits)) (\<lambda>_.
     sbind (writer_u8 (mutation_outcome_code (ae_mutation_outcome e))) (\<lambda>_.
     case ae_conflict e of
       Some c \<Rightarrow> sbind (writer_u8 1) (\<lambda>_. encode_conflict c limits)
     | None \<Rightarrow> writer_u8 0)))"

definition decode_application_error :: "protocol_limits \<Rightarrow> application_error rdr" where
  "decode_application_error limits =
     sbind reader_u8 (\<lambda>code.
     sbind (sres (application_error_kind code)) (\<lambda>kind.
     sbind (reader_bytes (max_error_detail_size limits)) (\<lambda>text.
     sbind (sres (ok_or (from_utf8 text) InvalidUtf8)) (\<lambda>detail.
     sbind reader_u8 (\<lambda>outcome_code.
     sbind (sres (mutation_outcome outcome_code)) (\<lambda>outcome.
     sbind reader_flag (\<lambda>f.
     sbind (if f then sbind (decode_conflict limits) (\<lambda>c. sret (Some c)) else sret None) (\<lambda>conflict.
     sret \<lparr>ae_kind = kind, ae_detail = detail, ae_mutation_outcome = outcome, ae_conflict = conflict\<rparr>))))))))"

definition encode_response :: "response_envelope \<Rightarrow> protocol_limits \<Rightarrow> protocol_error + bytes" where
  "encode_response envelope limits =
     rbind (limits_validate limits) (\<lambda>_.
     case (case envelope of
             Success response \<Rightarrow>
               sbind (writer_u8 0) (\<lambda>_.
               sbind (writer_u8 (response_opcode response)) (\<lambda>_.
               encode_response_payload response limits))
           | Failure e \<Rightarrow>
               sbind (writer_u8 1) (\<lambda>_.
               encode_application_error e limits)) [] of
       (Inl e, _) \<Rightarrow> Inl e
     | (Inr _, payload) \<Rightarrow> encode_wire_frame RESPONSE_MESSAGE_TYPE payload (max_response_frame_size limits))"

definition decode_response_parts ::
  "wire_frame_header \<Rightarrow> bytes \<Rightarrow> byte option \<Rightarrow> protocol_limits \<Rightarrow> protocol_error + response_envelope" where
  "decode_response_parts header payload expected_response_type limits =
     rbind (limits_validate limits) (\<lambda>_.
     rbind (validate_payload_length header payload (max_response_frame_size limits)) (\<lambda>_.
     rbind (ensure (fh_message_type header = RESPONSE_MESSAGE_TYPE) (UnknownMessageType (fh_message_type header))) (\<lambda>_.
     case sbind reader_u8 (\<lambda>status.
            if status = 0 then
              sbind reader_u8 (\<lambda>actual.
              sbind (sres (case expected_response_type of
                             Some expected \<Rightarrow> ensure (\<not> actual \<noteq> expected) (InvalidResponseType expected actual)
                           | None \<Rightarrow> Inr ())) (\<lambda>_.
              sbind (decode_response_payload actual limits) (\<lambda>response. sret (Success response))))
            else if status = 1 then sbind (decode_application_error limits) (\<lambda>e. sret (Failure e))
            else sfail (InvalidStatus status)) (reader_new payload) of
       (Inl e, _) \<Rightarrow> Inl e
     | (Inr r, reader) \<Rightarrow> ok_or (if reader_finish reader then Some r else None) TrailingBytes)))"

definition decode_response_frame ::
  "bytes \<Rightarrow> byte option \<Rightarrow> protocol_limits \<Rightarrow> protocol_error + response_envelope" where
  "decode_response_frame frame expected_response_type limits =
     rbind (split_frame frame) (\<lambda>(header, payload).
       decode_response_parts header payload expected_response_type limits)"

section \<open>The parts as wire formats\<close>

lemma validate_key_Inr [result_iff]:
  "validate_key_parts p s limits = Inr u \<longleftrightarrow> encoded_len (DocumentKey p s) \<le> max_encoded_key_size limits"
  "validate_key key limits = Inr u \<longleftrightarrow> encoded_len key \<le> max_encoded_key_size limits"
  by (auto simp: validate_key_def validate_key_parts_def Let_def)

lemma uniform_key [uniform_rules]: "uniform (encode_key key limits)"
  unfolding encode_key_def by (intro uniform_rules)

lemma emits_key:
  "emits (encode_key key limits) bs \<longleftrightarrow>
     encoded_len key \<le> max_encoded_key_size limits \<and>
     (\<exists>b1 b2. bs = b1 @ b2 \<and> emits (encode_bytes (pk key) (max_key_component_size limits)) b1 \<and>
        emits (encode_bytes (sk key) (max_key_component_size limits)) b2)"
  by (auto simp: encode_key_def emits_sres emits_sbind uniform_rules result_iff)

interpretation wire_key: wire_format "\<lambda>key. encode_key key limits" "decode_key limits" for limits
proof
  fix key bs
  show "uniform (encode_key key limits)" by (rule uniform_key)
  show "reads (decode_key limits) bs key" if e: "emits (encode_key key limits) bs"
  proof -
    from e obtain b1 b2 where b: "encoded_len key \<le> max_encoded_key_size limits" "bs = b1 @ b2"
      "emits (encode_bytes (pk key) (max_key_component_size limits)) b1"
      "emits (encode_bytes (sk key) (max_key_component_size limits)) b2"
      by (auto simp: emits_key)
    have "validate_key (DocumentKey (pk key) (sk key)) limits = Inr ()" using b(1) by (simp add: result_iff)
    then have "reads (sbind (sres (validate_key (DocumentKey (pk key) (sk key)) limits))
                 (\<lambda>_. sret (DocumentKey (pk key) (sk key)))) [] key"
      by (simp add: sbind_sres reads_sret)
    then show ?thesis
      unfolding decode_key_def b(2)
      by (intro reads_sbind [OF wire_bytes.get_put [OF b(3)]] reads_sbind [OF wire_bytes.get_put [OF b(4)]]) auto
  qed
  show "parses (decode_key limits) (\<lambda>key. emits (encode_key key limits))"
    unfolding decode_key_def
    by (rule parses_sbind [OF wire_bytes.put_get], rule parses_sbind [OF wire_bytes.put_get],
        rule parses_sres, rule parses_sret) (auto simp: emits_key result_iff)
qed

lemma reads_optional:
  assumes "case x of None \<Rightarrow> bs = [0] | Some y \<Rightarrow> (\<exists>b. bs = 1 # b \<and> reads m b y)"
  shows "reads (sbind reader_flag (\<lambda>f. if f then sbind m (\<lambda>y. sret (Some y)) else sret None)) bs x"
proof (cases x)
  case None
  with assms show ?thesis
    by (intro reads_sbind [OF reads_flag [of False]]) (auto simp: reads_sret)
next
  case (Some y)
  with assms show ?thesis
    by (auto intro!: reads_sbind [OF reads_flag [of True]] reads_ret)
qed

lemma parses_optional:
  assumes "parses m (\<lambda>y b. P (Some y) (1 # b))" and "P None [0]"
  shows "parses (sbind reader_flag (\<lambda>f. if f then sbind m (\<lambda>y. sret (Some y)) else sret None)) P"
  by (rule parses_sbind [OF parses_flag]) (auto intro!: parses_sbind [OF assms(1)] parses_sret assms(2))

interpretation wire_optional_key:
  wire_format "\<lambda>key. encode_optional_key key limits" "decode_optional_key limits" for limits
proof
  fix key bs
  show "uniform (encode_optional_key key limits)" by (cases key) (auto intro!: uniform_rules)
  show "reads (decode_optional_key limits) bs key" if "emits (encode_optional_key key limits) bs"
    using that wire_key.get_put unfolding decode_optional_key_def
    by (intro reads_optional) (cases key; force simp: emits_iff uniform_rules)
  show "parses (decode_optional_key limits) (\<lambda>key. emits (encode_optional_key key limits))"
    unfolding decode_optional_key_def
    by (rule parses_optional [OF parses_weaken [OF wire_key.put_get]]) (auto simp: emits_iff intro!: emits_u8)
qed

interpretation wire_condition: wire_format "encode_condition limits" "decode_condition limits" for limits
proof
  fix c bs
  show "uniform (encode_condition limits c)" by (cases c) (auto intro!: uniform_rules)
  show "reads (decode_condition limits) bs c" if "emits (encode_condition limits c) bs"
    using that unfolding decode_condition_def
    by (cases c) (auto simp: emits_iff uniform_rules reads_sret
        intro!: reads_u8_then reads_sbind [OF wire_key.get_put] reads_ret reads_u64)
  show "parses (decode_condition limits) (\<lambda>c. emits (encode_condition limits c))"
    unfolding decode_condition_def
    by (rule parses_sbind [OF parses_u8], rule parses_sbind [OF wire_key.put_get])
      (auto intro!: parses_sbind [OF parses_u64] parses_sret emits_u8 emits_seq simp: emits_iff)
qed

interpretation wire_mutation: wire_format "encode_mutation limits" "decode_mutation limits" for limits
proof
  fix c bs
  show "uniform (encode_mutation limits c)" by (cases c) (auto intro!: uniform_rules simp: writer_bytes_def)
  show "reads (decode_mutation limits) bs c" if "emits (encode_mutation limits c) bs"
  proof (cases c)
    case (MPut key v)
    with that obtain b1 b2 where "bs = 0 # b1 @ b2" "emits (encode_key key limits) b1"
      "emits (encode_bytes v (lim_max_value_size limits)) b2"
      by (auto simp: emits_sbind emits_primitives uniform_rules writer_bytes_def)
    with MPut show ?thesis
      unfolding decode_mutation_def
      by (auto intro!: reads_u8_then reads_sbind [OF wire_key.get_put] reads_ret wire_bytes.get_put)
  next
    case (MDelete key)
    with that show ?thesis
      unfolding decode_mutation_def
      by (auto simp: emits_iff uniform_rules reads_sret
          intro!: reads_u8_then reads_sbind [OF wire_key.get_put])
  qed
  show "parses (decode_mutation limits) (\<lambda>c. emits (encode_mutation limits c))"
    unfolding decode_mutation_def
    by (rule parses_sbind [OF parses_u8], rule parses_sbind [OF wire_key.put_get])
      (auto intro!: parses_sbind [OF wire_bytes.put_get] parses_sret emits_u8 emits_seq
         simp: writer_bytes_def)
qed

interpretation wire_conditions:
  wire_format "\<lambda>cs. encode_conditions cs limits" "decode_conditions limits" for limits
  unfolding encode_conditions_def decode_conditions_def by (rule wire_condition.counted)

interpretation wire_mutations:
  wire_format "\<lambda>ms. encode_mutations ms limits" "decode_mutations limits" for limits
  unfolding encode_mutations_def decode_mutations_def by (rule wire_mutation.counted)

lemma wire_limit: "wire_format (\<lambda>n. encode_limit n maximum) (reader_limit maximum)"
  using wire_count.wire_format_axioms by (simp add: encode_limit_def encode_count_def reader_limit_def)

interpretation wire_limit: wire_format "\<lambda>n. encode_limit n maximum" "reader_limit maximum" for maximum
  by (rule wire_limit)

lemmas put_uniforms = wire_bytes.put_uniform wire_optional_bytes.put_uniform wire_key.put_uniform
  wire_optional_key.put_uniform wire_conditions.put_uniform wire_mutations.put_uniform wire_limit.put_uniform

text \<open>The tag that selects a request or response, then its body.\<close>

lemma encode_request_payload_simps:
  "encode_request_payload (ReqGet key) limits = sbind (writer_u8 1) (\<lambda>_. encode_key key limits)"
  "encode_request_payload (ReqPut key v) limits =
     sbind (writer_u8 2) (\<lambda>_. sbind (encode_key key limits) (\<lambda>_. encode_bytes v (lim_max_value_size limits)))"
  "encode_request_payload (ReqDelete key) limits = sbind (writer_u8 3) (\<lambda>_. encode_key key limits)"
  "validate_key_parts p (case a of None \<Rightarrow> [] | Some s \<Rightarrow> s) limits = Inr () \<Longrightarrow>
   encode_request_payload (ReqQuery p a n) limits =
     sbind (writer_u8 4) (\<lambda>_. sbind (encode_bytes p (max_key_component_size limits)) (\<lambda>_.
       sbind (encode_optional_bytes a (max_key_component_size limits)) (\<lambda>_. encode_limit n (max_query_limit limits))))"
  "encode_request_payload (ReqScan b n) limits =
     sbind (writer_u8 5) (\<lambda>_. sbind (encode_optional_key b limits) (\<lambda>_. encode_limit n (max_scan_limit limits)))"
  "encode_request_payload (ReqTransact t) limits =
     sbind (writer_u8 8) (\<lambda>_. sbind (encode_conditions (req_conditions t) limits) (\<lambda>_.
       encode_mutations (req_mutations t) limits))"
  by (simp_all add: encode_request_payload_def writer_bytes_def sbind_sres)

interpretation wire_request:
  wire_format "\<lambda>r. encode_request_payload r limits" "decode_request_payload limits" for limits
proof
  fix r bs
  show "uniform (encode_request_payload r limits)"
    unfolding encode_request_payload_def writer_bytes_def
    by (cases r) (auto intro!: uniform_rules put_uniforms)
  show "reads (decode_request_payload limits) bs r" if e: "emits (encode_request_payload r limits) bs"
  proof (cases r)
    case (ReqQuery p a n)
    with e obtain b1 b2 b3 where "validate_key_parts p (case a of None \<Rightarrow> [] | Some s \<Rightarrow> s) limits = Inr ()"
      "bs = 4 # b1 @ b2 @ b3" "emits (encode_bytes p (max_key_component_size limits)) b1"
      "emits (encode_optional_bytes a (max_key_component_size limits)) b2"
      "emits (encode_limit n (max_query_limit limits)) b3"
      by (auto simp: encode_request_payload_def emits_sbind emits_sres emits_primitives uniform_rules put_uniforms)
    with ReqQuery show ?thesis
      unfolding decode_request_payload_def
      by (auto intro!: reads_u8_then reads_sbind [OF wire_bytes.get_put] reads_sbind [OF wire_optional_bytes.get_put]
          reads_ret wire_limit.get_put simp: sbind_sres)
  next
    case (ReqTransact t)
    with e obtain b1 b2 where "bs = 8 # b1 @ b2" "emits (encode_conditions (req_conditions t) limits) b1"
      "emits (encode_mutations (req_mutations t) limits) b2"
      by (auto simp: encode_request_payload_def emits_sbind emits_primitives uniform_rules put_uniforms)
    with ReqTransact show ?thesis
      unfolding decode_request_payload_def
      by (auto intro!: reads_u8_then reads_sbind [OF wire_conditions.get_put] reads_ret wire_mutations.get_put)
  next
    case (ReqScan a n)
    with e obtain b1 b2 where "bs = 5 # b1 @ b2" "emits (encode_optional_key a limits) b1"
      "emits (encode_limit n (max_scan_limit limits)) b2"
      by (auto simp: encode_request_payload_def emits_sbind emits_primitives uniform_rules put_uniforms)
    with ReqScan show ?thesis
      unfolding decode_request_payload_def
      by (auto intro!: reads_u8_then reads_sbind [OF wire_optional_key.get_put] reads_ret wire_limit.get_put)
  next
    case (ReqPut key v)
    with e obtain b1 b2 where "bs = 2 # b1 @ b2" "emits (encode_key key limits) b1"
      "emits (encode_bytes v (lim_max_value_size limits)) b2"
      by (auto simp: encode_request_payload_def writer_bytes_def emits_sbind emits_primitives uniform_rules put_uniforms)
    with ReqPut show ?thesis
      unfolding decode_request_payload_def
      by (auto intro!: reads_u8_then reads_sbind [OF wire_key.get_put] reads_ret wire_bytes.get_put)
  qed (use e in \<open>auto simp: encode_request_payload_def decode_request_payload_def emits_sbind emits_primitives
        uniform_rules put_uniforms intro!: reads_u8_then reads_ret wire_key.get_put\<close>)
  show "parses (decode_request_payload limits) (\<lambda>r. emits (encode_request_payload r limits))"
    unfolding decode_request_payload_def
    by (rule parses_sbind [OF parses_u8])
      (auto intro!: parses_sbind [OF wire_key.put_get] parses_sbind [OF wire_bytes.put_get]
         parses_sbind [OF wire_optional_bytes.put_get] parses_sbind [OF wire_optional_key.put_get]
         parses_sbind [OF wire_limit.put_get] parses_sbind [OF wire_conditions.put_get]
         parses_sbind [OF wire_mutations.put_get] parses_sres parses_sret emits_u8 emits_seq
         simp: encode_request_payload_simps)
qed

section \<open>Frames as bytes\<close>

definition wire_frame_bytes :: "byte \<Rightarrow> bytes \<Rightarrow> bytes" where
  "wire_frame_bytes message_type payload =
     MAGIC @ [0, 1, message_type] @ to_be_u32 (of_nat (length payload)) @ payload"

lemma version_bytes: "to_be_u16 PROTOCOL_VERSION = [0, 1]"
  by (simp add: to_be_u16_def to_le_u16_def PROTOCOL_VERSION_def numeral_2_eq_2)

lemma encode_wire_frame_Inr:
  "encode_wire_frame mt payload m = Inr frame \<longleftrightarrow>
     11 + length payload \<le> m \<and> length payload < 2 ^ 32 \<and> frame = wire_frame_bytes mt payload"
  by (auto simp: encode_wire_frame_def wire_frame_bytes_def result_iff checked_add_usize_def HEADER_SIZE_def usize_max_def
      version_bytes intro!: exI [of _ "of_nat (length payload)"] simp: unat_of_nat_u32 dest!: sym [of "unat _"])

lemma to_from_be_u16: "length bs = 2 \<Longrightarrow> to_be_u16 (from_be_u16 bs) = bs"
  by (simp add: to_be_u16_def from_be_u16_def to_from_le_u16)

lemma header_parts:
  "length bs = 11 \<Longrightarrow> bs = seg 0 4 bs @ seg 4 6 bs @ [bs ! 6] @ seg 7 11 bs"
  using split_at_seg [of 0 4 bs] split_at_seg [of 4 6 bs] split_at_seg [of 6 7 bs] split_at_seg [of 7 11 bs]
    seg_singleton [of 6 bs] by simp

lemma decode_wire_header_sound:
  assumes "length bs = 11" and "decode_wire_header bs = Inr h"
  shows "(fh_message_type h = 1 \<or> fh_message_type h = 2) \<and> fh_version h = 1 \<and>
    (\<exists>n. bs = MAGIC @ [0, 1, fh_message_type h] @ to_be_u32 n \<and> fh_payload_length h = unat n)"
proof -
  from assms have h: "seg 0 4 bs = MAGIC" "from_be_u16 (seg 4 6 bs) = PROTOCOL_VERSION"
    "bs ! 6 = 1 \<or> bs ! 6 = 2"
    "h = \<lparr>fh_version = PROTOCOL_VERSION, fh_message_type = bs ! 6, fh_payload_length = unat (from_be_u32 (seg 7 11 bs))\<rparr>"
    by (auto simp: decode_wire_header_def Let_def result_iff REQUEST_MESSAGE_TYPE_def RESPONSE_MESSAGE_TYPE_def)
  have "seg 4 6 bs = [0, 1]" using to_from_be_u16 [of "seg 4 6 bs"] h(2) assms(1) by (simp add: length_seg version_bytes)
  moreover have "to_be_u32 (from_be_u32 (seg 7 11 bs)) = seg 7 11 bs"
    using assms(1) by (simp add: to_from_be_u32 length_seg)
  ultimately have "bs = MAGIC @ [0, 1, bs ! 6] @ to_be_u32 (from_be_u32 (seg 7 11 bs))"
    using header_parts [OF assms(1)] h(1) by simp
  with h show ?thesis by (auto simp: PROTOCOL_VERSION_def)
qed

lemma length_MAGIC [simp]: "length MAGIC = 4"
  by (simp add: MAGIC_def)

lemma decode_wire_header_complete:
  assumes "mt = 1 \<or> mt = 2"
  shows "decode_wire_header (MAGIC @ [0, 1, mt] @ to_be_u32 n) =
    Inr \<lparr>fh_version = 1, fh_message_type = mt, fh_payload_length = unat n\<rparr>"
proof -
  let ?bs = "MAGIC @ [0, 1, mt] @ to_be_u32 n"
  have "seg 0 4 ?bs = MAGIC" "seg 4 6 ?bs = [0, 1]" "seg 7 11 ?bs = to_be_u32 n" "?bs ! 6 = mt" "length ?bs = 11"
    by (simp_all add: seg_def nth_append length_to_be MAGIC_def)
  moreover have "from_be_u16 [0, 1] = PROTOCOL_VERSION"
    using from_to_be(1) [of PROTOCOL_VERSION] by (simp add: version_bytes)
  ultimately show ?thesis
    using assms unfolding decode_wire_header_def
    by (auto simp: HEADER_SIZE_def REQUEST_MESSAGE_TYPE_def RESPONSE_MESSAGE_TYPE_def PROTOCOL_VERSION_def)
qed

lemma wire_frame_bytes_parts:
  "seg 0 11 (wire_frame_bytes mt payload) = MAGIC @ [0, 1, mt] @ to_be_u32 (of_nat (length payload))"
  "drop 11 (wire_frame_bytes mt payload) = payload" "length (wire_frame_bytes mt payload) = 11 + length payload"
  by (simp_all add: wire_frame_bytes_def seg_def length_to_be MAGIC_def)

lemma wire_frame_bytes_inj [simp]: "wire_frame_bytes a p = wire_frame_bytes b q \<longleftrightarrow> a = b \<and> p = q"
proof
  assume eq: "wire_frame_bytes a p = wire_frame_bytes b q"
  then have "p = q" using wire_frame_bytes_parts(2) by metis
  with eq show "a = b \<and> p = q" by (simp add: wire_frame_bytes_def)
qed simp

lemma split_frame_Inr:
  "split_frame frame = Inr (h, payload) \<longleftrightarrow>
     (\<exists>mt. (mt = 1 \<or> mt = 2) \<and> length payload < 2 ^ 32 \<and> frame = wire_frame_bytes mt payload \<and>
        h = \<lparr>fh_version = 1, fh_message_type = mt, fh_payload_length = length payload\<rparr>)"
  (is "?l = ?r")
proof
  assume ?l
  then have f: "11 \<le> length frame" "decode_wire_header (seg 0 11 frame) = Inr h" "payload = drop 11 frame"
    "length frame = 11 + fh_payload_length h"
    by (auto simp: split_frame_def result_iff HEADER_SIZE_def split: if_splits)
  from decode_wire_header_sound [OF _ f(2)] f(1) obtain n where
    n: "fh_message_type h = 1 \<or> fh_message_type h = 2" "fh_version h = 1"
      "seg 0 11 frame = MAGIC @ [0, 1, fh_message_type h] @ to_be_u32 n" "fh_payload_length h = unat n"
    by (auto simp: length_seg)
  have len: "length payload = unat n" using f n by simp
  have "frame = seg 0 11 frame @ payload" using f(1,3) by (simp add: seg_def)
  then have "frame = wire_frame_bytes (fh_message_type h) payload" using n(3) len by (simp add: wire_frame_bytes_def)
  moreover have "unat n < 2 ^ 32" using unat_bound [of n] by simp
  ultimately show ?r using n len by (auto intro!: exI [of _ "fh_message_type h"])
next
  assume ?r
  then show ?l
    by (auto simp: split_frame_def HEADER_SIZE_def wire_frame_bytes_parts decode_wire_header_complete [simplified] unat_of_nat_u32)
qed

lemma split_frame_bind:
  "rbind (split_frame frame) f = Inr y \<longleftrightarrow>
     (\<exists>mt payload. (mt = 1 \<or> mt = 2) \<and> length payload < 2 ^ 32 \<and> frame = wire_frame_bytes mt payload \<and>
        f (\<lparr>fh_version = 1, fh_message_type = mt, fh_payload_length = length payload\<rparr>, payload) = Inr y)"
  unfolding rbind_Inr_iff split_paired_Ex split_frame_Inr by blast

section \<open>Request frames\<close>

interpretation wire_tenant_request: wire_format
  "\<lambda>(t, r). sbind (writer_u64 t) (\<lambda>_. encode_request_payload r limits)"
  "sbind reader_u64 (\<lambda>t. sbind (decode_request_payload limits) (\<lambda>r. sret (t, r)))" for limits
  by (rule wire_request.prefixed_u64)

lemma validate_payload_length_Inr [result_iff]:
  "validate_payload_length h payload m = Inr u \<longleftrightarrow>
     11 + fh_payload_length h \<le> usize_max \<and> 11 + fh_payload_length h \<le> m \<and> length payload = fh_payload_length h"
  by (auto simp: validate_payload_length_def result_iff checked_add_usize_def HEADER_SIZE_def split: if_splits)

lemma payload_usize: "length payload < 2 ^ 32 \<Longrightarrow> 11 + length payload \<le> usize_max"
  by (simp add: usize_max_def)

lemma encode_request_Inr:
  "encode_request t r limits = Inr frame \<longleftrightarrow>
     limits_validate limits = Inr () \<and>
     (\<exists>payload. emits (sbind (writer_u64 t) (\<lambda>_. encode_request_payload r limits)) payload \<and>
        11 + length payload \<le> max_request_frame_size limits \<and> length payload < 2 ^ 32 \<and>
        frame = wire_frame_bytes 1 payload)"
proof -
  have u: "uniform (sbind (writer_u64 t) (\<lambda>_. encode_request_payload r limits))"
    by (intro uniform_rules wire_request.put_uniform)
  show ?thesis
    by (simp add: encode_request_def rbind_Inr_iff run_writer [OF u] encode_wire_frame_Inr REQUEST_MESSAGE_TYPE_def)
qed

lemma decode_request_frame_Inr:
  "decode_request_frame frame limits = Inr (t, r) \<longleftrightarrow>
     limits_validate limits = Inr () \<and>
     (\<exists>payload. emits (sbind (writer_u64 t) (\<lambda>_. encode_request_payload r limits)) payload \<and>
        11 + length payload \<le> max_request_frame_size limits \<and> length payload < 2 ^ 32 \<and>
        frame = wire_frame_bytes 1 payload)"
proof -
  have one: "decode_request_parts \<lparr>fh_version = 1, fh_message_type = mt, fh_payload_length = length payload\<rparr>
      payload limits = Inr (t, r) \<longleftrightarrow>
    limits_validate limits = Inr () \<and> 11 + length payload \<le> max_request_frame_size limits \<and> mt = 1 \<and>
    emits (sbind (writer_u64 t) (\<lambda>_. encode_request_payload r limits)) payload"
    if "length payload < 2 ^ 32" for mt payload
    using wire_tenant_request.run_reader [of payload limits "(t, r)"] payload_usize [OF that]
    by (simp add: decode_request_parts_def result_iff REQUEST_MESSAGE_TYPE_def)
  show ?thesis
    unfolding decode_request_frame_def split_frame_bind prod.case by (auto simp: one intro!: exI [of _ "1 :: byte"])
qed

section \<open>Response parts\<close>

interpretation wire_document: wire_format "encode_document limits" "decode_document limits" for limits
proof
  fix d bs
  show "uniform (encode_document limits d)"
    unfolding encode_document_def writer_bytes_def by (intro uniform_rules)
  show "reads (decode_document limits) bs d" if "emits (encode_document limits d) bs"
  proof -
    from that obtain b1 b2 where "bs = b1 @ b2 @ to_be_u64 (sd_revision d)" "emits (encode_key (sd_key d) limits) b1"
      "emits (encode_bytes (sd_value d) (lim_max_value_size limits)) b2"
      by (auto simp: encode_document_def writer_bytes_def emits_sbind emits_primitives uniform_rules)
    then show ?thesis
      unfolding decode_document_def
      by (auto intro!: reads_sbind [OF wire_key.get_put] reads_sbind [OF wire_bytes.get_put] reads_ret reads_u64)
  qed
  show "parses (decode_document limits) (\<lambda>d. emits (encode_document limits d))"
    unfolding decode_document_def
    by (rule parses_sbind [OF wire_key.put_get], rule parses_sbind [OF wire_bytes.put_get],
        rule parses_sbind [OF parses_u64], rule parses_sret)
      (auto intro!: emits_seq simp: encode_document_def writer_bytes_def emits_primitives)
qed

interpretation wire_documents:
  wire_format "\<lambda>ds. encode_documents ds limits" "decode_documents limits" for limits
  unfolding encode_documents_def decode_documents_def by (rule wire_document.counted)

interpretation wire_revision_state:
  wire_format "\<lambda>s. encode_revision_state s limits" "decode_revision_state limits" for limits
proof
  fix s bs
  show "uniform (encode_revision_state s limits)"
    by (cases s) (auto intro!: uniform_rules simp: writer_bytes_def)
  show "reads (decode_revision_state limits) bs s" if e: "emits (encode_revision_state s limits) bs"
  proof (cases s)
    case (Present v r)
    with e obtain b where "bs = 0 # b @ to_be_u64 r" "emits (encode_bytes v (lim_max_value_size limits)) b"
      by (auto simp: writer_bytes_def emits_sbind emits_primitives uniform_rules)
    with Present show ?thesis
      unfolding decode_revision_state_def
      by (auto intro!: reads_u8_then reads_sbind [OF wire_bytes.get_put] reads_ret reads_u64)
  next
    case (Missing r)
    with e show ?thesis
      unfolding decode_revision_state_def
      by (auto simp: emits_iff uniform_rules intro!: reads_u8_then reads_ret reads_u64)
  qed
  show "parses (decode_revision_state limits) (\<lambda>s. emits (encode_revision_state s limits))"
    unfolding decode_revision_state_def
    by (rule parses_sbind [OF parses_u8])
      (auto intro!: parses_sbind [OF wire_bytes.put_get] parses_sbind [OF parses_u64] parses_sret emits_u8 emits_seq
         simp: writer_bytes_def emits_primitives)
qed

interpretation wire_observed_state: wire_format encode_observed_state decode_observed_state
proof
  fix s bs
  show "uniform (encode_observed_state s)" by (cases s) (auto intro!: uniform_rules)
  show "reads decode_observed_state bs s" if "emits (encode_observed_state s) bs"
    using that unfolding decode_observed_state_def
    by (cases s) (auto simp: emits_iff uniform_rules intro!: reads_u8_then reads_ret reads_u64)
  show "parses decode_observed_state (\<lambda>s. emits (encode_observed_state s))"
    unfolding decode_observed_state_def
    by (rule parses_sbind [OF parses_u8])
      (auto intro!: parses_sbind [OF parses_u64] parses_sret emits_u8 simp: emits_primitives)
qed

interpretation wire_outcome: wire_format encode_transaction_outcome decode_transaction_outcome
proof
  fix t bs
  show "uniform (encode_transaction_outcome t)"
    by (cases t rule: outcome_cases)
      (auto simp: encode_transaction_outcome_def outcome_committed_def outcome_conditions_satisfied_def
         intro!: uniform_rules)
  show "reads decode_transaction_outcome bs t" if "emits (encode_transaction_outcome t) bs"
    using that unfolding decode_transaction_outcome_def
    by (cases t rule: outcome_cases)
      (auto simp: encode_transaction_outcome_def outcome_committed_def outcome_conditions_satisfied_def
         emits_iff uniform_rules reads_sret intro!: reads_u8_then reads_ret reads_u64)
  show "parses decode_transaction_outcome (\<lambda>t. emits (encode_transaction_outcome t))"
    unfolding decode_transaction_outcome_def
    by (rule parses_sbind [OF parses_u8])
      (auto simp: encode_transaction_outcome_def outcome_committed_def outcome_conditions_satisfied_def
         emits_primitives intro!: parses_sbind [OF parses_u64] parses_sret emits_u8)
qed

interpretation wire_expectation: wire_format
  "\<lambda>e. case e of ExpectRevisionEquals r \<Rightarrow> sbind (writer_u8 0) (\<lambda>_. writer_u64 r)
      | ExpectExists \<Rightarrow> writer_u8 1 | ExpectNotExists \<Rightarrow> writer_u8 2"
  "sbind reader_u8 (\<lambda>tag.
     if tag = 0 then sbind reader_u64 (\<lambda>r. sret (ExpectRevisionEquals r))
     else if tag = 1 then sret ExpectExists
     else if tag = 2 then sret ExpectNotExists
     else sfail (InvalidExpectation tag))"
proof (unfold_locales, goal_cases)
  case (1 x)
  show ?case by (cases x) (auto intro!: uniform_rules)
next
  case (2 x bs)
  then show ?case
    by (cases x) (auto simp: emits_iff uniform_rules reads_sret intro!: reads_u8_then reads_ret reads_u64)
next
  case 3
  show ?case
    by (rule parses_sbind [OF parses_u8])
      (auto intro!: parses_sbind [OF parses_u64] parses_sret emits_u8 simp: emits_primitives)
qed

interpretation wire_conflict: wire_format "\<lambda>c. encode_conflict c limits" "decode_conflict limits" for limits
proof
  fix c bs
  note uniforms = wire_key.put_uniform wire_expectation.put_uniform wire_observed_state.put_uniform
  show "uniform (encode_conflict c limits)"
    unfolding encode_conflict_def by (intro uniform_sbind uniforms)
  show "reads (decode_conflict limits) bs c" if "emits (encode_conflict c limits) bs"
    using that unfolding decode_conflict_def encode_conflict_def
    by (auto simp: emits_sbind uniform_sbind uniforms intro!: reads_sbind [OF wire_key.get_put]
        reads_sbind [OF wire_expectation.get_put] reads_ret wire_observed_state.get_put)
  show "parses (decode_conflict limits) (\<lambda>c. emits (encode_conflict c limits))"
    unfolding decode_conflict_def
    by (rule parses_sbind [OF wire_key.put_get], rule parses_sbind [OF wire_expectation.put_get],
        rule parses_sbind [OF wire_observed_state.put_get], rule parses_sret)
      (auto simp: encode_conflict_def intro!: emits_seq)
qed

section \<open>Response frames\<close>

lemmas response_parts = wire_revision_state.put_uniform wire_documents.put_uniform wire_outcome.put_uniform

lemma uniform_response [uniform_rules]: "uniform (encode_response_payload response limits)"
  by (cases response) (auto simp: encode_response_payload_def intro!: response_parts uniform_rules)

lemma reads_response:
  "emits (encode_response_payload response limits) bs \<Longrightarrow>
   reads (decode_response_payload (response_opcode response) limits) bs response"
  by (cases response) (auto simp: encode_response_payload_def decode_response_payload_def emits_primitives
      intro!: reads_ret wire_revision_state.get_put wire_documents.get_put wire_outcome.get_put reads_u64)

lemma parses_response:
  "parses (decode_response_payload opcode limits)
     (\<lambda>response bs. response_opcode response = opcode \<and> emits (encode_response_payload response limits) bs)"
  unfolding decode_response_payload_def
  by (auto intro!: parses_sret parses_sbind [OF wire_revision_state.put_get] parses_sbind [OF wire_documents.put_get]
      parses_sbind [OF wire_outcome.put_get] parses_sbind [OF parses_u64]
      simp: encode_response_payload_def emits_primitives)

lemma error_codes:
  "application_error_kind (application_error_kind_code k) = Inr k"
  "mutation_outcome (mutation_outcome_code o') = Inr o'"
  "application_error_kind c = Inr k \<Longrightarrow> application_error_kind_code k = c"
  "mutation_outcome c = Inr o' \<Longrightarrow> mutation_outcome_code o' = c"
     apply (cases k; simp add: application_error_kind_def)
    apply (cases o'; simp add: mutation_outcome_def)
   apply (auto simp: application_error_kind_def mutation_outcome_def split: if_splits)
  done

text \<open>What a peer sees of an error: its detail cut to the configured number of characters.\<close>

definition shown :: "protocol_limits \<Rightarrow> application_error \<Rightarrow> application_error" where
  "shown limits e = e\<lparr>ae_detail := take (max_error_detail_size limits) (ae_detail e)\<rparr>"

definition is_string :: "rust_string \<Rightarrow> bool" where
  "is_string s = list_all is_scalar s"

lemma encode_shown: "encode_application_error (shown limits e) limits = encode_application_error e limits"
  by (simp add: encode_application_error_def shown_def)

lemma uniform_application_error [uniform_rules]: "uniform (encode_application_error e limits)"
  unfolding encode_application_error_def
  by (cases "ae_conflict e") (auto intro!: uniform_rules wire_conflict.put_uniform)

lemma reads_application_error:
  assumes "emits (encode_application_error e limits) bs" and "is_string (ae_detail e)"
  shows "reads (decode_application_error limits) bs (shown limits e)"
proof -
  let ?m = "max_error_detail_size limits"
  let ?conflict = "case ae_conflict e of Some c \<Rightarrow> sbind (writer_u8 1) (\<lambda>_. encode_conflict c limits) | None \<Rightarrow> writer_u8 0"
  have u: "uniform ?conflict" by (cases "ae_conflict e") (auto intro!: uniform_rules wire_conflict.put_uniform)
  from assms(1) obtain b1 b2 where b:
    "bs = application_error_kind_code (ae_kind e) # b1 @ mutation_outcome_code (ae_mutation_outcome e) # b2"
    "emits (encode_bytes (utf8 (take ?m (ae_detail e))) ?m) b1" "emits ?conflict b2"
    by (auto simp: encode_application_error_def emits_sbind emits_primitives uniform_rules u)
  have chars: "from_utf8 (utf8 (take ?m (ae_detail e))) = Some (take ?m (ae_detail e))"
    using assms(2) by (intro from_utf8_utf8) (auto simp: is_string_def list_all_iff dest: in_set_takeD)
  have "case ae_conflict e of None \<Rightarrow> b2 = [0] | Some c \<Rightarrow> \<exists>b. b2 = 1 # b \<and> reads (decode_conflict limits) b c"
    using b(3) wire_conflict.get_put
    by (cases "ae_conflict e") (auto simp: emits_iff uniform_rules wire_conflict.put_uniform)
  from reads_optional [OF this]
  have "reads (sbind reader_flag (\<lambda>f. sbind (if f then sbind (decode_conflict limits) (\<lambda>c. sret (Some c)) else sret None)
          (\<lambda>conflict. sret \<lparr>ae_kind = ae_kind e, ae_detail = take ?m (ae_detail e),
             ae_mutation_outcome = ae_mutation_outcome e, ae_conflict = conflict\<rparr>))) b2 (shown limits e)"
    using reads_ret [of "sbind reader_flag (\<lambda>f. if f then sbind (decode_conflict limits) (\<lambda>c. sret (Some c)) else sret None)"
        b2 "ae_conflict e" "shown limits e"
        "\<lambda>conflict. \<lparr>ae_kind = ae_kind e, ae_detail = take ?m (ae_detail e),
             ae_mutation_outcome = ae_mutation_outcome e, ae_conflict = conflict\<rparr>"]
    by (simp add: sbind_assoc shown_def)
  then show ?thesis
    unfolding decode_application_error_def b(1)
    by (auto intro!: reads_u8_then reads_append [OF wire_bytes.get_put [OF b(2)]]
        simp: sbind_sres error_codes chars)
qed

lemma parses_application_error:
  "parses (decode_application_error limits)
     (\<lambda>e bs. is_string (ae_detail e) \<and> shown limits e = e \<and> emits (encode_application_error e limits) bs)"
proof -
  let ?m = "max_error_detail_size limits"
  let ?conflict = "\<lambda>c. case c of Some c \<Rightarrow> sbind (writer_u8 1) (\<lambda>_. encode_conflict c limits) | None \<Rightarrow> writer_u8 0"
  have conflict: "parses (sbind reader_flag (\<lambda>f. if f then sbind (decode_conflict limits) (\<lambda>c. sret (Some c)) else sret None))
      (\<lambda>c. emits (?conflict c))"
    by (rule parses_optional [OF parses_weaken [OF wire_conflict.put_get]]) (auto simp: emits_primitives intro!: emits_u8)
  have detail: "is_string s \<and> utf8 s = bs \<and> take ?m s = s" if "from_utf8 bs = Some s" "length bs \<le> ?m" for s bs
    using utf8_from_utf8 [OF that(1)] length_utf8 [of s] that(2) by (auto simp: is_string_def list_all_iff)
  have body: "parses (sbind reader_flag (\<lambda>f.
       sbind (if f then sbind (decode_conflict limits) (\<lambda>c. sret (Some c)) else sret None) (\<lambda>conflict.
       sret \<lparr>ae_kind = k, ae_detail = s, ae_mutation_outcome = oc, ae_conflict = conflict\<rparr>)))
     (\<lambda>e b. e = \<lparr>ae_kind = k, ae_detail = s, ae_mutation_outcome = oc, ae_conflict = ae_conflict e\<rparr> \<and>
        emits (?conflict (ae_conflict e)) b)" for k s oc
    by (subst sbind_assoc [symmetric], rule parses_sbind [OF conflict], rule parses_sret) simp
  have all: "is_string (ae_detail e) \<and> shown limits e = e \<and>
      emits (encode_application_error e limits) (code # b1 @ oc # b2)"
    if "application_error_kind code = Inr k" "from_utf8 t = Some s" "emits (encode_bytes t ?m) b1"
      "mutation_outcome oc = Inr out"
      "e = \<lparr>ae_kind = k, ae_detail = s, ae_mutation_outcome = out, ae_conflict = ae_conflict e\<rparr>"
      "emits (?conflict (ae_conflict e)) b2" for code k t s b1 oc out e b2
  proof -
    have "length t \<le> ?m" using that(3) by (simp add: emits_bytes)
    note d = detail [OF that(2) this]
    have "ae_kind e = k" "ae_detail e = s" "ae_mutation_outcome e = out" by (subst that(5); simp)+
    with that d show ?thesis
      by (auto simp: shown_def encode_application_error_def error_codes intro!: emits_u8 emits_seq)
  qed
  show ?thesis
    unfolding decode_application_error_def
    by (rule parses_sbind [OF parses_u8], rule parses_sres, rule parses_sbind [OF wire_bytes.put_get],
        rule parses_sres, rule parses_sbind [OF parses_u8], rule parses_sres, rule parses_weaken [OF body])
      (clarsimp simp only: ok_or_Inr_iff append_Cons append_Nil append_assoc, rule all, assumption+)
qed

fun envelope_writes :: "response_envelope \<Rightarrow> protocol_limits \<Rightarrow> wtr" where
  "envelope_writes (Success response) limits =
     sbind (writer_u8 0) (\<lambda>_. sbind (writer_u8 (response_opcode response)) (\<lambda>_.
     encode_response_payload response limits))"
| "envelope_writes (Failure e) limits = sbind (writer_u8 1) (\<lambda>_. encode_application_error e limits)"

text \<open>The envelopes a reader can return: the right response type, and a detail already cut.\<close>

fun readable :: "protocol_limits \<Rightarrow> byte option \<Rightarrow> response_envelope \<Rightarrow> bool" where
  "readable limits expected (Success response) = (expected = None \<or> expected = Some (response_opcode response))"
| "readable limits expected (Failure e) =
     (is_string (ae_detail e) \<and> length (ae_detail e) \<le> max_error_detail_size limits)"

lemma shown_id: "shown limits e = e \<longleftrightarrow> length (ae_detail e) \<le> max_error_detail_size limits"
  by (cases e) (simp add: shown_def)

lemma uniform_envelope: "uniform (envelope_writes env limits)"
  by (cases env) (auto intro!: uniform_rules)

lemma encode_response_Inr:
  "encode_response env limits = Inr frame \<longleftrightarrow>
     limits_validate limits = Inr () \<and>
     (\<exists>payload. emits (envelope_writes env limits) payload \<and>
        11 + length payload \<le> max_response_frame_size limits \<and> length payload < 2 ^ 32 \<and>
        frame = wire_frame_bytes 2 payload)"
proof -
  have "encode_response env limits =
      rbind (limits_validate limits) (\<lambda>_. case envelope_writes env limits [] of
        (Inl e, _) \<Rightarrow> Inl e
      | (Inr _, payload) \<Rightarrow> encode_wire_frame RESPONSE_MESSAGE_TYPE payload (max_response_frame_size limits))"
    by (cases env) (simp_all add: encode_response_def)
  then show ?thesis
    by (simp add: rbind_Inr_iff run_writer [OF uniform_envelope] encode_wire_frame_Inr RESPONSE_MESSAGE_TYPE_def)
qed

lemma encode_response_shown: "encode_response (Failure (shown limits e)) limits = encode_response (Failure e) limits"
  by (simp add: encode_response_def encode_shown)

definition envelope_reader :: "byte option \<Rightarrow> protocol_limits \<Rightarrow> response_envelope rdr" where
  "envelope_reader expected_response_type limits =
     sbind reader_u8 (\<lambda>status.
       if status = 0 then
         sbind reader_u8 (\<lambda>actual.
         sbind (sres (case expected_response_type of
                        Some expected \<Rightarrow> ensure (\<not> actual \<noteq> expected) (InvalidResponseType expected actual)
                      | None \<Rightarrow> Inr ())) (\<lambda>_.
         sbind (decode_response_payload actual limits) (\<lambda>response. sret (Success response))))
       else if status = 1 then sbind (decode_application_error limits) (\<lambda>e. sret (Failure e))
       else sfail (InvalidStatus status))"

lemma reads_envelope:
  assumes "emits (envelope_writes env limits) bs" and "readable limits expected env"
  shows "reads (envelope_reader expected limits) bs env"
proof (cases env)
  case (Success response)
  with assms obtain b where b: "bs = 0 # response_opcode response # b"
    "emits (encode_response_payload response limits) b"
    by (auto simp: emits_sbind emits_primitives uniform_rules)
  have "(case expected of Some e \<Rightarrow> ensure (\<not> response_opcode response \<noteq> e) (InvalidResponseType e (response_opcode response))
      | None \<Rightarrow> Inr ()) = Inr ()"
    using assms(2) Success by auto
  with Success b show ?thesis
    unfolding envelope_reader_def
    by (auto intro!: reads_u8_then reads_ret [OF reads_response] simp: sbind_sres)
next
  case (Failure e)
  with assms obtain b where b: "bs = 1 # b" "emits (encode_application_error e limits) b"
    by (auto simp: emits_sbind emits_primitives uniform_rules)
  have "shown limits e = e" using assms(2) Failure by (simp add: shown_id)
  with reads_application_error [OF b(2)] assms(2) Failure b(1) show ?thesis
    unfolding envelope_reader_def by (auto intro!: reads_u8_then reads_ret)
qed

lemma parses_envelope:
  "parses (envelope_reader expected limits)
     (\<lambda>env bs. readable limits expected env \<and> emits (envelope_writes env limits) bs)"
  unfolding envelope_reader_def
  by (rule parses_sbind [OF parses_u8])
    (auto intro!: parses_sbind [OF parses_u8] parses_sres parses_sbind [OF parses_response] parses_sret
       parses_sbind [OF parses_application_error] emits_u8
       simp: result_iff shown_id split: option.splits)

lemma decode_response_frame_Inr:
  "decode_response_frame frame expected limits = Inr env \<longleftrightarrow>
     limits_validate limits = Inr () \<and> readable limits expected env \<and>
     (\<exists>payload. emits (envelope_writes env limits) payload \<and>
        11 + length payload \<le> max_response_frame_size limits \<and> length payload < 2 ^ 32 \<and>
        frame = wire_frame_bytes 2 payload)"
proof -
  have run: "(case envelope_reader expected limits (reader_new payload) of (Inl e, _) \<Rightarrow> Inl e
      | (Inr r, rd) \<Rightarrow> ok_or (if reader_finish rd then Some r else None) TrailingBytes) = Inr env \<longleftrightarrow>
      readable limits expected env \<and> emits (envelope_writes env limits) payload"
    if "length payload \<le> usize_max" for payload
    using run_reader_reads [OF reads_envelope _, OF _ _ that] run_reader_parses [OF parses_envelope] by blast
  have one: "decode_response_parts \<lparr>fh_version = 1, fh_message_type = mt, fh_payload_length = length payload\<rparr>
      payload expected limits = Inr env \<longleftrightarrow>
    limits_validate limits = Inr () \<and> 11 + length payload \<le> max_response_frame_size limits \<and> mt = 2 \<and>
    readable limits expected env \<and> emits (envelope_writes env limits) payload"
    if "length payload < 2 ^ 32" for mt payload
    using run [of payload] payload_usize [OF that]
    by (simp add: decode_response_parts_def envelope_reader_def result_iff RESPONSE_MESSAGE_TYPE_def)
  show ?thesis
    unfolding decode_response_frame_def split_frame_bind prod.case by (auto simp: one intro!: exI [of _ "2 :: byte"])
qed

section \<open>Properties\<close>

text \<open>C7: a request frame decodes to a tenant and a request exactly when that tenant and request
  encode to that frame, under the same limits: nothing is lost, and no frame but the canonical one
  is accepted.\<close>

theorem request_frame_exact:
  "decode_request_frame frame limits = Inr (tenant, request) \<longleftrightarrow>
   encode_request tenant request limits = Inr frame"
  by (simp add: decode_request_frame_Inr encode_request_Inr)

text \<open>C8: a response frame decodes to a response or an error, for a client that expects a given
  response type or any, exactly when that envelope encodes to the frame and is one a client may see: a
  success of the expected type, or an error with a valid text no longer than the limit. An error with a
  longer text encodes as the same error with the text cut to the limit.\<close>

theorem response_frame_exact:
  "(decode_response_frame frame expected limits = Inr envelope \<longleftrightarrow>
      readable limits expected envelope \<and> encode_response envelope limits = Inr frame) \<and>
   encode_response (Failure e) limits =
     encode_response (Failure (e\<lparr>ae_detail := take (max_error_detail_size limits) (ae_detail e)\<rparr>)) limits"
  using encode_response_shown [of limits e]
  by (auto simp: decode_response_frame_Inr encode_response_Inr shown_def)

text \<open>C9: the detail of an error is cut by characters and then checked by bytes, so a detail of
  two-byte characters that reaches the limit is not cut but refused: the response cannot be encoded.\<close>

theorem error_detail_cut_by_characters:
  assumes "limits_validate limits = Inr ()" and "n = max_error_detail_size limits"
  shows "encode_response (Failure (ae_invalid_request (replicate n 0xE9))) limits = Inl (PayloadTooLarge (2 * n) n)"
proof -
  have len: "length (utf8 (replicate k 0xE9)) = 2 * k" for k
    by (induction k) (simp_all add: utf8_char_def)
  have "n > 0" using assms by (auto simp: limits_validate_def split: if_splits)
  then show ?thesis
    using assms
    by (simp add: encode_response_def encode_application_error_def ae_invalid_request_def sbind_def
        encode_bytes_def writer_u8_def len)
qed

theorem error_detail_cut_by_characters_witness:
  "limits_validate limits_default = Inr () \<and> max_error_detail_size limits_default = 4096 \<and>
   encode_response (Failure (ae_invalid_request (replicate 4096 0xE9))) limits_default = Inl (PayloadTooLarge 8192 4096)"
proof -
  have l: "limits_validate limits_default = Inr ()" "max_error_detail_size limits_default = 4096"
    by (simp_all add: limits_validate_def limits_default_def HEADER_SIZE_def MAX_STORAGE_KEY_COMPONENT_SIZE_def
        MAX_STORAGE_ENCODED_KEY_SIZE_def MAX_STORAGE_VALUE_SIZE_def)
  show ?thesis
    using error_detail_cut_by_characters [OF l(1) l(2) [symmetric]] l by simp
qed

end
