(* ===== verification/Spec2Isabelle.thy ===== *)
theory Spec2Isabelle
  imports Dodb_Create Dodb_Oversized Dodb_Protocol
begin

text \<open>A verification development of the dodb database.\<close>

section \<open>A sample database\<close>

definition sample_env :: "(crashable_file, crashable_file, unit) env" where
  "sample_env = \<lparr>data_ops = cf_ops, wal_ops = cf_ops, crc32c = (\<lambda>_. 7), fault_hit = no_hit, append_time = 0, sync_time = 0,
     validation_time = 0, preparation_time = 0, publication_time = 0, checkpoint_time = 0\<rparr>"

lemma sample_files: "cf_healthy crashable_new" "volatile crashable_new = []"
  by (simp_all add: cf_healthy_def crashable_new_def from_durable_def fault_plan_default_def u64_limit_def)

lemma sample_store:
  "\<exists>st l. open_with_wal_internal sample_env database_config_default (crashable_new, crashable_new, None) = (Inr st, (bs_file st, wl_file l, None)) \<and>
     models sample_env st ref_new \<and> bs_config st = database_config_default \<and> room_for sample_env st 1 \<and>
     state_room (state_of sample_env st) 1 \<and> log_room sample_env l 2 \<and> bs_wal st = Some l \<and> bs_high_water_page_id st = 2 \<and> bs_next_lsn st = 1 \<and>
     sb_generation (bs_current_superblock st) = 1 \<and> bs_next_batch_id st = 1"
proof -
  have "length (dc_database_uuid database_config_default) = 16" by (simp add: database_config_default_def)
  from open_new [OF sample_files sample_files this, of sample_env] obtain st l
    where st: "open_with_wal_internal sample_env database_config_default (crashable_new, crashable_new, None) = (Inr st, (bs_file st, wl_file l, None))"
      "models sample_env st ref_new" "bs_config st = database_config_default" "bs_wal st = Some l" "fresh_log (config_identity database_config_default) l"
      "bs_high_water_page_id st = FIRST_DATA_PAGE" "sb_generation (bs_current_superblock st) = 1" by (auto simp: sample_env_def)
  have n: "bs_next_lsn st = 1" "bs_next_batch_id st = 1" using st(2,4,5) by (auto simp: models_def store_inv_def fresh_log_def)
  moreover have "log_room sample_env l n" if "n \<le> 2" for n
    using st(5) that by (simp add: log_room_def fresh_log_def sample_env_def u64_limit_def usize_max_def)
  ultimately show ?thesis
    using st by (intro exI [of _ st] exI [of _ l])
      (simp add: room_for_def batch_room_def state_room_def PUT_GROWTH_def FIRST_DATA_PAGE_def)
qed

section \<open>The depth of the tree\<close>


section \<open>The engine\<close>

text \<open>C3: creating a database. On two empty files without faults, opening with a log succeeds and gives
  a store that models the empty reference database: it holds no documents and its log, its
  superblock, its cache and its counters are consistent with it.\<close>

theorem create_models_empty:
  fixes env :: "(crashable_file, crashable_file, 'i) env"
  assumes "cf_healthy f" "volatile f = []" "cf_healthy w" "volatile w = []" and "length (dc_database_uuid config) = 16"
    and "data_ops env = cf_ops" "wal_ops env = cf_ops"
  shows "\<exists>st files. open_with_wal_internal env config (f, w, None) = (Inr st, files) \<and> models env st ref_new \<and> bs_config st = config"
  using open_new [OF assms] by blast

theorem create_models_empty_witness:
  "\<exists>st files. open_with_wal_internal sample_env database_config_default (crashable_new, crashable_new, None) = (Inr st, files) \<and>
     models sample_env st ref_new"
  using create_models_empty [OF sample_files sample_files, of database_config_default sample_env]
  by (auto simp: database_config_default_def sample_env_def)

text \<open>C2: a batch on the engine is the batch on the reference database. For a store that models a
  reference database and has room, a batch of any requests either succeeds, and then every request
  is within the limits of the database, the responses are exactly those of the reference database
  executing the requests at some commit LSN that is not in the past, and the store models the
  reference database after them; or it fails, and then the store models the reference database
  before it and the error is the one of the reference database (the response budget), or an
  invalid input because a request is over a limit of the database or because it writes and a
  stored or written key is longer than 1464 bytes.\<close>

theorem batch_refines_reference:
  assumes "models env st db" and "room_for env st (length requests)"
  shows "\<exists>c r st'. next_lsn db \<le> c \<and> apply_batch_with_response_budget env requests n st = (r, st') \<and>
    (case r of
       Inr rs \<Rightarrow> list_all (within_limits (bs_config st)) requests \<and> (\<exists>db'. ref_batch c requests n db = Inr (rs, db') \<and> models env st' db')
     | Inl e \<Rightarrow> models env st' db \<and>
         (ref_batch c requests n db = Inl e \<or> e = InvalidInput \<and> refusable (bs_config st) db requests))"
  using batch_models [OF assms, of n] by blast

theorem batch_refines_reference_witness:
  "\<exists>st st' c. models sample_env st ref_new \<and>
     apply_batch_with_response_budget sample_env [PutRequest sample_key [7]] 100 st = (Inr [PutResponse c], st') \<and>
     models sample_env st' (write_at ref_new (MPut sample_key [7]) c)"
proof -
  obtain st where st: "models sample_env st ref_new" "bs_config st = database_config_default" "room_for sample_env st 1"
    using sample_store by blast
  have "\<not> refusable (bs_config st) ref_new [PutRequest sample_key [7]]"
    using st(2) by (simp add: refusable_def light_def ref_new_def database_config_default_def storage_limits_default_def
        sample_key_def length_encode encoded_len_def encoded_component_len_def LIGHT_KEY_def MAX_VALUE_SIZE_def MAX_ENCODED_KEY_SIZE_def)
  moreover have "room_for sample_env st (length [PutRequest sample_key [7]])" using st(3) by simp
  from batch_refines_reference [OF st(1) this, of 100] obtain c r st'
    where "apply_batch_with_response_budget sample_env [PutRequest sample_key [7]] 100 st = (r, st')"
      "case r of
         Inr rs \<Rightarrow> list_all (within_limits (bs_config st)) [PutRequest sample_key [7]] \<and>
           (\<exists>db'. ref_batch c [PutRequest sample_key [7]] 100 ref_new = Inr (rs, db') \<and> models sample_env st' db')
       | Inl e \<Rightarrow> models sample_env st' ref_new \<and> (ref_batch c [PutRequest sample_key [7]] 100 ref_new = Inl e \<or>
           e = InvalidInput \<and> refusable (bs_config st) ref_new [PutRequest sample_key [7]])" by blast
  ultimately show ?thesis using st(1) by (auto simp: ref_batch_def budget_new_def RESPONSE_WIRE_OVERHEAD_def split: sum.splits)
qed

text \<open>C1: groups of transactions are serializable. For a store that models a reference database and has
  room, a group of any requests returns one result per request, the results of the reference
  database executing the requests one after the other in the order given, each at an LSN that is
  not in the past: a request whose conditions fail is the conflict the reference database reports
  and changes nothing, a request over the limits of the database is an invalid input and changes
  nothing, a request without mutations reads, and every other one commits at its own LSN; the store
  then models the resulting reference database. The only exception is a group for which some
  stored or written key is longer than 1464 bytes: then the group may fail, or answer a request
  within the limits with an invalid input, and nothing is said about the store.\<close>

theorem transactions_serializable:
  assumes "models env st db" and "room_for_group env st requests" and "apply_transaction_group env requests st = (r, st')"
  shows "(\<exists>results db'. r = Inr results \<and> serial (bs_config st) db requests results db' \<and> models env st' db') \<or>
    \<not> all_light db requests \<and> (\<forall>results. r = Inr results \<longrightarrow> refused_within (bs_config st) requests results)"
  using group_models [OF assms] by blast

lemma sample_room_for_group:
  assumes "log_room sample_env l 2" "bs_wal st = Some l" "bs_high_water_page_id st = 2" "bs_next_lsn st = 1"
    "sb_generation (bs_current_superblock st) = 1" "bs_next_batch_id st = 1" "mutation_count [a, b] \<le> 3"
  shows "room_for_group sample_env st [a, b]"
  using assms [unfolded numeral_2_eq_2] by (simp add: room_for_group_def group_fits_def PUT_GROWTH_def)

theorem transactions_serializable_witness:
  "\<exists>st results st' db'. models sample_env st ref_new \<and>
     apply_transaction_group sample_env [sample_request, sample_request] st = (Inr results, st') \<and>
     serial database_config_default ref_new [sample_request, sample_request] results db' \<and> models sample_env st' db'"
proof -
  obtain st l where st: "models sample_env st ref_new" "bs_config st = database_config_default" "log_room sample_env l 2" "bs_wal st = Some l"
    "bs_high_water_page_id st = 2" "bs_next_lsn st = 1" "sb_generation (bs_current_superblock st) = 1" "bs_next_batch_id st = 1"
    using sample_store by blast
  obtain r st' where run: "apply_transaction_group sample_env [sample_request, sample_request] st = (r, st')" by (metis surj_pair)
  have "room_for_group sample_env st [sample_request, sample_request]"
    by (rule sample_room_for_group [OF st(3-8)]) (simp add: mutation_count_def sample_request_def)
  moreover have "all_light ref_new [sample_request, sample_request]"
    by (simp add: all_light_def light_def ref_new_def sample_request_def sample_key_def length_encode encoded_len_def encoded_component_len_def LIGHT_KEY_def)
  ultimately show ?thesis using transactions_serializable [OF st(1) _ run] st(1,2) run by auto
qed

section \<open>Records larger than a page\<close>

text \<open>C5: a put within the limits that the database refuses. A key of at most 3992 bytes and a value of at most
  512 bytes, which is stored inline, are within the limits, but when they are together longer
  than 3992 bytes their record does not fit a page: on every store that models a reference
  database the put fails as an invalid input and changes nothing.\<close>

theorem oversized_put_refused:
  assumes "models env st db" and "room_for env st 1" and "budget_new n = Inr b"
    and "within_limits (bs_config st) (PutRequest key v)" and "length v \<le> inline_value_limit (dc_limits (bs_config st))" "length v \<le> INLINE_VALUE_LIMIT"
    and "MAX_ENCODED_KEY_SIZE < length (encode key) + length v"
  shows "\<exists>st'. apply_batch_with_response_budget env [PutRequest key v] n st = (Inl InvalidInput, st') \<and> models env st' db"
  using oversized_batch [OF assms(1-4)] assms(5-) by (simp add: oversized_def)

definition long_key :: document_key where
  "long_key = DocumentKey (replicate 3980 1) [2]"

lemma length_long_key: "length (encode long_key) = 3985"
  by (simp add: long_key_def length_encode encoded_len_def encoded_component_len_def)

theorem oversized_put_refused_witness:
  "\<exists>st st'. models sample_env st ref_new \<and>
     apply_batch_with_response_budget sample_env [PutRequest long_key (replicate 8 0)] 100 st = (Inl InvalidInput, st') \<and> models sample_env st' ref_new"
proof -
  obtain st where st: "models sample_env st ref_new" "bs_config st = database_config_default" "room_for sample_env st 1"
    using sample_store by blast
  obtain b where b: "budget_new 100 = Inr b" by (simp add: budget_new_def RESPONSE_WIRE_OVERHEAD_def)
  have "\<exists>st'. apply_batch_with_response_budget sample_env [PutRequest long_key (replicate 8 0)] 100 st = (Inl InvalidInput, st') \<and> models sample_env st' ref_new"
    by (rule oversized_put_refused [OF st(1,3) b])
      (use st(2) in \<open>simp_all add: length_long_key database_config_default_def storage_limits_default_def INLINE_VALUE_LIMIT_def MAX_VALUE_SIZE_def
        MAX_ENCODED_KEY_SIZE_def\<close>)
  then show ?thesis using st(1) by blast
qed



section \<open>The tree of a running store\<close>





end
